(* ===== verification/Nginx_Prelude.thy ===== *)
theory Nginx_Prelude
  imports Main "HOL-Library.Word"
begin

text \<open>
  Shared vocabulary of the development: the C types the modelled nginx code uses,
  its character constants and return codes, and the lemmas on bytes, lists and
  machine words that several components rely on.

  A \<open>u_char\<close> is an 8-bit word, a counted string \<open>ngx_str_t\<close> is the list of its bytes,
  \<open>ngx_int_t\<close>, \<open>off_t\<close>, \<open>ssize_t\<close> and \<open>time_t\<close> are 64-bit words read through \<open>sint\<close>
  (the LP64 build), and a pointer into a buffer is an index into the list of its bytes,
  with \<open>None\<close> for \<open>NULL\<close>.
\<close>

unbundle bit_operations_syntax

section \<open>Types\<close>

type_synonym u_char = "8 word"
type_synonym bytes = "u_char list"
type_synonym ngx_int = "64 word"
type_synonym ptr = "nat option"

section \<open>Return codes and characters\<close>

abbreviation (input) NGX_OK :: int where "NGX_OK \<equiv> 0"
abbreviation (input) NGX_ERROR :: int where "NGX_ERROR \<equiv> -1"
abbreviation (input) NGX_AGAIN :: int where "NGX_AGAIN \<equiv> -2"
abbreviation (input) NGX_DONE :: int where "NGX_DONE \<equiv> -4"
abbreviation (input) NGX_DECLINED :: int where "NGX_DECLINED \<equiv> -5"

definition NGX_BUSY :: int where
  "NGX_BUSY = -3"

abbreviation (input) c_NUL :: u_char where "c_NUL \<equiv> 0x00"
abbreviation (input) c_TAB :: u_char where "c_TAB \<equiv> 0x09"
abbreviation (input) c_LF :: u_char where "c_LF \<equiv> 0x0A"
abbreviation (input) c_CR :: u_char where "c_CR \<equiv> 0x0D"
abbreviation (input) c_space :: u_char where "c_space \<equiv> 0x20"
abbreviation (input) c_quote :: u_char where "c_quote \<equiv> 0x22"
abbreviation (input) c_hash :: u_char where "c_hash \<equiv> 0x23"
abbreviation (input) c_percent :: u_char where "c_percent \<equiv> 0x25"
abbreviation (input) c_amp :: u_char where "c_amp \<equiv> 0x26"
abbreviation (input) c_plus :: u_char where "c_plus \<equiv> 0x2B"
abbreviation (input) c_comma :: u_char where "c_comma \<equiv> 0x2C"
abbreviation (input) c_minus :: u_char where "c_minus \<equiv> 0x2D"
abbreviation (input) c_dot :: u_char where "c_dot \<equiv> 0x2E"
abbreviation (input) c_slash :: u_char where "c_slash \<equiv> 0x2F"
abbreviation (input) c_0 :: u_char where "c_0 \<equiv> 0x30"
abbreviation (input) c_1 :: u_char where "c_1 \<equiv> 0x31"
abbreviation (input) c_9 :: u_char where "c_9 \<equiv> 0x39"
abbreviation (input) c_colon :: u_char where "c_colon \<equiv> 0x3A"
abbreviation (input) c_semi :: u_char where "c_semi \<equiv> 0x3B"
abbreviation (input) c_lt :: u_char where "c_lt \<equiv> 0x3C"
abbreviation (input) c_eq :: u_char where "c_eq \<equiv> 0x3D"
abbreviation (input) c_gt :: u_char where "c_gt \<equiv> 0x3E"
abbreviation (input) c_quest :: u_char where "c_quest \<equiv> 0x3F"
abbreviation (input) c_A :: u_char where "c_A \<equiv> 0x41"
abbreviation (input) c_H :: u_char where "c_H \<equiv> 0x48"
abbreviation (input) c_P :: u_char where "c_P \<equiv> 0x50"
abbreviation (input) c_T :: u_char where "c_T \<equiv> 0x54"
abbreviation (input) c_Z :: u_char where "c_Z \<equiv> 0x5A"
abbreviation (input) c_lbrack :: u_char where "c_lbrack \<equiv> 0x5B"
abbreviation (input) c_rbrack :: u_char where "c_rbrack \<equiv> 0x5D"
abbreviation (input) c_under :: u_char where "c_under \<equiv> 0x5F"
abbreviation (input) c_a :: u_char where "c_a \<equiv> 0x61"
abbreviation (input) c_f :: u_char where "c_f \<equiv> 0x66"
abbreviation (input) c_z :: u_char where "c_z \<equiv> 0x7A"
abbreviation (input) c_tilde :: u_char where "c_tilde \<equiv> 0x7E"

text \<open>String literals of the source, as bytes.\<close>

definition ascii :: "string \<Rightarrow> bytes" where
  "ascii s = map of_char s"

lemma ascii_simps [simp]:
  "ascii [] = []"
  "ascii (c # cs) = of_char c # ascii cs"
  by (simp_all add: ascii_def)

lemma length_ascii [simp]: "length (ascii s) = length s"
  by (simp add: ascii_def)

section \<open>Byte classes\<close>

text \<open>\<open>ch >= '0' && ch <= '9'\<close>, and the hexadecimal letter test on \<open>c = ch | 0x20\<close>.\<close>

definition is_digit :: "u_char \<Rightarrow> bool" where
  "is_digit ch \<longleftrightarrow> c_0 \<le> ch \<and> ch \<le> c_9"

definition lower :: "u_char \<Rightarrow> u_char" where
  "lower ch = ch OR 0x20"

definition is_alpha_lower :: "u_char \<Rightarrow> bool" where
  "is_alpha_lower c \<longleftrightarrow> c_a \<le> c \<and> c \<le> c_z"

definition is_hex_lower :: "u_char \<Rightarrow> bool" where
  "is_hex_lower c \<longleftrightarrow> c_a \<le> c \<and> c \<le> c_f"

text \<open>The macro \<open>ngx_tolower\<close>.\<close>

definition ngx_tolower :: "u_char \<Rightarrow> u_char" where
  "ngx_tolower c = (if c_A \<le> c \<and> c \<le> c_Z then c OR 0x20 else c)"

text \<open>
  A bit table indexed by a byte: \<open>tbl[ch >> 5] & (1 << (ch & 0x1f))\<close>, with the table's
  eight 32-bit words as a list.
\<close>

definition bit_table :: "32 word list \<Rightarrow> u_char \<Rightarrow> bool" where
  "bit_table tbl ch \<longleftrightarrow>
     (tbl ! unat (drop_bit 5 ch)) AND push_bit (unat (ch AND 0x1f)) 1 \<noteq> 0"

section \<open>Enumerating bytes\<close>

definition all_bytes :: bytes where
  "all_bytes = map of_nat [0..<256]"

lemma set_all_bytes: "set all_bytes = UNIV"
proof -
  have "b \<in> set all_bytes" for b :: u_char
  proof -
    have "b = of_nat (unat b)" by simp
    moreover have "unat b \<in> {0..<256}" using unsigned_less [of b] by simp
    ultimately show ?thesis unfolding all_bytes_def by (metis image_eqI list.set_map set_upt)
  qed
  then show ?thesis by auto
qed

lemma all_bytes_list: "all_bytes =
    [0, 1, 2, 3, 4, 5, 6, 7, 8, 9, 10, 11, 12, 13, 14, 15, 16, 17, 18, 19, 20, 21, 22, 23,
     24, 25, 26, 27, 28, 29, 30, 31, 32, 33, 34, 35, 36, 37, 38, 39, 40, 41, 42, 43, 44, 45,
     46, 47, 48, 49, 50, 51, 52, 53, 54, 55, 56, 57, 58, 59, 60, 61, 62, 63, 64, 65, 66, 67,
     68, 69, 70, 71, 72, 73, 74, 75, 76, 77, 78, 79, 80, 81, 82, 83, 84, 85, 86, 87, 88, 89,
     90, 91, 92, 93, 94, 95, 96, 97, 98, 99, 100, 101, 102, 103, 104, 105, 106, 107, 108,
     109, 110, 111, 112, 113, 114, 115, 116, 117, 118, 119, 120, 121, 122, 123, 124, 125,
     126, 127, 128, 129, 130, 131, 132, 133, 134, 135, 136, 137, 138, 139, 140, 141, 142,
     143, 144, 145, 146, 147, 148, 149, 150, 151, 152, 153, 154, 155, 156, 157, 158, 159,
     160, 161, 162, 163, 164, 165, 166, 167, 168, 169, 170, 171, 172, 173, 174, 175, 176,
     177, 178, 179, 180, 181, 182, 183, 184, 185, 186, 187, 188, 189, 190, 191, 192, 193,
     194, 195, 196, 197, 198, 199, 200, 201, 202, 203, 204, 205, 206, 207, 208, 209, 210,
     211, 212, 213, 214, 215, 216, 217, 218, 219, 220, 221, 222, 223, 224, 225, 226, 227,
     228, 229, 230, 231, 232, 233, 234, 235, 236, 237, 238, 239, 240, 241, 242, 243, 244,
     245, 246, 247, 248, 249, 250, 251, 252, 253, 254, 255]"
  by (simp add: all_bytes_def upt_conv_Cons)

lemma length_all_bytes [simp]: "length all_bytes = 256"
  by (simp add: all_bytes_def)

lemma all_bytes_iff: "(\<forall>b. P b) \<longleftrightarrow> list_all P all_bytes"
  by (simp add: list_all_iff set_all_bytes)

lemma byte_check: "list_all P all_bytes \<Longrightarrow> P b"
  using all_bytes_iff [of P] by blast

lemma list_all_imp: "list_all (\<lambda>x. P x \<longrightarrow> Q x) xs \<Longrightarrow> x \<in> set xs \<Longrightarrow> P x \<Longrightarrow> Q x"
  by (auto simp: list_all_iff)

lemma unat_byte_less [simp]: "unat (b :: u_char) < 256"
  using unsigned_less [of b] by simp

lemma nth_all_bytes: "all_bytes ! unat ch = ch"
  by (simp add: all_bytes_def)

lemma bit_table_iff: "bit_table tbl ch \<longleftrightarrow> bit (tbl ! (unat ch div 32)) (unat ch mod 32)"
proof -
  have 1: "unat (drop_bit 5 ch) = unat ch div 32"
    by (simp add: drop_bit_eq_div unat_div_distrib)
  have 2: "unat (ch AND 0x1f) = unat ch mod 32"
  proof -
    have "ch AND 0x1f = take_bit 5 ch" by (simp add: take_bit_eq_mask mask_numeral)
    then show ?thesis by (simp add: take_bit_eq_mod unat_mod_distrib)
  qed
  have "(w AND push_bit k 1 \<noteq> 0) \<longleftrightarrow> bit w k" for w :: "32 word" and k
    by (simp add: and_exp_eq_0_iff_not_bit push_bit_eq_mult flip: exp_eq_0_imp_not_bit)
  then show ?thesis by (simp add: bit_table_def 1 2)
qed

section \<open>Lists\<close>

lemma nth_take_eq: "take m xs = take m ys \<Longrightarrow> i < m \<Longrightarrow> xs ! i = ys ! i"
  by (metis nth_take)

lemma take_eq_mono: "take m xs = take m ys \<Longrightarrow> k \<le> m \<Longrightarrow> take k xs = take k ys"
  by (metis min.absorb1 take_take)

lemma replicate_numeral: "replicate (numeral k) x = x # replicate (pred_numeral k) x"
  by (simp add: numeral_eq_Suc)

lemma take_drop_update: "s + n \<le> j \<Longrightarrow> take n (drop s (xs[j := x])) = take n (drop s xs)"
  by (auto intro!: nth_equalityI)

text \<open>The bytes of a buffer between two pointers.\<close>

definition cut :: "'a list \<Rightarrow> nat \<Rightarrow> nat \<Rightarrow> 'a list" where
  "cut buf i j = take (j - i) (drop i buf)"

lemma length_cut [simp]: "length (cut buf i j) = min (j - i) (length buf - i)"
  by (simp add: cut_def)

lemma cut_empty [simp]: "j \<le> i \<Longrightarrow> cut buf i j = []"
  by (simp add: cut_def)

lemma cut_Cons: "i < j \<Longrightarrow> i < length buf \<Longrightarrow> cut buf i j = buf ! i # cut buf (Suc i) j"
  by (simp add: cut_def Cons_nth_drop_Suc [symmetric] Suc_diff_le take_Cons')

lemma cut_snoc: "i \<le> j \<Longrightarrow> j < length buf \<Longrightarrow> cut buf i (Suc j) = cut buf i j @ [buf ! j]"
  by (simp add: cut_def Suc_diff_le take_Suc_conv_app_nth)

lemma cut_cong:
  assumes "take m buf = take m buf'" and "j \<le> m"
  shows "cut buf i j = cut buf' i j"
proof -
  have "take (j - i) (drop i b) = drop i (take j b)" for b :: "'a list"
    by (simp add: drop_take)
  with take_eq_mono [OF assms] show ?thesis by (simp add: cut_def)
qed

lemma cut_append: "i \<le> j \<Longrightarrow> j \<le> k \<Longrightarrow> cut buf i j @ cut buf j k = cut buf i k"
proof -
  assume "i \<le> j" "j \<le> k"
  then have "k - i = (j - i) + (k - j)" "drop (j - i) (drop i buf) = drop j buf" by simp_all
  then show ?thesis by (simp only: cut_def take_add)
qed

text \<open>Every byte from position \<open>m\<close> up to \<open>p\<close> satisfies \<open>P\<close>.\<close>

definition between :: "('a \<Rightarrow> bool) \<Rightarrow> 'a list \<Rightarrow> nat \<Rightarrow> nat \<Rightarrow> bool" where
  "between P buf m p \<longleftrightarrow> (\<forall>i. m \<le> i \<and> i < p \<longrightarrow> P (buf ! i))"

lemma between_empty [simp]: "p \<le> m \<Longrightarrow> between P buf m p"
  by (auto simp: between_def)

lemma between_Suc [simp]: "m \<le> p \<Longrightarrow> between P buf m (Suc p) \<longleftrightarrow> between P buf m p \<and> P (buf ! p)"
  by (auto simp: between_def less_Suc_eq)

lemma between_mono: "between P buf m p \<Longrightarrow> m \<le> m' \<Longrightarrow> p' \<le> p \<Longrightarrow> (\<And>c. P c \<Longrightarrow> Q c) \<Longrightarrow> between Q buf m' p'"
  by (auto simp: between_def)

lemma between_cut:
  assumes "p \<le> length buf"
  shows "between P buf m p \<longleftrightarrow> list_all P (cut buf m p)"
proof -
  have "list_all P (cut buf m p) \<longleftrightarrow> (\<forall>k < p - m. P (buf ! (m + k)))"
    using assms by (auto simp: list_all_length cut_def)
  also have "\<dots> \<longleftrightarrow> between P buf m p"
  proof
    assume *: "\<forall>k < p - m. P (buf ! (m + k))"
    show "between P buf m p"
      unfolding between_def
    proof (intro allI impI)
      fix i assume "m \<le> i \<and> i < p"
      with * [rule_format, of "i - m"] show "P (buf ! i)" by (simp add: diff_less_mono)
    qed
  qed (auto simp: between_def)
  finally show ?thesis by simp
qed

section \<open>Decimal numbers\<close>

text \<open>The number a string of digits writes, on top of a prefix already read as \<open>v\<close>.\<close>

definition decimal_from :: "nat \<Rightarrow> bytes \<Rightarrow> nat" where
  "decimal_from v s = foldl (\<lambda>v c. v * 10 + (unat c - 48)) v s"

abbreviation decimal :: "bytes \<Rightarrow> nat" where
  "decimal s \<equiv> decimal_from 0 s"

lemma decimal_from_simps [simp]:
  "decimal_from v [] = v"
  "decimal_from v (c # s) = decimal_from (v * 10 + (unat c - 48)) s"
  by (simp_all add: decimal_from_def)

lemma decimal_from_snoc: "decimal_from v (s @ [c]) = decimal_from v s * 10 + (unat c - 48)"
  by (simp add: decimal_from_def)

lemma digit_ge: "is_digit c \<Longrightarrow> 48 \<le> unat c"
  by (simp add: is_digit_def word_le_nat_alt)

lemma digit_value_word: "is_digit c \<Longrightarrow> (of_nat (unat c - 48) :: 'a::len word) = ucast c - 48"
  using digit_ge [of c] by (simp add: of_nat_diff)

lemma digit_step_word:
  "is_digit c \<Longrightarrow> (of_nat (v * 10 + (unat c - 48)) :: 'a::len word) = of_nat v * 10 + ucast c - 48"
  by (simp add: digit_value_word)

lemma decimal_from_ge: "v \<le> decimal_from v s"
proof (induction s arbitrary: v)
  case (Cons c s)
  from Cons [of "v * 10 + (unat c - 48)"] show ?case by simp
qed simp

lemma decimal_pos: "s \<noteq> [] \<Longrightarrow> is_digit (hd s) \<Longrightarrow> hd s \<noteq> c_0 \<Longrightarrow> 0 < decimal s"
proof (cases s)
  case (Cons c cs)
  assume "is_digit (hd s)" "hd s \<noteq> c_0"
  then have "0 < unat c - 48"
    using Cons digit_ge [of c] by (auto simp: word_unat_eq_iff)
  with Cons decimal_from_ge [of "unat c - 48" cs] show ?thesis by simp
qed simp

section \<open>Signed words\<close>

text \<open>Words read through \<open>sint\<close>, where no overflow occurs.\<close>

lemma sint_pos: "sz \<noteq> 0 \<Longrightarrow> 0 \<le> sint sz \<Longrightarrow> 0 < sint sz"
proof -
  assume "sz \<noteq> 0" "0 \<le> sint sz"
  moreover from this have "sint sz \<noteq> 0" using signed_eq_0_iff [where 'a = int and w = sz] by simp
  ultimately show ?thesis by linarith
qed

lemma sint_add_eq: "- (2 ^ 63) \<le> sint x + sint y \<Longrightarrow> sint x + sint y < 2 ^ 63 \<Longrightarrow> sint (x + y :: ngx_int) = sint x + sint y"
  by (simp add: sint_word_ariths signed_take_bit_int_eq_self)

lemma sint_sub_eq: "- (2 ^ 63) \<le> sint x - sint y \<Longrightarrow> sint x - sint y < 2 ^ 63 \<Longrightarrow> sint (x - y :: ngx_int) = sint x - sint y"
  by (simp add: sint_word_ariths signed_take_bit_int_eq_self)

lemma sint_range: "- (2 ^ 63) \<le> sint (x :: ngx_int) \<and> sint x < 2 ^ 63"
  using sint_greater_eq [of x] sint_less [of x] by simp

lemma sint_of_nat: "n < 2 ^ 63 \<Longrightarrow> sint (of_nat n :: ngx_int) = int n"
  by (simp add: signed_of_nat signed_take_bit_int_eq_self)

lemma sint_unat: "0 \<le> sint (x :: ngx_int) \<Longrightarrow> sint x = int (unat x)"
proof -
  assume "0 \<le> sint x"
  then have "uint x = sint x" using uint_sint [of x] sint_range [of x] by (simp add: take_bit_int_eq_self)
  then show ?thesis by simp
qed

lemma word_minus_of_nat_eq_0:
  fixes sz :: ngx_int
  assumes "n \<le> unat sz"
  shows "sz - of_nat n = 0 \<longleftrightarrow> n = unat sz"
proof
  assume "sz - of_nat n = 0"
  then have "unat sz = unat (of_nat n :: 64 word)" by simp
  then show "n = unat sz"
    using assms unsigned_less [of sz, where 'a = nat] by (simp add: unsigned_of_nat take_bit_nat_eq_self)
qed simp

lemma unat_add_small: "unat (x :: ngx_int) + unat y < 2 ^ 64 \<Longrightarrow> unat (x + y) = unat x + unat y"
  by (simp add: unat_word_ariths)

section \<open>Hexadecimal digits\<close>

definition hex_digit :: "u_char \<Rightarrow> bool" where
  "hex_digit c \<longleftrightarrow> is_digit c \<or> is_hex_lower (lower c)"

definition hex_value :: "u_char \<Rightarrow> u_char" where
  "hex_value c = (if is_digit c then c - 48 else lower c - 87)"

lemma hex_value_bound:
  "is_digit c \<Longrightarrow> unat (hex_value c) < 10"
  "\<not> is_digit c \<Longrightarrow> hex_digit c \<Longrightarrow> 10 \<le> unat (hex_value c) \<and> unat (hex_value c) < 16"
proof -
  show "unat (hex_value c) < 10" if "is_digit c"
    using that by (auto simp: hex_value_def is_digit_def word_le_nat_alt unat_sub)
  show "10 \<le> unat (hex_value c) \<and> unat (hex_value c) < 16" if "\<not> is_digit c" "hex_digit c"
    using that by (auto simp: hex_value_def hex_digit_def is_hex_lower_def word_le_nat_alt unat_sub)
qed

lemma hex_value_16: "hex_digit c \<Longrightarrow> unat (hex_value c) < 16"
  using hex_value_bound [of c] by (cases "is_digit c") auto

lemma hex_pair:
  assumes "hex_digit a" and "hex_digit b"
  shows "unat (hex_value a * 16 + hex_value b) = unat (hex_value a) * 16 + unat (hex_value b)"
  using hex_value_16 [OF assms(1)] hex_value_16 [OF assms(2)] by (simp add: unat_word_ariths)

text \<open>The two hexadecimal digits of a byte, as the encoders write them.\<close>

definition hex_chars :: bytes where
  "hex_chars = ascii ''0123456789abcdef''"

lemma hex_chars_nth:
  assumes "k < 16"
  shows "hex_digit (hex_chars ! k)" and "unat (hex_value (hex_chars ! k)) = k"
proof -
  have "map (\<lambda>c. (hex_digit c, unat (hex_value c))) hex_chars = map (Pair True) [0..<16]" by code_simp
  moreover have "length hex_chars = 16" by (simp add: hex_chars_def)
  ultimately have "(hex_digit (hex_chars ! k), unat (hex_value (hex_chars ! k))) = (True, k)"
    using assms by (metis (no_types, lifting) add_0 length_upt minus_nat.diff_0 nth_map nth_upt)
  then show "hex_digit (hex_chars ! k)" "unat (hex_value (hex_chars ! k)) = k" by simp_all
qed

lemma nibbles: "unat (drop_bit 4 (c :: u_char)) = unat c div 16" "unat (c AND 0xf) = unat c mod 16"
proof -
  show "unat (drop_bit 4 c) = unat c div 16" by (simp add: drop_bit_eq_div unat_div_distrib)
  have "c AND 0xf = take_bit 4 c" by (simp add: take_bit_eq_mask mask_numeral)
  then show "unat (c AND 0xf) = unat c mod 16" by (simp add: take_bit_eq_mod unat_mod_distrib)
qed

lemma hex_chars_byte:
  "hex_digit (hex_chars ! unat (drop_bit 4 c)) \<and> hex_digit (hex_chars ! unat (c AND 0xf)) \<and>
     hex_value (hex_chars ! unat (drop_bit 4 c)) * 16 + hex_value (hex_chars ! unat (c AND 0xf)) = c"
proof -
  have k: "unat c div 16 < 16" "unat c mod 16 < 16" using unat_byte_less [of c] by (simp_all only: less_mult_imp_div_less mod_less_divisor)
  note n = hex_chars_nth [OF k(1)] hex_chars_nth [OF k(2)]
  have "unat (hex_value (hex_chars ! (unat c div 16)) * 16 + hex_value (hex_chars ! (unat c mod 16))) = unat c"
    using hex_pair [OF n(1,3)] n(2,4) by simp
  then show ?thesis using n(1,3) by (simp add: nibbles unsigned_word_eqI)
qed

text \<open>Signed words of 64 bits, as long as nothing overflows.\<close>

lemma sint_bounds: "sint (x :: 64 word) < 2 ^ 63" "- (2 ^ 63) \<le> sint (x :: 64 word)"
  using sint_lt [of x] sint_ge [of x] by simp_all

lemma sint_in_range: "- (2 ^ 63) \<le> i \<Longrightarrow> i < 2 ^ 63 \<Longrightarrow> sint (word_of_int i :: 64 word) = i"
  by (simp add: signed_of_int signed_take_bit_int_eq_self)

lemma sint_add_64: "- (2 ^ 63) \<le> sint x + sint y \<Longrightarrow> sint x + sint y < 2 ^ 63 \<Longrightarrow> sint (x + y) = sint x + sint y" for x y :: "64 word"
  using sint_in_range [of "sint x + sint y"] by simp

lemma sint_diff_64: "- (2 ^ 63) \<le> sint x - sint y \<Longrightarrow> sint x - sint y < 2 ^ 63 \<Longrightarrow> sint (x - y) = sint x - sint y" for x y :: "64 word"
  using sint_in_range [of "sint x - sint y"] by simp

end
