(* ===== verification/Byte_Machine.thy ===== *)
theory Byte_Machine
  imports Nginx_Prelude
begin

text \<open>
  The loop the incremental parsers of nginx share,
  \<^verbatim>\<open>
    for (p = b->pos; p < b->last; p++) { ch = *p; switch (state) { ... } }
  \<close>
  as one definition, and its contract as a locale. A parser contributes the body of the
  switch, a function from the buffer, the position, the byte, the parser's local variables
  and the request fields it writes to an \<open>outcome\<close>: \<open>Next\<close> is \<open>break\<close> (the loop advances),
  \<open>Redo\<close> is \<open>p--; break\<close> (the same byte again, in another state), \<open>Exit\<close> leaves the loop
  by \<open>goto\<close> or \<open>return\<close>.

  The locale \<open>byte_machine\<close> asks for a rank that every \<open>Redo\<close> lowers and for a body that
  reads the buffer no further than the current byte; its lemmas give termination, the
  position at which a run stops, independence of the bytes not yet received, and the
  resumption law: stopping at the end of a first fragment and going on when the second
  has arrived is the run over both. Every parser interprets it.
\<close>

datatype ('x, 's, 'r) outcome = Next 's 'r | Redo 's 'r | Exit 'x 's 'r

type_synonym ('x, 's, 'r) body = "bytes \<Rightarrow> nat \<Rightarrow> u_char \<Rightarrow> 's \<Rightarrow> 'r \<Rightarrow> ('x, 's, 'r) outcome"

text \<open>
  The result holds the reason the loop was left (\<open>None\<close> when \<open>p\<close> reached \<open>last\<close>), the local
  variables, the request fields and \<open>p\<close>. No result at all is a loop that does not end.
\<close>

partial_function (option) byte_loop ::
  "('x, 's, 'r) body \<Rightarrow> bytes \<Rightarrow> nat \<Rightarrow> nat \<Rightarrow> 's \<Rightarrow> 'r \<Rightarrow> ('x option \<times> 's \<times> 'r \<times> nat) option"
where
  "byte_loop step buf lim p s r =
     (if p < lim then
        (case step buf p (buf ! p) s r of
           Next s' r' \<Rightarrow> byte_loop step buf lim (Suc p) s' r'
         | Redo s' r' \<Rightarrow> byte_loop step buf lim p s' r'
         | Exit x s' r' \<Rightarrow> Some (Some x, s', r', p))
      else Some (None, s, r, p))"

declare byte_loop.simps [code]

lemma byte_loop_end [simp]: "lim \<le> p \<Longrightarrow> byte_loop step buf lim p s r = Some (None, s, r, p)"
  by (subst byte_loop.simps) simp

lemma byte_loop_next:
  "p < lim \<Longrightarrow> step buf p (buf ! p) s r = Next s' r' \<Longrightarrow>
   byte_loop step buf lim p s r = byte_loop step buf lim (Suc p) s' r'"
  by (subst byte_loop.simps) simp

lemma byte_loop_redo:
  "p < lim \<Longrightarrow> step buf p (buf ! p) s r = Redo s' r' \<Longrightarrow>
   byte_loop step buf lim p s r = byte_loop step buf lim p s' r'"
  by (subst byte_loop.simps) simp

lemma byte_loop_exit:
  "p < lim \<Longrightarrow> step buf p (buf ! p) s r = Exit x s' r' \<Longrightarrow>
   byte_loop step buf lim p s r = Some (Some x, s', r', p)"
  by (subst byte_loop.simps) simp

lemmas byte_loop_steps = byte_loop_next byte_loop_redo byte_loop_exit

locale byte_machine =
  fixes step :: "('x, 's, 'r) body"
    and rank :: "'s \<Rightarrow> nat"
  assumes redo_rank: "step buf p ch s r = Redo s' r' \<Longrightarrow> rank s' < rank s"
    and step_local:
      "take (Suc p) buf = take (Suc p) buf' \<Longrightarrow> step buf p ch s r = step buf' p ch s r"
begin

abbreviation "loop \<equiv> byte_loop step"

text \<open>The induction every fact about a run uses: over the bytes left, then over the rank.\<close>

lemma run_induct [case_names Run]:
  assumes run: "\<And>p s r.
      (\<And>s' r'. p < lim \<Longrightarrow> step buf p (buf ! p) s r = Next s' r' \<Longrightarrow> P (Suc p) s' r') \<Longrightarrow>
      (\<And>s' r'. p < lim \<Longrightarrow> step buf p (buf ! p) s r = Redo s' r' \<Longrightarrow> P p s' r') \<Longrightarrow>
      P p s r"
  shows "P p s r"
proof -
  define R where "R = measures [\<lambda>(p, s, r). lim - p, \<lambda>(p :: nat, s, r :: 'r). rank s]"
  have "wf R" by (simp add: R_def)
  then have "case t of (p, s, r) \<Rightarrow> P p s r" for t
  proof (induction t rule: wf_induct_rule)
    case (less t)
    obtain p s r where t: "t = (p, s, r)" by (cases t)
    have "P p s r"
    proof (rule run)
      fix s' r'
      assume "p < lim" "step buf p (buf ! p) s r = Next s' r'"
      then have "((Suc p, s', r'), t) \<in> R" by (simp add: R_def t diff_less_mono2)
      from less [OF this] show "P (Suc p) s' r'" by simp
    next
      fix s' r'
      assume "p < lim" "step buf p (buf ! p) s r = Redo s' r'"
      then have "((p, s', r'), t) \<in> R" by (simp add: R_def t redo_rank)
      from less [OF this] show "P p s' r'" by simp
    qed
    then show ?case by (simp add: t)
  qed
  from this [of "(p, s, r)"] show ?thesis by simp
qed

lemma loop_total: "\<exists>x s' r' q. loop buf lim p s r = Some (x, s', r', q)"
proof (induction p s r rule: run_induct [where buf = buf and lim = lim])
  case (Run p s r)
  show ?case
  proof (cases "p < lim")
    case True
    with Run show ?thesis
      by (cases "step buf p (buf ! p) s r") (auto simp: byte_loop_steps)
  qed simp
qed

lemma loop_position:
  "loop buf lim p s r = Some (x, s', r', q) \<Longrightarrow>
     (case x of None \<Rightarrow> q = max p lim | Some _ \<Rightarrow> p \<le> q \<and> q < lim)"
proof (induction p s r rule: run_induct [where buf = buf and lim = lim])
  case (Run p s r)
  show ?case
  proof (cases "p < lim")
    case True
    with Run show ?thesis
      by (cases "step buf p (buf ! p) s r"; cases x) (auto simp: byte_loop_steps)
  next
    case False
    with Run.prems show ?thesis by auto
  qed
qed

lemma loop_stop_le: "loop buf lim p s r = Some (x, s', r', q) \<Longrightarrow> p \<le> lim \<Longrightarrow> q \<le> lim"
  using loop_position [of buf lim p s r x s' r' q] by (cases x) auto

text \<open>The bytes at and beyond \<open>lim\<close> have no influence.\<close>

lemma loop_local:
  assumes "take lim buf = take lim buf'" and "lim \<le> length buf" and "lim \<le> length buf'"
  shows "loop buf lim p s r = loop buf' lim p s r"
proof (induction p s r rule: run_induct [where buf = buf and lim = lim])
  case (Run p s r)
  show ?case
  proof (cases "p < lim")
    case True
    have ch: "buf' ! p = buf ! p"
      using nth_take_eq [OF assms(1) True] by simp
    have st: "step buf' p (buf' ! p) s r = step buf p (buf ! p) s r"
      unfolding ch by (rule step_local) (metis True Suc_leI assms(1) take_eq_mono)
    show ?thesis
      using Run [OF True] True st
      by (cases "step buf p (buf ! p) s r") (auto simp: byte_loop_steps)
  qed simp
qed

text \<open>
  The resumption law. A run that reached the end \<open>m\<close> of the bytes received so far goes on
  from there when more have arrived; a run that left the loop is not affected by them.
\<close>

lemma loop_resume:
  "m \<le> lim \<Longrightarrow> loop buf m p s r = Some (None, s', r', q) \<Longrightarrow>
     loop buf lim p s r = loop buf lim q s' r'"
proof (induction p s r rule: run_induct [where buf = buf and lim = lim])
  case (Run p s r)
  show ?case
  proof (cases "p < m")
    case True
    with Run show ?thesis
      by (cases "step buf p (buf ! p) s r") (auto simp: byte_loop_steps)
  next
    case False
    with Run.prems show ?thesis by simp
  qed
qed

lemma loop_early:
  "m \<le> lim \<Longrightarrow> loop buf m p s r = Some (Some x, s', r', q) \<Longrightarrow>
     loop buf lim p s r = Some (Some x, s', r', q)"
proof (induction p s r rule: run_induct [where buf = buf and lim = lim])
  case (Run p s r)
  show ?case
  proof (cases "p < m")
    case True
    with Run show ?thesis
      by (cases "step buf p (buf ! p) s r") (auto simp: byte_loop_steps)
  next
    case False
    with Run.prems show ?thesis by simp
  qed
qed

text \<open>Both laws for fragments: the first buffer is a prefix of the second.\<close>

lemma loop_fragment_resume:
  assumes "loop xs (length xs) p s r = Some (None, s', r', q)"
  shows "loop (xs @ ys) (length (xs @ ys)) p s r = loop (xs @ ys) (length (xs @ ys)) q s' r'"
proof (rule loop_resume)
  show "loop (xs @ ys) (length xs) p s r = Some (None, s', r', q)"
    using assms loop_local [of "length xs" xs "xs @ ys" p s r] by simp
qed simp

lemma loop_fragment_early:
  assumes "loop xs (length xs) p s r = Some (Some x, s', r', q)"
  shows "loop (xs @ ys) (length (xs @ ys)) p s r = Some (Some x, s', r', q)"
proof (rule loop_early)
  show "loop (xs @ ys) (length xs) p s r = Some (Some x, s', r', q)"
    using assms loop_local [of "length xs" xs "xs @ ys" p s r] by simp
qed simp

text \<open>An invariant of the body holds when the loop runs out, and its exit condition otherwise.\<close>

lemma loop_invariant_local:
  assumes "loop buf lim p s r = Some (x, s', r', q)"
    and "I p s r"
    and body: "\<And>p s r. p < lim \<Longrightarrow> I p s r \<Longrightarrow>
           (case step buf p (buf ! p) s r of
              Next s' r' \<Rightarrow> I (Suc p) s' r'
            | Redo s' r' \<Rightarrow> I p s' r'
            | Exit x s' r' \<Rightarrow> Q x p s' r')"
  shows "case x of None \<Rightarrow> I q s' r' | Some y \<Rightarrow> Q y q s' r'"
  using assms(1,2)
proof (induction p s r rule: run_induct [where buf = buf and lim = lim])
  case (Run p s r)
  show ?case
  proof (cases "p < lim")
    case True
    with Run body [OF True Run.prems(2)] show ?thesis
      by (cases "step buf p (buf ! p) s r") (auto simp: byte_loop_steps)
  next
    case False
    with Run.prems show ?thesis by auto
  qed
qed

lemmas loop_invariant = loop_invariant_local [where Q = "\<lambda>x p _ r. Q x p r" for Q]

text \<open>A field the body neither reads nor writes passes through a run.\<close>

lemma loop_frame:
  assumes frame: "\<And>p ch s r. step buf p ch s (f r) = map_outcome id id f (step buf p ch s r)"
  shows "loop buf lim p s (f r) = map_option (map_prod id (map_prod id (map_prod f id))) (loop buf lim p s r)"
proof (induction p s r rule: run_induct [where buf = buf and lim = lim])
  case (Run p s r)
  show ?case
  proof (cases "p < lim")
    case True
    with Run show ?thesis
      by (cases "step buf p (buf ! p) s r") (auto simp: byte_loop_steps frame)
  qed simp
qed

end

section \<open>Running over known bytes\<close>

text \<open>
  A run from a position at which the rest of the buffer is known: one byte, and a stretch of
  bytes that leave the state unchanged.
\<close>

lemma eat_byte:
  assumes "drop p buf = ch # ys" and "step buf p ch s r = Next s' r'"
  shows "byte_loop step buf (length buf) p s r = byte_loop step buf (length buf) (Suc p) s' r'"
    and "drop (Suc p) buf = ys"
proof -
  have p: "p < length buf" using assms(1) by (metis drop_all leI list.distinct(1))
  then have "buf ! p = ch" using assms(1) by (metis Cons_nth_drop_Suc list.inject)
  with assms(2) p show "byte_loop step buf (length buf) p s r = byte_loop step buf (length buf) (Suc p) s' r'"
    by (simp add: byte_loop_next)
  show "drop (Suc p) buf = ys"
    using assms(1) p by (metis Cons_nth_drop_Suc list.inject)
qed

lemma eat_exit:
  assumes "drop p buf = ch # ys" and "step buf p ch s r = Exit x s' r'"
  shows "byte_loop step buf (length buf) p s r = Some (Some x, s', r', p)"
proof -
  have p: "p < length buf" using assms(1) by (metis drop_all leI list.distinct(1))
  then have "buf ! p = ch" using assms(1) by (metis Cons_nth_drop_Suc list.inject)
  with assms(2) p show ?thesis by (simp add: byte_loop_exit)
qed

lemma eat_stretch:
  assumes "drop p buf = xs @ ys"
    and "\<And>i ch. ch \<in> set xs \<Longrightarrow> p \<le> i \<Longrightarrow> step buf i ch s r = Next s r"
  shows "byte_loop step buf (length buf) p s r = byte_loop step buf (length buf) (p + length xs) s r
     \<and> drop (p + length xs) buf = ys"
  using assms
proof (induction xs arbitrary: p)
  case Nil
  then show ?case by simp
next
  case (Cons ch xs)
  have d: "drop p buf = ch # (xs @ ys)" using Cons.prems(1) by simp
  have st: "step buf p ch s r = Next s r" using Cons.prems(2) by simp
  note e = eat_byte [OF d, of step s r, OF st]
  from Cons.IH [OF e(2)] Cons.prems(2) e(1) show ?case by simp
qed

text \<open>
  The state after a known stretch of bytes that only advance, as a function of the bytes, so
  that a run over a literal evaluates by rewriting; \<open>None\<close> when a byte does something else.
\<close>

fun eats :: "('x, 's, 'r) body \<Rightarrow> bytes \<Rightarrow> nat \<Rightarrow> bytes \<Rightarrow> 's \<Rightarrow> 'r \<Rightarrow> ('s \<times> 'r) option" where
  "eats step buf p [] s r = Some (s, r)"
| "eats step buf p (c # cs) s r =
    (case step buf p c s r of Next s' r' \<Rightarrow> eats step buf (Suc p) cs s' r' | Redo s' r' \<Rightarrow> None | Exit x s' r' \<Rightarrow> None)"

lemma eats_append:
  "eats step buf p (xs @ ys) s r =
     (case eats step buf p xs s r of None \<Rightarrow> None | Some (s', r') \<Rightarrow> eats step buf (p + length xs) ys s' r')"
  by (induction xs arbitrary: p s r) (auto split: outcome.splits option.splits)

lemma byte_loop_eats:
  assumes "drop p buf = xs @ ys" and "eats step buf p xs s r = Some (s', r')"
  shows "byte_loop step buf (length buf) p s r = byte_loop step buf (length buf) (p + length xs) s' r' \<and>
    drop (p + length xs) buf = ys"
  using assms
proof (induction xs arbitrary: p s r)
  case (Cons c xs)
  then obtain s1 r1 where st: "step buf p c s r = Next s1 r1" by (cases "step buf p c s r") auto
  have "drop p buf = c # (xs @ ys)" using Cons.prems by simp
  note e = eat_byte [OF this, of step, OF st]
  from Cons.IH [OF e(2)] Cons.prems(2) st e(1) show ?case by simp
qed simp

end
