(* ===== verification/Http_Common.thy ===== *)
theory Http_Common
  imports Byte_Machine
begin

text \<open>
  What the parsers of \<open>http/ngx_http_parse.c\<close> share: the return codes of
  \<open>ngx_http_request.h\<close>, the request methods, the buffer \<open>ngx_buf_t\<close> (the bytes from
  \<open>b->start\<close>, \<open>pos\<close> and \<open>last\<close> as offsets) and the table \<open>usual\<close> of the characters that
  need no attention in a URI.
\<close>

abbreviation (input) NGX_HTTP_PARSE_HEADER_DONE :: int where "NGX_HTTP_PARSE_HEADER_DONE \<equiv> 1"
abbreviation (input) NGX_HTTP_PARSE_INVALID_METHOD :: int where "NGX_HTTP_PARSE_INVALID_METHOD \<equiv> 10"
abbreviation (input) NGX_HTTP_PARSE_INVALID_REQUEST :: int where "NGX_HTTP_PARSE_INVALID_REQUEST \<equiv> 11"
abbreviation (input) NGX_HTTP_PARSE_INVALID_09_METHOD :: int where
  "NGX_HTTP_PARSE_INVALID_09_METHOD \<equiv> 12"
abbreviation (input) NGX_HTTP_PARSE_INVALID_HEADER :: int where "NGX_HTTP_PARSE_INVALID_HEADER \<equiv> 13"

abbreviation (input) NGX_HTTP_UNKNOWN :: nat where "NGX_HTTP_UNKNOWN \<equiv> 0x0001"
abbreviation (input) NGX_HTTP_GET :: nat where "NGX_HTTP_GET \<equiv> 0x0002"
abbreviation (input) NGX_HTTP_HEAD :: nat where "NGX_HTTP_HEAD \<equiv> 0x0004"
abbreviation (input) NGX_HTTP_POST :: nat where "NGX_HTTP_POST \<equiv> 0x0008"
abbreviation (input) NGX_HTTP_PUT :: nat where "NGX_HTTP_PUT \<equiv> 0x0010"
abbreviation (input) NGX_HTTP_DELETE :: nat where "NGX_HTTP_DELETE \<equiv> 0x0020"
abbreviation (input) NGX_HTTP_MKCOL :: nat where "NGX_HTTP_MKCOL \<equiv> 0x0040"
abbreviation (input) NGX_HTTP_COPY :: nat where "NGX_HTTP_COPY \<equiv> 0x0080"
abbreviation (input) NGX_HTTP_MOVE :: nat where "NGX_HTTP_MOVE \<equiv> 0x0100"
abbreviation (input) NGX_HTTP_OPTIONS :: nat where "NGX_HTTP_OPTIONS \<equiv> 0x0200"
abbreviation (input) NGX_HTTP_PROPFIND :: nat where "NGX_HTTP_PROPFIND \<equiv> 0x0400"
abbreviation (input) NGX_HTTP_PROPPATCH :: nat where "NGX_HTTP_PROPPATCH \<equiv> 0x0800"
abbreviation (input) NGX_HTTP_LOCK :: nat where "NGX_HTTP_LOCK \<equiv> 0x1000"
abbreviation (input) NGX_HTTP_UNLOCK :: nat where "NGX_HTTP_UNLOCK \<equiv> 0x2000"
abbreviation (input) NGX_HTTP_PATCH :: nat where "NGX_HTTP_PATCH \<equiv> 0x4000"
abbreviation (input) NGX_HTTP_TRACE :: nat where "NGX_HTTP_TRACE \<equiv> 0x8000"

section \<open>Buffers\<close>

record ngx_buf =
  mem :: bytes
  pos :: nat
  blast :: nat

definition buf_ok :: "ngx_buf \<Rightarrow> bool" where
  "buf_ok b \<longleftrightarrow> pos b \<le> blast b \<and> blast b \<le> length (mem b)"

text \<open>More bytes arriving in a buffer: they are stored from \<open>last\<close> on.\<close>

definition buf_receive :: "ngx_buf \<Rightarrow> bytes \<Rightarrow> ngx_buf" where
  "buf_receive b xs = b\<lparr>mem := take (blast b) (mem b) @ xs, blast := blast b + length xs\<rparr>"

lemma buf_receive_simps [simp]:
  "mem (buf_receive b xs) = take (blast b) (mem b) @ xs"
  "blast (buf_receive b xs) = blast b + length xs"
  "pos (buf_receive b xs) = pos b"
  by (simp_all add: buf_receive_def)

lemma buf_receive_ok [simp]: "buf_ok b \<Longrightarrow> buf_ok (buf_receive b xs)"
  by (simp add: buf_ok_def)

text \<open>A literal of \<open>n\<close> characters is stored at \<open>m\<close>.\<close>

definition mem_is :: "bytes \<Rightarrow> nat \<Rightarrow> bytes \<Rightarrow> bool" where
  "mem_is buf m s \<longleftrightarrow> take (length s) (drop m buf) = s"

lemma mem_is_local:
  assumes "take k buf = take k buf'" and "m + length s \<le> k"
  shows "mem_is buf m s = mem_is buf' m s"
  using cut_cong [OF assms, of m] by (simp add: mem_is_def cut_def)

text \<open>The resumption laws of \<open>byte_machine\<close> for a buffer that receives more bytes.\<close>

context byte_machine
begin

lemma loop_receive:
  assumes "buf_ok b" and "loop (mem b) (blast b) p s r = Some (None, s', r', q)"
  shows "loop (mem (buf_receive b xs)) (blast (buf_receive b xs)) p s r =
     loop (mem (buf_receive b xs)) (blast (buf_receive b xs)) q s' r'"
proof (rule loop_resume)
  show "loop (mem (buf_receive b xs)) (blast b) p s r = Some (None, s', r', q)"
    using assms loop_local [of "blast b" "mem b" "mem (buf_receive b xs)" p s r] by (simp add: buf_ok_def)
qed simp

end

section \<open>The usual characters\<close>

definition usual_tbl :: "32 word list" where
  "usual_tbl =
    [0xffffdbfe, 0x7fff37d6, 0xffffffff, 0xffffffff,
     0xffffffff, 0xffffffff, 0xffffffff, 0xffffffff]"

definition usual :: "u_char \<Rightarrow> bool" where
  "usual ch = bit_table usual_tbl ch"

definition unusual_bytes :: "u_char list" where
  "unusual_bytes =
     [c_NUL, c_LF, c_CR, c_space, c_hash, c_percent, c_plus, c_dot, c_slash, c_quest]"

lemma usual_iff: "usual ch \<longleftrightarrow> ch \<notin> set unusual_bytes"
proof (rule byte_check [where P = "\<lambda>ch. usual ch \<longleftrightarrow> ch \<notin> set unusual_bytes"])
  show "list_all (\<lambda>ch. usual ch \<longleftrightarrow> ch \<notin> set unusual_bytes) all_bytes"
    by (simp add: usual_def bit_table_iff usual_tbl_def unusual_bytes_def all_bytes_list)
qed

lemmas usual_iff' = usual_iff [unfolded unusual_bytes_def, simplified]

lemma usual_eval [simp]:
  "\<not> usual c_NUL" "\<not> usual c_LF" "\<not> usual c_CR" "\<not> usual c_space" "\<not> usual c_hash" 
  "\<not> usual c_percent" "\<not> usual c_plus" "\<not> usual c_dot" "\<not> usual c_slash" "\<not> usual c_quest"
  by (simp_all add: usual_iff')

end
