(* ===== verification/Ngx_Compare.thy ===== *)
theory Ngx_Compare
  imports Nginx_Prelude
begin

text \<open>
Copying, comparing and searching strings (\<open>core/ngx_string.c\<close>). A pointer argument is the
  list of the bytes from it to the end of the object it points into; \<open>None\<close> is a read past
  that end.
\<close>

section \<open>Copying\<close>

fun ngx_strlow :: "bytes \<Rightarrow> nat \<Rightarrow> bytes option" where
  "ngx_strlow src 0 = Some []"
| "ngx_strlow (c # src) (Suc n) = map_option (Cons (ngx_tolower c)) (ngx_strlow src n)"
| "ngx_strlow [] (Suc n) = None"

lemma ngx_strlow_eq: "ngx_strlow src n = (if n \<le> length src then Some (map ngx_tolower (take n src)) else None)"
  by (induction src n rule: ngx_strlow.induct) auto

text \<open>\<open>ngx_cpystrn\<close>: the bytes written, the terminator included; at most \<open>n\<close> with it.\<close>

fun ngx_cpystrn :: "bytes \<Rightarrow> nat \<Rightarrow> bytes option" where
  "ngx_cpystrn src 0 = Some []"
| "ngx_cpystrn src (Suc 0) = Some [c_NUL]"
| "ngx_cpystrn [] (Suc (Suc n)) = None"
| "ngx_cpystrn (c # src) (Suc (Suc n)) =
    (if c = c_NUL then Some [c_NUL] else map_option (Cons c) (ngx_cpystrn src (Suc n)))"

section \<open>Comparing\<close>

text \<open>The result of comparing two bytes, as the difference of their values.\<close>

definition byte_diff :: "u_char \<Rightarrow> u_char \<Rightarrow> int" where
  "byte_diff c1 c2 = int (unat c1) - int (unat c2)"

fun ngx_strcasecmp :: "bytes \<Rightarrow> bytes \<Rightarrow> int option" where
  "ngx_strcasecmp (a # s1) (b # s2) =
    (let c1 = ngx_tolower a; c2 = ngx_tolower b in
     if c1 = c2 then (if c1 \<noteq> c_NUL then ngx_strcasecmp s1 s2 else Some 0)
     else Some (byte_diff c1 c2))"
| "ngx_strcasecmp _ _ = None"

fun ngx_strncasecmp :: "bytes \<Rightarrow> bytes \<Rightarrow> nat \<Rightarrow> int option" where
  "ngx_strncasecmp s1 s2 0 = Some 0"
| "ngx_strncasecmp (a # s1) (b # s2) (Suc n) =
    (let c1 = ngx_tolower a; c2 = ngx_tolower b in
     if c1 = c2 then (if c1 \<noteq> c_NUL then ngx_strncasecmp s1 s2 n else Some 0)
     else Some (byte_diff c1 c2))"
| "ngx_strncasecmp _ _ (Suc n) = None"

text \<open>The library's \<open>strncmp\<close>, \<open>strcmp\<close>, \<open>strlen\<close> and \<open>memcmp\<close>, under the names of nginx's macros.\<close>

fun ngx_strncmp :: "bytes \<Rightarrow> bytes \<Rightarrow> nat \<Rightarrow> int option" where
  "ngx_strncmp s1 s2 0 = Some 0"
| "ngx_strncmp (a # s1) (b # s2) (Suc n) =
    (if a = b then (if a \<noteq> c_NUL then ngx_strncmp s1 s2 n else Some 0) else Some (byte_diff a b))"
| "ngx_strncmp _ _ (Suc n) = None"

fun ngx_strcmp :: "bytes \<Rightarrow> bytes \<Rightarrow> int option" where
  "ngx_strcmp (a # s1) (b # s2) =
    (if a = b then (if a \<noteq> c_NUL then ngx_strcmp s1 s2 else Some 0) else Some (byte_diff a b))"
| "ngx_strcmp _ _ = None"

fun ngx_strlen :: "bytes \<Rightarrow> nat option" where
  "ngx_strlen [] = None"
| "ngx_strlen (c # s) = (if c = c_NUL then Some 0 else map_option Suc (ngx_strlen s))"

fun ngx_memcmp :: "bytes \<Rightarrow> bytes \<Rightarrow> nat \<Rightarrow> int option" where
  "ngx_memcmp s1 s2 0 = Some 0"
| "ngx_memcmp (a # s1) (b # s2) (Suc n) = (if a = b then ngx_memcmp s1 s2 n else Some (byte_diff a b))"
| "ngx_memcmp _ _ (Suc n) = None"

text \<open>Comparing from the last of \<open>n\<close> bytes to the first; the case is folded to upper case.\<close>

fun ngx_rstrncmp :: "bytes \<Rightarrow> bytes \<Rightarrow> nat \<Rightarrow> int option" where
  "ngx_rstrncmp s1 s2 0 = Some 0"
| "ngx_rstrncmp s1 s2 (Suc n) =
    (if n < length s1 \<and> n < length s2 then
       (if s1 ! n \<noteq> s2 ! n then Some (byte_diff (s1 ! n) (s2 ! n)) else ngx_rstrncmp s1 s2 n)
     else None)"

definition upper_az :: "u_char \<Rightarrow> u_char" where
  "upper_az c = (if c_a \<le> c \<and> c \<le> c_z then c - 32 else c)"

fun ngx_rstrncasecmp :: "bytes \<Rightarrow> bytes \<Rightarrow> nat \<Rightarrow> int option" where
  "ngx_rstrncasecmp s1 s2 0 = Some 0"
| "ngx_rstrncasecmp s1 s2 (Suc n) =
    (if n < length s1 \<and> n < length s2 then
       (let c1 = upper_az (s1 ! n); c2 = upper_az (s2 ! n) in
        if c1 \<noteq> c2 then Some (byte_diff c1 c2) else ngx_rstrncasecmp s1 s2 n)
     else None)"

definition ngx_memn2cmp :: "bytes \<Rightarrow> bytes \<Rightarrow> nat \<Rightarrow> nat \<Rightarrow> int option" where
  "ngx_memn2cmp s1 s2 n1 n2 =
    (let (n, z) = (if n1 \<le> n2 then (n1, -1) else (n2, 1))
     in case ngx_memcmp s1 s2 n of
          None \<Rightarrow> None
        | Some m \<Rightarrow> if m \<noteq> 0 \<or> n1 = n2 then Some m else Some z)"

fun ngx_dns_strcmp :: "bytes \<Rightarrow> bytes \<Rightarrow> int option" where
  "ngx_dns_strcmp (a # s1) (b # s2) =
    (let c1 = ngx_tolower a; c2 = ngx_tolower b in
     if c1 = c2 then (if c1 \<noteq> c_NUL then ngx_dns_strcmp s1 s2 else Some 0)
     else
       (let c1 = (if c1 = c_dot then c_space else c1); c2 = (if c2 = c_dot then c_space else c2)
        in Some (byte_diff c1 c2)))"
| "ngx_dns_strcmp _ _ = None"

text \<open>The configuration without \<open>NGX_HAVE_CASELESS_FILESYSTEM\<close>.\<close>

fun ngx_filename_cmp :: "bytes \<Rightarrow> bytes \<Rightarrow> nat \<Rightarrow> int option" where
  "ngx_filename_cmp s1 s2 0 = Some 0"
| "ngx_filename_cmp (c1 # s1) (c2 # s2) (Suc n) =
    (if c1 = c2 then (if c1 \<noteq> c_NUL then ngx_filename_cmp s1 s2 n else Some 0)
     else if c1 = c_NUL \<or> c2 = c_NUL then Some (byte_diff c1 c2)
     else
       (let c1 = (if c1 = c_slash then c_NUL else c1); c2 = (if c2 = c_slash then c_NUL else c2)
        in Some (byte_diff c1 c2)))"
| "ngx_filename_cmp _ _ (Suc n) = None"

section \<open>Searching\<close>

text \<open>
  The inner and the outer loop as one: \<open>i\<close> is the offset of \<open>s1\<close> from the pointer passed, and a
  match at a byte leaves by \<open>return --s1\<close>. The result is the offset found.
\<close>

fun strnstr_loop :: "u_char \<Rightarrow> bytes \<Rightarrow> nat \<Rightarrow> bytes \<Rightarrow> nat \<Rightarrow> nat \<Rightarrow> nat option option" where
  "strnstr_loop c2 s2 n s1 i 0 = Some None"
| "strnstr_loop c2 s2 n [] i (Suc len) = None"
| "strnstr_loop c2 s2 n (c1 # s1) i (Suc len) =
    (if c1 = c_NUL then Some None
     else if c1 \<noteq> c2 then strnstr_loop c2 s2 n s1 (Suc i) len
     else if len < n then Some None
     else
       (case ngx_strncmp s1 s2 n of
          None \<Rightarrow> None
        | Some m \<Rightarrow> if m \<noteq> 0 then strnstr_loop c2 s2 n s1 (Suc i) len else Some (Some i)))"

definition ngx_strnstr :: "bytes \<Rightarrow> bytes \<Rightarrow> nat \<Rightarrow> nat option option" where
  "ngx_strnstr s1 s2 len =
    (case s2 of
       [] \<Rightarrow> None
     | c2 # s2 \<Rightarrow> (case ngx_strlen s2 of None \<Rightarrow> None | Some n \<Rightarrow> strnstr_loop c2 s2 n s1 0 len))"

fun strstrn_loop :: "u_char \<Rightarrow> bytes \<Rightarrow> nat \<Rightarrow> bytes \<Rightarrow> nat \<Rightarrow> nat option option" where
  "strstrn_loop c2 s2 n [] i = None"
| "strstrn_loop c2 s2 n (c1 # s1) i =
    (if c1 = c_NUL then Some None
     else if c1 \<noteq> c2 then strstrn_loop c2 s2 n s1 (Suc i)
     else
       (case ngx_strncmp s1 s2 n of
          None \<Rightarrow> None
        | Some m \<Rightarrow> if m \<noteq> 0 then strstrn_loop c2 s2 n s1 (Suc i) else Some (Some i)))"

definition ngx_strstrn :: "bytes \<Rightarrow> bytes \<Rightarrow> nat \<Rightarrow> nat option option" where
  "ngx_strstrn s1 s2 n = (case s2 of [] \<Rightarrow> None | c2 # s2 \<Rightarrow> strstrn_loop c2 s2 n s1 0)"

text \<open>
  \<open>s2\<close> is a \<open>char *\<close> here and is converted to \<open>ngx_uint_t\<close>: a first byte above 127 is
  sign-extended and equals no \<open>u_char\<close>.
\<close>

fun strcasestrn_loop :: "u_char \<Rightarrow> bytes \<Rightarrow> nat \<Rightarrow> bytes \<Rightarrow> nat \<Rightarrow> nat option option" where
  "strcasestrn_loop c2 s2 n [] i = None"
| "strcasestrn_loop c2 s2 n (a # s1) i =
    (if a = c_NUL then Some None
     else if ngx_tolower a \<noteq> c2 \<or> 127 < c2 then strcasestrn_loop c2 s2 n s1 (Suc i)
     else
       (case ngx_strncasecmp s1 s2 n of
          None \<Rightarrow> None
        | Some m \<Rightarrow> if m \<noteq> 0 then strcasestrn_loop c2 s2 n s1 (Suc i) else Some (Some i)))"

definition ngx_strcasestrn :: "bytes \<Rightarrow> bytes \<Rightarrow> nat \<Rightarrow> nat option option" where
  "ngx_strcasestrn s1 s2 n = (case s2 of [] \<Rightarrow> None | c2 # s2 \<Rightarrow> strcasestrn_loop (ngx_tolower c2) s2 n s1 0)"

text \<open>
  \<open>ngx_strlcasestrn\<close>: the search ends where \<open>s1 >= last - n\<close>; \<open>m\<close> is the number of bytes from
  \<open>s1\<close> to there, none if \<open>last - n\<close> lies before \<open>s1\<close>.
\<close>

fun strlcasestrn_loop :: "u_char \<Rightarrow> bytes \<Rightarrow> nat \<Rightarrow> bytes \<Rightarrow> nat \<Rightarrow> nat \<Rightarrow> nat option option" where
  "strlcasestrn_loop c2 s2 n s1 i 0 = Some None"
| "strlcasestrn_loop c2 s2 n [] i (Suc m) = None"
| "strlcasestrn_loop c2 s2 n (a # s1) i (Suc m) =
    (if ngx_tolower a \<noteq> c2 then strlcasestrn_loop c2 s2 n s1 (Suc i) m
     else
       (case ngx_strncasecmp s1 s2 n of
          None \<Rightarrow> None
        | Some r \<Rightarrow> if r \<noteq> 0 then strlcasestrn_loop c2 s2 n s1 (Suc i) m else Some (Some i)))"

definition ngx_strlcasestrn :: "bytes \<Rightarrow> nat \<Rightarrow> bytes \<Rightarrow> nat \<Rightarrow> nat option option" where
  "ngx_strlcasestrn s1 lim s2 n =
    (case s2 of [] \<Rightarrow> None | c2 # s2 \<Rightarrow> strlcasestrn_loop (ngx_tolower c2) s2 n s1 0 (lim - n))"

text \<open>\<open>ngx_strlchr\<close> of \<open>ngx_string.h\<close>: the first \<open>c\<close> before \<open>last\<close>.\<close>

fun ngx_strlchr :: "bytes \<Rightarrow> nat \<Rightarrow> u_char \<Rightarrow> nat option option" where
  "ngx_strlchr p 0 c = Some None"
| "ngx_strlchr [] (Suc n) c = None"
| "ngx_strlchr (x # p) (Suc n) c =
    (if x = c then Some (Some 0) else map_option (map_option Suc) (ngx_strlchr p n c))"

end
