(* ===== verification/Http_Header_Line.thy ===== *)
theory Http_Header_Line
  imports Http_Common Ngx_Compare
begin

text \<open>
  \<open>ngx_http_parse_header_line\<close> of \<open>http/ngx_http_parse.c\<close>: one header line
  \<open>name: value CRLF\<close>, or the empty line that ends the header. While the name is read the
  function builds its lower-case form in a ring of 32 bytes and its hash, so that the caller
  can look the header up without reading the name again.
\<close>

section \<open>State\<close>

datatype hl_state =
    HL_start | HL_name | HL_space_before_value | HL_value | HL_space_after_value
  | HL_ignore_line | HL_almost_done | HL_header_almost_done

text \<open>
  The request fields the function uses; \<open>upstream\<close> is \<open>r->upstream != NULL\<close> and
  \<open>lowcase_header\<close> the array of \<open>NGX_HTTP_LC_HEADER_LEN\<close> bytes.
\<close>

abbreviation (input) NGX_HTTP_LC_HEADER_LEN :: nat where "NGX_HTTP_LC_HEADER_LEN \<equiv> 32"

record header_line =
  hl_state :: hl_state
  header_hash :: "64 word"
  lowcase_index :: nat
  lowcase_header :: bytes
  header_name_start :: ptr
  header_name_end :: ptr
  header_start :: ptr
  header_end :: ptr
  invalid_header :: bool
  upstream :: bool

text \<open>The local variables of the loop: \<open>state\<close>, \<open>hash\<close> and \<open>i\<close>.\<close>

type_synonym hl_local = "hl_state \<times> 64 word \<times> nat"

text \<open>
  How the loop is left: \<open>goto done\<close>, \<open>goto header_done\<close>, \<open>return rc\<close>, or a write outside
  \<open>lowcase_header\<close> or read through a null pointer.
\<close>

datatype hl_exit = HL_done | HL_header_done | HL_return int | HL_fault

type_synonym hl_out = "(hl_exit, hl_local, header_line) outcome"

section \<open>Tables and macros\<close>

definition lowcase_tbl :: bytes where
  "lowcase_tbl =
     replicate 32 0
     @ replicate 13 0 @ [c_minus] @ replicate 2 0 @ ascii ''0123456789'' @ replicate 6 0
     @ [0] @ ascii ''abcdefghijklmnopqrstuvwxyz'' @ replicate 5 0
     @ [0] @ ascii ''abcdefghijklmnopqrstuvwxyz'' @ replicate 5 0
     @ replicate 128 0"

definition lowcase :: "u_char \<Rightarrow> u_char" where
  "lowcase ch = lowcase_tbl ! unat ch"

definition ngx_hash :: "64 word \<Rightarrow> u_char \<Rightarrow> 64 word" where
  "ngx_hash key c = key * 31 + ucast c"

section \<open>The states\<close>

definition hl_sw_start :: "bool \<Rightarrow> nat \<Rightarrow> u_char \<Rightarrow> 64 word \<Rightarrow> nat \<Rightarrow> header_line \<Rightarrow> hl_out" where
  "hl_sw_start allow_underscores p ch hash i r =
    (let r = r\<lparr>header_name_start := Some p, invalid_header := False\<rparr> in
     if ch = c_CR then Next (HL_header_almost_done, hash, i) (r\<lparr>header_end := Some p\<rparr>)
     else if ch = c_LF then Exit HL_header_done (HL_start, hash, i) (r\<lparr>header_end := Some p\<rparr>)
     else
       (let c = lowcase ch in
        if c \<noteq> 0 then
          Next (HL_name, ngx_hash 0 c, 1) (r\<lparr>lowcase_header := (lowcase_header r)[0 := c]\<rparr>)
        else if ch = c_under then
          (if allow_underscores then
             Next (HL_name, ngx_hash 0 ch, 1) (r\<lparr>lowcase_header := (lowcase_header r)[0 := ch]\<rparr>)
           else Next (HL_name, hash, i) (r\<lparr>invalid_header := True\<rparr>))
        else if ch = c_NUL then
          Exit (HL_return NGX_HTTP_PARSE_INVALID_HEADER) (HL_name, hash, i) r
        else Next (HL_name, hash, i) (r\<lparr>invalid_header := True\<rparr>)))"

text \<open>\<open>hash = ngx_hash(hash, c); r->lowcase_header[i++] = c; i &= 31\<close>.\<close>

definition hl_store :: "u_char \<Rightarrow> 64 word \<Rightarrow> nat \<Rightarrow> header_line \<Rightarrow> hl_out" where
  "hl_store c hash i r =
    (if i < NGX_HTTP_LC_HEADER_LEN then
       Next (HL_name, ngx_hash hash c, (i + 1) mod NGX_HTTP_LC_HEADER_LEN)
         (r\<lparr>lowcase_header := (lowcase_header r)[i := c]\<rparr>)
     else Exit HL_fault (HL_name, hash, i) r)"

definition hl_sw_name ::
  "bool \<Rightarrow> bytes \<Rightarrow> nat \<Rightarrow> u_char \<Rightarrow> 64 word \<Rightarrow> nat \<Rightarrow> header_line \<Rightarrow> hl_out" where
  "hl_sw_name allow_underscores buf p ch hash i r =
    (let c = lowcase ch in
     if c \<noteq> 0 then hl_store c hash i r
     else if ch = c_under then
       (if allow_underscores then hl_store ch hash i r
        else Next (HL_name, hash, i) (r\<lparr>invalid_header := True\<rparr>))
     else if ch = c_colon then
       Next (HL_space_before_value, hash, i) (r\<lparr>header_name_end := Some p\<rparr>)
     else if ch = c_CR then
       Next (HL_almost_done, hash, i)
         (r\<lparr>header_name_end := Some p, header_start := Some p, header_end := Some p\<rparr>)
     else if ch = c_LF then
       Exit HL_done (HL_name, hash, i)
         (r\<lparr>header_name_end := Some p, header_start := Some p, header_end := Some p\<rparr>)
     else
       (case header_name_start r of
          None \<Rightarrow> Exit HL_fault (HL_name, hash, i) r
        | Some s \<Rightarrow>
            if ch = c_slash \<and> upstream r \<and> p - s = 4 \<and> mem_is buf s (ascii ''HTTP'') then
              Next (HL_ignore_line, hash, i) r
            else if ch = c_NUL then
              Exit (HL_return NGX_HTTP_PARSE_INVALID_HEADER) (HL_name, hash, i) r
            else Next (HL_name, hash, i) (r\<lparr>invalid_header := True\<rparr>)))"

text \<open>space* before the header value.\<close>

definition hl_sw_space_before_value ::
  "nat \<Rightarrow> u_char \<Rightarrow> 64 word \<Rightarrow> nat \<Rightarrow> header_line \<Rightarrow> hl_out" where
  "hl_sw_space_before_value p ch hash i r =
    (if ch = c_space then Next (HL_space_before_value, hash, i) r
     else if ch = c_CR then
       Next (HL_almost_done, hash, i) (r\<lparr>header_start := Some p, header_end := Some p\<rparr>)
     else if ch = c_LF then
       Exit HL_done (HL_space_before_value, hash, i) (r\<lparr>header_start := Some p, header_end := Some p\<rparr>)
     else if ch = c_NUL then
       Exit (HL_return NGX_HTTP_PARSE_INVALID_HEADER) (HL_space_before_value, hash, i) r
     else Next (HL_value, hash, i) (r\<lparr>header_start := Some p\<rparr>))"

definition hl_sw_value :: "nat \<Rightarrow> u_char \<Rightarrow> 64 word \<Rightarrow> nat \<Rightarrow> header_line \<Rightarrow> hl_out" where
  "hl_sw_value p ch hash i r =
    (if ch = c_space then Next (HL_space_after_value, hash, i) (r\<lparr>header_end := Some p\<rparr>)
     else if ch = c_CR then Next (HL_almost_done, hash, i) (r\<lparr>header_end := Some p\<rparr>)
     else if ch = c_LF then Exit HL_done (HL_value, hash, i) (r\<lparr>header_end := Some p\<rparr>)
     else if ch = c_NUL then Exit (HL_return NGX_HTTP_PARSE_INVALID_HEADER) (HL_value, hash, i) r
     else Next (HL_value, hash, i) r)"

text \<open>space* before the end of the header line.\<close>

definition hl_sw_space_after_value ::
  "u_char \<Rightarrow> 64 word \<Rightarrow> nat \<Rightarrow> header_line \<Rightarrow> hl_out" where
  "hl_sw_space_after_value ch hash i r =
    (if ch = c_space then Next (HL_space_after_value, hash, i) r
     else if ch = c_CR then Next (HL_almost_done, hash, i) r
     else if ch = c_LF then Exit HL_done (HL_space_after_value, hash, i) r
     else if ch = c_NUL then
       Exit (HL_return NGX_HTTP_PARSE_INVALID_HEADER) (HL_space_after_value, hash, i) r
     else Next (HL_value, hash, i) r)"

definition hl_sw_ignore_line :: "u_char \<Rightarrow> 64 word \<Rightarrow> nat \<Rightarrow> header_line \<Rightarrow> hl_out" where
  "hl_sw_ignore_line ch hash i r =
    (if ch = c_LF then Next (HL_start, hash, i) r else Next (HL_ignore_line, hash, i) r)"

definition hl_sw_almost_done :: "u_char \<Rightarrow> 64 word \<Rightarrow> nat \<Rightarrow> header_line \<Rightarrow> hl_out" where
  "hl_sw_almost_done ch hash i r =
    (if ch = c_LF then Exit HL_done (HL_almost_done, hash, i) r
     else if ch = c_CR then Next (HL_almost_done, hash, i) r
     else Exit (HL_return NGX_HTTP_PARSE_INVALID_HEADER) (HL_almost_done, hash, i) r)"

definition hl_sw_header_almost_done :: "u_char \<Rightarrow> 64 word \<Rightarrow> nat \<Rightarrow> header_line \<Rightarrow> hl_out" where
  "hl_sw_header_almost_done ch hash i r =
    (if ch = c_LF then Exit HL_header_done (HL_header_almost_done, hash, i) r
     else Exit (HL_return NGX_HTTP_PARSE_INVALID_HEADER) (HL_header_almost_done, hash, i) r)"

section \<open>The function\<close>

definition hl_step :: "bool \<Rightarrow> (hl_exit, hl_local, header_line) body" where
  "hl_step allow_underscores buf p ch l r =
    (case l of (st, hash, i) \<Rightarrow>
      (case st of
         HL_start \<Rightarrow> hl_sw_start allow_underscores p ch hash i r
       | HL_name \<Rightarrow> hl_sw_name allow_underscores buf p ch hash i r
       | HL_space_before_value \<Rightarrow> hl_sw_space_before_value p ch hash i r
       | HL_value \<Rightarrow> hl_sw_value p ch hash i r
       | HL_space_after_value \<Rightarrow> hl_sw_space_after_value ch hash i r
       | HL_ignore_line \<Rightarrow> hl_sw_ignore_line ch hash i r
       | HL_almost_done \<Rightarrow> hl_sw_almost_done ch hash i r
       | HL_header_almost_done \<Rightarrow> hl_sw_header_almost_done ch hash i r))"

text \<open>
  The four ways out: more bytes needed, a line (\<open>done\<close>), the end of the header
  (\<open>header_done\<close>, which does not store the hash and the index) and an error return, which
  stores nothing. \<open>None\<close> is a fault.
\<close>

definition ngx_http_parse_header_line ::
  "bool \<Rightarrow> header_line \<Rightarrow> ngx_buf \<Rightarrow> (int \<times> header_line \<times> ngx_buf) option" where
  "ngx_http_parse_header_line allow_underscores r b =
    (case byte_loop (hl_step allow_underscores) (mem b) (blast b) (pos b)
            (hl_state r, header_hash r, lowcase_index r) r of
       None \<Rightarrow> None
     | Some (None, (st, hash, i), r', p) \<Rightarrow>
         Some (NGX_AGAIN, r'\<lparr>hl_state := st, header_hash := hash, lowcase_index := i\<rparr>, b\<lparr>pos := p\<rparr>)
     | Some (Some HL_done, (st, hash, i), r', p) \<Rightarrow>
         Some (NGX_OK, r'\<lparr>hl_state := HL_start, header_hash := hash, lowcase_index := i\<rparr>, b\<lparr>pos := p + 1\<rparr>)
     | Some (Some HL_header_done, _, r', p) \<Rightarrow>
         Some (NGX_HTTP_PARSE_HEADER_DONE, r'\<lparr>hl_state := HL_start\<rparr>, b\<lparr>pos := p + 1\<rparr>)
     | Some (Some (HL_return rc), _, r', _) \<Rightarrow> Some (rc, r', b)
     | Some (Some HL_fault, _, r', _) \<Rightarrow> None)"

section \<open>The header element\<close>

text \<open>
  What \<open>ngx_http_process_request_headers\<close> (\<open>http/ngx_http_request.c\<close>) stores for an accepted
  line: the name and the value in the buffer, both terminated there by a null byte, and the
  lower-case name, which is copied from the ring when its length is \<open>lowcase_index\<close> and
  computed otherwise. \<open>None\<close> is a null pointer or a read outside the buffer.
\<close>

record ngx_table_elt =
  elt_hash :: "64 word"
  elt_key :: bytes
  elt_value :: bytes
  elt_lowcase_key :: bytes

definition ngx_http_header_elt :: "bytes \<Rightarrow> header_line \<Rightarrow> (ngx_table_elt \<times> bytes) option" where
  "ngx_http_header_elt buf r =
    (case (header_name_start r, header_name_end r, header_start r, header_end r) of
       (Some s, Some e, Some h, Some k) \<Rightarrow>
         (let len = e - s;
              key = take len (drop s buf);
              buf = buf[s + len := c_NUL];
              vlen = k - h;
              val = take vlen (drop h buf);
              buf = buf[h + vlen := c_NUL]
          in map_option (\<lambda>low. (\<lparr>elt_hash = header_hash r, elt_key = key, elt_value = val, elt_lowcase_key = low\<rparr>, buf))
               (if len = lowcase_index r then
                  (if len \<le> length (lowcase_header r) then Some (take len (lowcase_header r)) else None)
                else ngx_strlow (drop s buf) len))
     | _ \<Rightarrow> None)"

end
