(* ===== verification/Header_Line_Correct.thy ===== *)
theory Header_Line_Correct
  imports Http_Header_Line
begin

text \<open>
  The header-line parser meets its contract: it always returns and stays inside the ring, an
  accepted line has its pointers in order around a name and a trimmed value, the flag, the
  hash and the ring describe the name exactly, well-formed lines read back, and a line may
  arrive in pieces. The element stored from it carries the lower-case name; the last theorem
  shows the case in which it carries another header's.
\<close>

section \<open>The machine\<close>

lemmas hl_sw_defs =
  hl_store_def hl_sw_start_def hl_sw_name_def hl_sw_space_before_value_def hl_sw_value_def
  hl_sw_space_after_value_def hl_sw_ignore_line_def hl_sw_almost_done_def
  hl_sw_header_almost_done_def

text \<open>One equation per state, so that a proof unfolds only the state it is about.\<close>

lemma hl_step_simps [simp]:
  "hl_step au buf p ch (HL_start, hash, i) r = hl_sw_start au p ch hash i r"
  "hl_step au buf p ch (HL_name, hash, i) r = hl_sw_name au buf p ch hash i r"
  "hl_step au buf p ch (HL_space_before_value, hash, i) r = hl_sw_space_before_value p ch hash i r"
  "hl_step au buf p ch (HL_value, hash, i) r = hl_sw_value p ch hash i r"
  "hl_step au buf p ch (HL_space_after_value, hash, i) r = hl_sw_space_after_value ch hash i r"
  "hl_step au buf p ch (HL_ignore_line, hash, i) r = hl_sw_ignore_line ch hash i r"
  "hl_step au buf p ch (HL_almost_done, hash, i) r = hl_sw_almost_done ch hash i r"
  "hl_step au buf p ch (HL_header_almost_done, hash, i) r = hl_sw_header_almost_done ch hash i r"
  by (simp_all add: hl_step_def)

lemma hl_step_no_redo: "hl_step au buf p ch (st, hash, i) r \<noteq> Redo l' r'"
  by (cases st; auto simp: hl_sw_defs Let_def split: option.splits if_splits)

lemma hl_step_local:
  assumes "take (Suc p) buf = take (Suc p) buf'"
  shows "hl_step au buf p ch l r = hl_step au buf' p ch l r"
proof -
  have M: "mem_is buf s (ascii ''HTTP'') = mem_is buf' s (ascii ''HTTP'')" if "p - s = 4" for s
    using assms by (rule mem_is_local) (use that in simp)
  have "hl_sw_name au buf p ch hash i r = hl_sw_name au buf' p ch hash i r" for hash i
  proof (cases "header_name_start r")
    case (Some s)
    have "(p - s = 4 \<and> mem_is buf s (ascii ''HTTP'')) = (p - s = 4 \<and> mem_is buf' s (ascii ''HTTP''))"
      using M [of s] by blast
    then show ?thesis by (simp only: hl_sw_name_def Let_def Some option.case)
  qed (simp only: hl_sw_name_def option.case)
  then show ?thesis by (simp only: hl_step_def)
qed

interpretation hl: byte_machine "hl_step au" "\<lambda>_. 0" for au
  proof
  show "hl_step au buf p ch l r = Redo l' r' \<Longrightarrow> 0 < (0 :: nat)" for buf p ch l r l' r'
    using hl_step_no_redo by (cases l) blast
qed (rule hl_step_local)

section \<open>Header names\<close>

text \<open>
  The bytes a valid header name is made of, and the lower-case form the function stores;
  both without the table of the source.
\<close>

definition header_char :: "bool \<Rightarrow> u_char \<Rightarrow> bool" where
  "header_char allow_underscores ch \<longleftrightarrow>
     is_digit ch \<or> c_A \<le> ch \<and> ch \<le> c_Z \<or> c_a \<le> ch \<and> ch \<le> c_z \<or> ch = c_minus \<or> allow_underscores \<and> ch = c_under"

lemma lowcase_tbl_eq: "lowcase_tbl = map (\<lambda>ch. if header_char False ch then ngx_tolower ch else 0) all_bytes"
  by (simp add: lowcase_tbl_def header_char_def ngx_tolower_def is_digit_def all_bytes_list replicate_numeral)
     (simp add: word_le_nat_alt)

lemma lowcase_eq: "lowcase ch = (if header_char False ch then ngx_tolower ch else 0)"
  by (simp add: lowcase_def lowcase_tbl_eq nth_all_bytes)

lemma lowcase_pos: "header_char False ch \<Longrightarrow> ngx_tolower ch \<noteq> 0"
  by (auto simp: header_char_def ngx_tolower_def is_digit_def or_eq_0_iff)

text \<open>
  What the name read so far, \<open>name\<close>, leaves in \<open>invalid_header\<close>, the hash, the index and the
  ring: unless a byte was invalid, the hash and the ring are those of the lower-case name.
\<close>

definition hl_named :: "bool \<Rightarrow> bytes \<Rightarrow> bool \<Rightarrow> 64 word \<Rightarrow> nat \<Rightarrow> bytes \<Rightarrow> bool" where
  "hl_named au name bad hash i lc \<longleftrightarrow>
     (bad \<longleftrightarrow> \<not> list_all (header_char au) name) \<and>
     (\<not> bad \<longrightarrow> hash = foldl ngx_hash 0 (map ngx_tolower name) \<and> i = length name mod 32 \<and>
        (length name \<le> 32 \<longrightarrow> take (length name) lc = map ngx_tolower name))"

lemma hl_named_first:
  "header_char au ch \<Longrightarrow> length lc = 32 \<Longrightarrow>
     hl_named au [ch] False (ngx_hash 0 (ngx_tolower ch)) 1 (lc[0 := ngx_tolower ch])"
  by (cases lc) (simp_all add: hl_named_def)

lemma hl_named_snoc:
  assumes "hl_named au name bad hash i lc" and "header_char au ch" and "length lc = 32"
  shows "hl_named au (name @ [ch]) bad (ngx_hash hash (ngx_tolower ch)) (Suc i mod 32) (lc[i := ngx_tolower ch])"
proof -
  have "take (Suc n) (lc[n := c]) = take n lc @ [c]" if "n < 32" for n c
    using that assms(3) by (simp add: take_Suc_conv_app_nth)
  then show ?thesis
    using assms by (auto simp: hl_named_def mod_Suc_eq)
qed

lemma hl_named_bad: "hl_named au name bad hash i lc \<Longrightarrow> \<not> header_char au ch \<Longrightarrow> hl_named au (name @ [ch]) True hash i lc"
  by (simp add: hl_named_def)


section \<open>Shape invariant\<close>

definition no_ctl :: "bytes \<Rightarrow> nat \<Rightarrow> nat \<Rightarrow> bool" where
  "no_ctl = between (\<lambda>c. c \<noteq> c_CR \<and> c \<noteq> c_LF \<and> c \<noteq> c_NUL)"

text \<open>
  The name from \<open>s\<close> to \<open>e\<close>: not empty, on one line, without a colon after its first byte,
  and what the function has recorded of it.
\<close>

definition hl_name_ok :: "bool \<Rightarrow> bytes \<Rightarrow> nat \<Rightarrow> nat \<Rightarrow> 64 word \<Rightarrow> nat \<Rightarrow> header_line \<Rightarrow> bool" where
  "hl_name_ok au buf s e hash i r \<longleftrightarrow> s < e \<and> no_ctl buf s e \<and> between (\<lambda>c. c \<noteq> c_colon) buf (Suc s) e \<and>
     hl_named au (cut buf s e) (invalid_header r) hash i (lowcase_header r)"

text \<open>The name is closed at \<open>e\<close> by a colon, and only spaces separate it from position \<open>p\<close>.\<close>

definition hl_colon :: "bytes \<Rightarrow> nat \<Rightarrow> nat \<Rightarrow> bool" where
  "hl_colon buf e p \<longleftrightarrow> e < p \<and> buf ! e = c_colon \<and> between (\<lambda>c. c = c_space) buf (Suc e) p"

text \<open>The value from \<open>h\<close> to \<open>k\<close> is on one line and neither starts nor ends with a space.\<close>

definition hl_value_ok :: "bytes \<Rightarrow> nat \<Rightarrow> nat \<Rightarrow> bool" where
  "hl_value_ok buf h k \<longleftrightarrow> h < k \<and> no_ctl buf h k \<and> buf ! h \<noteq> c_space \<and> buf ! (k - 1) \<noteq> c_space"

definition hl_line :: "bytes \<Rightarrow> nat \<Rightarrow> nat \<Rightarrow> nat \<Rightarrow> nat \<Rightarrow> bool" where
  "hl_line buf e h k p \<longleftrightarrow>
     (e = h \<and> h = k \<or> hl_colon buf e h \<and> (h = k \<or> hl_value_ok buf h k)) \<and> k \<le> p \<and>
     between (\<lambda>c. c = c_space \<or> c = c_CR) buf k p"

definition hl_inv :: "bool \<Rightarrow> bytes \<Rightarrow> nat \<Rightarrow> nat \<Rightarrow> hl_local \<Rightarrow> header_line \<Rightarrow> bool" where
  "hl_inv au buf p0 p l r \<longleftrightarrow> (case l of (st, hash, i) \<Rightarrow>
     p0 \<le> p \<and> i < 32 \<and> length (lowcase_header r) = 32 \<and>
     (st \<noteq> HL_start \<longrightarrow> header_name_start r \<noteq> None \<and> p0 \<le> the (header_name_start r) \<and> the (header_name_start r) < p) \<and>
     (st = HL_name \<longrightarrow> hl_name_ok au buf (the (header_name_start r)) p hash i r) \<and>
     (st \<in> {HL_space_before_value, HL_value, HL_space_after_value, HL_almost_done} \<longrightarrow>
        header_name_end r \<noteq> None \<and> the (header_name_end r) < p \<and>
        hl_name_ok au buf (the (header_name_start r)) (the (header_name_end r)) hash i r) \<and>
     (st = HL_space_before_value \<longrightarrow> hl_colon buf (the (header_name_end r)) p) \<and>
     (st \<in> {HL_value, HL_space_after_value, HL_almost_done} \<longrightarrow> header_start r \<noteq> None) \<and>
     (st = HL_value \<longrightarrow> hl_colon buf (the (header_name_end r)) (the (header_start r)) \<and> hl_value_ok buf (the (header_start r)) p) \<and>
     (st \<in> {HL_space_after_value, HL_almost_done} \<longrightarrow> header_end r \<noteq> None \<and>
        hl_line buf (the (header_name_end r)) (the (header_start r)) (the (header_end r)) p) \<and>
     (st = HL_space_after_value \<longrightarrow> the (header_start r) < the (header_end r) \<and>
        between (\<lambda>c. c = c_space) buf (the (header_end r)) p) \<and>
     (st = HL_header_almost_done \<longrightarrow> header_end r = header_name_start r \<and> Suc (the (header_name_start r)) = p \<and> buf ! (p - 1) = c_CR))"

definition hl_post :: "bool \<Rightarrow> bytes \<Rightarrow> nat \<Rightarrow> hl_exit \<Rightarrow> nat \<Rightarrow> hl_local \<Rightarrow> header_line \<Rightarrow> bool" where
  "hl_post au buf p0 x p l r \<longleftrightarrow>
    (case x of
       HL_fault \<Rightarrow> False
     | HL_return rc \<Rightarrow> rc = NGX_HTTP_PARSE_INVALID_HEADER
     | HL_header_done \<Rightarrow> header_name_start r \<noteq> None \<and> header_end r = header_name_start r \<and> p0 \<le> the (header_name_start r) \<and>
         buf ! p = c_LF \<and> (the (header_name_start r) = p \<or> Suc (the (header_name_start r)) = p \<and> buf ! (p - 1) = c_CR)
     | HL_done \<Rightarrow> header_name_start r \<noteq> None \<and> header_name_end r \<noteq> None \<and> header_start r \<noteq> None \<and> header_end r \<noteq> None \<and>
         p0 \<le> the (header_name_start r) \<and> buf ! p = c_LF \<and> length (lowcase_header r) = 32 \<and>
         (case l of (st, hash, i) \<Rightarrow> i < 32 \<and> hl_name_ok au buf (the (header_name_start r)) (the (header_name_end r)) hash i r) \<and>
         hl_line buf (the (header_name_end r)) (the (header_start r)) (the (header_end r)) p)"

lemma hl_name_ok_snoc:
  assumes "hl_name_ok au buf s p hash i r" and "p < length buf" and "header_char au (buf ! p)" and "length (lowcase_header r) = 32"
  shows "hl_name_ok au buf s (Suc p) (ngx_hash hash (ngx_tolower (buf ! p))) (Suc i mod 32)
    (r\<lparr>lowcase_header := (lowcase_header r)[i := ngx_tolower (buf ! p)]\<rparr>)"
proof -
  have "buf ! p \<notin> {c_CR, c_LF, c_NUL, c_colon}"
    using assms(3) by (auto simp: header_char_def is_digit_def)
  with assms hl_named_snoc show ?thesis
    by (auto simp: hl_name_ok_def no_ctl_def cut_snoc)
qed

lemma hl_name_ok_bad:
  assumes "hl_name_ok au buf s p hash i r" and "p < length buf" and "\<not> header_char au (buf ! p)"
    and "buf ! p \<noteq> c_CR" "buf ! p \<noteq> c_LF" "buf ! p \<noteq> c_NUL" "buf ! p \<noteq> c_colon"
  shows "hl_name_ok au buf s (Suc p) hash i (r\<lparr>invalid_header := True\<rparr>)"
  using assms hl_named_bad by (auto simp: hl_name_ok_def no_ctl_def cut_snoc)

lemma hl_name_ok_frame [simp]:
  "hl_name_ok au buf s e hash i (r\<lparr>header_name_end := x\<rparr>) = hl_name_ok au buf s e hash i r"
  "hl_name_ok au buf s e hash i (r\<lparr>header_start := x\<rparr>) = hl_name_ok au buf s e hash i r"
  "hl_name_ok au buf s e hash i (r\<lparr>header_end := x\<rparr>) = hl_name_ok au buf s e hash i r"
  by (simp_all add: hl_name_ok_def)

lemma header_char_cases: "header_char au ch \<longleftrightarrow> lowcase ch \<noteq> 0 \<or> ch = c_under \<and> au"
  using lowcase_pos [of ch] by (auto simp: lowcase_eq header_char_def)

lemma lowcase_tolower: "lowcase ch \<noteq> 0 \<Longrightarrow> lowcase ch = ngx_tolower ch"
  by (simp add: lowcase_eq split: if_splits)

lemma tolower_under [simp]: "ngx_tolower c_under = c_under"
  by (simp add: ngx_tolower_def)

definition hl_goal where
  "hl_goal au buf p0 p out \<longleftrightarrow> (case out of
     Next l r \<Rightarrow> hl_inv au buf p0 (Suc p) l r | Redo l r \<Rightarrow> hl_inv au buf p0 p l r | Exit x l r \<Rightarrow> hl_post au buf p0 x p l r)"

lemma hl_inv_start:
  assumes "hl_inv au buf p0 p (HL_start, hash, i) r" and "p < length buf"
  shows "hl_goal au buf p0 p (hl_sw_start au p (buf ! p) hash i r)"
proof -
  have 1: "hl_name_ok au buf p (Suc p) (ngx_hash 0 (ngx_tolower (buf ! p))) 1
      (r\<lparr>header_name_start := Some p, invalid_header := False, lowcase_header := (lowcase_header r)[0 := ngx_tolower (buf ! p)]\<rparr>)"
    if "header_char au (buf ! p)"
  proof -
    have "buf ! p \<notin> {c_CR, c_LF, c_NUL, c_colon}"
      using that by (auto simp: header_char_def is_digit_def)
    with assms that hl_named_first show ?thesis
      by (auto simp: hl_inv_def hl_name_ok_def no_ctl_def cut_snoc)
  qed
  have 2: "hl_name_ok au buf p (Suc p) hash i (r\<lparr>header_name_start := Some p, invalid_header := True\<rparr>)"
    if "\<not> header_char au (buf ! p)" "buf ! p \<noteq> c_CR" "buf ! p \<noteq> c_LF" "buf ! p \<noteq> c_NUL"
    using that assms(2) by (auto simp: hl_name_ok_def no_ctl_def cut_snoc hl_named_def)
  show ?thesis
    using assms 1 2
    by (auto simp: hl_goal_def hl_inv_def hl_post_def hl_sw_start_def Let_def header_char_cases lowcase_tolower split: if_splits)
qed

lemma hl_sw_name_valid:
  "header_char au ch \<Longrightarrow> hl_sw_name au buf p ch hash i r = hl_store (ngx_tolower ch) hash i r"
  by (auto simp: hl_sw_name_def Let_def header_char_cases lowcase_tolower)

lemma header_char_special [simp]:
  "\<not> header_char au c_colon" "\<not> header_char au c_CR" "\<not> header_char au c_LF" "\<not> header_char au c_NUL"
  "\<not> header_char au c_slash"
  by (auto simp: header_char_def is_digit_def word_le_nat_alt)

lemma hl_inv_name:
  assumes "hl_inv au buf p0 p (HL_name, hash, i) r" and "p < length buf"
  shows "hl_goal au buf p0 p (hl_sw_name au buf p (buf ! p) hash i r)"
proof -
  obtain s where s: "header_name_start r = Some s" using assms(1) by (auto simp: hl_inv_def)
  have n: "hl_name_ok au buf s p hash i r" and l: "length (lowcase_header r) = 32" "i < 32" "p0 \<le> s" "s < p"
    using assms(1) s by (auto simp: hl_inv_def)
  show ?thesis
  proof (cases "header_char au (buf ! p)")
    case True
    with hl_name_ok_snoc [OF n assms(2) True l(1)] l s show ?thesis
      by (simp add: hl_sw_name_valid hl_store_def hl_goal_def hl_inv_def)
  next
    case False
    then have z: "lowcase (buf ! p) = 0" "\<not> (buf ! p = c_under \<and> au)" by (auto simp: header_char_cases)
    consider (colon) "buf ! p = c_colon" | (cr) "buf ! p = c_CR" | (lf) "buf ! p = c_LF" | (nul) "buf ! p = c_NUL"
      | (other) "buf ! p \<noteq> c_colon" "buf ! p \<noteq> c_CR" "buf ! p \<noteq> c_LF" "buf ! p \<noteq> c_NUL" by blast
    then show ?thesis
    proof cases
      case other
      with hl_name_ok_bad [OF n assms(2) False] l s z show ?thesis
        by (cases au) (simp_all add: hl_sw_name_def hl_goal_def hl_inv_def Let_def del: ascii_simps)
    qed (use n l s z in \<open>simp_all add: hl_sw_name_def hl_goal_def hl_inv_def hl_post_def hl_line_def hl_colon_def Let_def
       del: ascii_simps\<close>)
  qed
qed

lemma hl_value_ok_start: "buf ! p \<noteq> c_CR \<Longrightarrow> buf ! p \<noteq> c_LF \<Longrightarrow> buf ! p \<noteq> c_NUL \<Longrightarrow> buf ! p \<noteq> c_space \<Longrightarrow> hl_value_ok buf p (Suc p)"
  by (simp add: hl_value_ok_def no_ctl_def)

lemma hl_value_ok_less: "hl_value_ok buf h k \<Longrightarrow> h < k"
  by (simp add: hl_value_ok_def)

lemma hl_value_ok_Suc: "hl_value_ok buf h p \<Longrightarrow> buf ! p \<noteq> c_CR \<Longrightarrow> buf ! p \<noteq> c_LF \<Longrightarrow> buf ! p \<noteq> c_NUL \<Longrightarrow> buf ! p \<noteq> c_space \<Longrightarrow>
   hl_value_ok buf h (Suc p)"
  by (simp add: hl_value_ok_def no_ctl_def)

lemma hl_value_ok_spaces:
  assumes "hl_value_ok buf h k" and "between (\<lambda>c. c = c_space) buf k p" and "k \<le> p"
    and "buf ! p \<noteq> c_CR" "buf ! p \<noteq> c_LF" "buf ! p \<noteq> c_NUL" "buf ! p \<noteq> c_space"
  shows "hl_value_ok buf h (Suc p)"
proof -
  have "buf ! j \<notin> {c_CR, c_LF, c_NUL}" if "h \<le> j" "j < p" for j
  proof (cases "j < k")
    case True
    with assms(1) that show ?thesis by (auto simp: hl_value_ok_def no_ctl_def between_def)
  next
    case False
    with assms(2) that have "buf ! j = c_space" by (auto simp: between_def)
    then show ?thesis by simp
  qed
  with assms show ?thesis by (auto simp: hl_value_ok_def no_ctl_def between_def less_Suc_eq)
qed

lemma hl_colon_Suc: "hl_colon buf e p \<Longrightarrow> buf ! p = c_space \<Longrightarrow> hl_colon buf e (Suc p)"
  by (simp add: hl_colon_def)

lemma hl_inv_value:
  assumes "hl_inv au buf p0 p (st, hash, i) r" and "st \<in> {HL_space_before_value, HL_value}"
  shows "hl_goal au buf p0 p (hl_step au buf p (buf ! p) (st, hash, i) r)"
  using assms 
  by (elim insertE; auto simp: hl_goal_def hl_inv_def hl_post_def hl_sw_space_before_value_def hl_sw_value_def hl_line_def
    intro: hl_value_ok_start hl_value_ok_less hl_value_ok_Suc hl_colon_Suc)

lemma hl_inv_tail:
  assumes "hl_inv au buf p0 p (st, hash, i) r"
    and "st \<in> {HL_space_after_value, HL_ignore_line, HL_almost_done, HL_header_almost_done}"
  shows "hl_goal au buf p0 p (hl_step au buf p (buf ! p) (st, hash, i) r)"
  using assms 
  by (elim insertE; auto simp: hl_goal_def hl_inv_def hl_post_def hl_sw_space_after_value_def hl_sw_ignore_line_def
    hl_sw_almost_done_def hl_sw_header_almost_done_def hl_line_def intro: hl_value_ok_spaces)

lemma hl_inv_step:
  assumes "hl_inv au buf p0 p l r" and "p < length buf"
  shows "case hl_step au buf p (buf ! p) l r of
     Next l r \<Rightarrow> hl_inv au buf p0 (Suc p) l r | Redo l r \<Rightarrow> hl_inv au buf p0 p l r | Exit x l r \<Rightarrow> hl_post au buf p0 x p l r"
proof -
  obtain st hash i where l: "l = (st, hash, i)" by (cases l)
  note inv = assms(1) [unfolded l]
  have "hl_goal au buf p0 p (hl_step au buf p (buf ! p) l r)"
    using hl_inv_start [of au buf p0 p hash i r] hl_inv_name [of au buf p0 p hash i r] assms(2) inv
      hl_inv_value [OF inv] hl_inv_tail [OF inv]
    unfolding l by (cases st) simp_all
  then show ?thesis by (simp add: hl_goal_def)
qed

lemma hl_run:
  assumes "hl_state r = HL_start" and "lowcase_index r < 32" and "length (lowcase_header r) = 32" and "buf_ok b"
  obtains l r' p where "byte_loop (hl_step au) (mem b) (blast b) (pos b) (hl_state r, header_hash r, lowcase_index r) r = Some (None, l, r', p)"
      and "hl_inv au (mem b) (pos b) p l r'"
  | x l r' p where "byte_loop (hl_step au) (mem b) (blast b) (pos b) (hl_state r, header_hash r, lowcase_index r) r = Some (Some x, l, r', p)"
      and "hl_post au (mem b) (pos b) x p l r'" and "p < blast b"
proof -
  obtain x l r' p where L: "byte_loop (hl_step au) (mem b) (blast b) (pos b) (hl_state r, header_hash r, lowcase_index r) r = Some (x, l, r', p)"
    using hl.loop_total by blast
  have "case x of None \<Rightarrow> hl_inv au (mem b) (pos b) p l r' | Some y \<Rightarrow> hl_post au (mem b) (pos b) y p l r'"
  proof (rule hl.loop_invariant_local [OF L])
    show "hl_inv au (mem b) (pos b) (pos b) (hl_state r, header_hash r, lowcase_index r) r"
      using assms by (simp add: hl_inv_def)
  qed (use assms(4) in \<open>auto intro: hl_inv_step simp: buf_ok_def\<close>)
  with L that hl.loop_position [OF L] show thesis by (cases x) auto
qed

text \<open>
  parsing a header line always returns, writes only inside the 32 bytes of the
  lower-case ring and reads through no null pointer, and its return code is one of the four
  the callers handle; the ring keeps its length and the index stays inside it.
\<close>

lemma header_line_total:
  assumes "hl_state r = HL_start" and "lowcase_index r < 32" and "length (lowcase_header r) = 32" and "buf_ok b"
  shows "\<exists>rc r' b'. ngx_http_parse_header_line au r b = Some (rc, r', b') \<and>
     rc \<in> {NGX_OK, NGX_AGAIN, NGX_HTTP_PARSE_HEADER_DONE, NGX_HTTP_PARSE_INVALID_HEADER} \<and>
     (rc = NGX_OK \<or> rc = NGX_AGAIN \<longrightarrow> lowcase_index r' < 32 \<and> length (lowcase_header r') = 32)"
  using assms
proof (cases rule: hl_run [where au = au])
  case (1 l r' p)
  then show ?thesis by (cases l) (simp add: ngx_http_parse_header_line_def hl_inv_def)
next
  case (2 x l r' p)
  then show ?thesis
    by (cases l; cases x) (auto simp: ngx_http_parse_header_line_def hl_post_def)
qed


text \<open>
  Claim C19: \<open>invalid_header\<close> tells whether the name of an accepted line holds a byte that is not
  a letter, a digit, a minus or, where they are allowed, an underscore. When it does not, the
  hash is that of the lower-case name, \<open>lowcase_index\<close> its length modulo 32 and the ring holds
  the lower-case name if it fits.
\<close>

theorem header_line_name:
  assumes "hl_state r = HL_start" and "lowcase_index r < 32" and "length (lowcase_header r) = 32" and "buf_ok b"
    and "ngx_http_parse_header_line au r b = Some (NGX_OK, r', b')"
  defines "name \<equiv> cut (mem b) (the (header_name_start r')) (the (header_name_end r'))"
  shows "(invalid_header r' \<longleftrightarrow> \<not> list_all (header_char au) name) \<and>
    (\<not> invalid_header r' \<longrightarrow> header_hash r' = foldl ngx_hash 0 (map ngx_tolower name) \<and>
       lowcase_index r' = length name mod 32 \<and>
       (length name \<le> 32 \<longrightarrow> take (length name) (lowcase_header r') = map ngx_tolower name))"
  using assms(1-4)
proof (cases rule: hl_run [where au = au])
  case (1 l r1 p)
  then show ?thesis using assms(5) by (cases l) (simp add: ngx_http_parse_header_line_def)
next
  case (2 x l r1 p)
  then have "x = HL_done" and "r' = r1\<lparr>hl_state := HL_start, header_hash := fst (snd l), lowcase_index := snd (snd l)\<rparr>"
    using assms(5) by (cases l; cases x; auto simp: ngx_http_parse_header_line_def hl_post_def)+
  with 2(2) show ?thesis
    unfolding name_def by (cases l) (auto simp: hl_post_def hl_name_ok_def hl_named_def)
qed

section \<open>Resumption\<close>

text \<open>What \<open>r->state\<close>, \<open>r->header_hash\<close> and \<open>r->lowcase_index\<close> hold has no influence inside the loop.\<close>

definition hl_save :: "hl_local \<Rightarrow> header_line \<Rightarrow> header_line" where
  "hl_save l r = r\<lparr>hl_state := fst l, header_hash := fst (snd l), lowcase_index := snd (snd l)\<rparr>"

lemma hl_save_simps [simp]:
  "header_name_start (hl_save l r) = header_name_start r" "header_name_end (hl_save l r) = header_name_end r"
  "header_start (hl_save l r) = header_start r" "header_end (hl_save l r) = header_end r"
  "invalid_header (hl_save l r) = invalid_header r" "upstream (hl_save l r) = upstream r"
  "lowcase_header (hl_save l r) = lowcase_header r" "hl_state (hl_save l r) = fst l"
  "header_hash (hl_save l r) = fst (snd l)" "lowcase_index (hl_save l r) = snd (snd l)"
  "hl_save l (hl_save l' r) = hl_save l r"
  by (simp_all add: hl_save_def)

lemma hl_save_upd:
  "(hl_save l r)\<lparr>header_name_start := x\<rparr> = hl_save l (r\<lparr>header_name_start := x\<rparr>)"
  "(hl_save l r)\<lparr>header_name_end := x\<rparr> = hl_save l (r\<lparr>header_name_end := x\<rparr>)"
  "(hl_save l r)\<lparr>header_start := x\<rparr> = hl_save l (r\<lparr>header_start := x\<rparr>)"
  "(hl_save l r)\<lparr>header_end := x\<rparr> = hl_save l (r\<lparr>header_end := x\<rparr>)"
  "(hl_save l r)\<lparr>invalid_header := y\<rparr> = hl_save l (r\<lparr>invalid_header := y\<rparr>)"
  "(hl_save l r)\<lparr>lowcase_header := z\<rparr> = hl_save l (r\<lparr>lowcase_header := z\<rparr>)"
  by (simp_all add: hl_save_def)

lemma hl_step_frame:
  "hl_step au buf p ch l (hl_save k r) = map_outcome id id (hl_save k) (hl_step au buf p ch l r)"
proof (cases l)
  case (fields st hash i)
  then show ?thesis
    by (cases st; simp add: hl_sw_defs hl_save_upd Let_def if_distrib [of "map_outcome id id (hl_save k)"]
        option.case_distrib [of "map_outcome id id (hl_save k)"] del: ascii_simps split del: if_split
        cong: if_cong option.case_cong)
qed

text \<open>The function in terms of \<open>hl_save\<close>.\<close>

lemma parse_header_line_eq:
  "ngx_http_parse_header_line au r b =
    (case byte_loop (hl_step au) (mem b) (blast b) (pos b) (hl_state r, header_hash r, lowcase_index r) r of
       None \<Rightarrow> None
     | Some (x, l, r', p) \<Rightarrow> (case x of
           None \<Rightarrow> Some (NGX_AGAIN, hl_save l r', b\<lparr>pos := p\<rparr>)
         | Some HL_done \<Rightarrow> Some (NGX_OK, hl_save (HL_start, snd l) r', b\<lparr>pos := p + 1\<rparr>)
         | Some HL_header_done \<Rightarrow> Some (NGX_HTTP_PARSE_HEADER_DONE, r'\<lparr>hl_state := HL_start\<rparr>, b\<lparr>pos := p + 1\<rparr>)
         | Some (HL_return rc) \<Rightarrow> Some (rc, r', b)
         | Some HL_fault \<Rightarrow> None))"
  by (auto simp: ngx_http_parse_header_line_def hl_save_def split: option.splits hl_exit.splits)

text \<open>
  Two results agree: the same code, fields and buffer. At the end of the header the source
  does not store the hash and the index, and after an error neither these nor the state nor
  the position, so they are not compared there.
\<close>

definition hl_same :: "int \<times> header_line \<times> ngx_buf \<Rightarrow> int \<times> header_line \<times> ngx_buf \<Rightarrow> bool" where
  "hl_same x y \<longleftrightarrow> fst x = fst y \<and>
     hl_save (HL_start, 0, 0) (fst (snd x)) = hl_save (HL_start, 0, 0) (fst (snd y)) \<and>
     (fst x \<in> {NGX_OK, NGX_AGAIN} \<longrightarrow> x = y) \<and>
     (fst x = NGX_HTTP_PARSE_HEADER_DONE \<longrightarrow> snd (snd x) = snd (snd y))"

lemma hl_step_return:
  "case hl_step au buf p ch l r of Next s' r' \<Rightarrow> True | Redo s' r' \<Rightarrow> True
     | Exit x s' r' \<Rightarrow> \<forall>rc. x = HL_return rc \<longrightarrow> rc = NGX_HTTP_PARSE_INVALID_HEADER"
proof (cases l)
  case (fields st hash i)
  then show ?thesis
    by (cases st) (auto simp: hl_sw_defs Let_def simp del: ascii_simps split: if_splits option.splits)
qed

lemma hl_loop_return:
  assumes "byte_loop (hl_step au) buf lim p s r = Some (Some (HL_return rc), s', r', q)"
  shows "rc = NGX_HTTP_PARSE_INVALID_HEADER"
  using hl.loop_invariant [OF assms, where I = "\<lambda>_ _ _. True"
      and Q = "\<lambda>x _ _. \<forall>rc. x = HL_return rc \<longrightarrow> rc = NGX_HTTP_PARSE_INVALID_HEADER"] hl_step_return
  by simp

lemma hl_again:
  assumes "ngx_http_parse_header_line au r b = Some (NGX_AGAIN, r1, b1)"
  obtains l r' q where
    "byte_loop (hl_step au) (mem b) (blast b) (pos b) (hl_state r, header_hash r, lowcase_index r) r = Some (None, l, r', q)"
    and "r1 = hl_save l r'" and "b1 = b\<lparr>pos := q\<rparr>"
proof -
  obtain x l r' q where
    L: "byte_loop (hl_step au) (mem b) (blast b) (pos b) (hl_state r, header_hash r, lowcase_index r) r = Some (x, l, r', q)"
    using hl.loop_total by blast
  show thesis
  proof (cases x)
    case None
    with L assms that show thesis by (simp add: parse_header_line_eq)
  next
    case (Some y)
    with L assms show thesis
      by (cases y) (auto simp: parse_header_line_eq dest: hl_loop_return)
  qed
qed

text \<open>
  Claim C34: reading a header line in pieces gives what reading it at once gives: the name, the
  value, the hash and the lower-case ring do not depend on where the packets were cut.
\<close>

theorem header_line_resume:
  assumes "buf_ok b" and "ngx_http_parse_header_line au r b = Some (NGX_AGAIN, r1, b1)"
  shows "rel_option hl_same (ngx_http_parse_header_line au r (buf_receive b xs))
     (ngx_http_parse_header_line au r1 (buf_receive b1 xs))"
proof -
  obtain l r' q where
    L: "byte_loop (hl_step au) (mem b) (blast b) (pos b) (hl_state r, header_hash r, lowcase_index r) r = Some (None, l, r', q)"
    and r1: "r1 = hl_save l r'" and b1: "b1 = b\<lparr>pos := q\<rparr>"
    using hl_again [OF assms(2)] .
  let ?b = "buf_receive b xs"
  note R = hl.loop_receive [OF assms(1) L, of xs]
  have F: "byte_loop (hl_step au) (mem ?b) (blast ?b) q l r1 =
     map_option (map_prod id (map_prod id (map_prod (hl_save l) id)))
       (byte_loop (hl_step au) (mem ?b) (blast ?b) q l r')"
    unfolding r1 by (rule hl.loop_frame) (rule hl_step_frame)
  obtain x l2 r2 q2 where E: "byte_loop (hl_step au) (mem ?b) (blast ?b) q l r' = Some (x, l2, r2, q2)"
    using hl.loop_total by blast
  have S: "(hl_state r1, header_hash r1, lowcase_index r1) = l" by (simp add: r1)
  have P: "pos ?b = pos b" "pos (buf_receive b1 xs) = q" "mem (buf_receive b1 xs) = mem ?b"
      "blast (buf_receive b1 xs) = blast ?b" "\<And>p. (buf_receive b1 xs)\<lparr>pos := p\<rparr> = ?b\<lparr>pos := p\<rparr>"
    by (simp_all add: b1 buf_receive_def)
  have D: "hl_save k (r\<lparr>hl_state := HL_start\<rparr>) = hl_save k r" for k r by (simp add: hl_save_def)
  show ?thesis
  proof (cases x)
    case None
    with R F E show ?thesis
      by (simp add: parse_header_line_eq S P hl_same_def del: buf_receive_simps)
  next
    case (Some y)
    with R F E show ?thesis
      by (cases y) (auto simp: parse_header_line_eq S P D hl_same_def dest: hl_loop_return simp del: buf_receive_simps)
  qed
qed

section \<open>The header element\<close>

text \<open>
  Claim C37: the header element stored for an accepted line with a valid name carries the name
  and the value as they stand in the line, the lower-case name and its hash, whether the
  lower-case name was taken from the ring or computed.
\<close>

theorem header_elt_valid:
  assumes "hl_state r = HL_start" and "lowcase_index r < 32" and "length (lowcase_header r) = 32" and "buf_ok b"
    and "ngx_http_parse_header_line au r b = Some (NGX_OK, r', b')" and "\<not> invalid_header r'"
  shows "\<exists>h buf. ngx_http_header_elt (mem b) r' = Some (h, buf) \<and>
    elt_key h = cut (mem b) (the (header_name_start r')) (the (header_name_end r')) \<and>
    elt_value h = cut (mem b) (the (header_start r')) (the (header_end r')) \<and>
    elt_lowcase_key h = map ngx_tolower (elt_key h) \<and>
    elt_hash h = foldl ngx_hash 0 (elt_lowcase_key h)"
  using assms(1-4)
proof (cases rule: hl_run [where au = au])
  case (1 l r1 p)
  then show ?thesis using assms(5) by (cases l) (simp add: ngx_http_parse_header_line_def)
next
  case (2 x l r1 p)
  then have "x = HL_done" and r': "r' = hl_save (HL_start, snd l) r1"
    using assms(5) by (cases x; auto simp: parse_header_line_eq hl_post_def)+
  with 2 obtain s e h k where 
    ptrs: "header_name_start r1 = Some s" "header_name_end r1 = Some e" "header_start r1 = Some h" "header_end r1 = Some k"
    and l: "snd (snd l) < 32" "length (lowcase_header r1) = 32" and n: "hl_name_ok au (mem b) s e (fst (snd l)) (snd (snd l)) r1"
    and line: "hl_line (mem b) e h k p" and p: "p < length (mem b)"
    using assms(4) by (cases l) (auto simp: hl_post_def buf_ok_def)
  have se: "s < e" "e \<le> h" "h \<le> k" "k \<le> p" using n line by (auto simp: hl_name_ok_def hl_line_def hl_colon_def hl_value_ok_def)
  have e: "length (cut (mem b) s e) = e - s" using se p by simp
  have named: "fst (snd l) = foldl ngx_hash 0 (map ngx_tolower (cut (mem b) s e))" "snd (snd l) = (e - s) mod 32"
    "e - s \<le> 32 \<Longrightarrow> take (e - s) (lowcase_header r1) = map ngx_tolower (cut (mem b) s e)"
    using n assms(6) e by (auto simp: hl_name_ok_def hl_named_def r')
  have low: "cut ((mem b)[e := c_NUL, k := c_NUL]) s e = cut (mem b) s e"
    using se by (simp add: take_drop_update cut_def)
  have val: "cut ((mem b)[e := c_NUL]) h k = cut (mem b) h k"
  proof (cases "h = k")
    case False
    then have "hl_colon (mem b) e h" using line by (auto simp: hl_line_def)
    then have "e < h" by (simp add: hl_colon_def)
    then show ?thesis by (simp add: cut_def)
  qed simp
  show ?thesis
    using se named l p val e
    by (auto simp: ngx_http_header_elt_def r' ptrs Let_def ngx_strlow_eq low cut_def [symmetric])
qed

section \<open>Well-formed lines\<close>

definition header_line_init :: header_line where
  "header_line_init =
    \<lparr>hl_state = HL_start, header_hash = 0, lowcase_index = 0, lowcase_header = replicate 32 0,
     header_name_start = None, header_name_end = None, header_start = None, header_end = None,
     invalid_header = False, upstream = False\<rparr>"

definition header_line_text :: "bytes \<Rightarrow> bytes \<Rightarrow> bytes" where
  "header_line_text name val = name @ c_colon # c_space # val @ [c_CR, c_LF]"

definition header_value :: "bytes \<Rightarrow> bool" where
  "header_value val \<longleftrightarrow> list_all (\<lambda>c. c \<noteq> c_CR \<and> c \<noteq> c_LF \<and> c \<noteq> c_NUL) val \<and>
     (val \<noteq> [] \<longrightarrow> hd val \<noteq> c_space \<and> last val \<noteq> c_space)"

abbreviation "hl_loop au buf \<equiv> byte_loop (hl_step au) buf (length buf)"

lemma hl_eat_name:
  assumes "drop p buf = name @ c_colon # ys" and "list_all (header_char au) name" and "i < 32" and "header_name_start r \<noteq> None"
  shows "\<exists>hash' i' lc. hl_loop au buf p (HL_name, hash, i) r =
     hl_loop au buf (p + length name + 1) (HL_space_before_value, hash', i')
       (r\<lparr>lowcase_header := lc, header_name_end := Some (p + length name)\<rparr>)"
  using assms
proof (induction name arbitrary: p hash i r)
  case Nil
  have "hl_step au buf p c_colon (HL_name, hash, i) r =
      Next (HL_space_before_value, hash, i) (r\<lparr>lowcase_header := lowcase_header r, header_name_end := Some p\<rparr>)"
    by (simp add: hl_sw_name_def lowcase_eq)
  note e = eat_byte(1) [of p buf c_colon ys "hl_step au", OF _ this]
  have "hl_loop au buf p (HL_name, hash, i) r = hl_loop au buf (p + 1) (HL_space_before_value, hash, i)
      (r\<lparr>lowcase_header := lowcase_header r, header_name_end := Some p\<rparr>)"
    using e Nil by simp
  then show ?case unfolding list.size add_0_right by blast
next
  case (Cons ch name)
  have d: "drop p buf = ch # (name @ c_colon # ys)" and ch: "header_char au ch" using Cons.prems by simp_all
  have st: "hl_step au buf p ch (HL_name, hash, i) r =
     Next (HL_name, ngx_hash hash (ngx_tolower ch), Suc i mod 32) (r\<lparr>lowcase_header := (lowcase_header r)[i := ngx_tolower ch]\<rparr>)"
    using ch Cons.prems(3) by (simp add: hl_sw_name_valid hl_store_def)
  note e = eat_byte [OF d, of "hl_step au", OF st]
  from Cons.IH [OF e(2), of "Suc i mod 32" "r\<lparr>lowcase_header := (lowcase_header r)[i := ngx_tolower ch]\<rparr>"] Cons.prems
  show ?case unfolding e(1) by simp
qed

lemma hl_eat_value:
  assumes "drop p buf = val @ [c_CR, c_LF] @ zs" and "list_all (\<lambda>c. c \<noteq> c_CR \<and> c \<noteq> c_LF \<and> c \<noteq> c_NUL) val"
    and "val \<noteq> [] \<longrightarrow> last val \<noteq> c_space" and "st = HL_value \<or> st = HL_space_after_value \<and> val \<noteq> []"
  shows "hl_loop au buf p (st, hash, i) r =
    Some (Some HL_done, (HL_almost_done, hash, i), r\<lparr>header_end := Some (p + length val)\<rparr>, p + length val + 1)"
  using assms
proof (induction val arbitrary: p st r)
  case Nil
  then have d: "drop p buf = c_CR # (c_LF # zs)" and st: "st = HL_value" by simp_all
  have 1: "hl_step au buf p c_CR (HL_value, hash, i) r = Next (HL_almost_done, hash, i) (r\<lparr>header_end := Some p\<rparr>)"
    by (simp add: hl_sw_value_def)
  note e = eat_byte [OF d, of "hl_step au", OF 1]
  have 2: "hl_step au buf (Suc p) c_LF (HL_almost_done, hash, i) (r\<lparr>header_end := Some p\<rparr>) =
     Exit HL_done (HL_almost_done, hash, i) (r\<lparr>header_end := Some p\<rparr>)"
    by (simp add: hl_sw_almost_done_def)
  from e(1) eat_exit [OF e(2), of "hl_step au", OF 2] st show ?case by simp
next
  case (Cons ch val)
  then have d: "drop p buf = ch # (val @ [c_CR, c_LF] @ zs)" and ch: "ch \<noteq> c_CR" "ch \<noteq> c_LF" "ch \<noteq> c_NUL" by simp_all
  have st: "\<exists>st' x. hl_step au buf p ch (st, hash, i) r = Next (st', hash, i) (r\<lparr>header_end := x\<rparr>) \<and>
     (st' = HL_value \<or> st' = HL_space_after_value \<and> val \<noteq> [])"
  proof -
    let ?st = "if ch = c_space then HL_space_after_value else HL_value"
    let ?x = "if ch = c_space \<and> st = HL_value then Some p else header_end r"
    have "hl_step au buf p ch (st, hash, i) r = Next (?st, hash, i) (r\<lparr>header_end := ?x\<rparr>)"
      using Cons.prems(4)
    proof
      assume "st = HL_value"
      then show ?thesis using ch by (simp add: hl_sw_value_def)
    next
      assume "st = HL_space_after_value \<and> ch # val \<noteq> []"
      then show ?thesis using ch by (simp add: hl_sw_space_after_value_def)
    qed
    moreover have "?st = HL_value \<or> ?st = HL_space_after_value \<and> val \<noteq> []" using Cons.prems(3) by auto
    ultimately show ?thesis by blast
  qed
  then obtain st' x where st: "hl_step au buf p ch (st, hash, i) r = Next (st', hash, i) (r\<lparr>header_end := x\<rparr>)"
    and st': "st' = HL_value \<or> st' = HL_space_after_value \<and> val \<noteq> []" by blast
  note e = eat_byte [OF d, of "hl_step au", OF st]
  have "val \<noteq> [] \<longrightarrow> last val \<noteq> c_space" using Cons.prems(3) by (cases "val = []") auto
  with Cons.IH [OF e(2) _ _ st', of "r\<lparr>header_end := x\<rparr>"] Cons.prems(2) show ?case unfolding e(1) by simp
qed

lemma hl_eat_field:
  assumes "drop p buf = val @ [c_CR, c_LF] @ zs" and "header_value val"
  shows "hl_loop au buf p (HL_space_before_value, hash, i) r =
    Some (Some HL_done, (HL_almost_done, hash, i), r\<lparr>header_start := Some p, header_end := Some (p + length val)\<rparr>, p + length val + 1)"
proof (cases val)
  case Nil
  with assms have d: "drop p buf = c_CR # (c_LF # zs)" by simp
  let ?r = "r\<lparr>header_start := Some p, header_end := Some p\<rparr>"
  have 1: "hl_step au buf p c_CR (HL_space_before_value, hash, i) r = Next (HL_almost_done, hash, i) ?r"
    by (simp add: hl_sw_space_before_value_def)
  note e = eat_byte [OF d, of "hl_step au", OF 1]
  have 2: "hl_step au buf (Suc p) c_LF (HL_almost_done, hash, i) ?r = Exit HL_done (HL_almost_done, hash, i) ?r"
    by (simp add: hl_sw_almost_done_def)
  from e(1) eat_exit [OF e(2), of "hl_step au", OF 2] Nil show ?thesis by simp
next
  case (Cons ch vs)
  with assms have d: "drop p buf = ch # (vs @ [c_CR, c_LF] @ zs)" by simp
  have 1: "hl_step au buf p ch (HL_space_before_value, hash, i) r = Next (HL_value, hash, i) (r\<lparr>header_start := Some p\<rparr>)"
    using assms(2) by (auto simp: hl_sw_space_before_value_def header_value_def Cons)
  note e = eat_byte [OF d, of "hl_step au", OF 1]
  have "list_all (\<lambda>c. c \<noteq> c_CR \<and> c \<noteq> c_LF \<and> c \<noteq> c_NUL) vs" "vs \<noteq> [] \<longrightarrow> last vs \<noteq> c_space"
    using assms(2) by (auto simp: header_value_def Cons)
  from hl_eat_value [OF e(2) this, of HL_value] Cons show ?thesis unfolding e(1) by simp
qed

text \<open>
  Claim C36: the text of a header line, with any valid name and any value without control bytes
  and outer spaces, is accepted whole; the name and the value read back are the ones written.
\<close>

theorem header_line_roundtrip:
  assumes name: "name \<noteq> []" "list_all (header_char au) name" and val: "header_value val"
    and b: "mem b = header_line_text name val" "pos b = 0" "blast b = length (mem b)"
    and r: "hl_state r = HL_start" 
  shows "\<exists>r'. ngx_http_parse_header_line au r b = Some (NGX_OK, r', b\<lparr>pos := blast b\<rparr>) \<and>
    cut (mem b) (the (header_name_start r')) (the (header_name_end r')) = name \<and>
    cut (mem b) (the (header_start r')) (the (header_end r')) = val"
proof -
  obtain ch nm where nm: "name = ch # nm" "header_char au ch" "list_all (header_char au) nm" using name by (cases name) auto
  let ?buf = "mem b" and ?r = "r\<lparr>header_name_start := Some 0, invalid_header := False\<rparr>"
  let ?lc = "(lowcase_header r)[0 := ngx_tolower ch]"
  have ne: "ch \<notin> {c_CR, c_LF, c_NUL}" using nm(2) by auto
  have d0: "drop 0 ?buf = ch # (nm @ c_colon # c_space # val @ [c_CR, c_LF])" by (simp add: b header_line_text_def nm)
  have 1: "hl_step au ?buf 0 ch (HL_start, header_hash r, lowcase_index r) r = Next (HL_name, ngx_hash 0 (ngx_tolower ch), 1) (?r\<lparr>lowcase_header := ?lc\<rparr>)"
    using nm(2) ne by (auto simp: hl_sw_start_def Let_def header_char_cases lowcase_tolower)
  note e1 = eat_byte [OF d0, of "hl_step au", OF 1]
  obtain hash i lc where e2: "hl_loop au ?buf 1 (HL_name, ngx_hash 0 (ngx_tolower ch), 1) (?r\<lparr>lowcase_header := ?lc\<rparr>) =
     hl_loop au ?buf (length name + 1) (HL_space_before_value, hash, i)
       (?r\<lparr>lowcase_header := lc, header_name_end := Some (length name)\<rparr>)"
    using hl_eat_name [of 1 ?buf nm "c_space # val @ [c_CR, c_LF]" au 1 "?r\<lparr>lowcase_header := ?lc\<rparr>" "ngx_hash 0 (ngx_tolower ch)"] e1(2) nm
    by auto
  have d2: "drop (length name + 1) ?buf = c_space # (val @ [c_CR, c_LF] @ [])" by (simp add: b header_line_text_def)
  have 3: "hl_step au ?buf (length name + 1) c_space (HL_space_before_value, hash, i) s = Next (HL_space_before_value, hash, i) s" for s
    by (simp add: hl_sw_space_before_value_def)
  note e3 = eat_byte [OF d2, of "hl_step au", OF 3]
  note e4 = hl_eat_field [OF e3(2) val, of au hash i]
  have len: "length (mem b) = length name + length val + 4" by (simp add: b header_line_text_def)
  from e1(1) e2 e3(1) e4 
  have "hl_loop au ?buf 0 (HL_start, header_hash r, lowcase_index r) r = Some (Some HL_done, (HL_almost_done, hash, i),
     ?r\<lparr>lowcase_header := lc, header_name_end := Some (length name), header_start := Some (length name + 2),
        header_end := Some (length name + 2 + length val)\<rparr>, length name + 2 + length val + 1)" by simp
  then show ?thesis
    by (simp add: ngx_http_parse_header_line_def b(2,3) r len cut_def) (simp add: b(1) header_line_text_def)
qed

section \<open>The stale index\<close>

text \<open>
  When the first byte of a name is invalid, \<open>sw_start\<close> neither resets the hash nor the index,
  which then still describe the previous header. Where invalid names are not ignored, the
  caller takes the lower-case name from the ring when the lengths agree, and looks the
  header up under the previous header's name.
\<close>

definition two_headers :: ngx_buf where
  "two_headers = (let s = header_line_text (ascii ''Host'') (ascii ''a'') @ header_line_text (ascii ''@@@@'') (ascii ''b'')
     in \<lparr>mem = s, pos = 0, blast = length s\<rparr>)"

definition second_header :: "(header_line \<times> ngx_table_elt) option" where
  "second_header =
    (case ngx_http_parse_header_line False header_line_init two_headers of
       Some (rc, r, b) \<Rightarrow>
         (case ngx_http_parse_header_line False r b of
            Some (rc, r, b) \<Rightarrow> map_option (\<lambda>h. (r, fst h)) (ngx_http_header_elt (mem b) r)
          | None \<Rightarrow> None)
     | None \<Rightarrow> None)"

text \<open>
  after \<open>Host: a\<close>, the line \<open>@@@@: b\<close> gets the key \<open>@@@@\<close> with the lower-case key
  \<open>host\<close> and the hash of \<open>host\<close>.
\<close>

lemma header_elt_stale:
  "\<exists>r h. second_header = Some (r, h) \<and> invalid_header r \<and> elt_key h = ascii ''@@@@'' \<and>
     elt_lowcase_key h = ascii ''host'' \<and> elt_hash h = foldl ngx_hash 0 (ascii ''host'')"
proof -
  have "case second_header of None \<Rightarrow> False | Some (r, h) \<Rightarrow> invalid_header r \<and> elt_key h = ascii ''@@@@'' \<and>
     elt_lowcase_key h = ascii ''host'' \<and> elt_hash h = foldl ngx_hash 0 (ascii ''host'')"
    by code_simp
  then show ?thesis by (auto split: option.splits)
qed

section \<open>Witnesses\<close>

definition ex_header :: ngx_buf where
  "ex_header = (let s = header_line_text (ascii ''Host'') (ascii ''a'') in \<lparr>mem = s, pos = 0, blast = length s\<rparr>)"

lemma ex_header_ok: "hl_state header_line_init = HL_start" "lowcase_index header_line_init < 32"
  "length (lowcase_header header_line_init) = 32" "buf_ok ex_header"
  by (simp_all add: header_line_init_def buf_ok_def ex_header_def Let_def)

lemma ex_header_parse:
  "\<exists>r'. ngx_http_parse_header_line False header_line_init ex_header = Some (NGX_OK, r', ex_header\<lparr>pos := 9\<rparr>) \<and>
     \<not> invalid_header r' \<and> header_name_start r' = Some 0 \<and> header_name_end r' = Some 4"
proof -
  have "case ngx_http_parse_header_line False header_line_init ex_header of None \<Rightarrow> False
     | Some (rc, r', b') \<Rightarrow> rc = NGX_OK \<and> b' = ex_header\<lparr>pos := 9\<rparr> \<and> \<not> invalid_header r' \<and> header_name_start r' = Some 0 \<and> header_name_end r' = Some 4"
    by code_simp
  then show ?thesis by (auto split: option.splits)
qed

lemma header_line_total_witness:
  "\<exists>rc r' b'. ngx_http_parse_header_line False header_line_init ex_header = Some (rc, r', b') \<and>
     rc \<in> {NGX_OK, NGX_AGAIN, NGX_HTTP_PARSE_HEADER_DONE, NGX_HTTP_PARSE_INVALID_HEADER}"
  using header_line_total [OF ex_header_ok] by blast


lemma header_line_name_witness:
  "\<exists>r'. ngx_http_parse_header_line False header_line_init ex_header = Some (NGX_OK, r', ex_header\<lparr>pos := 9\<rparr>) \<and>
     header_hash r' = foldl ngx_hash 0 (ascii ''host'')"
proof -
  obtain r' where P: "ngx_http_parse_header_line False header_line_init ex_header = Some (NGX_OK, r', ex_header\<lparr>pos := 9\<rparr>)"
    and v: "\<not> invalid_header r'" "header_name_start r' = Some 0" "header_name_end r' = Some 4"
    using ex_header_parse by blast
  have "map ngx_tolower (cut (mem ex_header) 0 4) = ascii ''host''"
    by (simp add: ex_header_def header_line_text_def cut_def ngx_tolower_def Let_def)
  with header_line_name [OF ex_header_ok P] P v show ?thesis by auto
qed

lemma header_line_resume_witness:
  "\<exists>r1 b1. ngx_http_parse_header_line False header_line_init (ex_header\<lparr>blast := 3\<rparr>) = Some (NGX_AGAIN, r1, b1) \<and>
     rel_option hl_same
       (ngx_http_parse_header_line False header_line_init (buf_receive (ex_header\<lparr>blast := 3\<rparr>) (drop 3 (mem ex_header))))
       (ngx_http_parse_header_line False r1 (buf_receive b1 (drop 3 (mem ex_header))))"
proof -
  have "case ngx_http_parse_header_line False header_line_init (ex_header\<lparr>blast := 3\<rparr>) of None \<Rightarrow> False
     | Some (rc, r', b') \<Rightarrow> rc = NGX_AGAIN"
    by code_simp
  then obtain r1 b1 where P: "ngx_http_parse_header_line False header_line_init (ex_header\<lparr>blast := 3\<rparr>) = Some (NGX_AGAIN, r1, b1)"
    by (auto split: option.splits)
  have "buf_ok (ex_header\<lparr>blast := 3\<rparr>)" by (simp add: buf_ok_def ex_header_def header_line_text_def Let_def)
  from header_line_resume [OF this P] P show ?thesis by blast
qed

lemma header_elt_valid_witness:
  "\<exists>r' h buf. ngx_http_parse_header_line False header_line_init ex_header = Some (NGX_OK, r', ex_header\<lparr>pos := 9\<rparr>) \<and>
     ngx_http_header_elt (mem ex_header) r' = Some (h, buf) \<and> elt_lowcase_key h = map ngx_tolower (elt_key h)"
proof -
  obtain r' where P: "ngx_http_parse_header_line False header_line_init ex_header = Some (NGX_OK, r', ex_header\<lparr>pos := 9\<rparr>)"
    and v: "\<not> invalid_header r'"
    using ex_header_parse by blast
  from header_elt_valid [OF ex_header_ok P v] P show ?thesis by blast
qed

lemma header_line_roundtrip_witness:
  "\<exists>r'. ngx_http_parse_header_line False header_line_init ex_header = Some (NGX_OK, r', ex_header\<lparr>pos := blast ex_header\<rparr>) \<and>
    cut (mem ex_header) (the (header_start r')) (the (header_end r')) = ascii ''a''"
  using header_line_roundtrip [of "ascii ''Host''" False "ascii ''a''" ex_header header_line_init]
  by (auto simp: ex_header_def header_line_init_def header_value_def header_char_def Let_def)

end
