(* ===== verification/Http_Status_Line.thy ===== *)
theory Http_Status_Line
  imports Http_Common
begin

text \<open>
  \<open>ngx_http_parse_status_line\<close> of \<open>http/ngx_http_parse.c\<close>: the status line
  \<open>HTTP/x.y SP code [SP text] CRLF\<close> of an upstream's response, read incrementally.
\<close>

section \<open>State\<close>

datatype sl_state =
    SL_start | SL_H | SL_HT | SL_HTT | SL_HTTP | SL_first_major_digit | SL_major_digit
  | SL_first_minor_digit | SL_minor_digit | SL_status | SL_space_after_status | SL_status_text
  | SL_almost_done

text \<open>
  The fields of the request (\<open>state\<close> and the two 16-bit version fields) and of
  \<open>ngx_http_status_t\<close> (from \<open>status_version\<close> on) the function uses.
\<close>

record status_line =
  sl_state :: sl_state
  sl_major :: "16 word"
  sl_minor :: "16 word"
  status_version :: nat
  status_code :: "64 word"
  status_count :: "64 word"
  status_start :: ptr
  status_end :: ptr

text \<open>A structure that has been zeroed by \<open>ngx_pcalloc\<close> or by \<open>ngx_http_proxy_reinit_request\<close>.\<close>

definition status_line_init :: status_line where
  "status_line_init =
    \<lparr>sl_state = SL_start, sl_major = 0, sl_minor = 0, status_version = 0, status_code = 0,
     status_count = 0, status_start = None, status_end = None\<rparr>"

datatype sl_exit = SL_done | SL_return int

type_synonym sl_out = "(sl_exit, sl_state, status_line) outcome"

section \<open>The states\<close>

text \<open>The states that expect one character: \<open>sw_start\<close> to \<open>sw_HTTP\<close>.\<close>

definition sl_expect :: "u_char \<Rightarrow> sl_state \<Rightarrow> sl_state \<Rightarrow> u_char \<Rightarrow> status_line \<Rightarrow> sl_out" where
  "sl_expect want from to ch r = (if ch = want then Next to r else Exit (SL_return NGX_ERROR) from r)"

definition sl_sw_start :: "u_char \<Rightarrow> status_line \<Rightarrow> sl_out" where
  "sl_sw_start = sl_expect c_H SL_start SL_H"

definition sl_sw_H :: "u_char \<Rightarrow> status_line \<Rightarrow> sl_out" where
  "sl_sw_H = sl_expect c_T SL_H SL_HT"

definition sl_sw_HT :: "u_char \<Rightarrow> status_line \<Rightarrow> sl_out" where
  "sl_sw_HT = sl_expect c_T SL_HT SL_HTT"

definition sl_sw_HTT :: "u_char \<Rightarrow> status_line \<Rightarrow> sl_out" where
  "sl_sw_HTT = sl_expect c_P SL_HTT SL_HTTP"

definition sl_sw_HTTP :: "u_char \<Rightarrow> status_line \<Rightarrow> sl_out" where
  "sl_sw_HTTP = sl_expect c_slash SL_HTTP SL_first_major_digit"

text \<open>The HTTP version.\<close>

definition sl_sw_first_major_digit :: "u_char \<Rightarrow> status_line \<Rightarrow> sl_out" where
  "sl_sw_first_major_digit ch r =
    (if ch < c_1 \<or> ch > c_9 then Exit (SL_return NGX_ERROR) SL_first_major_digit r
     else Next SL_major_digit (r\<lparr>sl_major := ucast ch - 48\<rparr>))"

definition sl_sw_major_digit :: "u_char \<Rightarrow> status_line \<Rightarrow> sl_out" where
  "sl_sw_major_digit ch r =
    (if ch = c_dot then Next SL_first_minor_digit r
     else if ch < c_0 \<or> ch > c_9 then Exit (SL_return NGX_ERROR) SL_major_digit r
     else Next SL_major_digit (r\<lparr>sl_major := sl_major r * 10 + ucast ch - 48\<rparr>))"

definition sl_sw_first_minor_digit :: "u_char \<Rightarrow> status_line \<Rightarrow> sl_out" where
  "sl_sw_first_minor_digit ch r =
    (if ch < c_0 \<or> ch > c_9 then Exit (SL_return NGX_ERROR) SL_first_minor_digit r
     else Next SL_minor_digit (r\<lparr>sl_minor := ucast ch - 48\<rparr>))"

definition sl_sw_minor_digit :: "u_char \<Rightarrow> status_line \<Rightarrow> sl_out" where
  "sl_sw_minor_digit ch r =
    (if ch = c_space then Next SL_status r
     else if ch < c_0 \<or> ch > c_9 then Exit (SL_return NGX_ERROR) SL_minor_digit r
     else Next SL_minor_digit (r\<lparr>sl_minor := sl_minor r * 10 + ucast ch - 48\<rparr>))"

text \<open>The HTTP status code: three digits, each of which may be preceded by spaces.\<close>

definition sl_sw_status :: "nat \<Rightarrow> u_char \<Rightarrow> status_line \<Rightarrow> sl_out" where
  "sl_sw_status p ch r =
    (if ch = c_space then Next SL_status r
     else if ch < c_0 \<or> ch > c_9 then Exit (SL_return NGX_ERROR) SL_status r
     else
       (let r = r\<lparr>status_code := status_code r * 10 + ucast ch - 48, status_count := status_count r + 1\<rparr> in
        if status_count r = 3 then Next SL_space_after_status (r\<lparr>status_start := Some (p - 2)\<rparr>)
        else Next SL_status r))"

definition sl_sw_space_after_status :: "u_char \<Rightarrow> status_line \<Rightarrow> sl_out" where
  "sl_sw_space_after_status ch r =
    (if ch = c_space then Next SL_status_text r
     else if ch = c_dot then Next SL_status_text r
     else if ch = c_CR then Next SL_almost_done r
     else if ch = c_LF then Exit SL_done SL_space_after_status r
     else Exit (SL_return NGX_ERROR) SL_space_after_status r)"

definition sl_sw_status_text :: "u_char \<Rightarrow> status_line \<Rightarrow> sl_out" where
  "sl_sw_status_text ch r =
    (if ch = c_CR then Next SL_almost_done r
     else if ch = c_LF then Exit SL_done SL_status_text r
     else Next SL_status_text r)"

definition sl_sw_almost_done :: "nat \<Rightarrow> u_char \<Rightarrow> status_line \<Rightarrow> sl_out" where
  "sl_sw_almost_done p ch r =
    (let r = r\<lparr>status_end := Some (p - 1)\<rparr> in
     if ch = c_LF then Exit SL_done SL_almost_done r
     else Exit (SL_return NGX_ERROR) SL_almost_done r)"

section \<open>The function\<close>

definition sl_step :: "(sl_exit, sl_state, status_line) body" where
  "sl_step buf p ch st r =
    (case st of
       SL_start \<Rightarrow> sl_sw_start ch r
     | SL_H \<Rightarrow> sl_sw_H ch r
     | SL_HT \<Rightarrow> sl_sw_HT ch r
     | SL_HTT \<Rightarrow> sl_sw_HTT ch r
     | SL_HTTP \<Rightarrow> sl_sw_HTTP ch r
     | SL_first_major_digit \<Rightarrow> sl_sw_first_major_digit ch r
     | SL_major_digit \<Rightarrow> sl_sw_major_digit ch r
     | SL_first_minor_digit \<Rightarrow> sl_sw_first_minor_digit ch r
     | SL_minor_digit \<Rightarrow> sl_sw_minor_digit ch r
     | SL_status \<Rightarrow> sl_sw_status p ch r
     | SL_space_after_status \<Rightarrow> sl_sw_space_after_status ch r
     | SL_status_text \<Rightarrow> sl_sw_status_text ch r
     | SL_almost_done \<Rightarrow> sl_sw_almost_done p ch r)"

definition sl_finish :: "nat \<Rightarrow> status_line \<Rightarrow> status_line" where
  "sl_finish p r =
    r\<lparr>status_end := (case status_end r of None \<Rightarrow> Some p | Some e \<Rightarrow> Some e),
      status_version := unat (sl_major r) * 1000 + unat (sl_minor r),
      sl_state := SL_start\<rparr>"

text \<open>\<open>None\<close> would be a loop that does not end.\<close>

definition ngx_http_parse_status_line ::
  "status_line \<Rightarrow> ngx_buf \<Rightarrow> (int \<times> status_line \<times> ngx_buf) option" where
  "ngx_http_parse_status_line r b =
    (case byte_loop sl_step (mem b) (blast b) (pos b) (sl_state r) r of
       None \<Rightarrow> None
     | Some (None, st, r', p) \<Rightarrow> Some (NGX_AGAIN, r'\<lparr>sl_state := st\<rparr>, b\<lparr>pos := p\<rparr>)
     | Some (Some SL_done, _, r', p) \<Rightarrow> Some (NGX_OK, sl_finish p r', b\<lparr>pos := p + 1\<rparr>)
     | Some (Some (SL_return rc), _, r', _) \<Rightarrow> Some (rc, r', b))"

end
