(* ===== verification/Status_Line_Correct.thy ===== *)
theory Status_Line_Correct
  imports Http_Status_Line
begin

text \<open>
The status-line parser meets its contract: it always returns, an accepted line is one line
  whose code is the number its three digits write, well-formed lines read back, and a line
  may arrive in pieces.
\<close>

section \<open>The machine\<close>

lemmas sl_sw_defs =
  sl_expect_def sl_sw_start_def sl_sw_H_def sl_sw_HT_def sl_sw_HTT_def sl_sw_HTTP_def
  sl_sw_first_major_digit_def sl_sw_major_digit_def sl_sw_first_minor_digit_def sl_sw_minor_digit_def
  sl_sw_status_def sl_sw_space_after_status_def sl_sw_status_text_def sl_sw_almost_done_def

lemma sl_step_no_redo: "sl_step buf p ch st r \<noteq> Redo st' r'"
  by (cases st) (auto simp: sl_step_def sl_sw_defs Let_def)

interpretation sl: byte_machine sl_step "\<lambda>_. 0"
  by unfold_locales (simp add: sl_step_no_redo, simp add: sl_step_def cong: sl_state.case_cong)

lemma sl_step_frame:
  "sl_step buf p ch st (r\<lparr>sl_state := x\<rparr>) = map_outcome id id (sl_state_update (\<lambda>_. x)) (sl_step buf p ch st r)"
  by (cases st) (auto simp: sl_step_def sl_sw_defs Let_def)

section \<open>Shape invariant\<close>

text \<open>
  The status digits read so far: since a position \<open>v\<close> that follows a space, there have been
  only digits and spaces, and the code is the number the digits write.
\<close>

definition status_digits :: "bytes \<Rightarrow> nat \<Rightarrow> nat \<Rightarrow> bytes" where
  "status_digits buf v p = filter is_digit (cut buf v p)"

definition sl_digits :: "bytes \<Rightarrow> nat \<Rightarrow> nat \<Rightarrow> nat \<Rightarrow> status_line \<Rightarrow> bool" where
  "sl_digits buf p0 p n r \<longleftrightarrow> (\<exists>v. p0 < v \<and> v + n \<le> p \<and> buf ! (v - 1) = c_space \<and>
     list_all (\<lambda>c. is_digit c \<or> c = c_space) (cut buf v p) \<and> length (status_digits buf v p) = n \<and>
     status_code r = of_nat (decimal (status_digits buf v p)))"

lemma sl_digits_start:
  "p0 \<le> p \<Longrightarrow> buf ! p = c_space \<Longrightarrow> status_code r = 0 \<Longrightarrow> sl_digits buf p0 (Suc p) 0 r"
  by (auto simp: sl_digits_def status_digits_def intro!: exI [of _ "Suc p"])

lemma sl_digits_space:
  "sl_digits buf p0 p n r \<Longrightarrow> p < length buf \<Longrightarrow> buf ! p = c_space \<Longrightarrow> sl_digits buf p0 (Suc p) n r"
  by (fastforce simp: sl_digits_def status_digits_def cut_snoc is_digit_def)

lemma sl_digits_digit:
  assumes "sl_digits buf p0 p n r" and "p < length buf" and "is_digit (buf ! p)"
  shows "sl_digits buf p0 (Suc p) (Suc n) (r\<lparr>status_code := status_code r * 10 + ucast (buf ! p) - 48, status_count := k\<rparr>)"
proof -
  obtain v where v: "p0 < v" "v + n \<le> p" "buf ! (v - 1) = c_space" "list_all (\<lambda>c. is_digit c \<or> c = c_space) (cut buf v p)"
    "length (status_digits buf v p) = n" "status_code r = of_nat (decimal (status_digits buf v p))"
    using assms(1) by (auto simp: sl_digits_def)
  have "(of_nat (decimal (status_digits buf v p @ [buf ! p])) :: 64 word) = status_code r * 10 + ucast (buf ! p) - 48"
    using digit_step_word [OF assms(3), of "decimal (status_digits buf v p)", where 'a = 64] v(6)
    by (simp add: decimal_from_snoc)
  with v assms(2,3) show ?thesis
    by (auto simp: sl_digits_def status_digits_def cut_snoc intro!: exI [of _ v])
qed

lemma sl_digits_frame [simp]:
  "sl_digits buf p0 p n (r\<lparr>status_start := x\<rparr>) = sl_digits buf p0 p n r"
  "sl_digits buf p0 p n (r\<lparr>status_end := x\<rparr>) = sl_digits buf p0 p n r"
  by (simp_all add: sl_digits_def)

definition sl_inv :: "bytes \<Rightarrow> nat \<Rightarrow> nat \<Rightarrow> sl_state \<Rightarrow> status_line \<Rightarrow> bool" where
  "sl_inv buf p0 p st r \<longleftrightarrow> p0 \<le> p \<and> between (\<lambda>c. c \<noteq> c_LF) buf p0 p \<and> status_end r = None \<and>
     (if st \<in> {SL_space_after_status, SL_status_text, SL_almost_done} then
        (\<exists>s. status_start r = Some s \<and> s + 3 \<le> p \<and> (st = SL_almost_done \<longrightarrow> s + 4 \<le> p \<and> buf ! (p - 1) = c_CR) \<and> sl_digits buf p0 (s + 3) 3 r)
      else if st = SL_status then unat (status_count r) < 3 \<and> sl_digits buf p0 p (unat (status_count r)) r
      else status_code r = 0 \<and> status_count r = 0)"

definition sl_post :: "bytes \<Rightarrow> nat \<Rightarrow> sl_exit \<Rightarrow> nat \<Rightarrow> status_line \<Rightarrow> bool" where
  "sl_post buf p0 x p r \<longleftrightarrow>
    (case x of
       SL_return rc \<Rightarrow> rc = NGX_ERROR
     | SL_done \<Rightarrow> between (\<lambda>c. c \<noteq> c_LF) buf p0 p \<and> buf ! p = c_LF \<and>
         (\<exists>s. status_start r = Some s \<and> s + 3 \<le> p \<and> sl_digits buf p0 (s + 3) 3 r \<and>
            (status_end r = None \<or> status_end r = Some (p - 1) \<and> s + 4 \<le> p \<and> buf ! (p - 1) = c_CR)))"

lemma sl_inv_status:
  assumes "sl_inv buf p0 p SL_status r" and "p < length buf" and "is_digit (buf ! p)"
  defines "r' \<equiv> r\<lparr>status_code := status_code r * 10 + ucast (buf ! p) - 48, status_count := status_count r + 1\<rparr>"
  shows "if status_count r' = 3 then sl_inv buf p0 (Suc p) SL_space_after_status (r'\<lparr>status_start := Some (p - 2)\<rparr>)
     else sl_inv buf p0 (Suc p) SL_status r'"
proof -
  have ne: "buf ! p \<noteq> c_LF" using assms(3) by (auto simp: is_digit_def)
  let ?n = "unat (status_count r)"
  have n: "?n < 3" and d: "sl_digits buf p0 p ?n r" using assms(1) by (simp_all add: sl_inv_def)
  have d': "sl_digits buf p0 (Suc p) (Suc ?n) r'" unfolding r'_def by (rule sl_digits_digit [OF d assms(2,3)])
  have sc: "unat (status_count r') = Suc ?n"
    using n by (simp add: r'_def unat_word_ariths)
  have three: "status_count r' = 3 \<longleftrightarrow> Suc ?n = 3"
    unfolding sc [symmetric] by (simp add: word_unat_eq_iff)
  show ?thesis
  proof (cases "status_count r' = 3")
    case True
    then have "Suc ?n = 3" using three by simp
    moreover from this have "p - 2 + 3 = Suc p" using d by (auto simp: sl_digits_def)
    ultimately show ?thesis using True d' ne assms(1) by (simp add: sl_inv_def r'_def)
  next
    case False
    then have "Suc ?n < 3" using three n by simp
    with False sc d' ne assms(1) show ?thesis by (simp add: sl_inv_def) (simp add: r'_def)
  qed
qed

lemma sl_inv_step:
  assumes "sl_inv buf p0 p st r" and "p < length buf"
  shows "case sl_step buf p (buf ! p) st r of
           Next st' r' \<Rightarrow> sl_inv buf p0 (Suc p) st' r'
         | Redo st' r' \<Rightarrow> sl_inv buf p0 p st' r'
         | Exit x st' r' \<Rightarrow> sl_post buf p0 x p r'"
proof (cases "st = SL_status")
  case True
  show ?thesis
  proof (cases "is_digit (buf ! p)")
    case D: True
    then have "\<not> (buf ! p < c_0 \<or> buf ! p > c_9)" "buf ! p \<noteq> c_space" by (auto simp: is_digit_def)
    with sl_inv_status [OF _ assms(2) D, of p0 r] assms(1) True show ?thesis
      by (auto simp: sl_step_def sl_sw_status_def Let_def)
  next
    case False
    then show ?thesis using assms True
      by (auto simp: sl_step_def sl_sw_status_def sl_inv_def sl_post_def is_digit_def intro: sl_digits_space)
  qed
next
  case False
  with assms show ?thesis
    by (cases st) (auto simp: sl_step_def sl_sw_defs sl_inv_def sl_post_def Let_def intro: sl_digits_start)
qed

lemma sl_run:
  assumes "sl_state r = SL_start" "status_code r = 0" "status_count r = 0" "status_end r = None" and "buf_ok b"
  obtains st r' p where "byte_loop sl_step (mem b) (blast b) (pos b) SL_start r = Some (None, st, r', p)"
      and "sl_inv (mem b) (pos b) p st r'"
  | x st r' p where "byte_loop sl_step (mem b) (blast b) (pos b) SL_start r = Some (Some x, st, r', p)"
      and "sl_post (mem b) (pos b) x p r'" and "p < blast b"
proof -
  obtain x st r' p where L: "byte_loop sl_step (mem b) (blast b) (pos b) SL_start r = Some (x, st, r', p)"
    using sl.loop_total by blast
  have "case x of None \<Rightarrow> sl_inv (mem b) (pos b) p st r' | Some y \<Rightarrow> sl_post (mem b) (pos b) y p r'"
  proof (rule sl.loop_invariant [OF L])
    show "sl_inv (mem b) (pos b) (pos b) SL_start r" using assms by (simp add: sl_inv_def)
  qed (use assms(5) in \<open>auto intro: sl_inv_step simp: buf_ok_def\<close>)
  with L that sl.loop_position [OF L] show thesis by (cases x) auto
qed

text \<open>
  parsing a status line always returns, with one of the three codes its callers
  handle, and never moves past the bytes received.
\<close>

lemma status_line_total:
  assumes "buf_ok b"
  shows "\<exists>rc r' b'. ngx_http_parse_status_line r b = Some (rc, r', b') \<and>
     rc \<in> {NGX_OK, NGX_AGAIN, NGX_ERROR} \<and> pos b \<le> pos b' \<and> pos b' \<le> blast b"
proof -
  obtain x st r' p where L: "byte_loop sl_step (mem b) (blast b) (pos b) (sl_state r) r = Some (x, st, r', p)"
    using sl.loop_total by blast
  have "\<forall>rc. x = Some (SL_return rc) \<longrightarrow> rc = NGX_ERROR"
  proof (cases x)
    case (Some y)
    have "case sl_step buf p ch st r of Next s' r' \<Rightarrow> True | Redo s' r' \<Rightarrow> True
        | Exit x s' r' \<Rightarrow> \<forall>rc. x = SL_return rc \<longrightarrow> rc = NGX_ERROR" for buf p ch st r
      by (cases st) (auto simp: sl_step_def sl_sw_defs Let_def)
    with sl.loop_invariant [OF L, where I = "\<lambda>_ _ _. True" and Q = "\<lambda>x _ _. \<forall>rc. x = SL_return rc \<longrightarrow> rc = NGX_ERROR"]
    show ?thesis by (simp add: Some)
  qed simp
  moreover have "pos b \<le> blast b" using assms by (simp add: buf_ok_def)
  ultimately show ?thesis
    using L sl.loop_position [OF L] by (auto simp: ngx_http_parse_status_line_def split: option.splits sl_exit.splits)
qed

lemma decimal_from_bound: "\<forall>c \<in> set s. is_digit c \<Longrightarrow> decimal_from v s < (v + 1) * 10 ^ length s"
proof (induction s arbitrary: v)
  case (Cons c s)
  have "unat c \<le> 57" using Cons.prems by (simp add: is_digit_def word_le_nat_alt)
  then have "unat c - 48 \<le> 9" by simp
  then have "(v * 10 + (unat c - 48) + 1) * 10 ^ length s \<le> (v + 1) * 10 * 10 ^ length s"
    by (intro mult_right_mono) auto
  moreover have "decimal_from (v * 10 + (unat c - 48)) s < (v * 10 + (unat c - 48) + 1) * 10 ^ length s"
    using Cons by simp
  ultimately show ?case by (simp add: algebra_simps)
qed simp

lemma status_digits_bound:
  assumes "length (status_digits buf v p) = 3"
  shows "decimal (status_digits buf v p) < 1000"
  using decimal_from_bound [of "status_digits buf v p" 0] assms by (auto simp: status_digits_def)

text \<open>
  Claim C22: an accepted status line is one line. The recorded status text starts and ends inside
  it, in this order, with at least three bytes; the code is below 1000 and is the number
  written by the three digits that follow the version, which only spaces separate.
\<close>

theorem status_line_ok:
  assumes "sl_state r = SL_start" "status_code r = 0" "status_count r = 0" "status_end r = None" and "buf_ok b"
    and "ngx_http_parse_status_line r b = Some (NGX_OK, r', b')"
  shows "\<exists>s e v. status_start r' = Some s \<and> status_end r' = Some e \<and>
     pos b < v \<and> v \<le> s \<and> s + 3 \<le> e \<and> e < pos b' \<and> pos b' \<le> blast b \<and>
     mem b ! (pos b' - 1) = c_LF \<and> between (\<lambda>c. c \<noteq> c_LF) (mem b) (pos b) (pos b' - 1) \<and>
     mem b ! (v - 1) = c_space \<and> list_all (\<lambda>c. is_digit c \<or> c = c_space) (cut (mem b) v (s + 3)) \<and>
     length (status_digits (mem b) v (s + 3)) = 3 \<and>
     unat (status_code r') = decimal (status_digits (mem b) v (s + 3)) \<and> unat (status_code r') < 1000"
  using assms(1-5)
proof (cases rule: sl_run)
  case (1 st r' p)
  then show ?thesis using assms by (simp add: ngx_http_parse_status_line_def)
next
  case (2 x st r1 p)
  then have x: "x = SL_done" and r': "r' = sl_finish p r1" "b' = b\<lparr>pos := p + 1\<rparr>"
    using assms by (cases x; auto simp: ngx_http_parse_status_line_def sl_post_def)+
  obtain s v where s: "status_start r1 = Some s" "s + 3 \<le> p"
      "status_end r1 = None \<or> status_end r1 = Some (p - 1) \<and> s + 4 \<le> p \<and> mem b ! (p - 1) = c_CR"
    and v: "pos b < v" "v + 3 \<le> s + 3" "mem b ! (v - 1) = c_space"
      "list_all (\<lambda>c. is_digit c \<or> c = c_space) (cut (mem b) v (s + 3))"
      "length (status_digits (mem b) v (s + 3)) = 3" "status_code r1 = of_nat (decimal (status_digits (mem b) v (s + 3)))"
    using 2(2) x by (auto simp: sl_post_def sl_digits_def)
  have "unat (status_code r1) = decimal (status_digits (mem b) v (s + 3))"
    using status_digits_bound [OF v(5)] v(6) by (simp add: unsigned_of_nat take_bit_nat_eq_self)
  moreover have "\<exists>e. status_end r' = Some e \<and> s + 3 \<le> e \<and> e \<le> p"
    using s by (auto simp: r' sl_finish_def)
  ultimately show ?thesis
    using 2(2,3) s v status_digits_bound [OF v(5)]
    by (auto simp: r' sl_finish_def sl_post_def x)
qed

section \<open>Resumption\<close>

definition sl_same :: "int \<times> status_line \<times> ngx_buf \<Rightarrow> int \<times> status_line \<times> ngx_buf \<Rightarrow> bool" where
  "sl_same x y \<longleftrightarrow> fst x = fst y \<and>
     (fst (snd x))\<lparr>sl_state := SL_start\<rparr> = (fst (snd y))\<lparr>sl_state := SL_start\<rparr> \<and> (fst x \<noteq> NGX_ERROR \<longrightarrow> x = y)"

lemma sl_loop_return:
  assumes "byte_loop sl_step buf lim p s r = Some (Some (SL_return rc), s', r', q)"
  shows "rc = NGX_ERROR"
proof -
  have "case sl_step buf p ch st r of Next s' r' \<Rightarrow> True | Redo s' r' \<Rightarrow> True
      | Exit x s' r' \<Rightarrow> \<forall>rc. x = SL_return rc \<longrightarrow> rc = NGX_ERROR" for buf p ch st r
    by (cases st) (auto simp: sl_step_def sl_sw_defs Let_def)
  with sl.loop_invariant [OF assms, where I = "\<lambda>_ _ _. True" and Q = "\<lambda>x _ _. \<forall>rc. x = SL_return rc \<longrightarrow> rc = NGX_ERROR"]
  show ?thesis by simp
qed

lemma sl_again:
  assumes "ngx_http_parse_status_line r b = Some (NGX_AGAIN, r1, b1)"
  obtains st r' q where "byte_loop sl_step (mem b) (blast b) (pos b) (sl_state r) r = Some (None, st, r', q)"
    and "r1 = r'\<lparr>sl_state := st\<rparr>" and "b1 = b\<lparr>pos := q\<rparr>"
proof -
  obtain x st r' q where L: "byte_loop sl_step (mem b) (blast b) (pos b) (sl_state r) r = Some (x, st, r', q)"
    using sl.loop_total by blast
  with assms that show thesis
    by (cases x rule: option.exhaust; cases "the x")
       (auto simp: ngx_http_parse_status_line_def dest: sl_loop_return)
qed

text \<open>
  reading a status line in pieces gives what reading it at once gives.
\<close>

lemma status_line_resume:
  assumes "buf_ok b" and "ngx_http_parse_status_line r b = Some (NGX_AGAIN, r1, b1)"
  shows "rel_option sl_same (ngx_http_parse_status_line r (buf_receive b xs))
     (ngx_http_parse_status_line r1 (buf_receive b1 xs))"
proof -
  obtain st r' q where L: "byte_loop sl_step (mem b) (blast b) (pos b) (sl_state r) r = Some (None, st, r', q)"
    and r1: "r1 = r'\<lparr>sl_state := st\<rparr>" and b1: "b1 = b\<lparr>pos := q\<rparr>"
    using sl_again [OF assms(2)] .
  let ?b = "buf_receive b xs"
  note R = sl.loop_receive [OF assms(1) L, of xs]
  have F: "byte_loop sl_step (mem ?b) (blast ?b) q st r1 =
     map_option (map_prod id (map_prod id (map_prod (sl_state_update (\<lambda>_. st)) id)))
       (byte_loop sl_step (mem ?b) (blast ?b) q st r')"
    unfolding r1 by (rule sl.loop_frame) (rule sl_step_frame)
  obtain x s2 r2 q2 where E: "byte_loop sl_step (mem ?b) (blast ?b) q st r' = Some (x, s2, r2, q2)"
    using sl.loop_total by blast
  have P: "sl_state r1 = st" "pos ?b = pos b" "pos (buf_receive b1 xs) = q" "mem (buf_receive b1 xs) = mem ?b"
      "blast (buf_receive b1 xs) = blast ?b" "\<And>p. (buf_receive b1 xs)\<lparr>pos := p\<rparr> = ?b\<lparr>pos := p\<rparr>"
      "\<And>p r. sl_finish p (r\<lparr>sl_state := st\<rparr>) = sl_finish p r"
    by (simp_all add: r1 b1 buf_receive_def sl_finish_def)
  show ?thesis
  proof (cases x)
    case None
    with R F E show ?thesis
      by (simp add: ngx_http_parse_status_line_def P sl_same_def del: buf_receive_simps)
  next
    case (Some y)
    with R F E show ?thesis
      by (cases y) (auto simp: ngx_http_parse_status_line_def P sl_same_def dest: sl_loop_return simp del: buf_receive_simps)
  qed
qed

section \<open>Accepting well-formed lines\<close>

definition status_line_text :: "bytes \<Rightarrow> bytes \<Rightarrow> bytes \<Rightarrow> bytes \<Rightarrow> bytes" where
  "status_line_text major minor code reason =
     ascii ''HTTP/'' @ major @ [c_dot] @ minor @ [c_space] @ code @ [c_space] @ reason @ [c_CR, c_LF]"

lemma sl_eats_major:
  "list_all is_digit ds \<Longrightarrow> sl_major r = of_nat v \<Longrightarrow>
     eats sl_step buf p ds SL_major_digit r = Some (SL_major_digit, r\<lparr>sl_major := of_nat (decimal_from v ds)\<rparr>)"
proof (induction ds arbitrary: p r v)
  case (Cons d ds)
  have d: "is_digit d" using Cons.prems by simp
  have "sl_step buf p d SL_major_digit r = Next SL_major_digit (r\<lparr>sl_major := of_nat (v * 10 + (unat d - 48))\<rparr>)"
    using d Cons.prems(2) digit_step_word [OF d, where 'a = 16, of v]
    by (auto simp: sl_step_def sl_sw_major_digit_def is_digit_def)
  with Cons.IH [of "r\<lparr>sl_major := of_nat (v * 10 + (unat d - 48))\<rparr>" "v * 10 + (unat d - 48)"] Cons.prems
  show ?case by (simp del: of_nat_add of_nat_mult)
qed (cases r; simp)

lemma sl_eats_minor:
  "list_all is_digit ds \<Longrightarrow> sl_minor r = of_nat v \<Longrightarrow>
     eats sl_step buf p ds SL_minor_digit r = Some (SL_minor_digit, r\<lparr>sl_minor := of_nat (decimal_from v ds)\<rparr>)"
proof (induction ds arbitrary: p r v)
  case (Cons d ds)
  have d: "is_digit d" using Cons.prems by simp
  have "sl_step buf p d SL_minor_digit r = Next SL_minor_digit (r\<lparr>sl_minor := of_nat (v * 10 + (unat d - 48))\<rparr>)"
    using d Cons.prems(2) digit_step_word [OF d, where 'a = 16, of v]
    by (auto simp: sl_step_def sl_sw_minor_digit_def is_digit_def)
  with Cons.IH [of "r\<lparr>sl_minor := of_nat (v * 10 + (unat d - 48))\<rparr>" "v * 10 + (unat d - 48)"] Cons.prems
  show ?case by (simp del: of_nat_add of_nat_mult)
qed (cases r; simp)

lemma sl_eats_reason:
  "c_CR \<notin> set s \<Longrightarrow> c_LF \<notin> set s \<Longrightarrow> eats sl_step buf p s SL_status_text r = Some (SL_status_text, r)"
  by (induction s arbitrary: p) (auto simp: sl_step_def sl_sw_status_text_def)

lemma sl_eats_version:
  assumes "major \<noteq> []" "list_all is_digit major" "hd major \<noteq> c_0" and "minor \<noteq> []" "list_all is_digit minor"
  shows "eats sl_step buf p (ascii ''HTTP/'' @ major @ [c_dot] @ minor @ [c_space]) SL_start r =
    Some (SL_status, r\<lparr>sl_major := of_nat (decimal major), sl_minor := of_nat (decimal minor)\<rparr>)"
proof -
  obtain d ds where d: "major = d # ds" "is_digit d" "list_all is_digit ds" "d \<noteq> c_0" using assms by (cases major) auto
  obtain e es where e: "minor = e # es" "is_digit e" "list_all is_digit es" using assms by (cases minor) auto
  have D: "d \<ge> c_1" using d(2,4) unfolding is_digit_def by (simp add: word_le_nat_alt word_unat_eq_iff)
  have 1: "eats sl_step buf p (ascii ''HTTP/'') SL_start r = Some (SL_first_major_digit, r)" for p r
    by (simp add: sl_step_def sl_sw_defs)
  have 2: "sl_step buf p d SL_first_major_digit r = Next SL_major_digit (r\<lparr>sl_major := of_nat (unat d - 48)\<rparr>)" for p r
    using d(2) D digit_value_word [of d, where 'a = 16] by (auto simp: sl_step_def sl_sw_defs is_digit_def)
  have 3: "sl_step buf p e SL_first_minor_digit r = Next SL_minor_digit (r\<lparr>sl_minor := of_nat (unat e - 48)\<rparr>)" for p r
    using e(2) digit_value_word [of e, where 'a = 16] by (auto simp: sl_step_def sl_sw_defs is_digit_def)
  have 4: "sl_step buf p c_dot SL_major_digit r = Next SL_first_minor_digit r"
    "sl_step buf p c_space SL_minor_digit r = Next SL_status r" for p r
    by (simp_all add: sl_step_def sl_sw_defs)
  show ?thesis
    by (simp add: eats_append 1 2 3 4 d(1) e(1) sl_eats_major [OF d(3), of _ "unat d - 48"] sl_eats_minor [OF e(3), of _ "unat e - 48"]
       del: ascii_simps)
qed

lemma sl_eats_code:
  assumes "is_digit x" "is_digit y" "is_digit z" and "status_code r = 0" "status_count r = 0"
  shows "eats sl_step buf p [x, y, z] SL_status r =
    Some (SL_space_after_status, r\<lparr>status_code := of_nat (decimal [x, y, z]), status_count := 3, status_start := Some p\<rparr>)"
proof -
  have n: "\<not> (c < c_0 \<or> c > c_9)" "c \<noteq> c_space" if "is_digit c" for c
    using that by (auto simp: is_digit_def)
  have d: "(of_nat (decimal [x, y, z]) :: 64 word) = (((0 * 10 + ucast x - 48) * 10 + ucast y - 48) * 10 + ucast z - 48)"
    by (simp only: decimal_from_simps digit_step_word [OF assms(1)] digit_step_word [OF assms(2)] digit_step_word [OF assms(3)] semiring_1_class.of_nat_0)
  show ?thesis
    using assms n [OF assms(1)] n [OF assms(2)] n [OF assms(3)]
    unfolding d by (simp add: sl_step_def sl_sw_status_def Let_def)
qed

lemma status_line_init_simps [simp]:
  "sl_state status_line_init = SL_start" "status_code status_line_init = 0" "status_count status_line_init = 0"
  "status_end status_line_init = None"
  by (simp_all add: status_line_init_def)

text \<open>
  the text of a status line, with a version that fits its fields, a code of three
  digits and any reason text on one line, is accepted whole; version, code and status text
  read back are the ones written.
\<close>

lemma status_line_roundtrip:
  assumes major: "major \<noteq> []" "list_all is_digit major" "hd major \<noteq> c_0" "decimal major < 65536"
    and minor: "minor \<noteq> []" "list_all is_digit minor" "decimal minor < 65536"
    and code: "length code = 3" "list_all is_digit code" and reason: "c_CR \<notin> set reason" "c_LF \<notin> set reason"
    and b: "mem b = status_line_text major minor code reason" "pos b = 0" "blast b = length (mem b)"
  shows "\<exists>r. ngx_http_parse_status_line status_line_init b = Some (NGX_OK, r, b\<lparr>pos := blast b\<rparr>) \<and>
    status_version r = decimal major * 1000 + decimal minor \<and> unat (status_code r) = decimal code \<and>
    cut (mem b) (the (status_start r)) (the (status_end r)) = code @ [c_space] @ reason"
proof -
  have "\<exists>x y z. code = [x, y, z]" using code(1) by (auto simp: numeral_eq_Suc length_Suc_conv)
  then obtain x y z where xyz: "code = [x, y, z]" by blast
  let ?buf = "mem b" and ?v = "ascii ''HTTP/'' @ major @ [c_dot] @ minor @ [c_space]"
  let ?r = "status_line_init\<lparr>sl_major := of_nat (decimal major), sl_minor := of_nat (decimal minor),
    status_code := of_nat (decimal code), status_count := 3, status_start := Some (length ?v)\<rparr>"
  have 1: "eats sl_step ?buf 0 (?v @ code @ c_space # reason) SL_start status_line_init = Some (SL_status_text, ?r)"
    using code sl_eats_code [of x y z "status_line_init\<lparr>sl_major := of_nat (decimal major), sl_minor := of_nat (decimal minor)\<rparr>" ?buf "length ?v"]
    unfolding eats_append [of _ _ _ ?v] eats_append [of _ _ _ code] sl_eats_version [OF major(1-3) minor(1,2)]
    by (simp add: xyz sl_eats_reason [OF reason] sl_step_def sl_sw_space_after_status_def)
  have d: "drop 0 ?buf = (?v @ code @ c_space # reason) @ [c_CR, c_LF]" by (simp add: b(1) status_line_text_def)
  note L = byte_loop_eats [OF d 1]
  let ?q = "0 + length (?v @ code @ c_space # reason)"
  have 2: "sl_step buf p c_CR SL_status_text r = Next SL_almost_done r"
    "sl_step buf p c_LF SL_almost_done r = Exit SL_done SL_almost_done (r\<lparr>status_end := Some (p - 1)\<rparr>)" for buf p r
    by (simp_all add: sl_step_def sl_sw_status_text_def sl_sw_almost_done_def Let_def)
  note e1 = eat_byte [OF L [THEN conjunct2], of sl_step, OF 2(1)]
  note e2 = eat_exit [OF e1(2), of sl_step, OF 2(2)]
  have len: "length ?buf = ?q + 2" by (simp add: b(1) status_line_text_def)
  have run: "byte_loop sl_step ?buf (length ?buf) 0 SL_start status_line_init =
      Some (Some SL_done, SL_almost_done, ?r\<lparr>status_end := Some ?q\<rparr>, Suc ?q)"
    using L e1(1) e2 by simp
  have M: "unat (of_nat (decimal major) :: 16 word) = decimal major" "unat (of_nat (decimal minor) :: 16 word) = decimal minor"
    using major(4) minor(3) by (simp_all add: unsigned_of_nat take_bit_nat_eq_self_iff)
  have "decimal code < 1000" using decimal_from_bound [of code 0] code by (simp add: list_all_iff)
  then have C: "unat (of_nat (decimal code) :: 64 word) = decimal code"
    by (simp add: unsigned_of_nat take_bit_nat_eq_self)
  have cut: "cut ?buf (length ?v) ?q = code @ [c_space] @ reason"
    by (simp add: b(1) status_line_text_def cut_def)
  show ?thesis
    unfolding ngx_http_parse_status_line_def b(2,3) status_line_init_simps run
    using M C cut len by (simp add: sl_finish_def b(3))
qed

section \<open>Witnesses\<close>

definition ex_status :: ngx_buf where
  "ex_status = (let s = status_line_text (ascii ''1'') (ascii ''1'') (ascii ''200'') (ascii ''OK'') in \<lparr>mem = s, pos = 0, blast = length s\<rparr>)"

lemma ex_status_ok: "buf_ok ex_status"
  by (simp add: buf_ok_def ex_status_def Let_def)

lemma ex_status_parse:
  "\<exists>r. ngx_http_parse_status_line status_line_init ex_status = Some (NGX_OK, r, ex_status\<lparr>pos := 17\<rparr>)"
proof -
  have "case ngx_http_parse_status_line status_line_init ex_status of None \<Rightarrow> False
     | Some (rc, r, b) \<Rightarrow> rc = NGX_OK \<and> b = ex_status\<lparr>pos := 17\<rparr>" by code_simp
  then show ?thesis by (auto split: option.splits)
qed

lemma status_line_total_witness:
  "\<exists>rc r' b'. ngx_http_parse_status_line status_line_init ex_status = Some (rc, r', b') \<and> rc \<in> {NGX_OK, NGX_AGAIN, NGX_ERROR}"
  using status_line_total [OF ex_status_ok, of status_line_init] by blast

lemma status_line_ok_witness:
  "\<exists>r. ngx_http_parse_status_line status_line_init ex_status = Some (NGX_OK, r, ex_status\<lparr>pos := 17\<rparr>) \<and> unat (status_code r) < 1000"
proof -
  obtain r where P: "ngx_http_parse_status_line status_line_init ex_status = Some (NGX_OK, r, ex_status\<lparr>pos := 17\<rparr>)"
    using ex_status_parse by blast
  from status_line_ok [OF status_line_init_simps ex_status_ok P] P show ?thesis by blast
qed

end
