(* ===== verification/Http_Chunked.thy ===== *)
theory Http_Chunked
  imports Http_Common
begin

text \<open>
  \<open>ngx_http_parse_chunked\<close> of \<open>http/ngx_http_parse.c\<close> and the loop of
  \<open>ngx_http_request_body_chunked_filter\<close> (\<open>http/ngx_http_request_body.c\<close>) that drives it: the
  transfer coding \<open>chunked\<close> of a request body, decoded from buffers that may end anywhere.
  The sizes are \<open>off_t\<close>, 64-bit words read through \<open>sint\<close>; their signed overflow, which C
  leaves undefined, wraps as it does on the machines the program runs on.
\<close>

section \<open>State\<close>

datatype ck_state =
    CK_chunk_start | CK_chunk_size | CK_chunk_extension | CK_chunk_extension_almost_done
  | CK_chunk_data | CK_after_data | CK_after_data_almost_done | CK_last_chunk_extension
  | CK_last_chunk_extension_almost_done | CK_trailer | CK_trailer_almost_done
  | CK_trailer_header | CK_trailer_header_almost_done

text \<open>\<open>ngx_http_chunked_t\<close>.\<close>

record chunked =
  ck_state :: ck_state
  ck_size :: "64 word"
  ck_length :: "64 word"

definition chunked_init :: chunked where
  "chunked_init = \<lparr>ck_state = CK_chunk_start, ck_size = 0, ck_length = 0\<rparr>"

text \<open>The labels the loop is left by.\<close>

datatype ck_exit = CK_data | CK_done | CK_invalid

type_synonym ck_out = "(ck_exit, ck_state, chunked) outcome"

section \<open>The states\<close>

definition ck_sw_chunk_start :: "u_char \<Rightarrow> chunked \<Rightarrow> ck_out" where
  "ck_sw_chunk_start ch ctx =
    (if is_digit ch then Next CK_chunk_size (ctx\<lparr>ck_size := ucast ch - 48\<rparr>)
     else
       (let c = lower ch in
        if is_hex_lower c then Next CK_chunk_size (ctx\<lparr>ck_size := ucast c - 97 + 10\<rparr>)
        else Exit CK_invalid CK_chunk_start ctx))"

definition ck_sw_chunk_size :: "u_char \<Rightarrow> chunked \<Rightarrow> ck_out" where
  "ck_sw_chunk_size ch ctx =
    (if is_digit ch then Next CK_chunk_size (ctx\<lparr>ck_size := ck_size ctx * 16 + (ucast ch - 48)\<rparr>)
     else
       (let c = lower ch in
        if is_hex_lower c then Next CK_chunk_size (ctx\<lparr>ck_size := ck_size ctx * 16 + (ucast c - 97 + 10)\<rparr>)
        else if ck_size ctx = 0 then
          (if ch = c_CR then Next CK_last_chunk_extension_almost_done ctx
           else if ch = c_LF then Next CK_trailer ctx
           else if ch = c_semi \<or> ch = c_space \<or> ch = c_TAB then Next CK_last_chunk_extension ctx
           else Exit CK_invalid CK_chunk_size ctx)
        else if ch = c_CR then Next CK_chunk_extension_almost_done ctx
        else if ch = c_LF then Next CK_chunk_data ctx
        else if ch = c_semi \<or> ch = c_space \<or> ch = c_TAB then Next CK_chunk_extension ctx
        else Exit CK_invalid CK_chunk_size ctx))"

definition ck_sw_chunk_extension :: "u_char \<Rightarrow> chunked \<Rightarrow> ck_out" where
  "ck_sw_chunk_extension ch ctx =
    (if ch = c_CR then Next CK_chunk_extension_almost_done ctx
     else if ch = c_LF then Next CK_chunk_data ctx
     else Next CK_chunk_extension ctx)"

definition ck_sw_chunk_extension_almost_done :: "u_char \<Rightarrow> chunked \<Rightarrow> ck_out" where
  "ck_sw_chunk_extension_almost_done ch ctx =
    (if ch = c_LF then Next CK_chunk_data ctx else Exit CK_invalid CK_chunk_extension_almost_done ctx)"

definition ck_sw_chunk_data :: "chunked \<Rightarrow> ck_out" where
  "ck_sw_chunk_data ctx = Exit CK_data CK_chunk_data ctx"

definition ck_sw_after_data :: "u_char \<Rightarrow> chunked \<Rightarrow> ck_out" where
  "ck_sw_after_data ch ctx =
    (if ch = c_CR then Next CK_after_data_almost_done ctx
     else if ch = c_LF then Next CK_chunk_start ctx
     else Next CK_after_data ctx)"

definition ck_sw_after_data_almost_done :: "u_char \<Rightarrow> chunked \<Rightarrow> ck_out" where
  "ck_sw_after_data_almost_done ch ctx =
    (if ch = c_LF then Next CK_chunk_start ctx else Exit CK_invalid CK_after_data_almost_done ctx)"

definition ck_sw_last_chunk_extension :: "u_char \<Rightarrow> chunked \<Rightarrow> ck_out" where
  "ck_sw_last_chunk_extension ch ctx =
    (if ch = c_CR then Next CK_last_chunk_extension_almost_done ctx
     else if ch = c_LF then Next CK_trailer ctx
     else Next CK_last_chunk_extension ctx)"

definition ck_sw_last_chunk_extension_almost_done :: "u_char \<Rightarrow> chunked \<Rightarrow> ck_out" where
  "ck_sw_last_chunk_extension_almost_done ch ctx =
    (if ch = c_LF then Next CK_trailer ctx else Exit CK_invalid CK_last_chunk_extension_almost_done ctx)"

definition ck_sw_trailer :: "u_char \<Rightarrow> chunked \<Rightarrow> ck_out" where
  "ck_sw_trailer ch ctx =
    (if ch = c_CR then Next CK_trailer_almost_done ctx
     else if ch = c_LF then Exit CK_done CK_trailer ctx
     else Next CK_trailer_header ctx)"

definition ck_sw_trailer_almost_done :: "u_char \<Rightarrow> chunked \<Rightarrow> ck_out" where
  "ck_sw_trailer_almost_done ch ctx =
    (if ch = c_LF then Exit CK_done CK_trailer_almost_done ctx else Exit CK_invalid CK_trailer_almost_done ctx)"

definition ck_sw_trailer_header :: "u_char \<Rightarrow> chunked \<Rightarrow> ck_out" where
  "ck_sw_trailer_header ch ctx =
    (if ch = c_CR then Next CK_trailer_header_almost_done ctx
     else if ch = c_LF then Next CK_trailer ctx
     else Next CK_trailer_header ctx)"

definition ck_sw_trailer_header_almost_done :: "u_char \<Rightarrow> chunked \<Rightarrow> ck_out" where
  "ck_sw_trailer_header_almost_done ch ctx =
    (if ch = c_LF then Next CK_trailer ctx else Exit CK_invalid CK_trailer_header_almost_done ctx)"

section \<open>The function\<close>

definition ck_step :: "(ck_exit, ck_state, chunked) body" where
  "ck_step buf p ch st ctx =
    (case st of
       CK_chunk_start \<Rightarrow> ck_sw_chunk_start ch ctx
     | CK_chunk_size \<Rightarrow> ck_sw_chunk_size ch ctx
     | CK_chunk_extension \<Rightarrow> ck_sw_chunk_extension ch ctx
     | CK_chunk_extension_almost_done \<Rightarrow> ck_sw_chunk_extension_almost_done ch ctx
     | CK_chunk_data \<Rightarrow> ck_sw_chunk_data ctx
     | CK_after_data \<Rightarrow> ck_sw_after_data ch ctx
     | CK_after_data_almost_done \<Rightarrow> ck_sw_after_data_almost_done ch ctx
     | CK_last_chunk_extension \<Rightarrow> ck_sw_last_chunk_extension ch ctx
     | CK_last_chunk_extension_almost_done \<Rightarrow> ck_sw_last_chunk_extension_almost_done ch ctx
     | CK_trailer \<Rightarrow> ck_sw_trailer ch ctx
     | CK_trailer_almost_done \<Rightarrow> ck_sw_trailer_almost_done ch ctx
     | CK_trailer_header \<Rightarrow> ck_sw_trailer_header ch ctx
     | CK_trailer_header_almost_done \<Rightarrow> ck_sw_trailer_header_almost_done ch ctx)"

text \<open>The least number of bytes the rest of the body can have, by state.\<close>

definition ck_rest :: "ck_state \<Rightarrow> 64 word \<Rightarrow> 64 word" where
  "ck_rest st sz =
    (case st of
       CK_chunk_start \<Rightarrow> 3
     | CK_chunk_size \<Rightarrow> 1 + (if sz \<noteq> 0 then sz + 4 else 1)
     | CK_chunk_extension \<Rightarrow> 1 + sz + 4
     | CK_chunk_extension_almost_done \<Rightarrow> 1 + sz + 4
     | CK_chunk_data \<Rightarrow> sz + 4
     | CK_after_data \<Rightarrow> 4
     | CK_after_data_almost_done \<Rightarrow> 4
     | CK_last_chunk_extension \<Rightarrow> 2
     | CK_last_chunk_extension_almost_done \<Rightarrow> 2
     | CK_trailer \<Rightarrow> 1
     | CK_trailer_almost_done \<Rightarrow> 1
     | CK_trailer_header \<Rightarrow> 2
     | CK_trailer_header_almost_done \<Rightarrow> 2)"

text \<open>The label \<open>data\<close>, which the end of the buffer also reaches.\<close>

definition ck_finish :: "int \<Rightarrow> ck_state \<Rightarrow> nat \<Rightarrow> chunked \<Rightarrow> ngx_buf \<Rightarrow> int \<times> chunked \<times> ngx_buf" where
  "ck_finish rc st p ctx b =
    (let ctx = ctx\<lparr>ck_state := st, ck_length := ck_rest st (ck_size ctx)\<rparr>;
         b = b\<lparr>pos := p\<rparr>
     in if sint (ck_size ctx) < 0 \<or> sint (ck_length ctx) < 0 then (NGX_ERROR, ctx, b) else (rc, ctx, b))"

definition ck_entry :: "chunked \<Rightarrow> ck_state" where
  "ck_entry ctx =
    (if ck_state ctx = CK_chunk_data \<and> ck_size ctx = 0 then CK_after_data else ck_state ctx)"

definition ngx_http_parse_chunked :: "chunked \<Rightarrow> ngx_buf \<Rightarrow> (int \<times> chunked \<times> ngx_buf) option" where
  "ngx_http_parse_chunked ctx b =
    (case byte_loop ck_step (mem b) (blast b) (pos b) (ck_entry ctx) ctx of
       None \<Rightarrow> None
     | Some (None, st, ctx', p) \<Rightarrow> Some (ck_finish NGX_AGAIN st p ctx' b)
     | Some (Some CK_data, st, ctx', p) \<Rightarrow> Some (ck_finish NGX_OK st p ctx' b)
     | Some (Some CK_done, _, ctx', p) \<Rightarrow> Some (NGX_DONE, ctx'\<lparr>ck_state := CK_chunk_start\<rparr>, b\<lparr>pos := p + 1\<rparr>)
     | Some (Some CK_invalid, _, ctx', _) \<Rightarrow> Some (NGX_ERROR, ctx', b))"

section \<open>The body filter\<close>

text \<open>
  The state of the filter: \<open>rb->chunked\<close>, \<open>rb->rest\<close> and \<open>r->headers_in.content_length_n\<close>, and
  the data collected in the chain \<open>out\<close>, of which only the bytes matter here, with the flag
  \<open>last_buf\<close> of its last buffer.
\<close>

abbreviation (input) NGX_HTTP_BAD_REQUEST :: int where "NGX_HTTP_BAD_REQUEST \<equiv> 400"
abbreviation (input) NGX_HTTP_REQUEST_ENTITY_TOO_LARGE :: int where "NGX_HTTP_REQUEST_ENTITY_TOO_LARGE \<equiv> 413"

record chunked_body =
  cb_chunked :: chunked
  cb_rest :: "64 word"
  cb_content_length :: "64 word"
  cb_out :: bytes
  cb_last :: bool

definition chunked_body_init :: chunked_body where
  "chunked_body_init =
    \<lparr>cb_chunked = chunked_init, cb_rest = -1, cb_content_length = 0, cb_out = [], cb_last = False\<rparr>"

text \<open>The bytes of a chunk that are in the buffer go to \<open>out\<close>.\<close>

definition cb_take :: "chunked \<Rightarrow> chunked_body \<Rightarrow> ngx_buf \<Rightarrow> chunked_body \<times> ngx_buf" where
  "cb_take ctx rb b =
    (let left = blast b - pos b in
     if sint (of_nat left :: 64 word) > sint (ck_size ctx) then
       (let n = unat (ck_size ctx) in
        (rb\<lparr>cb_chunked := ctx\<lparr>ck_size := 0\<rparr>, cb_content_length := cb_content_length rb + ck_size ctx,
            cb_out := cb_out rb @ cut (mem b) (pos b) (pos b + n)\<rparr>, b\<lparr>pos := pos b + n\<rparr>))
     else
       (rb\<lparr>cb_chunked := ctx\<lparr>ck_size := ck_size ctx - of_nat left\<rparr>,
           cb_content_length := cb_content_length rb + of_nat left,
           cb_out := cb_out rb @ cut (mem b) (pos b) (blast b)\<rparr>, b\<lparr>pos := blast b\<rparr>))"

text \<open>
  The inner loop over one buffer; \<open>maxbody\<close> is \<open>client_max_body_size\<close>. \<open>Inl\<close> is the status the
  request is answered with, \<open>Inr\<close> the state when the buffer is done with; \<open>None\<close> would be a
  loop that does not end.
\<close>

partial_function (option) ngx_http_request_body_chunked_buf ::
  "64 word \<Rightarrow> chunked_body \<Rightarrow> ngx_buf \<Rightarrow> (int + chunked_body \<times> ngx_buf) option"
where
  "ngx_http_request_body_chunked_buf maxbody rb b =
    (case ngx_http_parse_chunked (cb_chunked rb) b of
       None \<Rightarrow> None
     | Some (rc, ctx, b') \<Rightarrow>
         if rc = NGX_OK then
           (if maxbody \<noteq> 0 \<and> sint (maxbody - cb_content_length rb) < sint (ck_size ctx) then
              Some (Inl NGX_HTTP_REQUEST_ENTITY_TOO_LARGE)
            else (case cb_take ctx rb b' of (rb', b'') \<Rightarrow> ngx_http_request_body_chunked_buf maxbody rb' b''))
         else if rc = NGX_DONE then
           Some (Inr (rb\<lparr>cb_chunked := ctx, cb_rest := 0, cb_last := True\<rparr>, b'))
         else if rc = NGX_AGAIN then
           Some (Inr (rb\<lparr>cb_chunked := ctx, cb_rest := ck_length ctx\<rparr>, b'))
         else Some (Inl NGX_HTTP_BAD_REQUEST))"

declare ngx_http_request_body_chunked_buf.simps [code]

text \<open>The outer loop over the chain of buffers, and the function with its initialisation.\<close>

fun cb_chain :: "64 word \<Rightarrow> chunked_body \<Rightarrow> ngx_buf list \<Rightarrow> (int + chunked_body) option" where
  "cb_chain maxbody rb [] = Some (Inr rb)"
| "cb_chain maxbody rb (b # bs) =
    (case ngx_http_request_body_chunked_buf maxbody rb b of
       None \<Rightarrow> None
     | Some (Inl status) \<Rightarrow> Some (Inl status)
     | Some (Inr (rb', _)) \<Rightarrow> cb_chain maxbody rb' bs)"

definition ngx_http_request_body_chunked_filter ::
  "64 word \<Rightarrow> chunked_body \<Rightarrow> ngx_buf list \<Rightarrow> (int + chunked_body) option"
where
  "ngx_http_request_body_chunked_filter maxbody rb bs =
    (let rb = (if cb_rest rb = -1 then
                 rb\<lparr>cb_chunked := chunked_init, cb_content_length := 0, cb_rest := 3\<rparr>
               else rb)
     in cb_chain maxbody (rb\<lparr>cb_out := [], cb_last := False\<rparr>) bs)"

end
