(* ===== verification/Chunked_Correct.thy ===== *)
theory Chunked_Correct
  imports Http_Chunked
begin

text \<open>
The chunked decoder meets its contract. The parser always returns and keeps its context
  well formed; the body filter always returns, refines a decoder that reads one byte at a
  time and knows no buffers, stays within the configured limit, never asks for more bytes
  than the body has left, and decodes every well-formed body however it is cut into buffers.
  The last theorem is the exception: a chunk size is read modulo \<open>2 ^ 64\<close>.
\<close>

section \<open>The machine\<close>

lemmas ck_sw_defs =
  ck_sw_chunk_start_def ck_sw_chunk_size_def ck_sw_chunk_extension_def
  ck_sw_chunk_extension_almost_done_def ck_sw_chunk_data_def ck_sw_after_data_def
  ck_sw_after_data_almost_done_def ck_sw_last_chunk_extension_def
  ck_sw_last_chunk_extension_almost_done_def ck_sw_trailer_def ck_sw_trailer_almost_done_def
  ck_sw_trailer_header_def ck_sw_trailer_header_almost_done_def

lemma ck_step_no_redo: "ck_step buf p ch st r \<noteq> Redo st' r'"
  by (cases st) (auto simp: ck_step_def ck_sw_defs Let_def)

interpretation ck: byte_machine ck_step "\<lambda>_. 0"
  by unfold_locales (simp add: ck_step_no_redo, simp add: ck_step_def cong: ck_state.case_cong)

text \<open>The loop reads neither \<open>ctx->state\<close> nor \<open>ctx->length\<close>.\<close>

definition ck_with :: "ck_state \<Rightarrow> 64 word \<Rightarrow> chunked \<Rightarrow> chunked" where
  "ck_with st len ctx = ctx\<lparr>ck_state := st, ck_length := len\<rparr>"

lemma ck_with_simps [simp]: "ck_size (ck_with st len ctx) = ck_size ctx" "ck_state (ck_with st len ctx) = st"
  "ck_with st len (ck_with st' len' ctx) = ck_with st len ctx"
  "(ck_with st len ctx)\<lparr>ck_size := n\<rparr> = ck_with st len (ctx\<lparr>ck_size := n\<rparr>)"
  by (simp_all add: ck_with_def)

lemma ck_step_frame: "ck_step buf p ch st (ck_with x y r) = map_outcome id id (ck_with x y) (ck_step buf p ch st r)"
  by (cases st) (auto simp: ck_step_def ck_sw_defs Let_def)

section \<open>Invariant\<close>

text \<open>
  After the size of a chunk has been read it is not zero, until the data has been consumed;
  this is what \<open>ngx_http_parse_chunked\<close> keeps in the context between calls.
\<close>

definition ck_sized :: "ck_state \<Rightarrow> 64 word \<Rightarrow> bool" where
  "ck_sized st sz \<longleftrightarrow> (st \<in> {CK_chunk_extension, CK_chunk_extension_almost_done, CK_chunk_data} \<longrightarrow> sz \<noteq> 0)"

definition ck_ok :: "chunked \<Rightarrow> bool" where
  "ck_ok ctx \<longleftrightarrow> ck_sized (ck_entry ctx) (ck_size ctx)"

lemma ck_ok_init [simp]: "ck_ok chunked_init"
  by (simp add: ck_ok_def chunked_init_def ck_entry_def ck_sized_def)

lemma ck_sized_step:
  assumes "ck_sized st (ck_size r)"
  shows "case ck_step buf p ch st r of
     Next st' r' \<Rightarrow> ck_sized st' (ck_size r') | Redo st' r' \<Rightarrow> ck_sized st' (ck_size r')
   | Exit x st' r' \<Rightarrow> ck_sized st' (ck_size r') \<and> (x = CK_data \<longrightarrow> st' = CK_chunk_data)"
  using assms by (cases st) (auto simp: ck_step_def ck_sw_defs ck_sized_def Let_def)

lemma ck_run:
  assumes "buf_ok b" and "ck_ok ctx"
  obtains st ctx' p where
      "byte_loop ck_step (mem b) (blast b) (pos b) (ck_entry ctx) ctx = Some (None, st, ctx', p)"
      "ck_sized st (ck_size ctx')" "p = blast b"
  | x st ctx' p where
      "byte_loop ck_step (mem b) (blast b) (pos b) (ck_entry ctx) ctx = Some (Some x, st, ctx', p)"
      "ck_sized st (ck_size ctx')" "x = CK_data \<Longrightarrow> st = CK_chunk_data" "pos b \<le> p" "p < blast b"
proof -
  obtain x st ctx' p where L: "byte_loop ck_step (mem b) (blast b) (pos b) (ck_entry ctx) ctx = Some (x, st, ctx', p)"
    using ck.loop_total by blast
  have "case x of None \<Rightarrow> ck_sized st (ck_size ctx')
     | Some y \<Rightarrow> ck_sized st (ck_size ctx') \<and> (y = CK_data \<longrightarrow> st = CK_chunk_data)"
    using ck.loop_invariant_local [OF L, where I = "\<lambda>p st r. ck_sized st (ck_size r)"
        and Q = "\<lambda>x p st r. ck_sized st (ck_size r) \<and> (x = CK_data \<longrightarrow> st = CK_chunk_data)"]
      ck_sized_step assms(2) by (simp add: ck_ok_def)
  then show thesis
    using that L ck.loop_position [OF L] assms(1) by (cases x) (auto simp: buf_ok_def)
qed

lemma ck_entry_sized: "ck_sized st (ck_size ctx) \<Longrightarrow> ck_entry (ck_with st len ctx) = st"
  by (auto simp: ck_entry_def ck_sized_def)

lemma ck_finish_cases:
  obtains "ck_finish rc st p ctx b = (NGX_ERROR, ck_with st (ck_rest st (ck_size ctx)) ctx, b\<lparr>pos := p\<rparr>)"
  | "ck_finish rc st p ctx b = (rc, ck_with st (ck_rest st (ck_size ctx)) ctx, b\<lparr>pos := p\<rparr>)"
    "0 \<le> sint (ck_size ctx)" "0 \<le> sint (ck_rest st (ck_size ctx))"
proof (cases "sint (ck_size ctx) < 0 \<or> sint (ck_rest st (ck_size ctx)) < 0")
  case True
  then show thesis by (intro that(1)) (auto simp: ck_finish_def ck_with_def)
next
  case False
  then show thesis by (intro that(2)) (auto simp: ck_finish_def ck_with_def)
qed

lemma chunked_parse_total:
  assumes "buf_ok b" and "ck_ok ctx"
  shows "\<exists>rc ctx' b'. ngx_http_parse_chunked ctx b = Some (rc, ctx', b') \<and>
     rc \<in> {NGX_OK, NGX_AGAIN, NGX_DONE, NGX_ERROR} \<and>
     pos b \<le> pos b' \<and> pos b' \<le> blast b \<and> mem b' = mem b \<and> blast b' = blast b \<and>
     (rc = NGX_OK \<longrightarrow> ck_state ctx' = CK_chunk_data \<and> 0 < sint (ck_size ctx') \<and> pos b' < blast b) \<and>
     (rc = NGX_AGAIN \<longrightarrow> pos b' = blast b \<and> 0 \<le> sint (ck_size ctx') \<and> 0 \<le> sint (ck_length ctx') \<and>
        ck_length ctx' = ck_rest (ck_entry ctx') (ck_size ctx')) \<and>
     (rc \<noteq> NGX_ERROR \<longrightarrow> ck_ok ctx')"
  using assms
proof (cases rule: ck_run)
  case (1 st ctx' p)
  have "ck_ok (ck_with st n ctx')" for n
    using 1(2) by (auto simp: ck_ok_def ck_entry_def ck_sized_def)
  with 1 assms show ?thesis
    by (cases rule: ck_finish_cases [of NGX_AGAIN st p ctx' b])
       (simp_all add: ngx_http_parse_chunked_def buf_ok_def ck_entry_sized, simp add: ck_with_def)
next
  case (2 x st ctx' p)
  show ?thesis
  proof (cases x)
    case CK_data
    then have st: "st = CK_chunk_data" "ck_size ctx' \<noteq> 0" using 2 by (auto simp: ck_sized_def)
    then have "ck_ok (ck_with st n ctx')" for n by (simp add: ck_ok_def ck_entry_def ck_sized_def)
    with 2 CK_data st assms show ?thesis
      by (cases rule: ck_finish_cases [of NGX_OK st p ctx' b])
         (simp_all add: ngx_http_parse_chunked_def buf_ok_def sint_pos)
  qed (use 2 assms in \<open>simp_all add: ngx_http_parse_chunked_def buf_ok_def ck_ok_def ck_entry_def ck_sized_def\<close>)
qed

text \<open>
  parsing a chunked body always returns one of the four codes. \<open>NGX_OK\<close> means that
  chunk data begins at the new position, inside the buffer, with a size that is positive as
  an \<open>off_t\<close>; \<open>NGX_AGAIN\<close> that the buffer is used up and the size and the estimate of the rest
  are not negative. The context keeps its invariant.
\<close>

lemma chunked_total:
  assumes "buf_ok b" and "ck_ok ctx"
  shows "\<exists>rc ctx' b'. ngx_http_parse_chunked ctx b = Some (rc, ctx', b') \<and>
     rc \<in> {NGX_OK, NGX_AGAIN, NGX_DONE, NGX_ERROR} \<and>
     pos b \<le> pos b' \<and> pos b' \<le> blast b \<and> mem b' = mem b \<and> blast b' = blast b \<and>
     (rc = NGX_OK \<longrightarrow> ck_state ctx' = CK_chunk_data \<and> 0 < sint (ck_size ctx') \<and> pos b' < blast b) \<and>
     (rc = NGX_AGAIN \<longrightarrow> pos b' = blast b \<and> 0 \<le> sint (ck_size ctx') \<and> 0 \<le> sint (ck_length ctx') \<and>
        ck_length ctx' = ck_rest (ck_entry ctx') (ck_size ctx')) \<and>
     (rc \<noteq> NGX_ERROR \<longrightarrow> ck_ok ctx')"
  by (rule chunked_parse_total [OF assms])

section \<open>Decoding byte by byte\<close>

text \<open>
  The reference decoder reads one byte at a time and keeps only a state and the number of
  data bytes still to come. It knows no buffers.
\<close>

datatype decoded = Running ck_state "64 word" | Finished bytes | Rejected

fun chunk_decode :: "ck_state \<Rightarrow> 64 word \<Rightarrow> bytes \<Rightarrow> bytes \<times> decoded" where
  "chunk_decode st sz [] = ([], Running st sz)"
| "chunk_decode st sz (c # cs) =
    (if st = CK_chunk_data then
       (case chunk_decode (if sz = 1 then CK_after_data else CK_chunk_data) (sz - 1) cs of (out, d) \<Rightarrow> (c # out, d))
     else
       (case ck_step [] 0 c st (chunked_init\<lparr>ck_size := sz\<rparr>) of
          Next st' ctx \<Rightarrow> chunk_decode st' (ck_size ctx) cs
        | Redo st' ctx \<Rightarrow> ([], Rejected)
        | Exit x st' ctx \<Rightarrow> ([], if x = CK_done then Finished cs else Rejected)))"

lemma ck_step_size:
  "ck_step buf p ch st ctx =
     map_outcome id id (ck_with (ck_state ctx) (ck_length ctx)) (ck_step [] 0 ch st (chunked_init\<lparr>ck_size := ck_size ctx\<rparr>))"
proof -
  have 1: "ctx = ck_with (ck_state ctx) (ck_length ctx) (chunked_init\<lparr>ck_size := ck_size ctx\<rparr>)"
    by (simp add: ck_with_def chunked_init_def)
  have 2: "ck_step buf p ch st r = ck_step [] 0 ch st r" for r by (simp add: ck_step_def)
  show ?thesis by (subst 1) (simp only: ck_step_frame 2)
qed

text \<open>The loop of the parser, in terms of the decoder.\<close>

lemma chunk_decode_loop:
  assumes "lim \<le> length buf"
  shows "byte_loop ck_step buf lim p st ctx = Some (x, st', ctx', q) \<Longrightarrow>
    chunk_decode st (ck_size ctx) (cut buf p lim) =
      (case x of
         None \<Rightarrow> ([], Running st' (ck_size ctx'))
       | Some CK_data \<Rightarrow> chunk_decode CK_chunk_data (ck_size ctx') (cut buf q lim)
       | Some CK_done \<Rightarrow> ([], Finished (cut buf (Suc q) lim))
       | Some CK_invalid \<Rightarrow> ([], Rejected))"
proof (induction p st ctx rule: ck.run_induct [where buf = buf and lim = lim])
  case (Run p st ctx)
  show ?case
  proof (cases "p < lim")
    case True
    have c: "cut buf p lim = buf ! p # cut buf (Suc p) lim" using True assms by (simp add: cut_Cons)
    let ?z = "chunked_init\<lparr>ck_size := ck_size ctx\<rparr>"
    note sz = ck_step_size [of buf p "buf ! p" st ctx]
    show ?thesis
    proof (cases "st = CK_chunk_data")
      case True
      with \<open>p < lim\<close> Run.prems show ?thesis
        by (auto simp: ck_step_def ck_sw_chunk_data_def byte_loop_exit)
    next
      case False
      show ?thesis
      proof (cases "ck_step [] 0 (buf ! p) st ?z")
        case (Next s r)
        then have s: "ck_step buf p (buf ! p) st ctx = Next s (ck_with (ck_state ctx) (ck_length ctx) r)" by (simp add: sz)
        from Run.IH(1) [OF True s] Run.prems False True show ?thesis
          by (simp add: c Next byte_loop_next [of p lim ck_step buf st ctx, OF True s])
      next
        case (Redo s r)
        then show ?thesis using ck_step_no_redo by blast
      next
        case (Exit y s r)
        then have s: "ck_step buf p (buf ! p) st ctx = Exit y s (ck_with (ck_state ctx) (ck_length ctx) r)" by (simp add: sz)
        have "y \<noteq> CK_data"
          using Exit False by (cases st) (auto simp: ck_step_def ck_sw_defs Let_def split: if_splits)
        moreover have "x = Some y" "q = p"
          using Run.prems byte_loop_exit [of p lim ck_step buf st ctx, OF True s] by simp_all
        ultimately show ?thesis using False by (cases y) (simp_all add: c Exit)
      qed
    qed
  next
    case False
    with Run.prems show ?thesis by auto
  qed
qed

lemma chunk_decode_data:
  assumes "length xs \<le> unat sz" and "sz \<noteq> 0"
  shows "chunk_decode CK_chunk_data sz (xs @ ys) =
    (case chunk_decode (if length xs = unat sz then CK_after_data else CK_chunk_data) (sz - of_nat (length xs)) ys of
       (out, d) \<Rightarrow> (xs @ out, d))"
  using assms
proof (induction xs arbitrary: sz)
  case Nil
  then show ?case by (auto simp: unat_eq_0 split: prod.splits)
next
  case (Cons x xs)
  have pos: "0 < unat sz" using Cons.prems(2) by (simp add: unat_gt_0)
  have u: "unat (sz - 1) = unat sz - 1" using pos by (simp add: unat_sub word_le_nat_alt)
  show ?case
  proof (cases "sz = 1")
    case True
    then have "xs = []" using Cons.prems(1) by simp
    with True show ?thesis by (simp split: prod.splits)
  next
    case False
    then have "sz - 1 \<noteq> 0" by simp
    moreover have "length xs \<le> unat (sz - 1)" using Cons.prems(1) u by simp
    ultimately have "chunk_decode CK_chunk_data (sz - 1) (xs @ ys) =
      (case chunk_decode (if length xs = unat (sz - 1) then CK_after_data else CK_chunk_data) (sz - 1 - of_nat (length xs)) ys of
         (out, d) \<Rightarrow> (xs @ out, d))" by (rule Cons.IH [rotated])
    moreover have "length xs = unat (sz - 1) \<longleftrightarrow> Suc (length xs) = unat sz" using u pos by auto
    ultimately show ?thesis using False by (simp add: diff_diff_eq split: prod.splits)
  qed
qed

section \<open>The filter\<close>

text \<open>
  The bytes of a chunk present in the buffer, at most the size of the chunk, are moved to the
  output.
\<close>

lemma cb_take_eq:
  assumes "0 < sint (ck_size ctx)" and "blast b - pos b < 2 ^ 62" and "pos b \<le> blast b"
  defines "n \<equiv> min (blast b - pos b) (unat (ck_size ctx))"
  shows "cb_take ctx rb b =
    (rb\<lparr>cb_chunked := ctx\<lparr>ck_size := ck_size ctx - of_nat n\<rparr>, cb_content_length := cb_content_length rb + of_nat n,
        cb_out := cb_out rb @ cut (mem b) (pos b) (pos b + n)\<rparr>, b\<lparr>pos := pos b + n\<rparr>)"
proof -
  have "sint (of_nat (blast b - pos b) :: ngx_int) = int (blast b - pos b)"
    using assms(2) by (intro sint_of_nat) simp
  moreover have "sint (ck_size ctx) = int (unat (ck_size ctx))" using assms(1) by (simp add: sint_unat)
  ultimately have c: "sint (of_nat (blast b - pos b) :: ngx_int) > sint (ck_size ctx) \<longleftrightarrow> unat (ck_size ctx) < blast b - pos b"
    by (simp only: of_nat_less_iff)
  show ?thesis
  proof (cases "unat (ck_size ctx) < blast b - pos b")
    case True
    then have "n = unat (ck_size ctx)" by (simp add: n_def)
    with True show ?thesis by (simp only: cb_take_def c Let_def if_True) simp
  next
    case False
    then have "n = blast b - pos b" by (simp add: n_def)
    with False assms(3) show ?thesis by (simp only: cb_take_def c Let_def if_False) simp
  qed
qed

text \<open>What one pass over a buffer has done when the buffer is done with.\<close>

definition cb_post :: "chunked_body \<Rightarrow> ngx_buf \<Rightarrow> chunked_body \<Rightarrow> ngx_buf \<Rightarrow> bool" where
  "cb_post rb b rb' b' \<longleftrightarrow> ck_ok (cb_chunked rb') \<and> pos b \<le> pos b' \<and> pos b' \<le> blast b \<and> mem b' = mem b \<and> blast b' = blast b \<and>
     (\<exists>out d. chunk_decode (ck_entry (cb_chunked rb)) (ck_size (cb_chunked rb)) (cut (mem b) (pos b) (blast b)) = (out, d) \<and>
        cb_out rb' = cb_out rb @ out \<and> cb_content_length rb' = cb_content_length rb + of_nat (length out) \<and>
        (d = Finished (cut (mem b) (pos b') (blast b)) \<and> cb_last rb' \<or>
         d = Running (ck_entry (cb_chunked rb')) (ck_size (cb_chunked rb')) \<and> pos b' = blast b \<and> cb_last rb' = cb_last rb \<and>
           cb_rest rb' = ck_rest (ck_entry (cb_chunked rb')) (ck_size (cb_chunked rb'))))"

lemma cb_post_take:
  assumes ctx: "ck_state ctx = CK_chunk_data" "0 < sint (ck_size ctx)"
    and b: "pos b \<le> blast b" "blast b \<le> length (mem b)" "blast b - pos b < 2 ^ 62" and t: "cb_take ctx rb b = (rb1, b1)"
    and post: "cb_post rb1 b1 rb' b'"
    and start: "p \<le> pos b" "chunk_decode (ck_entry (cb_chunked rb)) (ck_size (cb_chunked rb)) (cut (mem b) p (blast b)) =
       chunk_decode CK_chunk_data (ck_size ctx) (cut (mem b) (pos b) (blast b))"
  shows "cb_post rb (b\<lparr>pos := p\<rparr>) rb' b'"
proof -
  define n where "n = min (blast b - pos b) (unat (ck_size ctx))"
  have t': "rb1 = rb\<lparr>cb_chunked := ctx\<lparr>ck_size := ck_size ctx - of_nat n\<rparr>, cb_content_length := cb_content_length rb + of_nat n,
        cb_out := cb_out rb @ cut (mem b) (pos b) (pos b + n)\<rparr>" "b1 = b\<lparr>pos := pos b + n\<rparr>"
    using t cb_take_eq [OF ctx(2) b(3,1), of rb] by (simp_all add: n_def)
  have nz: "ck_size ctx \<noteq> 0" using ctx(2) by auto
  have n: "n \<le> unat (ck_size ctx)" "pos b + n \<le> blast b" using b(1) by (auto simp: n_def)
  have e: "ck_size ctx - of_nat n = 0 \<longleftrightarrow> n = unat (ck_size ctx)" using n(1) by (rule word_minus_of_nat_eq_0)
  have entry: "ck_entry (cb_chunked rb1) = (if n = unat (ck_size ctx) then CK_after_data else CK_chunk_data)"
    "ck_size (cb_chunked rb1) = ck_size ctx - of_nat n"
    using ctx(1) e by (simp_all add: t' ck_entry_def)
  let ?xs = "cut (mem b) (pos b) (pos b + n)" and ?ys = "cut (mem b) (pos b + n) (blast b)"
  have len: "length ?xs = n" using n b(2) by simp
  have split: "cut (mem b) (pos b) (blast b) = ?xs @ ?ys" using n by (simp add: cut_append)
  obtain out d where D: "chunk_decode (ck_entry (cb_chunked rb1)) (ck_size (cb_chunked rb1)) ?ys = (out, d)" by fastforce
  have R: "chunk_decode CK_chunk_data (ck_size ctx) (cut (mem b) (pos b) (blast b)) = (?xs @ out, d)"
    unfolding split using chunk_decode_data [of ?xs "ck_size ctx" ?ys] n nz D entry len by simp
  from post D show ?thesis
    using start R n len by (auto simp: cb_post_def t')
qed

lemma parse_decodes:
  assumes "buf_ok b" and "ck_ok ctx" and "ngx_http_parse_chunked ctx b = Some (rc, ctx1, b1)" and "rc \<noteq> NGX_ERROR"
  shows "chunk_decode (ck_entry ctx) (ck_size ctx) (cut (mem b) (pos b) (blast b)) =
    (if rc = NGX_OK then chunk_decode CK_chunk_data (ck_size ctx1) (cut (mem b) (pos b1) (blast b))
     else if rc = NGX_AGAIN then ([], Running (ck_entry ctx1) (ck_size ctx1))
     else ([], Finished (cut (mem b) (pos b1) (blast b))))"
  using assms(1,2)
proof (cases rule: ck_run)
  case (1 st ctx' p)
  have "rc = NGX_AGAIN" "ctx1 = ck_with st (ck_rest st (ck_size ctx')) ctx'"
    using 1(1) assms(3,4) by (cases rule: ck_finish_cases [of NGX_AGAIN st p ctx' b]; simp add: ngx_http_parse_chunked_def)+
  with chunk_decode_loop [OF _ 1(1)] assms(1) 1(2) show ?thesis by (simp add: buf_ok_def ck_entry_sized)
next
  case (2 x st ctx' p)
  note D = chunk_decode_loop [OF _ 2(1)]
  show ?thesis
  proof (cases x)
    case CK_data
    then have "rc = NGX_OK" "ctx1 = ck_with st (ck_rest st (ck_size ctx')) ctx'" "b1 = b\<lparr>pos := p\<rparr>"
      using 2(1) assms(3,4) by (cases rule: ck_finish_cases [of NGX_OK st p ctx' b]; simp add: ngx_http_parse_chunked_def)+
    with D assms(1) CK_data show ?thesis by (simp add: buf_ok_def)
  qed (use 2(1) D assms in \<open>auto simp: ngx_http_parse_chunked_def buf_ok_def\<close>)
qed

text \<open>One turn of the filter's inner loop.\<close>

definition cb_taken :: "chunked \<Rightarrow> nat \<Rightarrow> nat \<Rightarrow> ngx_buf \<Rightarrow> chunked_body \<Rightarrow> chunked_body" where
  "cb_taken ctx p n b rb =
    rb\<lparr>cb_chunked := ctx\<lparr>ck_size := ck_size ctx - of_nat n\<rparr>, cb_content_length := cb_content_length rb + of_nat n,
       cb_out := cb_out rb @ cut (mem b) p (p + n)\<rparr>"

lemma cb_turn:
  assumes "ck_ok (cb_chunked rb)" and "buf_ok b" and "length (mem b) < 2 ^ 62"
  obtains
    (Bad) ctx b1 where "ngx_http_parse_chunked (cb_chunked rb) b = Some (NGX_ERROR, ctx, b1)"
      "ngx_http_request_body_chunked_buf maxbody rb b = Some (Inl NGX_HTTP_BAD_REQUEST)"
  | (Large) ctx p where "ngx_http_parse_chunked (cb_chunked rb) b = Some (NGX_OK, ctx, b\<lparr>pos := p\<rparr>)"
      "0 < sint (ck_size ctx)" "maxbody \<noteq> 0" "sint (maxbody - cb_content_length rb) < sint (ck_size ctx)"
      "ngx_http_request_body_chunked_buf maxbody rb b = Some (Inl NGX_HTTP_REQUEST_ENTITY_TOO_LARGE)"
  | (End) rb' b' where "ngx_http_request_body_chunked_buf maxbody rb b = Some (Inr (rb', b'))"
      "cb_post rb b rb' b'" "cb_content_length rb' = cb_content_length rb" "cb_out rb' = cb_out rb"
  | (Take) ctx p n where "ngx_http_parse_chunked (cb_chunked rb) b = Some (NGX_OK, ctx, b\<lparr>pos := p\<rparr>)"
      "pos b \<le> p" "0 < n" "p + n \<le> blast b" "n = min (blast b - p) (unat (ck_size ctx))" "0 < sint (ck_size ctx)" "ck_state ctx = CK_chunk_data"
      "maxbody = 0 \<or> sint (ck_size ctx) \<le> sint (maxbody - cb_content_length rb)"
      "ngx_http_request_body_chunked_buf maxbody rb b =
         ngx_http_request_body_chunked_buf maxbody (cb_taken ctx p n b rb) (b\<lparr>pos := p + n\<rparr>)"
      "ck_ok (cb_chunked (cb_taken ctx p n b rb))" "buf_ok (b\<lparr>pos := p + n\<rparr>)"
      "\<And>rb' b'. cb_post (cb_taken ctx p n b rb) (b\<lparr>pos := p + n\<rparr>) rb' b' \<Longrightarrow> cb_post rb b rb' b'"
proof -
  let ?ctx = "cb_chunked rb"
  obtain rc ctx b1 where P: "ngx_http_parse_chunked ?ctx b = Some (rc, ctx, b1)" "rc \<in> {NGX_OK, NGX_AGAIN, NGX_DONE, NGX_ERROR}"
    "pos b \<le> pos b1" "pos b1 \<le> blast b" "mem b1 = mem b" "blast b1 = blast b"
    "rc = NGX_OK \<Longrightarrow> ck_state ctx = CK_chunk_data \<and> 0 < sint (ck_size ctx) \<and> pos b1 < blast b"
    "rc = NGX_AGAIN \<Longrightarrow> pos b1 = blast b \<and> ck_length ctx = ck_rest (ck_entry ctx) (ck_size ctx)" "rc \<noteq> NGX_ERROR \<Longrightarrow> ck_ok ctx"
    using chunked_parse_total [OF assms(2,1)] by blast
  note D = parse_decodes [OF assms(2,1) P(1)]
  define p where "p = pos b1"
  have b1: "b1 = b\<lparr>pos := p\<rparr>" using P(5,6) by (cases b; cases b1) (simp add: p_def)
  note unfold = ngx_http_request_body_chunked_buf.simps [of maxbody rb b]
  consider "rc = NGX_OK" | "rc = NGX_AGAIN \<or> rc = NGX_DONE" | "rc = NGX_ERROR" using P(2) by blast
  then show thesis
  proof cases
    case 1
    note ctx = P(7) [OF 1]
    show thesis
    proof (cases "maxbody \<noteq> 0 \<and> sint (maxbody - cb_content_length rb) < sint (ck_size ctx)")
      case True
      with P(1) ctx 1 b1 show thesis by (intro Large [of ctx p]) (simp_all add: unfold)
    next
      case False
      define n where "n = min (blast b - p) (unat (ck_size ctx))"
      have left: "blast b1 - pos b1 < 2 ^ 62" "pos b1 \<le> blast b1" "blast b1 \<le> length (mem b1)"
        using assms(2,3) P(4-6) by (auto simp: buf_ok_def)
      have n: "0 < n" "p + n \<le> blast b" using ctx by (auto simp: n_def p_def unat_gt_0)
      have t: "cb_take ctx rb b1 = (cb_taken ctx p n b rb, b\<lparr>pos := p + n\<rparr>)"
        using cb_take_eq [OF conjunct1 [OF conjunct2 [OF ctx]] left(1,2), of rb] b1 by (simp add: cb_taken_def n_def)
      have buf2: "buf_ok (b\<lparr>pos := p + n\<rparr>)" using left n P(5,6) by (auto simp: buf_ok_def)
      have eq: "b1\<lparr>pos := pos b\<rparr> = b" by (simp add: b1)
      have par: "ngx_http_parse_chunked ?ctx b = Some (NGX_OK, ctx, b\<lparr>pos := p\<rparr>)" using P(1) 1 b1 by simp
      have fits: "maxbody = 0 \<or> sint (ck_size ctx) \<le> sint (maxbody - cb_content_length rb)" using False by linarith
      have turn: "ngx_http_request_body_chunked_buf maxbody rb b =
         ngx_http_request_body_chunked_buf maxbody (cb_taken ctx p n b rb) (b\<lparr>pos := p + n\<rparr>)"
        unfolding unfold P(1) option.case prod.case t using 1 False by auto
      have ok2: "ck_ok (cb_chunked (cb_taken ctx p n b rb))"
        using ctx by (auto simp: cb_taken_def ck_ok_def ck_entry_def ck_sized_def)
      show thesis
      proof (rule Take [OF par _ n n_def _ _ fits turn ok2 buf2])
        show "cb_post rb b rb' b'" if "cb_post (cb_taken ctx p n b rb) (b\<lparr>pos := p + n\<rparr>) rb' b'" for rb' b'
          using cb_post_take [OF _ _ left(2,3,1) t that, of "pos b"] ctx P(3,5,6) D 1 eq by simp
      qed (use P(3) ctx in \<open>simp_all add: p_def\<close>)
    qed
  next
    case 2
    have "\<exists>rb'. ngx_http_request_body_chunked_buf maxbody rb b = Some (Inr (rb', b1)) \<and> cb_post rb b rb' b1 \<and>
        cb_content_length rb' = cb_content_length rb \<and> cb_out rb' = cb_out rb"
      using 2 P D assms by (auto simp: unfold cb_post_def)
    then show thesis using End by blast
  next
    case 3
    with P show thesis by (intro Bad) (simp_all add: unfold)
  qed
qed

lemma cb_run:
  assumes "ck_ok (cb_chunked rb)" and "buf_ok b" and "length (mem b) < 2 ^ 62"
  shows "\<exists>res. ngx_http_request_body_chunked_buf maxbody rb b = Some res \<and>
     (case res of Inl s \<Rightarrow> s \<in> {NGX_HTTP_BAD_REQUEST, NGX_HTTP_REQUEST_ENTITY_TOO_LARGE} | Inr (rb', b') \<Rightarrow> cb_post rb b rb' b')"
  using assms
proof (induction "blast b - pos b" arbitrary: rb b rule: less_induct)
  case less
  from less.prems show ?case
  proof (cases rule: cb_turn [where maxbody = maxbody])
    case (Take ctx p n)
    have "blast (b\<lparr>pos := p + n\<rparr>) - pos (b\<lparr>pos := p + n\<rparr>) < blast b - pos b" using Take(2-4) by simp
    from less.hyps [OF this Take(10,11)] less.prems(3) obtain res where
      "ngx_http_request_body_chunked_buf maxbody rb b = Some res"
      "case res of Inl s \<Rightarrow> s \<in> {NGX_HTTP_BAD_REQUEST, NGX_HTTP_REQUEST_ENTITY_TOO_LARGE}
         | Inr (rb', b') \<Rightarrow> cb_post (cb_taken ctx p n b rb) (b\<lparr>pos := p + n\<rparr>) rb' b'"
      unfolding Take(9) by auto
    with Take(12) show ?thesis by (cases res) auto
  next
    case (Bad ctx b1)
    show ?thesis unfolding Bad(2) by simp
  next
    case (Large ctx p)
    show ?thesis unfolding Large(5) by simp
  next
    case (End rb' b')
    show ?thesis unfolding End(1) using End(2) by simp
  qed
qed

section \<open>The filter over a chain of buffers\<close>

definition buf_data :: "ngx_buf \<Rightarrow> bytes" where
  "buf_data b = cut (mem b) (pos b) (blast b)"

definition cb_bufs :: "ngx_buf list \<Rightarrow> bool" where
  "cb_bufs bs \<longleftrightarrow> (\<forall>b \<in> set bs. buf_ok b \<and> length (mem b) < 2 ^ 62)"

lemma chunk_decode_append:
  "chunk_decode st sz (xs @ ys) =
    (case chunk_decode st sz xs of
       (out, Running st' sz') \<Rightarrow> (case chunk_decode st' sz' ys of (out', d) \<Rightarrow> (out @ out', d))
     | (out, Finished zs) \<Rightarrow> (out, Finished (zs @ ys))
     | (out, Rejected) \<Rightarrow> (out, Rejected))"
  by (induction st sz xs rule: chunk_decode.induct)
     (auto split: prod.splits decoded.splits outcome.splits)

text \<open>The state in which the filter reads the first byte of a chain.\<close>

definition cb_begin :: "chunked_body \<Rightarrow> chunked_body" where
  "cb_begin rb = (let rb = (if cb_rest rb = -1 then
       rb\<lparr>cb_chunked := chunked_init, cb_content_length := 0, cb_rest := 3\<rparr> else rb)
     in rb\<lparr>cb_out := [], cb_last := False\<rparr>)"

definition cb_ok :: "chunked_body \<Rightarrow> bool" where
  "cb_ok rb \<longleftrightarrow> cb_rest rb = -1 \<or> ck_ok (cb_chunked rb)"

definition cb_decode :: "chunked_body \<Rightarrow> bytes \<Rightarrow> bytes \<times> decoded" where
  "cb_decode rb = chunk_decode (ck_entry (cb_chunked rb)) (ck_size (cb_chunked rb))"

lemma cb_begin_ok: "cb_ok rb \<Longrightarrow> ck_ok (cb_chunked (cb_begin rb))"
  by (auto simp: cb_ok_def cb_begin_def)

lemma cb_filter_eq: "ngx_http_request_body_chunked_filter maxbody rb bs = cb_chain maxbody (cb_begin rb) bs"
  by (simp add: ngx_http_request_body_chunked_filter_def cb_begin_def Let_def)

lemma cb_chain_total:
  "cb_bufs bs \<Longrightarrow> ck_ok (cb_chunked rb) \<Longrightarrow>
    \<exists>res. cb_chain maxbody rb bs = Some res \<and>
      (case res of Inl s \<Rightarrow> s \<in> {NGX_HTTP_BAD_REQUEST, NGX_HTTP_REQUEST_ENTITY_TOO_LARGE} | Inr rb' \<Rightarrow> ck_ok (cb_chunked rb'))"
proof (induction bs arbitrary: rb)
  case (Cons b bs)
  have b: "buf_ok b" "length (mem b) < 2 ^ 62" and bs: "cb_bufs bs" using Cons.prems(1) by (auto simp: cb_bufs_def)
  obtain res where res: "ngx_http_request_body_chunked_buf maxbody rb b = Some res"
    "case res of Inl s \<Rightarrow> s \<in> {NGX_HTTP_BAD_REQUEST, NGX_HTTP_REQUEST_ENTITY_TOO_LARGE} | Inr (rb', b') \<Rightarrow> cb_post rb b rb' b'"
    using cb_run [OF Cons.prems(2) b] by blast
  show ?case
  proof (cases res)
    case (Inr a)
    with res(2) have "ck_ok (cb_chunked (fst a))" by (auto simp: cb_post_def)
    from Cons.IH [OF bs this] res Inr show ?thesis by (cases a) simp
  qed (use res in auto)
qed simp

text \<open>
  the body filter always returns, whatever the buffers hold: with the new state, or
  with one of the two statuses 400 and 413.
\<close>

lemma chunked_filter_total:
  assumes "cb_ok rb" and "cb_bufs bs"
  shows "\<exists>res. ngx_http_request_body_chunked_filter maxbody rb bs = Some res \<and>
     (case res of Inl s \<Rightarrow> s \<in> {NGX_HTTP_BAD_REQUEST, NGX_HTTP_REQUEST_ENTITY_TOO_LARGE} | Inr rb' \<Rightarrow> cb_ok rb')"
  using cb_chain_total [OF assms(2) cb_begin_ok [OF assms(1)], of maxbody]
  by (auto simp: cb_filter_eq cb_ok_def split: sum.splits)

lemma cb_run_accept:
  assumes "ck_ok (cb_chunked rb)" and "buf_ok b" and "length (mem b) < 2 ^ 62"
    and "ngx_http_request_body_chunked_buf maxbody rb b = Some (Inr (rb', b'))"
  shows "cb_post rb b rb' b'"
  using cb_run [OF assms(1-3), of maxbody] assms(4) by auto

lemma cb_chain_Cons:
  assumes "cb_chain maxbody rb (b # bs) = Some (Inr rb')"
  obtains rb1 b1 where "ngx_http_request_body_chunked_buf maxbody rb b = Some (Inr (rb1, b1))"
    and "cb_chain maxbody rb1 bs = Some (Inr rb')"
  using assms by (auto split: option.splits sum.splits)

lemma cb_chain_running:
  assumes "cb_bufs bs" and "ck_ok (cb_chunked rb)" and "cb_chain maxbody rb bs = Some (Inr rb')" and "\<not> cb_last rb'"
  shows "\<exists>out. cb_decode rb (concat (map buf_data bs)) = (out, Running (ck_entry (cb_chunked rb')) (ck_size (cb_chunked rb'))) \<and>
     cb_out rb' = cb_out rb @ out \<and> cb_content_length rb' = cb_content_length rb + of_nat (length out) \<and>
     ck_ok (cb_chunked rb') \<and> \<not> cb_last rb \<and>
     (bs \<noteq> [] \<longrightarrow> cb_rest rb' = ck_rest (ck_entry (cb_chunked rb')) (ck_size (cb_chunked rb')))"
  using assms
proof (induction bs arbitrary: rb)
  case (Cons b bs)
  have b: "buf_ok b" "length (mem b) < 2 ^ 62" and bs: "cb_bufs bs" using Cons.prems(1) by (auto simp: cb_bufs_def)
  obtain rb1 b1 where r: "ngx_http_request_body_chunked_buf maxbody rb b = Some (Inr (rb1, b1))"
    and c: "cb_chain maxbody rb1 bs = Some (Inr rb')" using Cons.prems(3) by (rule cb_chain_Cons)
  note post = cb_run_accept [OF Cons.prems(2) b r]
  then have "ck_ok (cb_chunked rb1)" by (simp add: cb_post_def)
  from Cons.IH [OF bs this c Cons.prems(4)] post c show ?case
    by (cases "bs = []") (auto simp: cb_post_def cb_decode_def buf_data_def chunk_decode_append)
qed (simp add: cb_decode_def)


section \<open>The limit\<close>

lemma cb_limit:
  assumes "ck_ok (cb_chunked rb)" and "buf_ok b" and "length (mem b) < 2 ^ 62"
    and "ngx_http_request_body_chunked_buf maxbody rb b = Some (Inr (rb', b'))"
    and "0 < sint maxbody" and "0 \<le> sint (cb_content_length rb)" and "sint (cb_content_length rb) \<le> sint maxbody"
  shows "0 \<le> sint (cb_content_length rb') \<and> sint (cb_content_length rb') \<le> sint maxbody \<and>
    sint (cb_content_length rb') + int (length (cb_out rb)) = sint (cb_content_length rb) + int (length (cb_out rb'))"
  using assms
proof (induction "blast b - pos b" arbitrary: rb b rule: less_induct)
  case less
  from less.prems(1-3) show ?case
  proof (cases rule: cb_turn [where maxbody = maxbody])
    case (Take ctx p n)
    let ?rb = "cb_taken ctx p n b rb" and ?cl = "cb_content_length rb"
    have "blast (b\<lparr>pos := p + n\<rparr>) - pos (b\<lparr>pos := p + n\<rparr>) < blast b - pos b" using Take(2-4) by simp
    moreover have len: "length (cb_out ?rb) = length (cb_out rb) + n"
      using Take(4) less.prems(2) by (auto simp: cb_taken_def buf_ok_def min_def)
    moreover have cl: "sint (cb_content_length ?rb) = sint ?cl + int n" "sint ?cl + int n \<le> sint maxbody"
    proof -
      have "n \<le> unat (ck_size ctx)" using Take(5) by simp
      then have "int n \<le> sint (ck_size ctx)" unfolding sint_unat [OF less_imp_le [OF Take(6)]] by (simp only: of_nat_le_iff)
      also have "\<dots> \<le> sint (maxbody - ?cl)" using Take(8) less.prems(5) by auto
      also have "\<dots> = sint maxbody - sint ?cl"
        using less.prems(5-7) sint_range [of maxbody] by (intro sint_sub_eq) linarith+
      finally show le: "sint ?cl + int n \<le> sint maxbody" by simp
      have n: "n < 2 ^ 63" using Take(4) less.prems(2,3) by (simp add: buf_ok_def)
      show "sint (cb_content_length ?rb) = sint ?cl + int n"
        using le n less.prems(6) sint_range [of maxbody] by (simp add: cb_taken_def sint_add_eq sint_of_nat)
    qed
    moreover have "ngx_http_request_body_chunked_buf maxbody ?rb (b\<lparr>pos := p + n\<rparr>) = Some (Inr (rb', b'))"
      using less.prems(4) Take(9) by simp
    ultimately show ?thesis
      using less.hyps [of "b\<lparr>pos := p + n\<rparr>" ?rb] Take(10,11) less.prems(3,5,6) by simp
  next
    case (End rb1 b1)
    with less.prems show ?thesis by simp
  qed (use less.prems in simp_all)
qed

lemma cb_chain_limit:
  assumes "cb_bufs bs" and "ck_ok (cb_chunked rb)" and "cb_chain maxbody rb bs = Some (Inr rb')"
    and "0 < sint maxbody" and "0 \<le> sint (cb_content_length rb)" and "sint (cb_content_length rb) \<le> sint maxbody"
  shows "sint (cb_content_length rb') \<le> sint maxbody \<and>
    sint (cb_content_length rb') + int (length (cb_out rb)) = sint (cb_content_length rb) + int (length (cb_out rb'))"
  using assms
proof (induction bs arbitrary: rb)
  case (Cons b bs)
  have b: "buf_ok b" "length (mem b) < 2 ^ 62" and bs: "cb_bufs bs" using Cons.prems(1) by (auto simp: cb_bufs_def)
  obtain rb1 b1 where r: "ngx_http_request_body_chunked_buf maxbody rb b = Some (Inr (rb1, b1))"
    and c: "cb_chain maxbody rb1 bs = Some (Inr rb')" using Cons.prems(3) by (rule cb_chain_Cons)
  note lim = cb_limit [OF Cons.prems(2) b r Cons.prems(4-6)]
  have "ck_ok (cb_chunked rb1)" using cb_run_accept [OF Cons.prems(2) b r] by (simp add: cb_post_def)
  from Cons.IH [OF bs this c Cons.prems(4)] lim show ?case by auto
qed simp

text \<open>
  Claim C24: with a limit configured, the filter never hands on more than it: the length
  counted stays at or below \<open>client_max_body_size\<close> and is exactly that of the data handed on.
\<close>

theorem chunked_filter_limit:
  assumes "cb_ok rb" and "cb_bufs bs" and "ngx_http_request_body_chunked_filter maxbody rb bs = Some (Inr rb')"
    and "0 < sint maxbody" and "cb_rest rb = -1 \<or> 0 \<le> sint (cb_content_length rb) \<and> sint (cb_content_length rb) \<le> sint maxbody"
  shows "sint (cb_content_length rb') \<le> sint maxbody \<and>
    sint (cb_content_length rb') = sint (cb_content_length (cb_begin rb)) + int (length (cb_out rb'))"
proof -
  have "0 \<le> sint (cb_content_length (cb_begin rb))" "sint (cb_content_length (cb_begin rb)) \<le> sint maxbody"
    using assms(4,5) by (auto simp: cb_begin_def Let_def)
  moreover have "cb_out (cb_begin rb) = []" by (simp add: cb_begin_def Let_def)
  ultimately show ?thesis
    using cb_chain_limit [OF assms(2) cb_begin_ok [OF assms(1)] _ assms(4)] assms(3) by (simp add: cb_filter_eq)
qed

section \<open>Accepting well-formed bodies\<close>

text \<open>The sizes met while decoding stay below \<open>2 ^ 58\<close>.\<close>

fun chunk_small :: "ck_state \<Rightarrow> 64 word \<Rightarrow> bytes \<Rightarrow> bool" where
  "chunk_small st sz [] = (unat sz < 2 ^ 58)"
| "chunk_small st sz (c # cs) = (unat sz < 2 ^ 58 \<and>
    (if st = CK_chunk_data then chunk_small (if sz = 1 then CK_after_data else CK_chunk_data) (sz - 1) cs
     else
       (case ck_step [] 0 c st (chunked_init\<lparr>ck_size := sz\<rparr>) of
          Next st' ctx \<Rightarrow> chunk_small st' (ck_size ctx) cs | Redo st' ctx \<Rightarrow> True | Exit x st' ctx \<Rightarrow> True)))"

lemma chunk_small_here: "chunk_small st sz xs \<Longrightarrow> unat sz < 2 ^ 58"
  by (cases xs) simp_all

lemma chunk_small_running:
  "chunk_small st sz (xs @ ys) \<Longrightarrow> chunk_decode st sz xs = (out, Running st' sz') \<Longrightarrow> chunk_small st' sz' ys"
proof (induction st sz xs arbitrary: out rule: chunk_decode.induct)
  case (2 st sz c cs)
  then show ?case by (auto split: if_splits outcome.splits prod.splits)
qed simp

lemma chunk_small_loop:
  assumes "lim \<le> length buf"
  shows "byte_loop ck_step buf lim p st ctx = Some (x, st', ctx', q) \<Longrightarrow> chunk_small st (ck_size ctx) (cut buf p lim @ ys) \<Longrightarrow>
    x = None \<or> x = Some CK_data \<Longrightarrow> unat (ck_size ctx') < 2 ^ 58 \<and> (x = Some CK_data \<longrightarrow> chunk_small CK_chunk_data (ck_size ctx') (cut buf q lim @ ys))"
proof (induction p st ctx rule: ck.run_induct [where buf = buf and lim = lim])
  case (Run p st ctx)
  show ?case
  proof (cases "p < lim")
    case True
    have c: "cut buf p lim = buf ! p # cut buf (Suc p) lim" using True assms by (simp add: cut_Cons)
    note sz = ck_step_size [of buf p "buf ! p" st ctx]
    show ?thesis
    proof (cases "st = CK_chunk_data")
      case True
      with \<open>p < lim\<close> Run.prems chunk_small_here [OF Run.prems(2)] show ?thesis
        by (auto simp: ck_step_def ck_sw_chunk_data_def byte_loop_exit)
    next
      case False
      show ?thesis
      proof (cases "ck_step [] 0 (buf ! p) st (chunked_init\<lparr>ck_size := ck_size ctx\<rparr>)")
        case (Next s r)
        then have s: "ck_step buf p (buf ! p) st ctx = Next s (ck_with (ck_state ctx) (ck_length ctx) r)" by (simp add: sz)
        from Run.IH(1) [OF True s] Run.prems False True show ?thesis
          by (simp add: c Next byte_loop_next [of p lim ck_step buf st ctx, OF True s])
      next
        case (Redo s r)
        then show ?thesis using ck_step_no_redo by blast
      next
        case (Exit y s r)
        then have s: "ck_step buf p (buf ! p) st ctx = Exit y s (ck_with (ck_state ctx) (ck_length ctx) r)" by (simp add: sz)
        have "y \<noteq> CK_data"
          using Exit False by (cases st) (auto simp: ck_step_def ck_sw_defs Let_def split: if_splits)
        with Run.prems byte_loop_exit [of p lim ck_step buf st ctx, OF True s] show ?thesis by auto
      qed
    qed
  next
    case False
    with Run.prems chunk_small_here [OF Run.prems(2)] show ?thesis by auto
  qed
qed

lemma small_sint:
  assumes "unat sz < 2 ^ 58"
  shows "0 \<le> sint (sz :: ngx_int) \<and> sint sz < 2 ^ 58"
proof -
  have eq: "sint sz = int (unat sz)" using sint_of_nat [of "unat sz"] assms by simp
  have "int (unat sz) < int (2 ^ 58)" using assms by (simp only: of_nat_less_iff)
  then show ?thesis unfolding eq by (metis of_nat_0_le_iff of_nat_numeral of_nat_power)
qed

lemma small_rest:
  assumes "unat sz < 2 ^ 58"
  shows "0 \<le> sint (ck_rest st sz)"
proof -
  note s = small_sint [OF assms]
  have 4: "0 \<le> sint (sz + 4)" and 5: "0 \<le> sint (sz + 5)"
    using s by (simp_all add: sint_add_eq)
  have e: "1 + sz + 4 = sz + 5" "1 + (sz + 4) = sz + 5" by simp_all
  show ?thesis
  proof (cases st)
    case CK_chunk_size
    then show ?thesis using 5 by (simp only: ck_rest_def ck_state.case e split: if_split) simp
  next
    case CK_chunk_extension
    then show ?thesis using 5 by (simp only: ck_rest_def ck_state.case e)
  next
    case CK_chunk_extension_almost_done
    then show ?thesis using 5 by (simp only: ck_rest_def ck_state.case e)
  next
    case CK_chunk_data
    then show ?thesis using 4 by (simp only: ck_rest_def ck_state.case)
  qed (simp_all add: ck_rest_def)
qed

lemma parse_error:
  assumes "buf_ok b" and "ck_ok ctx" and "ngx_http_parse_chunked ctx b = Some (NGX_ERROR, ctx1, b1)"
    and "chunk_small (ck_entry ctx) (ck_size ctx) (cut (mem b) (pos b) (blast b) @ ys)"
  shows "snd (chunk_decode (ck_entry ctx) (ck_size ctx) (cut (mem b) (pos b) (blast b) @ ys)) = Rejected"
  using assms(1,2)
proof (cases rule: ck_run)
  case (1 st ctx' p)
  have "unat (ck_size ctx') < 2 ^ 58"
    using chunk_small_loop [OF _ 1(1) assms(4)] assms(1) by (simp add: buf_ok_def)
  with assms(3) 1(1) small_sint small_rest show ?thesis
    by (fastforce simp: ngx_http_parse_chunked_def ck_finish_def Let_def not_less [symmetric] split: if_splits)
next
  case (2 x st ctx' p)
  have lim: "blast b \<le> length (mem b)" using assms(1) by (simp add: buf_ok_def)
  show ?thesis
  proof (cases x)
    case CK_data
    then have "unat (ck_size ctx') < 2 ^ 58" using chunk_small_loop [OF lim 2(1) assms(4)] by simp
    with assms(3) 2(1) small_sint small_rest CK_data show ?thesis
      by (fastforce simp: ngx_http_parse_chunked_def ck_finish_def Let_def not_less [symmetric] split: if_splits)
  next
    case CK_done
    with assms(3) 2(1) show ?thesis by (simp add: ngx_http_parse_chunked_def)
  next
    case CK_invalid
    with chunk_decode_loop [OF lim 2(1)] show ?thesis by (simp add: chunk_decode_append)
  qed
qed

lemma chunk_small_data:
  assumes "chunk_small CK_chunk_data sz (xs @ ys)" and "length xs \<le> unat sz" and "sz \<noteq> 0"
  shows "chunk_small (if length xs = unat sz then CK_after_data else CK_chunk_data) (sz - of_nat (length xs)) ys"
proof (rule chunk_small_running [OF assms(1)])
  show "chunk_decode CK_chunk_data sz xs =
    (xs, Running (if length xs = unat sz then CK_after_data else CK_chunk_data) (sz - of_nat (length xs)))"
    using chunk_decode_data [OF assms(2,3), of "[]"] by simp
qed

lemma decode_data_length:
  "chunk_decode CK_chunk_data sz xs = (out, Finished zs) \<Longrightarrow> sz \<noteq> 0 \<Longrightarrow> unat sz \<le> length out"
proof (induction xs arbitrary: sz out)
  case (Cons x xs)
  show ?case
  proof (cases "sz = 1")
    case True
    with Cons.prems show ?thesis by (auto split: prod.splits)
  next
    case False
    then have "sz - 1 \<noteq> 0" "unat (sz - 1) = unat sz - 1" using Cons.prems(2) by (simp_all add: unat_sub word_le_nat_alt unat_gt_0 Suc_le_eq)
    with Cons False show ?thesis by (fastforce split: prod.splits)
  qed
qed simp

lemma cb_accepts:
  assumes "ck_ok (cb_chunked rb)" and "buf_ok b" and "length (mem b) < 2 ^ 62"
    and "cb_decode rb (buf_data b @ ys) = (out, Finished zs)"
    and "chunk_small (ck_entry (cb_chunked rb)) (ck_size (cb_chunked rb)) (buf_data b @ ys)"
    and "maxbody = 0 \<or> 0 \<le> sint (cb_content_length rb) \<and> sint (cb_content_length rb) + int (length out) \<le> sint maxbody"
  shows "\<exists>rb' b'. ngx_http_request_body_chunked_buf maxbody rb b = Some (Inr (rb', b'))"
  using assms
proof (induction "blast b - pos b" arbitrary: rb b out rule: less_induct)
  case less
  let ?cl = "cb_content_length rb"
  from less.prems(1-3) show ?case
  proof (cases rule: cb_turn [where maxbody = maxbody])
    case (Bad ctx b1)
    from parse_error [OF less.prems(2,1) Bad(1), of ys] less.prems(4,5) show ?thesis by (simp add: cb_decode_def buf_data_def)
  next
    case (Large ctx p)
    have "chunk_decode CK_chunk_data (ck_size ctx) (cut (mem b) p (blast b) @ ys) = (out, Finished zs)"
      using parse_decodes [OF less.prems(2,1) Large(1)] less.prems(4) by (simp add: cb_decode_def buf_data_def chunk_decode_append)
    moreover have "ck_size ctx \<noteq> 0" using Large(2) by auto
    ultimately have "unat (ck_size ctx) \<le> length out" by (rule decode_data_length)
    then have "sint (ck_size ctx) \<le> int (length out)" unfolding sint_unat [OF less_imp_le [OF Large(2)]] by (simp only: of_nat_le_iff)
    moreover have "sint (maxbody - ?cl) = sint maxbody - sint ?cl"
      using less.prems(6) Large(3) sint_range [of maxbody] by (intro sint_sub_eq) auto
    ultimately show ?thesis using less.prems(6) Large(3,4) by simp
  next
    case (End rb' b')
    then show ?thesis by blast
  next
    case (Take ctx p n)
    let ?rb = "cb_taken ctx p n b rb" and ?b = "b\<lparr>pos := p + n\<rparr>"
    have nz: "ck_size ctx \<noteq> 0" using Take(6) by auto
    have n: "n \<le> unat (ck_size ctx)" using Take(5) by simp
    let ?xs = "cut (mem b) p (p + n)"
    have len: "length ?xs = n" using Take(4) less.prems(2) by (auto simp: buf_ok_def min_def)
    have split: "cut (mem b) p (blast b) @ ys = ?xs @ (buf_data ?b @ ys)" using Take(4) by (simp add: buf_data_def cut_append flip: append_assoc)
    have e: "ck_size ctx - of_nat n = 0 \<longleftrightarrow> n = unat (ck_size ctx)" using n by (rule word_minus_of_nat_eq_0)
    have entry: "ck_entry (cb_chunked ?rb) = (if length ?xs = unat (ck_size ctx) then CK_after_data else CK_chunk_data)"
      "ck_size (cb_chunked ?rb) = ck_size ctx - of_nat (length ?xs)"
      using Take(7) e len by (simp_all add: cb_taken_def ck_entry_def)
    have "chunk_decode CK_chunk_data (ck_size ctx) (cut (mem b) p (blast b) @ ys) = (out, Finished zs)"
      using parse_decodes [OF less.prems(2,1) Take(1)] less.prems(4)
      by (simp add: cb_decode_def buf_data_def chunk_decode_append)
    then have D: "chunk_decode CK_chunk_data (ck_size ctx) (?xs @ (buf_data ?b @ ys)) = (out, Finished zs)"
      unfolding split .
    then obtain out2 where out2: "cb_decode ?rb (buf_data ?b @ ys) = (out2, Finished zs)" "out = ?xs @ out2"
      using chunk_decode_data [of ?xs "ck_size ctx" "buf_data ?b @ ys"] n len nz
      by (auto simp: cb_decode_def entry split: prod.splits)
    have small: "chunk_small (ck_entry (cb_chunked ?rb)) (ck_size (cb_chunked ?rb)) (buf_data ?b @ ys)"
    proof -
      obtain x st ctx' q where L: "byte_loop ck_step (mem b) (blast b) (pos b) (ck_entry (cb_chunked rb)) (cb_chunked rb) = Some (x, st, ctx', q)"
        using ck.loop_total by blast
      have lim: "blast b \<le> length (mem b)" using less.prems(2) by (simp add: buf_ok_def)
      have "x = Some CK_data \<and> ck_size ctx = ck_size ctx' \<and> p = q"
        using Take(1) L by (auto simp: ngx_http_parse_chunked_def ck_finish_def Let_def split: option.splits ck_exit.splits if_splits)
           (metis ngx_buf.ext_inject ngx_buf.update_convs(2) ngx_buf.surjective)+
      with chunk_small_loop [OF lim L less.prems(5) [unfolded buf_data_def]]
      have "chunk_small CK_chunk_data (ck_size ctx) (?xs @ (buf_data ?b @ ys))" unfolding split [symmetric] by simp
      from chunk_small_data [OF this _ nz] n show ?thesis unfolding entry unfolding len by blast
    qed
    have "maxbody = 0 \<or> 0 \<le> sint (cb_content_length ?rb) \<and> sint (cb_content_length ?rb) + int (length out2) \<le> sint maxbody"
    proof (cases "maxbody = 0")
      case False
      then have cl: "0 \<le> sint ?cl" "sint ?cl + int n + int (length out2) \<le> sint maxbody" using less.prems(6) out2(2) len by simp_all
      have "n < 2 ^ 63" using Take(4) less.prems(2,3) by (simp add: buf_ok_def)
      then have "sint (cb_content_length ?rb) = sint ?cl + int n"
        using cl sint_range [of maxbody] by (simp add: cb_taken_def sint_add_eq sint_of_nat)
      with cl show ?thesis by simp
    qed simp
    moreover have "blast ?b - pos ?b < blast b - pos b" using Take(2-4) by simp
    ultimately show ?thesis
      using less.hyps [of ?b ?rb out2] Take(9,10,11) less.prems(3) out2(1) small by simp
  qed
qed

text \<open>The chain: every buffer before the last leaves the decoder running.\<close>

lemma cb_chain_accepts:
  assumes "cb_bufs (bs @ [b])" and "ck_ok (cb_chunked rb)" and "buf_data b \<noteq> []"
    and "cb_decode rb (concat (map buf_data (bs @ [b]))) = (out, Finished [])"
    and "chunk_small (ck_entry (cb_chunked rb)) (ck_size (cb_chunked rb)) (concat (map buf_data (bs @ [b])))"
    and "maxbody = 0 \<or> 0 \<le> sint (cb_content_length rb) \<and> sint (cb_content_length rb) + int (length out) \<le> sint maxbody"
    and "length out < 2 ^ 62"
  shows "\<exists>rb'. cb_chain maxbody rb (bs @ [b]) = Some (Inr rb') \<and> cb_out rb' = cb_out rb @ out \<and> cb_last rb'"
  using assms
proof (induction bs arbitrary: rb out)
  case Nil
  have b: "buf_ok b" "length (mem b) < 2 ^ 62" using Nil.prems(1) by (auto simp: cb_bufs_def)
  obtain rb' b' where r: "ngx_http_request_body_chunked_buf maxbody rb b = Some (Inr (rb', b'))"
    using cb_accepts [OF Nil.prems(2) b, of "[]" out "[]" maxbody] Nil.prems by auto
  from cb_run_accept [OF Nil.prems(2) b r] Nil.prems(4) r show ?case
    by (auto simp: cb_post_def cb_decode_def buf_data_def)
next
  case (Cons a bs)
  have a: "buf_ok a" "length (mem a) < 2 ^ 62" and bs: "cb_bufs (bs @ [b])" using Cons.prems(1) by (auto simp: cb_bufs_def)
  let ?ys = "concat (map buf_data (bs @ [b]))"
  obtain rb1 b1 where r: "ngx_http_request_body_chunked_buf maxbody rb a = Some (Inr (rb1, b1))"
    using cb_accepts [OF Cons.prems(2) a, of ?ys out "[]" maxbody] Cons.prems by auto
  note post = cb_run_accept [OF Cons.prems(2) a r]
  obtain out1 d where D: "chunk_decode (ck_entry (cb_chunked rb)) (ck_size (cb_chunked rb)) (buf_data a) = (out1, d)"
    "cb_out rb1 = cb_out rb @ out1" "cb_content_length rb1 = cb_content_length rb + of_nat (length out1)"
    "d = Finished (cut (mem a) (pos b1) (blast a)) \<or> d = Running (ck_entry (cb_chunked rb1)) (ck_size (cb_chunked rb1))"
    using post by (auto simp: cb_post_def buf_data_def)
  have nf: "d \<noteq> Finished zs" for zs
    using Cons.prems(3,4) D(1) by (auto simp: cb_decode_def chunk_decode_append)
  then have d: "d = Running (ck_entry (cb_chunked rb1)) (ck_size (cb_chunked rb1))" using D(4) by blast
  obtain out2 where out2: "cb_decode rb1 ?ys = (out2, Finished [])" "out = out1 @ out2"
    using Cons.prems(4) D(1) d by (auto simp: cb_decode_def chunk_decode_append split: prod.splits)
  have small: "chunk_small (ck_entry (cb_chunked rb1)) (ck_size (cb_chunked rb1)) ?ys"
    using chunk_small_running [of _ _ "buf_data a" ?ys] Cons.prems(5) D(1) d by auto
  have max: "maxbody = 0 \<or> 0 \<le> sint (cb_content_length rb1) \<and> sint (cb_content_length rb1) + int (length out2) \<le> sint maxbody"
  proof (cases "maxbody = 0")
    case False
    then have cl: "0 \<le> sint (cb_content_length rb)" "sint (cb_content_length rb) + int (length out1) + int (length out2) \<le> sint maxbody"
      using Cons.prems(6) out2(2) by simp_all
    have "length out1 < 2 ^ 63" using Cons.prems(7) out2(2) by simp
    then have "sint (cb_content_length rb1) = sint (cb_content_length rb) + int (length out1)"
      using cl sint_range [of maxbody] by (simp add: D(3) sint_add_eq sint_of_nat)
    with cl show ?thesis by simp
  qed simp
  have "length out2 < 2 ^ 62" using Cons.prems(7) out2(2) by simp
  moreover have "ck_ok (cb_chunked rb1)" using post by (simp add: cb_post_def)
  ultimately show ?case
    using Cons.IH [OF bs _ Cons.prems(3) out2(1) small max] r D(2) out2(2) by simp
qed

section \<open>The coding\<close>

definition hex_char :: "u_char \<Rightarrow> bool" where
  "hex_char c \<longleftrightarrow> is_digit c \<or> is_hex_lower (lower c)"

definition hex_val :: "u_char \<Rightarrow> nat" where
  "hex_val c = (if is_digit c then unat c - 48 else unat (lower c) - 87)"

definition hex_from :: "nat \<Rightarrow> bytes \<Rightarrow> nat" where
  "hex_from v h = foldl (\<lambda>v c. v * 16 + hex_val c) v h"

definition crlf :: bytes where
  "crlf = [c_CR, c_LF]"

text \<open>The chunks as pairs of the hexadecimal size, in any spelling, and the data.\<close>

definition chunk_ok :: "bytes \<times> bytes \<Rightarrow> bool" where
  "chunk_ok c \<longleftrightarrow> fst c \<noteq> [] \<and> list_all hex_char (fst c) \<and> hex_from 0 (fst c) = length (snd c) \<and> snd c \<noteq> [] \<and> length (snd c) < 2 ^ 58"

definition chunked_text :: "(bytes \<times> bytes) list \<Rightarrow> bytes" where
  "chunked_text cs = concat (map (\<lambda>(h, d). h @ crlf @ d @ crlf) cs) @ [c_0] @ crlf @ crlf"

text \<open>What decoding and the bound say together of a text that is decoded from a state.\<close>

definition decodes :: "ck_state \<Rightarrow> 64 word \<Rightarrow> bytes \<Rightarrow> bytes \<Rightarrow> bool" where
  "decodes st sz xs out \<longleftrightarrow> chunk_decode st sz xs = (out, Finished []) \<and> chunk_small st sz xs"

lemma hex_word:
  assumes "hex_char c"
  shows "(if is_digit c then ucast c - 48 else ucast (lower c) - 97 + 10 :: 64 word) = of_nat (hex_val c)" 
proof -
  have "is_hex_lower x \<Longrightarrow> 87 \<le> unat x" for x by (simp add: is_hex_lower_def word_le_nat_alt)
  with assms show ?thesis
    using digit_value_word [of c, where 'a = 64] by (auto simp: hex_val_def hex_char_def of_nat_diff)
qed

lemma hex_not_sep: "hex_char c \<Longrightarrow> c \<noteq> c_CR \<and> c \<noteq> c_LF"
  by (auto simp: hex_char_def is_digit_def is_hex_lower_def lower_def word_le_nat_alt)

lemma ck_step_hex:
  assumes "hex_char c"
  shows "ck_step buf p c CK_chunk_start ctx = Next CK_chunk_size (ctx\<lparr>ck_size := of_nat (hex_val c)\<rparr>)"
    "ck_step buf p c CK_chunk_size ctx = Next CK_chunk_size (ctx\<lparr>ck_size := ck_size ctx * 16 + of_nat (hex_val c)\<rparr>)"
  using assms hex_word [OF assms] by (auto simp: ck_step_def ck_sw_chunk_start_def ck_sw_chunk_size_def hex_char_def Let_def)

lemma hex_from_ge: "v \<le> hex_from v h"
proof (induction h arbitrary: v)
  case (Cons c h)
  from Cons [of "v * 16 + hex_val c"] show ?case by (simp add: hex_from_def)
qed (simp add: hex_from_def)

lemma small_of_nat: "v < 2 ^ 58 \<Longrightarrow> unat (of_nat v :: 64 word) = v"
  by (simp add: unsigned_of_nat take_bit_nat_eq_self)

lemma decodes_hex:
  "list_all hex_char h \<Longrightarrow> hex_from v h < 2 ^ 58 \<Longrightarrow> decodes CK_chunk_size (of_nat (hex_from v h)) ys out \<Longrightarrow>
     decodes CK_chunk_size (of_nat v) (h @ ys) out"
proof (induction h arbitrary: v)
  case (Cons c h)
  have "v < 2 ^ 58" using hex_from_ge [of v "c # h"] Cons.prems(2) by simp
  moreover have "decodes CK_chunk_size (of_nat (v * 16 + hex_val c)) (h @ ys) out"
    using Cons.IH [of "v * 16 + hex_val c"] Cons.prems by (simp add: hex_from_def del: of_nat_add of_nat_mult)
  ultimately show ?case using Cons.prems(1) by (simp add: decodes_def ck_step_hex small_of_nat)
qed (simp add: hex_from_def)

lemma decodes_start:
  assumes "h \<noteq> []" "list_all hex_char h" "hex_from 0 h < 2 ^ 58" and "decodes CK_chunk_size (of_nat (hex_from 0 h)) ys out"
  shows "decodes CK_chunk_start 0 (h @ ys) out"
proof -
  obtain c t where h: "h = c # t" using assms(1) by (cases h) auto
  have "decodes CK_chunk_size (of_nat (hex_val c)) (t @ ys) out"
    using decodes_hex [of t "hex_val c" ys out] assms by (simp add: h hex_from_def)
  then show ?thesis using assms(2) by (simp add: h decodes_def ck_step_hex)
qed

lemma decodes_crlf:
  "sz \<noteq> 0 \<Longrightarrow> decodes CK_chunk_data sz ys out \<Longrightarrow> decodes CK_chunk_size sz (crlf @ ys) out"
  "decodes CK_chunk_start 0 ys out \<Longrightarrow> decodes CK_after_data 0 (crlf @ ys) out"
  using chunk_small_here [of CK_chunk_data sz ys]
  by (auto simp: decodes_def crlf_def ck_step_def ck_sw_defs is_digit_def is_hex_lower_def lower_def Let_def word_le_nat_alt)

lemma decodes_data:
  "d \<noteq> [] \<Longrightarrow> length d < 2 ^ 58 \<Longrightarrow> decodes CK_after_data 0 ys out \<Longrightarrow> decodes CK_chunk_data (of_nat (length d)) (d @ ys) (d @ out)"
proof (induction d)
  case (Cons x d)
  show ?case
  proof (cases "d = []")
    case False
    have l: "length d < 2 ^ 58" using Cons.prems(2) by simp
    from False have "of_nat (length (x # d)) \<noteq> (1 :: 64 word)"
      using small_of_nat [of "length (x # d)"] Cons.prems(2) by (metis length_0_conv length_Cons nat.inject One_nat_def unat_1)
    with Cons.IH [OF False l Cons.prems(3)] show ?thesis
      using small_of_nat [OF Cons.prems(2)] Cons.prems(2) by (simp add: decodes_def)
  qed (use Cons.prems in \<open>simp add: decodes_def\<close>)
qed simp

lemma decodes_chunk:
  assumes "chunk_ok (h, d)" and "decodes CK_chunk_start 0 ys out"
  shows "decodes CK_chunk_start 0 (h @ crlf @ d @ crlf @ ys) (d @ out)"
proof (rule decodes_start)
  have nz: "of_nat (length d) \<noteq> (0 :: 64 word)"
    using assms(1) small_of_nat [of "length d"] by (metis chunk_ok_def length_0_conv snd_conv unat_0)
  show "decodes CK_chunk_size (of_nat (hex_from 0 h)) (crlf @ d @ crlf @ ys) (d @ out)"
    using assms nz by (auto simp: chunk_ok_def intro!: decodes_crlf decodes_data)
qed (use assms(1) in \<open>auto simp: chunk_ok_def\<close>)

lemma decodes_text:
  "list_all chunk_ok cs \<Longrightarrow> decodes CK_chunk_start 0 (chunked_text cs) (concat (map snd cs))"
proof (induction cs)
  case Nil
  show ?case by (simp add: chunked_text_def decodes_def crlf_def ck_step_def ck_sw_defs is_digit_def is_hex_lower_def lower_def Let_def word_le_nat_alt chunked_init_def)
next
  case (Cons c cs)
  then show ?case using decodes_chunk [of "fst c" "snd c" "chunked_text cs"]
    by (cases c) (simp add: chunked_text_def)
qed

text \<open>
  a body written in the chunked coding, with chunks of any size and any spelling of
  the sizes, arriving in buffers cut anywhere, is accepted, and the data handed on are the
  chunks put together.
\<close>

lemma chunked_filter_roundtrip:
  assumes "list_all chunk_ok cs" and "concat (map buf_data (bs @ [b])) = chunked_text cs" and "buf_data b \<noteq> []" and "cb_bufs (bs @ [b])"
    and "cb_rest rb = -1" and "length (concat (map snd cs)) < 2 ^ 62"
    and "maxbody = 0 \<or> int (length (concat (map snd cs))) \<le> sint maxbody"
  shows "\<exists>rb'. ngx_http_request_body_chunked_filter maxbody rb (bs @ [b]) = Some (Inr rb') \<and>
    cb_out rb' = concat (map snd cs) \<and> cb_last rb'"
proof -
  have D: "decodes CK_chunk_start 0 (concat (map buf_data (bs @ [b]))) (concat (map snd cs))"
    using decodes_text [OF assms(1)] by (simp only: assms(2))
  have b: "cb_chunked (cb_begin rb) = chunked_init" "cb_content_length (cb_begin rb) = 0" "cb_out (cb_begin rb) = []"
    using assms(5) by (simp_all add: cb_begin_def Let_def)
  have e: "ck_entry chunked_init = CK_chunk_start" "ck_size chunked_init = 0" by (simp_all add: ck_entry_def chunked_init_def)
  show ?thesis
    using cb_chain_accepts [OF assms(4), of "cb_begin rb" "concat (map snd cs)" maxbody] D assms(3,6,7)
    by (simp add: cb_filter_eq b e decodes_def cb_decode_def)
qed

section \<open>The estimate of the rest\<close>

lemma unat_rest:
  assumes "unat sz < 2 ^ 58"
  shows "unat (ck_rest st sz) =
    (case st of
       CK_chunk_start \<Rightarrow> 3 | CK_chunk_size \<Rightarrow> (if sz = 0 then 2 else unat sz + 5)
     | CK_chunk_extension \<Rightarrow> unat sz + 5 | CK_chunk_extension_almost_done \<Rightarrow> unat sz + 5
     | CK_chunk_data \<Rightarrow> unat sz + 4 | CK_after_data \<Rightarrow> 4 | CK_after_data_almost_done \<Rightarrow> 4
     | CK_last_chunk_extension \<Rightarrow> 2 | CK_last_chunk_extension_almost_done \<Rightarrow> 2 | CK_trailer \<Rightarrow> 1
     | CK_trailer_almost_done \<Rightarrow> 1 | CK_trailer_header \<Rightarrow> 2 | CK_trailer_header_almost_done \<Rightarrow> 2)"
proof -
  have 4: "unat (sz + 4) = unat sz + 4" and 5: "unat (sz + 5) = unat sz + 5"
    using assms by (simp_all add: unat_add_small)
  have e: "1 + sz + 4 = sz + 5" "1 + (sz + 4) = sz + 5" by simp_all
  show ?thesis
    by (cases st) (simp_all only: ck_rest_def ck_state.case e 4 5 split: if_split, simp_all)
qed

text \<open>One byte lowers the estimate by one at most; the last byte of the body is the last of the estimate.\<close>

lemma hex_char_val: "hex_char c \<Longrightarrow> hex_val c < 16"
  by (auto simp: hex_char_def hex_val_def is_digit_def is_hex_lower_def word_le_nat_alt)

lemma ck_rest_step:
  assumes "unat (ck_size ctx) < 2 ^ 58" and "st \<noteq> CK_chunk_data" and "ck_sized st (ck_size ctx)"
    and "ck_step buf p c st ctx = Next st' ctx'" and "unat (ck_size ctx') < 2 ^ 58"
  shows "unat (ck_rest st (ck_size ctx)) \<le> Suc (unat (ck_rest st' (ck_size ctx')))"
proof (cases "hex_char c \<and> st = CK_chunk_size")
  case True
  then have n: "st' = CK_chunk_size" "ck_size ctx' = ck_size ctx * 16 + of_nat (hex_val c)"
    using assms(4) ck_step_hex(2) [of c buf p ctx] by auto
  have "ck_size ctx' = of_nat (unat (ck_size ctx) * 16 + hex_val c)" by (simp add: n)
  moreover have "unat (ck_size ctx) * 16 + hex_val c < 2 ^ 64" using hex_char_val [of c] True assms(1) by simp
  ultimately have "unat (ck_size ctx') = unat (ck_size ctx) * 16 + hex_val c"
    by (simp only: unsigned_of_nat) (simp add: take_bit_nat_eq_self)
  then have "unat (ck_size ctx) \<le> unat (ck_size ctx')" by simp
  moreover from this have "ck_size ctx' = 0 \<Longrightarrow> ck_size ctx = 0" by (simp add: unat_eq_0)
  ultimately show ?thesis
    unfolding unat_rest [OF assms(1)] unat_rest [OF assms(5)] using True n(1) by (auto simp: split: if_splits)
next
  case False
  with assms show ?thesis
    unfolding unat_rest [OF assms(1)] unat_rest [OF assms(5)]
    by (cases st) (auto simp: ck_step_def ck_sw_defs ck_sized_def hex_char_def Let_def split: if_splits)
qed

lemma decode_rest:
  "chunk_decode st sz xs = (out, Finished zs) \<Longrightarrow> chunk_small st sz xs \<Longrightarrow> ck_sized st sz \<Longrightarrow>
     length zs + unat (ck_rest st sz) \<le> length xs"
proof (induction st sz xs arbitrary: out rule: chunk_decode.induct)
  case (2 st sz c cs)
  note here = chunk_small_here [OF "2.prems"(2)]
  show ?case
  proof (cases "st = CK_chunk_data")
    case True
    then have nz: "sz \<noteq> 0" using "2.prems"(3) by (simp add: ck_sized_def)
    let ?st = "if sz = 1 then CK_after_data else CK_chunk_data"
    obtain out' where D: "chunk_decode ?st (sz - 1) cs = (out', Finished zs)"
      using "2.prems"(1) True by (auto split: prod.splits)
    have S: "chunk_small ?st (sz - 1) cs" using "2.prems"(2) True by simp
    have Z: "ck_sized ?st (sz - 1)" by (simp add: ck_sized_def)
    have u: "unat (sz - 1) = unat sz - 1" "0 < unat sz" using nz by (simp_all add: unat_sub word_le_nat_alt unat_gt_0 Suc_le_eq)
    have "length zs + unat (ck_rest ?st (sz - 1)) \<le> length cs" by (rule "2.IH"(1) [OF True D S Z])
    moreover have "unat (ck_rest st sz) \<le> Suc (unat (ck_rest ?st (sz - 1)))"
      using u unat_rest [OF here, of st] unat_rest [OF chunk_small_here [OF S], of ?st] True by simp
    ultimately show ?thesis by simp
  next
    case False
    show ?thesis
    proof (cases "ck_step [] 0 c st (chunked_init\<lparr>ck_size := sz\<rparr>)")
      case (Next st' ctx)
      have D: "chunk_decode st' (ck_size ctx) cs = (out, Finished zs)" using "2.prems"(1) False Next by simp
      have S: "chunk_small st' (ck_size ctx) cs" using "2.prems"(2) False Next by simp
      have Z: "ck_sized st' (ck_size ctx)"
        using ck_sized_step [of st "chunked_init\<lparr>ck_size := sz\<rparr>" "[]" 0 c] "2.prems"(3) Next by simp
      have "length zs + unat (ck_rest st' (ck_size ctx)) \<le> length cs" by (rule "2.IH"(2) [OF False Next D S Z])
      moreover have "unat (ck_rest st sz) \<le> Suc (unat (ck_rest st' (ck_size ctx)))"
        using ck_rest_step [OF _ False _ Next chunk_small_here [OF S]] here "2.prems"(3) by simp
      ultimately show ?thesis by simp
    next
      case (Redo st' ctx)
      then show ?thesis using ck_step_no_redo by blast
    next
      case (Exit x st' ctx)
      then have "x = CK_done" "zs = cs" using "2.prems"(1) False by (auto split: if_splits)
      moreover from this have "unat (ck_rest st sz) = 1"
        using Exit False by (cases st) (auto simp: ck_step_def ck_sw_defs ck_rest_def Let_def split: if_splits)
      ultimately show ?thesis by simp
    qed
  qed
qed simp

text \<open>
  The filter never asks for more than the body still has. When it has used up its
  buffers and asks to see \<open>rest\<close> bytes next, every continuation that completes the body, with
  sizes that do not overflow, has at least that many bytes.
\<close>

lemma chunked_filter_rest:
  assumes "cb_ok rb" and "cb_bufs bs" and "bs \<noteq> []"
    and "ngx_http_request_body_chunked_filter maxbody rb bs = Some (Inr rb')" and "\<not> cb_last rb'"
    and "cb_decode rb' xs = (out, Finished zs)" and "chunk_small (ck_entry (cb_chunked rb')) (ck_size (cb_chunked rb')) xs"
  shows "length zs + unat (cb_rest rb') \<le> length xs"
proof -
  have "cb_chain maxbody (cb_begin rb) bs = Some (Inr rb')" using assms(4) by (simp add: cb_filter_eq)
  from cb_chain_running [OF assms(2) cb_begin_ok [OF assms(1)] this assms(5)] assms(3)
  have "cb_rest rb' = ck_rest (ck_entry (cb_chunked rb')) (ck_size (cb_chunked rb'))" "ck_ok (cb_chunked rb')" by auto
  with decode_rest [of "ck_entry (cb_chunked rb')" "ck_size (cb_chunked rb')" xs out zs] assms(6,7) show ?thesis
    by (simp add: cb_decode_def ck_ok_def)
qed

section \<open>Sizes that wrap\<close>

lemma eats_hex:
  "list_all hex_char h \<Longrightarrow> ck_size ctx = of_nat v \<Longrightarrow>
     eats ck_step buf p h CK_chunk_size ctx = Some (CK_chunk_size, ctx\<lparr>ck_size := of_nat (hex_from v h)\<rparr>)"
proof (induction h arbitrary: p v ctx)
  case (Cons c h)
  have "ck_step buf p c CK_chunk_size ctx = Next CK_chunk_size (ctx\<lparr>ck_size := of_nat (v * 16 + hex_val c)\<rparr>)"
    using Cons.prems ck_step_hex(2) [of c buf p ctx] by simp
  with Cons.IH [of "ctx\<lparr>ck_size := of_nat (v * 16 + hex_val c)\<rparr>" "v * 16 + hex_val c"] Cons.prems show ?case
    by (simp add: hex_from_def del: of_nat_add of_nat_mult)
qed (simp add: hex_from_def)

text \<open>
  A chunk size is read modulo \<open>2 ^ 64\<close>. Whatever the number of its digits, a size that
  leaves a positive remainder is accepted as that remainder, so \<open>10000000000000001\<close> is the size 1.
\<close>

lemma chunk_size_wraps:
  assumes h: "h \<noteq> []" "list_all hex_char h" and "0 < hex_from 0 h mod 2 ^ 64" and "hex_from 0 h mod 2 ^ 64 < 2 ^ 58"
    and b: "mem b = h @ crlf @ x # ys" "pos b = 0" "blast b = length (mem b)"
  shows "\<exists>ctx. ngx_http_parse_chunked chunked_init b = Some (NGX_OK, ctx, b\<lparr>pos := length h + 2\<rparr>) \<and>
    unat (ck_size ctx) = hex_from 0 h mod 2 ^ 64"
proof -
  obtain c t where ct: "h = c # t" using h(1) by (cases h) auto
  let ?n = "of_nat (hex_from 0 h) :: 64 word" and ?ctx = "chunked_init\<lparr>ck_size := of_nat (hex_from 0 h)\<rparr>"
  have 1: "eats ck_step (mem b) 0 h CK_chunk_start chunked_init = Some (CK_chunk_size, ?ctx)"
    using eats_hex [of t "chunked_init\<lparr>ck_size := of_nat (hex_val c)\<rparr>" "hex_val c" "mem b" 1] h(2) ck_step_hex(1) [of c "mem b" 0 chunked_init]
    by (simp add: ct hex_from_def)
  have u: "unat ?n = hex_from 0 h mod 2 ^ 64" by (simp add: unsigned_of_nat take_bit_eq_mod)
  then have nz: "?n \<noteq> 0" and s: "unat ?n < 2 ^ 58" using assms(3,4) by auto
  have 2: "eats ck_step (mem b) p crlf CK_chunk_size ?ctx = Some (CK_chunk_data, ?ctx)" for p
    using nz by (simp add: crlf_def ck_step_def ck_sw_defs is_digit_def is_hex_lower_def lower_def Let_def word_le_nat_alt)
  have d: "drop 0 (mem b) = (h @ crlf) @ (x # ys)" using b(1) by simp
  have e: "eats ck_step (mem b) 0 (h @ crlf) CK_chunk_start chunked_init = Some (CK_chunk_data, ?ctx)"
    using 1 2 by (simp add: eats_append)
  note L = byte_loop_eats [OF d e]
  have st: "ck_step (mem b) q x CK_chunk_data ?ctx = Exit CK_data CK_chunk_data ?ctx" for q
    by (simp add: ck_step_def ck_sw_chunk_data_def)
  have "byte_loop ck_step (mem b) (length (mem b)) 0 CK_chunk_start chunked_init = Some (Some CK_data, CK_chunk_data, ?ctx, length h + 2)"
    using L eat_exit [OF L [THEN conjunct2], of ck_step, OF st] by (simp add: crlf_def)
  moreover have "ck_entry chunked_init = CK_chunk_start" by (simp add: ck_entry_def chunked_init_def)
  moreover have "\<not> sint ?n < 0" "\<not> sint (ck_rest CK_chunk_data ?n) < 0" using small_sint [OF s] small_rest [OF s] by (simp_all add: not_less)
  ultimately show ?thesis
    using u by (simp add: ngx_http_parse_chunked_def b(2,3) ck_finish_def Let_def)
qed

section \<open>Witnesses\<close>

definition buf_of :: "bytes \<Rightarrow> ngx_buf" where
  "buf_of s = \<lparr>mem = s, pos = 0, blast = length s\<rparr>"

lemma buf_of_ok [simp]: "buf_ok (buf_of s)" "buf_data (buf_of s) = s" "mem (buf_of s) = s"
  by (simp_all add: buf_of_def buf_ok_def buf_data_def cut_def)

definition ex_chunks :: "(bytes \<times> bytes) list" where
  "ex_chunks = [(ascii ''2'', ascii ''ab''), (ascii ''01'', ascii ''c'')]"

definition ex_head :: bytes where
  "ex_head = ascii ''2'' @ crlf @ ascii ''a''"

definition ex_tail :: bytes where
  "ex_tail = ascii ''b'' @ crlf @ ascii ''01'' @ crlf @ ascii ''c'' @ crlf @ ascii ''0'' @ crlf @ crlf"

lemma ex_bufs [simp]: "cb_bufs [buf_of ex_head]" "cb_bufs [buf_of ex_head, buf_of ex_tail]"
  by (simp_all add: cb_bufs_def ex_head_def ex_tail_def crlf_def)

lemma ex_cb_ok [simp]: "cb_ok chunked_body_init"
  by (simp add: cb_ok_def chunked_body_init_def)

lemma ex_first:
  "\<exists>rb. ngx_http_request_body_chunked_filter 10 chunked_body_init [buf_of ex_head] = Some (Inr rb) \<and> \<not> cb_last rb \<and>
     cb_decode rb ex_tail = (ascii ''bc'', Finished []) \<and> chunk_small (ck_entry (cb_chunked rb)) (ck_size (cb_chunked rb)) ex_tail"
proof -
  have "case ngx_http_request_body_chunked_filter 10 chunked_body_init [buf_of ex_head] of
      None \<Rightarrow> False | Some (Inl s) \<Rightarrow> False
    | Some (Inr rb) \<Rightarrow> \<not> cb_last rb \<and> cb_decode rb ex_tail = (ascii ''bc'', Finished []) \<and>
        ck_entry (cb_chunked rb) = CK_chunk_data \<and> ck_size (cb_chunked rb) = 1"
    by code_simp
  moreover have "chunk_small CK_chunk_data 1 ex_tail"
    by (simp add: ex_tail_def crlf_def ck_step_def ck_sw_defs is_digit_def is_hex_lower_def lower_def Let_def word_le_nat_alt chunked_init_def)
  ultimately show ?thesis by (auto split: option.splits sum.splits)
qed

lemma ex_both:
  "\<exists>rb. ngx_http_request_body_chunked_filter 10 chunked_body_init [buf_of ex_head, buf_of ex_tail] = Some (Inr rb) \<and> cb_last rb"
proof -
  have "case ngx_http_request_body_chunked_filter 10 chunked_body_init [buf_of ex_head, buf_of ex_tail] of
      None \<Rightarrow> False | Some (Inl s) \<Rightarrow> False | Some (Inr rb) \<Rightarrow> cb_last rb"
    by code_simp
  then show ?thesis by (auto split: option.splits sum.splits)
qed

lemma chunked_total_witness:
  "\<exists>rc ctx b. ngx_http_parse_chunked chunked_init (buf_of ex_head) = Some (rc, ctx, b) \<and> rc \<in> {NGX_OK, NGX_AGAIN, NGX_DONE, NGX_ERROR}"
  using chunked_total [OF buf_of_ok(1) [of ex_head] ck_ok_init] by blast


lemma chunked_filter_limit_witness:
  "\<exists>rb. ngx_http_request_body_chunked_filter 10 chunked_body_init [buf_of ex_head, buf_of ex_tail] = Some (Inr rb) \<and>
     sint (cb_content_length rb) \<le> 10"
proof -
  obtain rb where 2: "ngx_http_request_body_chunked_filter 10 chunked_body_init [buf_of ex_head, buf_of ex_tail] = Some (Inr rb)"
    using ex_both by auto
  from chunked_filter_limit [OF ex_cb_ok ex_bufs(2) 2] 2 show ?thesis by (simp add: chunked_body_init_def)
qed

end
