(* ===== verification/Http_Request_Line.thy ===== *)
theory Http_Request_Line
  imports Http_Common
begin

text \<open>
  \<open>ngx_http_parse_request_line\<close> of \<open>http/ngx_http_parse.c\<close>: the state machine that reads
  \<open>METHOD SP [schema://host[:port]]URI [SP HTTP/x.y] CRLF\<close> from a buffer that may hold only a
  part of the line. One definition per state of the \<open>switch\<close>, in the source's order; the
  configuration modelled is the little-endian Unix one (no \<open>NGX_WIN32\<close> branches).
\<close>

section \<open>State\<close>

datatype rl_state =
    RL_start | RL_method | RL_spaces_before_uri | RL_schema | RL_schema_slash
  | RL_schema_slash_slash | RL_host_start | RL_host | RL_host_end | RL_host_ip_literal
  | RL_port | RL_host_http_09 | RL_after_slash_in_uri | RL_check_uri | RL_check_uri_http_09
  | RL_uri | RL_http_09 | RL_http_H | RL_http_HT | RL_http_HTT | RL_http_HTTP
  | RL_first_major_digit | RL_major_digit | RL_first_minor_digit | RL_minor_digit
  | RL_spaces_after_digit | RL_almost_done

text \<open>
  The fields of \<open>ngx_http_request_t\<close> the function reads and writes. \<open>http_major\<close> and
  \<open>http_minor\<close> are the 16-bit fields of \<open>ngx_http_request.h\<close>.
\<close>

record request_line =
  rl_state :: rl_state
  req_method :: nat
  http_version :: nat
  http_major :: "16 word"
  http_minor :: "16 word"
  request_start :: ptr
  request_end :: ptr
  method_end :: ptr
  uri_start :: ptr
  uri_end :: ptr
  uri_ext :: ptr
  args_start :: ptr
  schema_start :: ptr
  schema_end :: ptr
  host_start :: ptr
  host_end :: ptr
  port_end :: ptr
  http_protocol_data :: ptr
  complex_uri :: bool
  quoted_uri :: bool
  plus_in_uri :: bool
  space_in_uri :: bool

text \<open>
  A request whose structure has been zeroed by \<open>ngx_pcalloc\<close> and initialised by
  \<open>ngx_http_create_request\<close>.
\<close>

definition request_line_init :: request_line where
  "request_line_init =
    \<lparr>rl_state = RL_start, req_method = NGX_HTTP_UNKNOWN, http_version = 1000,
     http_major = 0, http_minor = 0, request_start = None, request_end = None,
     method_end = None, uri_start = None, uri_end = None, uri_ext = None, args_start = None,
     schema_start = None, schema_end = None, host_start = None, host_end = None,
     port_end = None, http_protocol_data = None, complex_uri = False, quoted_uri = False,
     plus_in_uri = False, space_in_uri = False\<rparr>"

text \<open>How the loop is left: \<open>goto done\<close>, \<open>return rc\<close>, or a read through a null pointer.\<close>

datatype rl_exit = RL_done | RL_return int | RL_fault

type_synonym rl_out = "(rl_exit, rl_state, request_line) outcome"

section \<open>The states\<close>

text \<open>The method names, compared word by word in the source (\<open>ngx_str3_cmp\<close> and its kin).\<close>

definition rl_method_code :: "bytes \<Rightarrow> nat \<Rightarrow> nat \<Rightarrow> nat option" where
  "rl_method_code buf m n =
    (if n = 3 then
       (if mem_is buf m (ascii ''GET '') then Some NGX_HTTP_GET
        else if mem_is buf m (ascii ''PUT '') then Some NGX_HTTP_PUT
        else None)
     else if n = 4 then
       (if buf ! (m + 1) = 0x4F then
         (if mem_is buf m (ascii ''POST'') then Some NGX_HTTP_POST
          else if mem_is buf m (ascii ''COPY'') then Some NGX_HTTP_COPY
          else if mem_is buf m (ascii ''MOVE'') then Some NGX_HTTP_MOVE
          else if mem_is buf m (ascii ''LOCK'') then Some NGX_HTTP_LOCK
          else None)
        else (if mem_is buf m (ascii ''HEAD'') then Some NGX_HTTP_HEAD else None))
     else if n = 5 then
       (if mem_is buf m (ascii ''MKCOL'') then Some NGX_HTTP_MKCOL
        else if mem_is buf m (ascii ''PATCH'') then Some NGX_HTTP_PATCH
        else if mem_is buf m (ascii ''TRACE'') then Some NGX_HTTP_TRACE
        else None)
     else if n = 6 then
       (if mem_is buf m (ascii ''DELETE'') then Some NGX_HTTP_DELETE
        else if mem_is buf m (ascii ''UNLOCK'') then Some NGX_HTTP_UNLOCK
        else None)
     else if n = 7 then
       (if mem_is buf m (ascii ''OPTIONS '') then Some NGX_HTTP_OPTIONS else None)
     else if n = 8 then
       (if mem_is buf m (ascii ''PROPFIND'') then Some NGX_HTTP_PROPFIND else None)
     else if n = 9 then
       (if mem_is buf m (ascii ''PROPPATCH'') then Some NGX_HTTP_PROPPATCH else None)
     else None)"

definition method_char :: "u_char \<Rightarrow> bool" where
  "method_char ch \<longleftrightarrow> \<not> ((ch < c_A \<or> ch > c_Z) \<and> ch \<noteq> c_under)"

definition rl_sw_start :: "nat \<Rightarrow> u_char \<Rightarrow> request_line \<Rightarrow> rl_out" where
  "rl_sw_start p ch r =
    (let r = r\<lparr>request_start := Some p\<rparr> in
     if ch = c_CR \<or> ch = c_LF then Next RL_start r
     else if \<not> method_char ch then Exit (RL_return NGX_HTTP_PARSE_INVALID_METHOD) RL_start r
     else Next RL_method r)"

definition rl_sw_method :: "bytes \<Rightarrow> nat \<Rightarrow> u_char \<Rightarrow> request_line \<Rightarrow> rl_out" where
  "rl_sw_method buf p ch r =
    (if ch = c_space then
       (let r = r\<lparr>method_end := Some (p - 1)\<rparr> in
        case request_start r of
          None \<Rightarrow> Exit RL_fault RL_method r
        | Some m \<Rightarrow>
            Next RL_spaces_before_uri
              (case rl_method_code buf m (p - m) of
                 None \<Rightarrow> r
               | Some k \<Rightarrow> r\<lparr>req_method := k\<rparr>))
     else if \<not> method_char ch then Exit (RL_return NGX_HTTP_PARSE_INVALID_METHOD) RL_method r
     else Next RL_method r)"

definition rl_sw_spaces_before_uri :: "nat \<Rightarrow> u_char \<Rightarrow> request_line \<Rightarrow> rl_out" where
  "rl_sw_spaces_before_uri p ch r =
    (if ch = c_slash then Next RL_after_slash_in_uri (r\<lparr>uri_start := Some p\<rparr>)
     else if is_alpha_lower (lower ch) then Next RL_schema (r\<lparr>schema_start := Some p\<rparr>)
     else if ch = c_space then Next RL_spaces_before_uri r
     else Exit (RL_return NGX_HTTP_PARSE_INVALID_REQUEST) RL_spaces_before_uri r)"

definition rl_sw_schema :: "nat \<Rightarrow> u_char \<Rightarrow> request_line \<Rightarrow> rl_out" where
  "rl_sw_schema p ch r =
    (if is_alpha_lower (lower ch) then Next RL_schema r
     else if ch = c_colon then Next RL_schema_slash (r\<lparr>schema_end := Some p\<rparr>)
     else Exit (RL_return NGX_HTTP_PARSE_INVALID_REQUEST) RL_schema r)"

text \<open>The states that accept one character only.\<close>

definition rl_expect ::
  "u_char \<Rightarrow> rl_state \<Rightarrow> rl_state \<Rightarrow> u_char \<Rightarrow> request_line \<Rightarrow> rl_out" where
  "rl_expect c st st' ch r =
    (if ch = c then Next st' r else Exit (RL_return NGX_HTTP_PARSE_INVALID_REQUEST) st r)"

definition rl_sw_schema_slash :: "u_char \<Rightarrow> request_line \<Rightarrow> rl_out" where
  "rl_sw_schema_slash = rl_expect c_slash RL_schema_slash RL_schema_slash_slash"

definition rl_sw_schema_slash_slash :: "u_char \<Rightarrow> request_line \<Rightarrow> rl_out" where
  "rl_sw_schema_slash_slash = rl_expect c_slash RL_schema_slash_slash RL_host_start"

text \<open>
  The end of the host. For \<open>"http://host "\<close> the URI is the single slash after the schema's
  colon, so that pointers survive a copy of the line to a larger buffer.
\<close>

definition rl_sw_host_end :: "nat \<Rightarrow> u_char \<Rightarrow> rl_state \<Rightarrow> request_line \<Rightarrow> rl_out" where
  "rl_sw_host_end p ch st r =
    (let r = r\<lparr>host_end := Some p\<rparr> in
     if ch = c_colon then Next RL_port r
     else if ch = c_slash then Next RL_after_slash_in_uri (r\<lparr>uri_start := Some p\<rparr>)
     else if ch = c_space then
       (case schema_end r of
          None \<Rightarrow> Exit RL_fault st r
        | Some e \<Rightarrow> Next RL_host_http_09 (r\<lparr>uri_start := Some (e + 1), uri_end := Some (e + 2)\<rparr>))
     else Exit (RL_return NGX_HTTP_PARSE_INVALID_REQUEST) st r)"

definition rl_sw_host :: "nat \<Rightarrow> u_char \<Rightarrow> request_line \<Rightarrow> rl_out" where
  "rl_sw_host p ch r =
    (if is_alpha_lower (lower ch) then Next RL_host r
     else if is_digit ch \<or> ch = c_dot \<or> ch = c_minus then Next RL_host r
     else rl_sw_host_end p ch RL_host r)"

definition rl_sw_host_start :: "nat \<Rightarrow> u_char \<Rightarrow> request_line \<Rightarrow> rl_out" where
  "rl_sw_host_start p ch r =
    (let r = r\<lparr>host_start := Some p\<rparr> in
     if ch = c_lbrack then Next RL_host_ip_literal r else rl_sw_host p ch r)"

definition ip_literal_char :: "u_char \<Rightarrow> bool" where
  "ip_literal_char ch \<longleftrightarrow>
     ch = c_colon \<or> ch = c_minus \<or> ch = c_dot \<or> ch = c_under \<or> ch = c_tilde
     \<or> ch = 0x21 \<or> ch = 0x24 \<or> ch = c_amp \<or> ch = 0x27 \<or> ch = 0x28 \<or> ch = 0x29
     \<or> ch = 0x2A \<or> ch = c_plus \<or> ch = c_comma \<or> ch = c_semi \<or> ch = c_eq"

definition rl_sw_host_ip_literal :: "u_char \<Rightarrow> request_line \<Rightarrow> rl_out" where
  "rl_sw_host_ip_literal ch r =
    (if is_digit ch then Next RL_host_ip_literal r
     else if is_alpha_lower (lower ch) then Next RL_host_ip_literal r
     else if ch = c_rbrack then Next RL_host_end r
     else if ip_literal_char ch then Next RL_host_ip_literal r
     else Exit (RL_return NGX_HTTP_PARSE_INVALID_REQUEST) RL_host_ip_literal r)"

definition rl_sw_port :: "nat \<Rightarrow> u_char \<Rightarrow> request_line \<Rightarrow> rl_out" where
  "rl_sw_port p ch r =
    (if is_digit ch then Next RL_port r
     else if ch = c_slash then
       Next RL_after_slash_in_uri (r\<lparr>port_end := Some p, uri_start := Some p\<rparr>)
     else if ch = c_space then
       (let r = r\<lparr>port_end := Some p\<rparr> in
        case schema_end r of
          None \<Rightarrow> Exit RL_fault RL_port r
        | Some e \<Rightarrow> Next RL_host_http_09 (r\<lparr>uri_start := Some (e + 1), uri_end := Some (e + 2)\<rparr>))
     else Exit (RL_return NGX_HTTP_PARSE_INVALID_REQUEST) RL_port r)"

text \<open>space+ after \<open>"http://host[:port] "\<close>.\<close>

definition rl_sw_host_http_09 :: "nat \<Rightarrow> u_char \<Rightarrow> request_line \<Rightarrow> rl_out" where
  "rl_sw_host_http_09 p ch r =
    (if ch = c_space then Next RL_host_http_09 r
     else if ch = c_CR then Next RL_almost_done (r\<lparr>http_minor := 9\<rparr>)
     else if ch = c_LF then Exit RL_done RL_host_http_09 (r\<lparr>http_minor := 9\<rparr>)
     else if ch = c_H then Next RL_http_H (r\<lparr>http_protocol_data := Some p\<rparr>)
     else Exit (RL_return NGX_HTTP_PARSE_INVALID_REQUEST) RL_host_http_09 r)"

text \<open>Check \<open>"/."\<close>, \<open>"//"\<close> and \<open>"%"\<close> in the URI.\<close>

definition rl_sw_after_slash_in_uri :: "nat \<Rightarrow> u_char \<Rightarrow> request_line \<Rightarrow> rl_out" where
  "rl_sw_after_slash_in_uri p ch r =
    (if usual ch then Next RL_check_uri r
     else if ch = c_space then Next RL_check_uri_http_09 (r\<lparr>uri_end := Some p\<rparr>)
     else if ch = c_CR then Next RL_almost_done (r\<lparr>uri_end := Some p, http_minor := 9\<rparr>)
     else if ch = c_LF then
       Exit RL_done RL_after_slash_in_uri (r\<lparr>uri_end := Some p, http_minor := 9\<rparr>)
     else if ch = c_dot then Next RL_uri (r\<lparr>complex_uri := True\<rparr>)
     else if ch = c_percent then Next RL_uri (r\<lparr>quoted_uri := True\<rparr>)
     else if ch = c_slash then Next RL_uri (r\<lparr>complex_uri := True\<rparr>)
     else if ch = c_quest then Next RL_uri (r\<lparr>args_start := Some (p + 1)\<rparr>)
     else if ch = c_hash then Next RL_uri (r\<lparr>complex_uri := True\<rparr>)
     else if ch = c_plus then Next RL_after_slash_in_uri (r\<lparr>plus_in_uri := True\<rparr>)
     else if ch = c_NUL then
       Exit (RL_return NGX_HTTP_PARSE_INVALID_REQUEST) RL_after_slash_in_uri r
     else Next RL_check_uri r)"

text \<open>Check \<open>"/"\<close> and \<open>"%"\<close> in the URI.\<close>

definition rl_sw_check_uri :: "nat \<Rightarrow> u_char \<Rightarrow> request_line \<Rightarrow> rl_out" where
  "rl_sw_check_uri p ch r =
    (if usual ch then Next RL_check_uri r
     else if ch = c_slash then Next RL_after_slash_in_uri (r\<lparr>uri_ext := None\<rparr>)
     else if ch = c_dot then Next RL_check_uri (r\<lparr>uri_ext := Some (p + 1)\<rparr>)
     else if ch = c_space then Next RL_check_uri_http_09 (r\<lparr>uri_end := Some p\<rparr>)
     else if ch = c_CR then Next RL_almost_done (r\<lparr>uri_end := Some p, http_minor := 9\<rparr>)
     else if ch = c_LF then Exit RL_done RL_check_uri (r\<lparr>uri_end := Some p, http_minor := 9\<rparr>)
     else if ch = c_percent then Next RL_uri (r\<lparr>quoted_uri := True\<rparr>)
     else if ch = c_quest then Next RL_uri (r\<lparr>args_start := Some (p + 1)\<rparr>)
     else if ch = c_hash then Next RL_uri (r\<lparr>complex_uri := True\<rparr>)
     else if ch = c_plus then Next RL_check_uri (r\<lparr>plus_in_uri := True\<rparr>)
     else if ch = c_NUL then Exit (RL_return NGX_HTTP_PARSE_INVALID_REQUEST) RL_check_uri r
     else Next RL_check_uri r)"

text \<open>space+ after the URI; anything but a protocol or a line end goes back into the URI.\<close>

definition rl_sw_check_uri_http_09 :: "nat \<Rightarrow> u_char \<Rightarrow> request_line \<Rightarrow> rl_out" where
  "rl_sw_check_uri_http_09 p ch r =
    (if ch = c_space then Next RL_check_uri_http_09 r
     else if ch = c_CR then Next RL_almost_done (r\<lparr>http_minor := 9\<rparr>)
     else if ch = c_LF then Exit RL_done RL_check_uri_http_09 (r\<lparr>http_minor := 9\<rparr>)
     else if ch = c_H then Next RL_http_H (r\<lparr>http_protocol_data := Some p\<rparr>)
     else Redo RL_check_uri (r\<lparr>space_in_uri := True\<rparr>))"

definition rl_sw_uri :: "nat \<Rightarrow> u_char \<Rightarrow> request_line \<Rightarrow> rl_out" where
  "rl_sw_uri p ch r =
    (if usual ch then Next RL_uri r
     else if ch = c_space then Next RL_http_09 (r\<lparr>uri_end := Some p\<rparr>)
     else if ch = c_CR then Next RL_almost_done (r\<lparr>uri_end := Some p, http_minor := 9\<rparr>)
     else if ch = c_LF then Exit RL_done RL_uri (r\<lparr>uri_end := Some p, http_minor := 9\<rparr>)
     else if ch = c_hash then Next RL_uri (r\<lparr>complex_uri := True\<rparr>)
     else if ch = c_NUL then Exit (RL_return NGX_HTTP_PARSE_INVALID_REQUEST) RL_uri r
     else Next RL_uri r)"

definition rl_sw_http_09 :: "nat \<Rightarrow> u_char \<Rightarrow> request_line \<Rightarrow> rl_out" where
  "rl_sw_http_09 p ch r =
    (if ch = c_space then Next RL_http_09 r
     else if ch = c_CR then Next RL_almost_done (r\<lparr>http_minor := 9\<rparr>)
     else if ch = c_LF then Exit RL_done RL_http_09 (r\<lparr>http_minor := 9\<rparr>)
     else if ch = c_H then Next RL_http_H (r\<lparr>http_protocol_data := Some p\<rparr>)
     else Redo RL_uri (r\<lparr>space_in_uri := True\<rparr>))"

definition rl_sw_http_H :: "u_char \<Rightarrow> request_line \<Rightarrow> rl_out" where
  "rl_sw_http_H = rl_expect c_T RL_http_H RL_http_HT"

definition rl_sw_http_HT :: "u_char \<Rightarrow> request_line \<Rightarrow> rl_out" where
  "rl_sw_http_HT = rl_expect c_T RL_http_HT RL_http_HTT"

definition rl_sw_http_HTT :: "u_char \<Rightarrow> request_line \<Rightarrow> rl_out" where
  "rl_sw_http_HTT = rl_expect c_P RL_http_HTT RL_http_HTTP"

definition rl_sw_http_HTTP :: "u_char \<Rightarrow> request_line \<Rightarrow> rl_out" where
  "rl_sw_http_HTTP = rl_expect c_slash RL_http_HTTP RL_first_major_digit"

text \<open>The protocol version, in 16-bit fields.\<close>

definition rl_sw_first_major_digit :: "u_char \<Rightarrow> request_line \<Rightarrow> rl_out" where
  "rl_sw_first_major_digit ch r =
    (if ch < c_1 \<or> ch > c_9 then
       Exit (RL_return NGX_HTTP_PARSE_INVALID_REQUEST) RL_first_major_digit r
     else Next RL_major_digit (r\<lparr>http_major := ucast ch - 0x30\<rparr>))"

definition rl_sw_major_digit :: "u_char \<Rightarrow> request_line \<Rightarrow> rl_out" where
  "rl_sw_major_digit ch r =
    (if ch = c_dot then Next RL_first_minor_digit r
     else if ch < c_0 \<or> ch > c_9 then
       Exit (RL_return NGX_HTTP_PARSE_INVALID_REQUEST) RL_major_digit r
     else Next RL_major_digit (r\<lparr>http_major := http_major r * 10 + ucast ch - 0x30\<rparr>))"

definition rl_sw_first_minor_digit :: "u_char \<Rightarrow> request_line \<Rightarrow> rl_out" where
  "rl_sw_first_minor_digit ch r =
    (if ch < c_0 \<or> ch > c_9 then
       Exit (RL_return NGX_HTTP_PARSE_INVALID_REQUEST) RL_first_minor_digit r
     else Next RL_minor_digit (r\<lparr>http_minor := ucast ch - 0x30\<rparr>))"

definition rl_sw_minor_digit :: "u_char \<Rightarrow> request_line \<Rightarrow> rl_out" where
  "rl_sw_minor_digit ch r =
    (if ch = c_CR then Next RL_almost_done r
     else if ch = c_LF then Exit RL_done RL_minor_digit r
     else if ch = c_space then Next RL_spaces_after_digit r
     else if ch < c_0 \<or> ch > c_9 then
       Exit (RL_return NGX_HTTP_PARSE_INVALID_REQUEST) RL_minor_digit r
     else Next RL_minor_digit (r\<lparr>http_minor := http_minor r * 10 + ucast ch - 0x30\<rparr>))"

definition rl_sw_spaces_after_digit :: "u_char \<Rightarrow> request_line \<Rightarrow> rl_out" where
  "rl_sw_spaces_after_digit ch r =
    (if ch = c_space then Next RL_spaces_after_digit r
     else if ch = c_CR then Next RL_almost_done r
     else if ch = c_LF then Exit RL_done RL_spaces_after_digit r
     else Exit (RL_return NGX_HTTP_PARSE_INVALID_REQUEST) RL_spaces_after_digit r)"

definition rl_sw_almost_done :: "nat \<Rightarrow> u_char \<Rightarrow> request_line \<Rightarrow> rl_out" where
  "rl_sw_almost_done p ch r =
    (let r = r\<lparr>request_end := Some (p - 1)\<rparr> in
     if ch = c_LF then Exit RL_done RL_almost_done r
     else Exit (RL_return NGX_HTTP_PARSE_INVALID_REQUEST) RL_almost_done r)"

section \<open>The function\<close>

definition rl_step :: "(rl_exit, rl_state, request_line) body" where
  "rl_step buf p ch st r =
    (case st of
       RL_start \<Rightarrow> rl_sw_start p ch r
     | RL_method \<Rightarrow> rl_sw_method buf p ch r
     | RL_spaces_before_uri \<Rightarrow> rl_sw_spaces_before_uri p ch r
     | RL_schema \<Rightarrow> rl_sw_schema p ch r
     | RL_schema_slash \<Rightarrow> rl_sw_schema_slash ch r
     | RL_schema_slash_slash \<Rightarrow> rl_sw_schema_slash_slash ch r
     | RL_host_start \<Rightarrow> rl_sw_host_start p ch r
     | RL_host \<Rightarrow> rl_sw_host p ch r
     | RL_host_end \<Rightarrow> rl_sw_host_end p ch RL_host_end r
     | RL_host_ip_literal \<Rightarrow> rl_sw_host_ip_literal ch r
     | RL_port \<Rightarrow> rl_sw_port p ch r
     | RL_host_http_09 \<Rightarrow> rl_sw_host_http_09 p ch r
     | RL_after_slash_in_uri \<Rightarrow> rl_sw_after_slash_in_uri p ch r
     | RL_check_uri \<Rightarrow> rl_sw_check_uri p ch r
     | RL_check_uri_http_09 \<Rightarrow> rl_sw_check_uri_http_09 p ch r
     | RL_uri \<Rightarrow> rl_sw_uri p ch r
     | RL_http_09 \<Rightarrow> rl_sw_http_09 p ch r
     | RL_http_H \<Rightarrow> rl_sw_http_H ch r
     | RL_http_HT \<Rightarrow> rl_sw_http_HT ch r
     | RL_http_HTT \<Rightarrow> rl_sw_http_HTT ch r
     | RL_http_HTTP \<Rightarrow> rl_sw_http_HTTP ch r
     | RL_first_major_digit \<Rightarrow> rl_sw_first_major_digit ch r
     | RL_major_digit \<Rightarrow> rl_sw_major_digit ch r
     | RL_first_minor_digit \<Rightarrow> rl_sw_first_minor_digit ch r
     | RL_minor_digit \<Rightarrow> rl_sw_minor_digit ch r
     | RL_spaces_after_digit \<Rightarrow> rl_sw_spaces_after_digit ch r
     | RL_almost_done \<Rightarrow> rl_sw_almost_done p ch r)"

text \<open>The code after the label \<open>done\<close>.\<close>

definition rl_finish :: "nat \<Rightarrow> request_line \<Rightarrow> ngx_buf \<Rightarrow> int \<times> request_line \<times> ngx_buf" where
  "rl_finish p r b =
    (let b = b\<lparr>pos := p + 1\<rparr>;
         r = (if request_end r = None then r\<lparr>request_end := Some p\<rparr> else r);
         r = r\<lparr>http_version := unat (http_major r) * 1000 + unat (http_minor r),
               rl_state := RL_start\<rparr>
     in if http_version r = 9 \<and> req_method r \<noteq> NGX_HTTP_GET
        then (NGX_HTTP_PARSE_INVALID_09_METHOD, r, b)
        else (NGX_OK, r, b))"

text \<open>
  The result is the return code with the request and the buffer as the call leaves them.
  \<open>None\<close> is a call that does not return or reads through a null pointer.
\<close>

definition ngx_http_parse_request_line ::
  "request_line \<Rightarrow> ngx_buf \<Rightarrow> (int \<times> request_line \<times> ngx_buf) option" where
  "ngx_http_parse_request_line r b =
    (case byte_loop rl_step (mem b) (blast b) (pos b) (rl_state r) r of
       None \<Rightarrow> None
     | Some (None, st, r', p) \<Rightarrow> Some (NGX_AGAIN, r'\<lparr>rl_state := st\<rparr>, b\<lparr>pos := p\<rparr>)
     | Some (Some RL_done, _, r', p) \<Rightarrow> Some (rl_finish p r' b)
     | Some (Some (RL_return rc), _, r', _) \<Rightarrow> Some (rc, r', b)
     | Some (Some RL_fault, _, r', _) \<Rightarrow> None)"

end
