(* ===== verification/Request_Line_Correct.thy ===== *)
theory Request_Line_Correct
  imports Http_Request_Line
begin

text \<open>
  The request-line parser meets its contract: it always returns, what it accepts is one line
  with its pointers in order, the method is the one the reference table names, unflagged URIs
  need no normalisation, well-formed lines are accepted and read back, and a line may arrive
  in pieces. The machine interprets \<open>byte_machine\<close>; each property is an invariant of its body
  carried through the run, or a run over known bytes.
\<close>

section \<open>The machine\<close>

lemmas rl_sw_defs =
  rl_expect_def rl_sw_start_def rl_sw_method_def rl_sw_spaces_before_uri_def rl_sw_schema_def
  rl_sw_schema_slash_def rl_sw_schema_slash_slash_def rl_sw_host_start_def rl_sw_host_def
  rl_sw_host_end_def rl_sw_host_ip_literal_def rl_sw_port_def rl_sw_host_http_09_def
  rl_sw_after_slash_in_uri_def rl_sw_check_uri_def rl_sw_check_uri_http_09_def rl_sw_uri_def
  rl_sw_http_09_def rl_sw_http_H_def rl_sw_http_HT_def rl_sw_http_HTT_def rl_sw_http_HTTP_def
  rl_sw_first_major_digit_def rl_sw_major_digit_def rl_sw_first_minor_digit_def
  rl_sw_minor_digit_def rl_sw_spaces_after_digit_def rl_sw_almost_done_def

text \<open>Only the two states after the URI step back (\<open>p--\<close>), into a state that never does.\<close>

definition rl_rank :: "rl_state \<Rightarrow> nat" where
  "rl_rank st = (if st = RL_check_uri_http_09 \<or> st = RL_http_09 then 1 else 0)"

lemma rl_method_code_local:
  assumes "take (Suc p) buf = take (Suc p) buf'" and "m \<le> p"
  shows "rl_method_code buf m (p - m) = rl_method_code buf' m (p - m)"
proof -
  have M: "m + length s \<le> Suc p \<Longrightarrow> mem_is buf m s = mem_is buf' m s" for s
    using assms(1) by (rule mem_is_local)
  have N: "Suc m < Suc p \<Longrightarrow> buf ! Suc m = buf' ! Suc m"
    using assms(1) by (rule nth_take_eq)
  show ?thesis
    using assms(2) by (auto simp: rl_method_code_def M N)
qed

lemma rl_method_code_0 [simp]: "rl_method_code buf m 0 = None"
  by (simp add: rl_method_code_def)

lemma rl_step_redo: "rl_step buf p ch st r = Redo st' r' \<Longrightarrow> rl_rank st' < rl_rank st"
  by (cases st) (auto simp: rl_step_def rl_sw_defs rl_rank_def Let_def split: if_splits option.splits)

lemma rl_step_local:
  assumes "take (Suc p) buf = take (Suc p) buf'"
  shows "rl_step buf p ch st r = rl_step buf' p ch st r"
proof (cases "st = RL_method")
  case True
  have "rl_method_code buf m (p - m) = rl_method_code buf' m (p - m)" for m
    using rl_method_code_local [OF assms, of m] by (cases "m \<le> p") simp_all
  with True show ?thesis by (simp add: rl_step_def rl_sw_method_def cong: option.case_cong)
next
  case False
  then show ?thesis by (cases st) (simp_all add: rl_step_def)
qed

interpretation rl: byte_machine rl_step rl_rank
  by unfold_locales (fact rl_step_redo, rule rl_step_local)


section \<open>Shape invariant\<close>

text \<open>No line feed between two positions.\<close>

definition no_lf :: "bytes \<Rightarrow> nat \<Rightarrow> nat \<Rightarrow> bool" where
  "no_lf buf m p \<longleftrightarrow> (\<forall>i. m \<le> i \<and> i < p \<longrightarrow> buf ! i \<noteq> c_LF)"

lemma no_lf_empty [simp]: "no_lf buf p p"
  by (auto simp: no_lf_def)

lemma no_lf_Suc [simp]: "m \<le> p \<Longrightarrow> no_lf buf m (Suc p) \<longleftrightarrow> no_lf buf m p \<and> buf ! p \<noteq> c_LF"
  by (auto simp: no_lf_def less_Suc_eq)

lemma class_LF [simp]: "\<not> method_char c_LF" "\<not> is_digit c_LF" "\<not> is_alpha_lower (lower c_LF)" "\<not> ip_literal_char c_LF"
  by (simp_all add: method_char_def is_digit_def is_alpha_lower_def lower_def ip_literal_char_def)

text \<open>The phases in which a host, a URI, or what follows the URI is read.\<close>

definition rl_host_phase :: "rl_state \<Rightarrow> bool" where
  "rl_host_phase st \<longleftrightarrow> st \<in> {RL_host_start, RL_host, RL_host_end, RL_host_ip_literal, RL_port}"
definition rl_uri_phase :: "rl_state \<Rightarrow> bool" where
  "rl_uri_phase st \<longleftrightarrow> st \<in> {RL_after_slash_in_uri, RL_check_uri, RL_uri}"
definition rl_end_phase :: "rl_state \<Rightarrow> bool" where
  "rl_end_phase st \<longleftrightarrow> st \<in> {RL_host_http_09, RL_check_uri_http_09, RL_http_09, RL_http_H, RL_http_HT, RL_http_HTT,
              RL_http_HTTP, RL_first_major_digit, RL_major_digit, RL_first_minor_digit, RL_minor_digit,
              RL_spaces_after_digit, RL_almost_done}"

text \<open>
  What holds at position \<open>p\<close> of a line whose parse began at \<open>p0\<close>: the pointers set so far lie
  in order inside the bytes read, the URI starts with a slash, and no line feed has been
  passed since the request started.
\<close>

definition rl_inv :: "bytes \<Rightarrow> nat \<Rightarrow> nat \<Rightarrow> rl_state \<Rightarrow> request_line \<Rightarrow> bool" where
  "rl_inv buf p0 p st r \<longleftrightarrow> p0 \<le> p \<and> request_end r = None \<and>
    (st \<noteq> RL_start \<longrightarrow> request_start r \<noteq> None \<and> p0 \<le> the (request_start r) \<and> the (request_start r) < p
       \<and> no_lf buf (the (request_start r)) p) \<and>
    (st = RL_schema_slash \<longrightarrow> schema_end r \<noteq> None \<and> the (request_start r) < the (schema_end r) \<and> Suc (the (schema_end r)) = p) \<and>
    (st = RL_schema_slash_slash \<longrightarrow> schema_end r \<noteq> None \<and> the (request_start r) < the (schema_end r) \<and> 
       Suc (Suc (the (schema_end r))) = p \<and> buf ! Suc (the (schema_end r)) = c_slash) \<and>
    (rl_host_phase st \<longrightarrow> schema_end r \<noteq> None \<and> the (request_start r) < the (schema_end r) \<and> 
       Suc (Suc (the (schema_end r))) < p \<and> buf ! Suc (the (schema_end r)) = c_slash) \<and>
    (rl_uri_phase st \<longrightarrow> uri_start r \<noteq> None \<and> the (request_start r) < the (uri_start r) \<and> the (uri_start r) < p
       \<and> buf ! the (uri_start r) = c_slash) \<and>
    (rl_end_phase st \<longrightarrow> uri_start r \<noteq> None \<and> uri_end r \<noteq> None \<and> the (request_start r) < the (uri_start r)
       \<and> the (uri_start r) < the (uri_end r) \<and> the (uri_end r) < p \<and> buf ! the (uri_start r) = c_slash)"

lemmas rl_phases = rl_host_phase_def rl_uri_phase_def rl_end_phase_def


text \<open>What holds where the loop is left.\<close>

definition rl_post :: "bytes \<Rightarrow> nat \<Rightarrow> rl_exit \<Rightarrow> nat \<Rightarrow> request_line \<Rightarrow> bool" where
  "rl_post buf p0 x p r \<longleftrightarrow>
    (case x of
       RL_fault \<Rightarrow> False
     | RL_return rc \<Rightarrow> rc = NGX_HTTP_PARSE_INVALID_METHOD \<or> rc = NGX_HTTP_PARSE_INVALID_REQUEST
     | RL_done \<Rightarrow>
         request_start r \<noteq> None \<and> uri_start r \<noteq> None \<and> uri_end r \<noteq> None \<and>
         p0 \<le> the (request_start r) \<and> the (request_start r) < the (uri_start r) \<and>
         the (uri_start r) < the (uri_end r) \<and> the (uri_end r) \<le> p \<and>
         buf ! the (uri_start r) = c_slash \<and> no_lf buf (the (request_start r)) p \<and> buf ! p = c_LF \<and>
         (request_end r = None \<or> request_end r = Some (p - 1) \<and> the (uri_end r) \<le> p - 1))"

lemma rl_inv_step:
  assumes "rl_inv buf p0 p st r"
  shows "case rl_step buf p (buf ! p) st r of
           Next st' r' \<Rightarrow> rl_inv buf p0 (Suc p) st' r'
         | Redo st' r' \<Rightarrow> rl_inv buf p0 p st' r'
         | Exit x st' r' \<Rightarrow> rl_post buf p0 x p r'"
  using assms
  by (cases st) (auto simp: rl_step_def rl_sw_defs rl_phases rl_inv_def rl_post_def Let_def split: if_splits option.splits)

lemma rl_inv_init: "rl_state r = RL_start \<Longrightarrow> request_end r = None \<Longrightarrow> rl_inv buf p0 p0 RL_start r"
  by (simp add: rl_inv_def rl_phases)

lemmas rl_loop_inv =
  rl.loop_invariant [where I = "rl_inv buf p0" and Q = "rl_post buf p0" for buf p0, OF _ _ rl_inv_step]

lemma rl_run:
  assumes "rl_state r = RL_start" and "request_end r = None"
  obtains st r' p where "byte_loop rl_step buf lim p0 RL_start r = Some (None, st, r', p)" and "rl_inv buf p0 p st r'"
  | x st r' p where "byte_loop rl_step buf lim p0 RL_start r = Some (Some x, st, r', p)" and "rl_post buf p0 x p r'"
proof -
  obtain x st r' p where L: "byte_loop rl_step buf lim p0 RL_start r = Some (x, st, r', p)"
    using rl.loop_total by blast
  from rl_loop_inv [OF L rl_inv_init [OF assms]] L that show ?thesis
    by (cases x) auto
qed

text \<open>
  Claim C31: parsing a request line always returns, never reads through a null pointer, and
  the return code is one of the five the callers handle.
\<close>

theorem request_line_total:
  assumes "rl_state r = RL_start" and "request_end r = None"
  shows "\<exists>rc r' b'. ngx_http_parse_request_line r b = Some (rc, r', b') \<and>
     rc \<in> {NGX_OK, NGX_AGAIN, NGX_HTTP_PARSE_INVALID_METHOD, NGX_HTTP_PARSE_INVALID_REQUEST, NGX_HTTP_PARSE_INVALID_09_METHOD}"
  using assms
proof (cases rule: rl_run [where buf = "mem b" and lim = "blast b" and ?p0.0 = "pos b"])
  case (1 st r' p)
  then show ?thesis using assms by (simp add: ngx_http_parse_request_line_def)
next
  case (2 x st r' p)
  then show ?thesis using assms
    by (cases x) (auto simp: ngx_http_parse_request_line_def rl_post_def rl_finish_def Let_def)
qed

lemma rl_finish_simps:
  "rl_finish p r b = (rc, r', b') \<Longrightarrow> rc = NGX_OK \<Longrightarrow>
     request_start r' = request_start r \<and> uri_start r' = uri_start r \<and> uri_end r' = uri_end r \<and>
     request_end r' = (if request_end r = None then Some p else request_end r) \<and>
     args_start r' = args_start r \<and> complex_uri r' = complex_uri r \<and> quoted_uri r' = quoted_uri r \<and>
     req_method r' = req_method r \<and> method_end r' = method_end r \<and>
     pos b' = Suc p \<and> mem b' = mem b \<and> blast b' = blast b \<and>
     \<not> (http_version r' = 9 \<and> req_method r' \<noteq> NGX_HTTP_GET) \<and>
     http_version r' = unat (http_major r) * 1000 + unat (http_minor r)"
  by (auto simp: rl_finish_def Let_def split: if_splits)

text \<open>
  Claim C1: an accepted request line is exactly one line. The start of the request, the URI
  start and the URI end are set, in this order, inside the bytes received; the URI is not
  empty and starts with a slash; the byte before the new position is the first line feed
  after the start of the request.
\<close>

theorem request_line_ok:
  assumes "rl_state r = RL_start" and "request_end r = None"
    and "ngx_http_parse_request_line r b = Some (NGX_OK, r', b')"
  shows "\<exists>m u e. request_start r' = Some m \<and> uri_start r' = Some u \<and> uri_end r' = Some e \<and>
     pos b \<le> m \<and> m < u \<and> u < e \<and> e < pos b' \<and> pos b' \<le> blast b \<and>
     mem b ! u = c_slash \<and> mem b ! (pos b' - 1) = c_LF \<and> no_lf (mem b) m (pos b' - 1) \<and> mem b' = mem b \<and> blast b' = blast b"
  using assms(1,2)
proof (cases rule: rl_run [where buf = "mem b" and lim = "blast b" and ?p0.0 = "pos b"])
  case (1 st r' p)
  then show ?thesis using assms by (simp add: ngx_http_parse_request_line_def)
next
  case (2 x st r1 p)
  have x: "x = RL_done" and f: "rl_finish p r1 b = (NGX_OK, r', b')"
    using assms 2 by (cases x; auto simp: ngx_http_parse_request_line_def rl_post_def)+
  have "p < blast b" using rl.loop_position [OF 2(1)] by simp
  then show ?thesis
    using rl_finish_simps [OF f refl] 2(2) unfolding x rl_post_def by auto
qed


lemma rl_step_frame:
  "rl_step buf p ch st (r\<lparr>rl_state := x\<rparr>) = map_outcome id id (rl_state_update (\<lambda>_. x)) (rl_step buf p ch st r)"
  by (cases st) (auto simp: rl_step_def rl_sw_defs Let_def split: option.splits)

section \<open>Resumption\<close>

definition rl_return_ok :: "rl_exit \<Rightarrow> bool" where
  "rl_return_ok x \<longleftrightarrow>
     (\<forall>rc. x = RL_return rc \<longrightarrow> rc = NGX_HTTP_PARSE_INVALID_METHOD \<or> rc = NGX_HTTP_PARSE_INVALID_REQUEST)"

lemma rl_step_return:
  "case rl_step buf p ch st r of Next s' r' \<Rightarrow> True | Redo s' r' \<Rightarrow> True | Exit x s' r' \<Rightarrow> rl_return_ok x"
  by (cases st)
     (auto simp: rl_return_ok_def rl_step_def rl_sw_defs Let_def split: if_splits option.splits)

lemma rl_loop_return:
  assumes "byte_loop rl_step buf lim p s r = Some (Some (RL_return rc), s', r', q)"
  shows "rc = NGX_HTTP_PARSE_INVALID_METHOD \<or> rc = NGX_HTTP_PARSE_INVALID_REQUEST"
  using rl.loop_invariant [OF assms, where I = "\<lambda>_ _ _. True" and Q = "\<lambda>x _ _. rl_return_ok x"]
    rl_step_return
  by (simp add: rl_return_ok_def)

lemma rl_again:
  assumes "ngx_http_parse_request_line r b = Some (NGX_AGAIN, r1, b1)"
  obtains st r' q where "byte_loop rl_step (mem b) (blast b) (pos b) (rl_state r) r = Some (None, st, r', q)"
    and "r1 = r'\<lparr>rl_state := st\<rparr>" and "b1 = b\<lparr>pos := q\<rparr>"
proof -
  obtain x st r' q where L: "byte_loop rl_step (mem b) (blast b) (pos b) (rl_state r) r = Some (x, st, r', q)"
    using rl.loop_total by blast
  show thesis
  proof (cases x)
    case None
    with L assms that show thesis by (simp add: ngx_http_parse_request_line_def)
  next
    case (Some y)
    with L assms rl_loop_return show thesis
      by (cases y) (fastforce simp: ngx_http_parse_request_line_def rl_finish_def Let_def split: if_splits)+
  qed
qed

text \<open>
  Two results agree: the same code, the same request fields and the same buffer. After an
  error return the source leaves \<open>r->state\<close> and \<open>b->pos\<close> at their values on entry, so those
  two are not compared there.
\<close>

definition rl_same :: "int \<times> request_line \<times> ngx_buf \<Rightarrow> int \<times> request_line \<times> ngx_buf \<Rightarrow> bool" where
  "rl_same x y \<longleftrightarrow> fst x = fst y \<and>
     (fst (snd x))\<lparr>rl_state := RL_start\<rparr> = (fst (snd y))\<lparr>rl_state := RL_start\<rparr> \<and>
     (fst x \<noteq> NGX_HTTP_PARSE_INVALID_METHOD \<and> fst x \<noteq> NGX_HTTP_PARSE_INVALID_REQUEST \<longrightarrow> x = y)"

lemma rl_state_upd_upd [simp]: "r\<lparr>rl_state := a, rl_state := b\<rparr> = r\<lparr>rl_state := b\<rparr>" for r :: request_line
  by simp

lemma rl_finish_state [simp]: "rl_finish p (r\<lparr>rl_state := x\<rparr>) b = rl_finish p r b"
  by (simp add: rl_finish_def Let_def)

text \<open>
  Claim C3: reading a request line in pieces gives what reading it at once gives. When a call
  has consumed the bytes received so far and asked for more, the next call on the same buffer
  with any further bytes returns what one call over all of them returns.
\<close>

theorem request_line_resume:
  assumes "buf_ok b" and "ngx_http_parse_request_line r b = Some (NGX_AGAIN, r1, b1)"
  shows "rel_option rl_same (ngx_http_parse_request_line r (buf_receive b xs))
     (ngx_http_parse_request_line r1 (buf_receive b1 xs))"
proof -
  obtain st r' q where L: "byte_loop rl_step (mem b) (blast b) (pos b) (rl_state r) r = Some (None, st, r', q)"
    and r1: "r1 = r'\<lparr>rl_state := st\<rparr>" and b1: "b1 = b\<lparr>pos := q\<rparr>"
    using rl_again [OF assms(2)] .
  let ?b = "buf_receive b xs"
  have R: "byte_loop rl_step (mem ?b) (blast ?b) (pos b) (rl_state r) r = byte_loop rl_step (mem ?b) (blast ?b) q st r'"
    by (rule rl.loop_receive [OF assms(1) L])
  have F: "byte_loop rl_step (mem ?b) (blast ?b) q st r1 =
     map_option (map_prod id (map_prod id (map_prod (rl_state_update (\<lambda>_. st)) id)))
       (byte_loop rl_step (mem ?b) (blast ?b) q st r')"
    unfolding r1 by (rule rl.loop_frame) (rule rl_step_frame)
  obtain x s2 r2 q2 where E: "byte_loop rl_step (mem ?b) (blast ?b) q st r' = Some (x, s2, r2, q2)"
    using rl.loop_total by blast
  have S: "rl_state r1 = st" and P: "pos ?b = pos b" "pos (buf_receive b1 xs) = q" "mem (buf_receive b1 xs) = mem ?b"
      "blast (buf_receive b1 xs) = blast ?b" "\<And>p. (buf_receive b1 xs)\<lparr>pos := p\<rparr> = ?b\<lparr>pos := p\<rparr>"
    by (simp_all add: r1 b1 buf_receive_def)
  have Q: "rl_finish q2 r (buf_receive b1 xs) = rl_finish q2 r ?b" for r
    by (simp add: rl_finish_def P)
  show ?thesis
  proof (cases x)
    case None
    with R F E show ?thesis
      by (simp add: ngx_http_parse_request_line_def S P rl_same_def del: buf_receive_simps)
  next
    case (Some y)
    with R F E show ?thesis
      by (cases y) (auto simp: ngx_http_parse_request_line_def S P Q rl_same_def dest: rl_loop_return
          simp del: buf_receive_simps)
  qed
qed

section \<open>Methods\<close>

text \<open>The reference table of the methods the source knows; any other name is unknown.\<close>

definition http_methods :: "(bytes \<times> nat) list" where
  "http_methods =
    [(ascii ''GET'', NGX_HTTP_GET), (ascii ''PUT'', NGX_HTTP_PUT), (ascii ''POST'', NGX_HTTP_POST),
     (ascii ''COPY'', NGX_HTTP_COPY), (ascii ''MOVE'', NGX_HTTP_MOVE), (ascii ''LOCK'', NGX_HTTP_LOCK),
     (ascii ''HEAD'', NGX_HTTP_HEAD), (ascii ''MKCOL'', NGX_HTTP_MKCOL), (ascii ''PATCH'', NGX_HTTP_PATCH),
     (ascii ''TRACE'', NGX_HTTP_TRACE), (ascii ''DELETE'', NGX_HTTP_DELETE),
     (ascii ''UNLOCK'', NGX_HTTP_UNLOCK), (ascii ''OPTIONS'', NGX_HTTP_OPTIONS),
     (ascii ''PROPFIND'', NGX_HTTP_PROPFIND), (ascii ''PROPPATCH'', NGX_HTTP_PROPPATCH)]"

definition method_of_name :: "bytes \<Rightarrow> nat" where
  "method_of_name s = (case map_of http_methods s of None \<Rightarrow> NGX_HTTP_UNKNOWN | Some k \<Rightarrow> k)"

lemma mem_is_append_sp:
  assumes "drop m buf = s @ c_space # ys"
  shows "mem_is buf m t \<longleftrightarrow> take (length t) (s @ c_space # ys) = t"
  using assms by (simp add: mem_is_def)

lemma length_eq_cases: "length s = n \<Longrightarrow> n = 0 \<or> (\<exists>a t. s = a # t \<and> length t = n - 1)"
  by (cases s) auto

lemma rl_method_code_spec:
  assumes "drop m buf = s @ c_space # ys"
  shows "rl_method_code buf m (length s) = map_of http_methods s"
proof -
  have M: "mem_is buf m t \<longleftrightarrow> take (length t) (s @ c_space # ys) = t" for t
    using assms by (simp add: mem_is_def)
  have N: "length s = 4 \<Longrightarrow> buf ! Suc m = s ! 1"
  proof -
    assume "length s = 4"
    then have "drop m buf ! 1 = s ! 1" by (simp add: assms nth_append)
    moreover have "Suc m < length buf"
    proof (rule ccontr)
      assume "\<not> Suc m < length buf"
      then have "length (drop m buf) \<le> 1" by simp
      with \<open>length s = 4\<close> show False by (simp add: assms)
    qed
    ultimately show ?thesis by simp
  qed
  consider "length s = 3" | "length s = 4" | "length s = 5" | "length s = 6" | "length s = 7" | "length s = 8"
    | "length s = 9" | "length s \<notin> {3,4,5,6,7,8,9}" by blast
  then show ?thesis
  proof cases
    case 1
    then obtain a b c where s: "s = [a, b, c]"
      by (auto simp: numeral_eq_Suc length_Suc_conv)
    show ?thesis
      by (simp add: rl_method_code_def http_methods_def M s)
  next
    case 3
    then obtain a b c d e where s: "s = [a, b, c, d, e]"
      by (auto simp: numeral_eq_Suc length_Suc_conv)
    show ?thesis
      by (simp add: rl_method_code_def http_methods_def M s)
  next
    case 4
    then obtain a b c d e f where s: "s = [a, b, c, d, e, f]"
      by (auto simp: numeral_eq_Suc length_Suc_conv)
    show ?thesis
      by (simp add: rl_method_code_def http_methods_def M s)
  next
    case 5
    then obtain a b c d e f g where s: "s = [a, b, c, d, e, f, g]"
      by (auto simp: numeral_eq_Suc length_Suc_conv)
    show ?thesis
      by (simp add: rl_method_code_def http_methods_def M s)
  next
    case 6
    then obtain a b c d e f g h where s: "s = [a, b, c, d, e, f, g, h]"
      by (auto simp: numeral_eq_Suc length_Suc_conv)
    show ?thesis
      by (simp add: rl_method_code_def http_methods_def M s)
  next
    case 7
    then obtain a b c d e f g h i where s: "s = [a, b, c, d, e, f, g, h, i]"
      by (auto simp: numeral_eq_Suc length_Suc_conv)
    show ?thesis
      by (simp add: rl_method_code_def http_methods_def M s)
  next
    case 2
    then obtain a b c d where s: "s = [a, b, c, d]"
      by (auto simp: numeral_eq_Suc length_Suc_conv)
    show ?thesis
      using N [OF 2] unfolding s
      by (cases "b = 0x4F") (simp_all add: rl_method_code_def http_methods_def M s)
  next
    case 8
    then have "s \<noteq> x" if "length x \<in> {3,4,5,6,7,8,9}" for x using that by blast
    then show ?thesis using 8 by (simp add: rl_method_code_def http_methods_def)
  qed
qed

text \<open>The method recorded so far is the one the reference table gives.\<close>

definition rl_minv :: "bytes \<Rightarrow> nat \<Rightarrow> rl_state \<Rightarrow> request_line \<Rightarrow> bool" where
  "rl_minv buf p st r \<longleftrightarrow>
    (if st = RL_start then req_method r = NGX_HTTP_UNKNOWN
     else request_start r \<noteq> None \<and> the (request_start r) < p \<and>
       (if st = RL_method then req_method r = NGX_HTTP_UNKNOWN
        else method_end r \<noteq> None \<and> the (request_start r) \<le> the (method_end r) \<and> Suc (the (method_end r)) < p \<and>
          buf ! Suc (the (method_end r)) = c_space \<and> 
          req_method r = method_of_name (cut buf (the (request_start r)) (Suc (the (method_end r))))))"

lemma method_code_cut:
  assumes "m < p" and "p < length buf" and "buf ! p = c_space"
  shows "rl_method_code buf m (p - m) = map_of http_methods (cut buf m p)"
proof -
  have "drop m buf = cut buf m p @ c_space # drop (Suc p) buf"
    using assms by (metis Cons_nth_drop_Suc append_take_drop_id cut_def drop_drop le_add_diff_inverse2 less_imp_le_nat)
  from rl_method_code_spec [OF this] assms show ?thesis by simp
qed

lemma rl_minv_step:
  assumes "p < length buf" and "rl_minv buf p st r"
  shows "case rl_step buf p (buf ! p) st r of
           Next st' r' \<Rightarrow> rl_minv buf (Suc p) st' r'
         | Redo st' r' \<Rightarrow> rl_minv buf p st' r'
         | Exit x st' r' \<Rightarrow> x = RL_done \<longrightarrow> rl_minv buf (Suc p) RL_almost_done r'"
proof (cases "st = RL_method")
  case True
  obtain m where m: "request_start r = Some m" "m < p" "req_method r = NGX_HTTP_UNKNOWN"
    using assms True by (auto simp: rl_minv_def)
  then show ?thesis 
    using assms True method_code_cut [OF m(2) assms(1)] 
    by (auto simp: rl_step_def rl_sw_method_def rl_minv_def method_of_name_def Let_def split: option.splits)
next
  case False
  with assms show ?thesis
  by (cases st) (auto simp: rl_step_def rl_sw_defs rl_minv_def Let_def split: if_splits option.splits)
qed

text \<open>
  Claim C14: the method recorded for an accepted request is the one the reference table gives for
  the bytes between the start of the request and the method's end, which a space follows.
\<close>

theorem request_line_method:
  assumes "buf_ok b" and "rl_state r = RL_start" and "request_end r = None" and "req_method r = NGX_HTTP_UNKNOWN"
    and "ngx_http_parse_request_line r b = Some (NGX_OK, r', b')"
  shows "\<exists>m e. request_start r' = Some m \<and> method_end r' = Some e \<and> m \<le> e \<and> mem b ! Suc e = c_space \<and>
           req_method r' = method_of_name (cut (mem b) m (Suc e))"
  using assms(2,3)
proof (cases rule: rl_run [where buf = "mem b" and lim = "blast b" and ?p0.0 = "pos b"])
  case (1 st r' p)
  then show ?thesis using assms by (simp add: ngx_http_parse_request_line_def)
next
  case (2 x st r1 p)
  have x: "x = RL_done" and f: "rl_finish p r1 b = (NGX_OK, r', b')"
    using assms 2 by (cases x; auto simp: ngx_http_parse_request_line_def rl_post_def)+
  have "rl_minv (mem b) (Suc p) RL_almost_done r1"
    using rl.loop_invariant [OF 2(1), where I = "rl_minv (mem b)" and Q = "\<lambda>x p r. x = RL_done \<longrightarrow> rl_minv (mem b) (Suc p) RL_almost_done r"]
     rl_minv_step [where buf = "mem b"] assms(1,4) x by (simp add: rl_minv_def buf_ok_def)
  then show ?thesis
    using rl_finish_simps [OF f refl] by (auto simp: rl_minv_def)
qed

section \<open>URIs that need no normalisation\<close>

text \<open>
  No quoting, fragment, argument or null byte between two positions, and no slash followed by
  a slash or a dot.
\<close>

definition plain_path :: "bytes \<Rightarrow> nat \<Rightarrow> nat \<Rightarrow> bool" where
  "plain_path buf u e \<longleftrightarrow>
     (\<forall>i. u \<le> i \<and> i < e \<longrightarrow> buf ! i \<notin> {c_percent, c_hash, c_quest, c_NUL}) \<and>
     (\<forall>i. u \<le> i \<and> Suc i < e \<and> buf ! i = c_slash \<longrightarrow> buf ! Suc i \<notin> {c_slash, c_dot})"

lemma plain_path_Suc:
  assumes "u < p" and "plain_path buf u p" and "buf ! p \<notin> {c_percent, c_hash, c_quest, c_NUL}"
    and "buf ! (p - 1) = c_slash \<Longrightarrow> buf ! p \<notin> {c_slash, c_dot}"
  shows "plain_path buf u (Suc p)"
  unfolding plain_path_def
proof (intro conjI allI impI)
  fix i assume "u \<le> i \<and> i < Suc p"
  with assms show "buf ! i \<notin> {c_percent, c_hash, c_quest, c_NUL}"
    by (cases "i = p") (auto simp: plain_path_def)
next
  fix i assume i: "u \<le> i \<and> Suc i < Suc p \<and> buf ! i = c_slash"
  show "buf ! Suc i \<notin> {c_slash, c_dot}"
  proof (cases "Suc i = p")
    case True
    with i assms(4) show ?thesis by auto
  next
    case False
    with i assms(2) show ?thesis by (simp add: plain_path_def)
  qed
qed

lemma plain_path_Suc_iff:
  assumes "u < p"
  shows "plain_path buf u (Suc p) \<longleftrightarrow> plain_path buf u p \<and>
    buf ! p \<noteq> c_percent \<and> buf ! p \<noteq> c_hash \<and> buf ! p \<noteq> c_quest \<and> buf ! p \<noteq> c_NUL \<and>
    (buf ! (p - 1) = c_slash \<longrightarrow> buf ! p \<noteq> c_slash \<and> buf ! p \<noteq> c_dot)"
proof
  assume P: "plain_path buf u (Suc p)"
  then have "buf ! p \<notin> {c_percent, c_hash, c_quest, c_NUL}"
    using assms by (simp add: plain_path_def)
  moreover have "buf ! (p - 1) = c_slash \<longrightarrow> buf ! Suc (p - 1) \<notin> {c_slash, c_dot}"
    using P assms by (cases p) (simp_all add: plain_path_def)
  moreover have "plain_path buf u p" using P by (auto simp: plain_path_def)
  ultimately show "plain_path buf u p \<and>
    buf ! p \<noteq> c_percent \<and> buf ! p \<noteq> c_hash \<and> buf ! p \<noteq> c_quest \<and> buf ! p \<noteq> c_NUL \<and>
    (buf ! (p - 1) = c_slash \<longrightarrow> buf ! p \<noteq> c_slash \<and> buf ! p \<noteq> c_dot)"
    using assms by simp
qed (use assms in \<open>auto intro: plain_path_Suc\<close>)

lemma plain_path_one: "buf ! u = c_slash \<Longrightarrow> plain_path buf u (Suc u)"
  by (auto simp: plain_path_def less_Suc_eq)

lemma plain_path_mono: "plain_path buf u p \<Longrightarrow> e \<le> p \<Longrightarrow> plain_path buf u e"
  by (auto simp: plain_path_def)

text \<open>The flags that make the caller run \<open>ngx_http_parse_complex_uri\<close>.\<close>

definition rl_flagged :: "request_line \<Rightarrow> bool" where
  "rl_flagged r \<longleftrightarrow> complex_uri r \<or> quoted_uri r"

definition rl_path_ok :: "bytes \<Rightarrow> request_line \<Rightarrow> nat \<Rightarrow> bool" where
  "rl_path_ok buf r e \<longleftrightarrow> rl_flagged r \<or>
     (case args_start r of
        None \<Rightarrow> plain_path buf (the (uri_start r)) e
      | Some a \<Rightarrow> the (uri_start r) < a \<and> a \<le> e \<and> buf ! (a - 1) = c_quest \<and>
          plain_path buf (the (uri_start r)) (a - 1))"

lemma rl_inv_uri: "rl_inv buf p0 p st r \<Longrightarrow> rl_uri_phase st \<Longrightarrow> the (uri_start r) < p \<and> buf ! the (uri_start r) = c_slash"
  by (simp add: rl_inv_def)
lemma rl_inv_end: "rl_inv buf p0 p st r \<Longrightarrow> rl_end_phase st \<Longrightarrow> the (uri_start r) < the (uri_end r) \<and> the (uri_end r) < p"
  by (simp add: rl_inv_def)
lemma rl_inv_host: "rl_inv buf p0 p st r \<Longrightarrow> rl_host_phase st \<Longrightarrow> schema_end r \<noteq> None \<and> buf ! Suc (the (schema_end r)) = c_slash"
  by (simp add: rl_inv_def)

text \<open>What the URI states know of the path read so far.\<close>

definition rl_uinv :: "bytes \<Rightarrow> nat \<Rightarrow> rl_state \<Rightarrow> request_line \<Rightarrow> bool" where
  "rl_uinv buf p st r \<longleftrightarrow>
     (if st \<in> {RL_after_slash_in_uri, RL_check_uri, RL_check_uri_http_09}
      then args_start r = None \<and> \<not> rl_flagged r \<and> plain_path buf (the (uri_start r)) p \<and>
           (st = RL_check_uri \<longrightarrow> buf ! (p - 1) \<noteq> c_slash) \<and>
           (st = RL_check_uri_http_09 \<longrightarrow> buf ! (p - 1) = c_space)
      else if st = RL_uri then (args_start r = None \<longrightarrow> rl_flagged r) \<and> rl_path_ok buf r p
      else if st = RL_http_09 then (args_start r = None \<longrightarrow> rl_flagged r) \<and> rl_path_ok buf r (the (uri_end r)) 
      else if rl_end_phase st then rl_path_ok buf r (the (uri_end r))
      else args_start r = None \<and> \<not> rl_flagged r)"

lemma rl_uinv_step:
  assumes "rl_inv buf p0 p st r" "rl_uinv buf p st r"
  shows "case rl_step buf p (buf ! p) st r of
           Next st' r' \<Rightarrow> rl_uinv buf (Suc p) st' r'
         | Redo st' r' \<Rightarrow> rl_uinv buf p st' r'
         | Exit x st' r' \<Rightarrow> (x = RL_done \<longrightarrow> rl_path_ok buf r' (the (uri_end r')))"
proof -
  consider (uri) "rl_uri_phase st" | (host) "rl_host_phase st" | (fin) "rl_end_phase st" | (pre) "st \<in> {RL_start, RL_method, RL_spaces_before_uri, RL_schema, RL_schema_slash, RL_schema_slash_slash}"
    by (cases st) (auto simp: rl_phases)
  then show ?thesis
  proof cases
    case uri
    with assms(2) rl_inv_uri [OF assms(1) uri] show ?thesis
      by (cases st) (auto simp: rl_phases rl_step_def rl_sw_defs rl_uinv_def rl_path_ok_def rl_flagged_def plain_path_Suc_iff usual_iff' split: option.splits)
  next
    case host
    with assms(2) rl_inv_host [OF assms(1) host] show ?thesis
      by (cases st) (auto simp: rl_phases rl_step_def rl_sw_defs rl_uinv_def rl_path_ok_def rl_flagged_def plain_path_one Let_def split: option.splits)
  next
    case fin
    with assms(2) rl_inv_end [OF assms(1) fin] show ?thesis
      by (cases st) (auto simp: rl_phases rl_step_def rl_sw_defs rl_uinv_def rl_path_ok_def rl_flagged_def plain_path_Suc_iff usual_iff' Let_def split: option.splits elim: plain_path_mono)
  next
    case pre
    with assms(2) show ?thesis
      by (cases st) (auto simp: rl_phases rl_step_def rl_sw_defs rl_uinv_def rl_path_ok_def rl_flagged_def plain_path_one Let_def split: option.splits)
  qed
qed

text \<open>
  Claim C10: when an accepted request line sets neither \<open>complex_uri\<close> nor \<open>quoted_uri\<close>, which is
  when the caller uses the URI as it stands, the path holds no quoted byte, no fragment and no
  null byte, no empty segment and no segment that starts with a dot.
\<close>

theorem request_line_plain:
  assumes "rl_state r = RL_start" and "request_end r = None" and "args_start r = None"
    and "\<not> complex_uri r" and "\<not> quoted_uri r"
    and "ngx_http_parse_request_line r b = Some (NGX_OK, r', b')"
    and "\<not> complex_uri r'" and "\<not> quoted_uri r'"
  shows "plain_path (mem b) (the (uri_start r')) (case args_start r' of None \<Rightarrow> the (uri_end r') | Some a \<Rightarrow> a - 1)"
  using assms(1,2)
proof (cases rule: rl_run [where buf = "mem b" and lim = "blast b" and ?p0.0 = "pos b"])
  case (1 st r' p)
  then show ?thesis using assms by (simp add: ngx_http_parse_request_line_def)
next
  case (2 x st r1 p)
  have x: "x = RL_done" and f: "rl_finish p r1 b = (NGX_OK, r', b')"
    using assms 2 by (cases x; auto simp: ngx_http_parse_request_line_def rl_post_def)+
  let ?I = "\<lambda>p st r. rl_inv (mem b) (pos b) p st r \<and> rl_uinv (mem b) p st r"
  have S: "case rl_step (mem b) p (mem b ! p) s r of
              Next s' r' \<Rightarrow> ?I (Suc p) s' r' | Redo s' r' \<Rightarrow> ?I p s' r'
            | Exit x s' r' \<Rightarrow> x = RL_done \<longrightarrow> rl_path_ok (mem b) r' (the (uri_end r'))"
    if "p < blast b" and "?I p s r" for p s r
    using rl_inv_step [of "mem b" "pos b" p s r] rl_uinv_step [of "mem b" "pos b" p s r] that
    by (simp split: outcome.splits)
  have I: "?I (pos b) RL_start r"
    using rl_inv_init [OF assms(1,2)] assms(3-5) by (simp add: rl_uinv_def rl_phases rl_flagged_def)
  have "rl_path_ok (mem b) r1 (the (uri_end r1))"
    using rl.loop_invariant [where I = ?I and
        Q = "\<lambda>x p r. x = RL_done \<longrightarrow> rl_path_ok (mem b) r (the (uri_end r))", OF 2(1) I S] x
    by simp
  then show ?thesis
    using rl_finish_simps [OF f refl] assms(7,8) by (simp add: rl_path_ok_def rl_flagged_def split: option.splits)
qed

section \<open>Accepting well-formed lines\<close>

text \<open>Paths of usual characters, dots inside segments and single slashes.\<close>

fun simple_path :: "bool \<Rightarrow> bytes \<Rightarrow> bool" where
  "simple_path after_slash [] = True"
| "simple_path after_slash (c # cs) =
    (if usual c then simple_path False cs
     else if c = c_slash then \<not> after_slash \<and> simple_path True cs
     else c = c_dot \<and> \<not> after_slash \<and> simple_path False cs)"

lemma eat_path:
  assumes "drop p buf = us @ ys" and "simple_path sl us"
  shows "\<exists>x st. byte_loop rl_step buf (length buf) p (if sl then RL_after_slash_in_uri else RL_check_uri) r =
       byte_loop rl_step buf (length buf) (p + length us) st (r\<lparr>uri_ext := x\<rparr>) \<and>
     (st = RL_after_slash_in_uri \<or> st = RL_check_uri) \<and> drop (p + length us) buf = ys"
  using assms
proof (induction us arbitrary: p sl r)
  case Nil
  then show ?case by (intro exI [of _ "uri_ext r"]) auto
next
  case (Cons c us)
  have d: "drop p buf = c # (us @ ys)" using Cons.prems(1) by simp
  let ?st = "if sl then RL_after_slash_in_uri else RL_check_uri"
  obtain sl' x where st: "rl_step buf p c ?st r = Next (if sl' then RL_after_slash_in_uri else RL_check_uri) (r\<lparr>uri_ext := x\<rparr>)"
    and s: "simple_path sl' us"
  proof (cases "usual c")
    case True
    then show thesis using that [of False "uri_ext r"] Cons.prems(2)
      by (simp add: rl_step_def rl_sw_after_slash_in_uri_def rl_sw_check_uri_def)
  next
    case False
    note nu = this
    show thesis
    proof (cases "c = c_slash")
      case True
      with nu Cons.prems(2) show thesis
        by (intro that [of True None]) (simp_all add: rl_step_def rl_sw_check_uri_def)
    next
      case False
      with nu Cons.prems(2) show thesis
        by (intro that [of False "Some (p + 1)"]) (simp_all add: rl_step_def rl_sw_check_uri_def)
    qed
  qed
  note e = eat_byte [OF d, of rl_step, OF st]
  from Cons.IH [OF e(2) s, of "r\<lparr>uri_ext := x\<rparr>"] e(1) show ?case by auto
qed

lemma eat_major:
  assumes "drop p buf = ds @ ys" and "\<forall>c \<in> set ds. is_digit c" and "http_major r = of_nat v"
  shows "byte_loop rl_step buf (length buf) p RL_major_digit r =
       byte_loop rl_step buf (length buf) (p + length ds) RL_major_digit (r\<lparr>http_major := of_nat (decimal_from v ds)\<rparr>) \<and>
     drop (p + length ds) buf = ys"
  using assms
proof (induction ds arbitrary: p r v)
  case Nil
  then show ?case by (cases r) simp
next
  case (Cons c ds)
  have d: "drop p buf = c # (ds @ ys)" using Cons.prems(1) by simp
  have c: "is_digit c" using Cons.prems by simp
  let ?r = "r\<lparr>http_major := of_nat (v * 10 + (unat c - 48))\<rparr>"
  have st: "rl_step buf p c RL_major_digit r = Next RL_major_digit ?r"
    using c Cons.prems(3) digit_step_word [OF c, where 'a = 16, of v]
    by (auto simp: rl_step_def rl_sw_major_digit_def is_digit_def)
  note e = eat_byte [OF d, of rl_step, OF st]
  show ?case using Cons.IH [OF e(2), of ?r "v * 10 + (unat c - 48)"] Cons.prems(2) e(1) by simp
qed

lemma eat_minor:
  assumes "drop p buf = ds @ ys" and "\<forall>c \<in> set ds. is_digit c" and "http_minor r = of_nat v"
  shows "byte_loop rl_step buf (length buf) p RL_minor_digit r =
       byte_loop rl_step buf (length buf) (p + length ds) RL_minor_digit (r\<lparr>http_minor := of_nat (decimal_from v ds)\<rparr>) \<and>
     drop (p + length ds) buf = ys"
  using assms
proof (induction ds arbitrary: p r v)
  case Nil
  then show ?case by (cases r) simp
next
  case (Cons c ds)
  have d: "drop p buf = c # (ds @ ys)" using Cons.prems(1) by simp
  have c: "is_digit c" using Cons.prems by simp
  let ?r = "r\<lparr>http_minor := of_nat (v * 10 + (unat c - 48))\<rparr>"
  have st: "rl_step buf p c RL_minor_digit r = Next RL_minor_digit ?r"
    using c Cons.prems(3) digit_step_word [OF c, where 'a = 16, of v]
    by (auto simp: rl_step_def rl_sw_minor_digit_def is_digit_def)
  note e = eat_byte [OF d, of rl_step, OF st]
  show ?case using Cons.IH [OF e(2), of ?r "v * 10 + (unat c - 48)"] Cons.prems(2) e(1) by simp
qed

text \<open>The text of a request line.\<close>

definition request_line_text :: "bytes \<Rightarrow> bytes \<Rightarrow> bytes \<Rightarrow> bytes \<Rightarrow> bytes" where
  "request_line_text meth path major minor =
     meth @ [c_space] @ path @ [c_space] @ ascii ''HTTP/'' @ major @ [c_dot] @ minor @ [c_CR, c_LF]"

lemma eat_http:
  assumes "drop p buf = c_space # ascii ''HTTP/'' @ ys" and "st = RL_after_slash_in_uri \<or> st = RL_check_uri"
  shows "byte_loop rl_step buf (length buf) p st r =
      byte_loop rl_step buf (length buf) (p + 6) RL_first_major_digit
        (r\<lparr>uri_end := Some p, http_protocol_data := Some (Suc p)\<rparr>) \<and> drop (p + 6) buf = ys"
proof -
  have d: "drop p buf = c_space # 72 # 84 # 84 # 80 # 47 # ys"
    using assms(1) by simp
  have s0: "rl_step buf p c_space st r = Next RL_check_uri_http_09 (r\<lparr>uri_end := Some p\<rparr>)" for p r
    using assms(2) by (auto simp: rl_step_def rl_sw_after_slash_in_uri_def rl_sw_check_uri_def)
  have s1: "rl_step buf p 72 RL_check_uri_http_09 r = Next RL_http_H (r\<lparr>http_protocol_data := Some p\<rparr>)" for p r
    by (simp add: rl_step_def rl_sw_check_uri_http_09_def)
  have s2: "rl_step buf p 84 RL_http_H r = Next RL_http_HT r"
       "rl_step buf p 84 RL_http_HT r = Next RL_http_HTT r"
       "rl_step buf p 80 RL_http_HTT r = Next RL_http_HTTP r"
       "rl_step buf p 47 RL_http_HTTP r = Next RL_first_major_digit r" for p r
    by (simp_all add: rl_step_def rl_sw_http_H_def rl_sw_http_HT_def rl_sw_http_HTT_def rl_sw_http_HTTP_def rl_expect_def)
  note e0 = eat_byte [OF d, of rl_step, OF s0]
  note e1 = eat_byte [OF e0(2), of rl_step, OF s1]
  note e2 = eat_byte [OF e1(2), of rl_step, OF s2(1)]
  note e3 = eat_byte [OF e2(2), of rl_step, OF s2(2)]
  note e4 = eat_byte [OF e3(2), of rl_step, OF s2(3)]
  note e5 = eat_byte [OF e4(2), of rl_step, OF s2(4)]
  show ?thesis by (simp add: e0(1) e1(1) e2(1) e3(1) e4(1) e5(1) e5(2) numeral_eq_Suc)
qed

lemma eat_version:
  assumes "drop p buf = (d # ds) @ [c_dot] @ (e # es) @ [c_CR, c_LF] @ ys"
    and "\<forall>c \<in> set (d # ds). is_digit c" and "d \<noteq> c_0" and "\<forall>c \<in> set (e # es). is_digit c"
  shows "byte_loop rl_step buf (length buf) p RL_first_major_digit r =
      Some (Some RL_done, RL_almost_done,
        r\<lparr>http_major := of_nat (decimal (d # ds)), http_minor := of_nat (decimal (e # es)),
          request_end := Some (p + length ds + length es + 3)\<rparr>, p + length ds + length es + 4)"
proof -
  have D: "d \<ge> c_1" using assms(2,3) unfolding is_digit_def
    by (simp add: word_le_nat_alt word_unat_eq_iff)
  let ?r1 = "r\<lparr>http_major := of_nat (unat d - 48)\<rparr>"
  have s1: "rl_step buf p d RL_first_major_digit r = Next RL_major_digit ?r1"
    using assms(2) D digit_value_word [of d, where 'a = 16]
    by (auto simp: rl_step_def rl_sw_first_major_digit_def is_digit_def)
  have d0: "drop p buf = d # (ds @ [c_dot] @ (e # es) @ [c_CR, c_LF] @ ys)" using assms(1) by simp
  note e1 = eat_byte [OF d0, of rl_step, OF s1]
  have e2: "byte_loop rl_step buf (length buf) (Suc p) RL_major_digit ?r1 =
     byte_loop rl_step buf (length buf) (Suc p + length ds) RL_major_digit (r\<lparr>http_major := of_nat (decimal (d # ds))\<rparr>)"
    and d2: "drop (Suc p + length ds) buf = c_dot # (e # es) @ [c_CR, c_LF] @ ys"
    using eat_major [OF e1(2), of ?r1 "unat d - 48"] assms(2) by simp_all
  have s3: "rl_step buf q c_dot RL_major_digit r = Next RL_first_minor_digit r" for q r
    by (simp add: rl_step_def rl_sw_major_digit_def)
  note e3 = eat_byte [OF d2, of rl_step, OF s3]
  have d3: "drop (Suc (Suc p + length ds)) buf = e # (es @ [c_CR, c_LF] @ ys)" using e3(2) by simp
  have s4: "rl_step buf q e RL_first_minor_digit r = Next RL_minor_digit (r\<lparr>http_minor := of_nat (unat e - 48)\<rparr>)" for q r
    using assms(4) digit_value_word [of e, where 'a = 16]
    by (auto simp: rl_step_def rl_sw_first_minor_digit_def is_digit_def)
  note e4 = eat_byte [OF d3, of rl_step, OF s4]
  let ?r5 = "r\<lparr>http_major := of_nat (decimal (d # ds)), http_minor := of_nat (decimal (e # es))\<rparr>"
  let ?q = "Suc (Suc (Suc p + length ds))"
  have e5: "byte_loop rl_step buf (length buf) ?q RL_minor_digit (r\<lparr>http_major := of_nat (decimal (d # ds)), http_minor := of_nat (unat e - 48)\<rparr>) =
     byte_loop rl_step buf (length buf) (?q + length es) RL_minor_digit ?r5"
    and d5: "drop (?q + length es) buf = c_CR # c_LF # ys"
    using eat_minor [OF e4(2), of "r\<lparr>http_major := of_nat (decimal (d # ds)), http_minor := of_nat (unat e - 48)\<rparr>" "unat e - 48"] assms(4) by simp_all
  have s6: "rl_step buf q c_CR RL_minor_digit r = Next RL_almost_done r" for q r
    by (simp add: rl_step_def rl_sw_minor_digit_def)
  note e6 = eat_byte [OF d5, of rl_step, OF s6]
  have s7: "rl_step buf q c_LF RL_almost_done r = Exit RL_done RL_almost_done (r\<lparr>request_end := Some (q - 1)\<rparr>)" for q r
    by (simp add: rl_step_def rl_sw_almost_done_def)
  note e7 = eat_exit [OF e6(2), of rl_step, OF s7]
  show ?thesis
    using e1(1) e2 e3(1) e4(1) e5 e6(1) e7 by (simp add: numeral_eq_Suc algebra_simps)
qed

lemma eat_method:
  assumes "drop p buf = (c # cs) @ [c_space, c_slash] @ ys" and "\<forall>x \<in> set (c # cs). method_char x"
  shows "byte_loop rl_step buf (length buf) p RL_start r =
    byte_loop rl_step buf (length buf) (p + length cs + 3) RL_after_slash_in_uri
      (r\<lparr>request_start := Some p, method_end := Some (p + length cs),
         req_method := (case map_of http_methods (c # cs) of None \<Rightarrow> req_method r | Some k \<Rightarrow> k),
         uri_start := Some (p + length cs + 2)\<rparr>) \<and> drop (p + length cs + 3) buf = ys"
proof -
  have nsp: "\<not> method_char c_space" "\<not> method_char c_CR" "\<not> method_char c_LF" by (simp_all add: method_char_def)
  have d0: "drop p buf = c # (cs @ [c_space, c_slash] @ ys)" using assms(1) by simp
  let ?r1 = "r\<lparr>request_start := Some p\<rparr>"
  have s0: "rl_step buf p c RL_start r = Next RL_method ?r1"
    using assms(2) nsp by (auto simp: rl_step_def rl_sw_start_def Let_def)
  note e0 = eat_byte [OF d0, of rl_step, OF s0]
  have s1: "rl_step buf i x RL_method ?r1 = Next RL_method ?r1" if "x \<in> set cs" for i x
    using assms(2) that nsp by (auto simp: rl_step_def rl_sw_method_def)
  from eat_stretch [OF e0(2), of rl_step, OF s1]
  have e1: "byte_loop rl_step buf (length buf) (Suc p) RL_method ?r1 =
      byte_loop rl_step buf (length buf) (Suc p + length cs) RL_method ?r1"
    and d1: "drop (Suc p + length cs) buf = c_space # c_slash # ys" by simp_all
  have code: "rl_method_code buf p (Suc p + length cs - p) = map_of http_methods (c # cs)"
    using rl_method_code_spec [of p buf "c # cs" "c_slash # ys"] assms(1) by simp
  let ?r2 = "?r1\<lparr>method_end := Some (p + length cs), req_method := (case map_of http_methods (c # cs) of None \<Rightarrow> req_method r | Some k \<Rightarrow> k)\<rparr>"
  have s2: "rl_step buf (Suc p + length cs) c_space RL_method ?r1 = Next RL_spaces_before_uri ?r2"
    using code by (cases "map_of http_methods (c # cs)") (simp_all add: rl_step_def rl_sw_method_def Let_def)
  note e2 = eat_byte [OF d1, of rl_step, OF s2]
  have s3: "rl_step buf q c_slash RL_spaces_before_uri r = Next RL_after_slash_in_uri (r\<lparr>uri_start := Some q\<rparr>)" for q r
    by (simp add: rl_step_def rl_sw_spaces_before_uri_def)
  note e3 = eat_byte [OF e2(2), of rl_step, OF s3]
  show ?thesis using e0(1) e1 e2(1) e3 by (simp add: numeral_eq_Suc)
qed

lemma request_line_init_simps [simp]:
  "req_method request_line_init = NGX_HTTP_UNKNOWN" "rl_state request_line_init = RL_start"
  "request_end request_line_init = None"
  by (simp_all add: request_line_init_def)

lemma request_line_run:
  assumes meth: "meth \<noteq> []" "\<forall>x \<in> set meth. method_char x"
    and path: "simple_path True path"
    and major: "major \<noteq> []" "\<forall>x \<in> set major. is_digit x" "hd major \<noteq> c_0"
    and minor: "minor \<noteq> []" "\<forall>x \<in> set minor. is_digit x"
    and b: "mem b = request_line_text meth (c_slash # path) major minor" "pos b = 0" "blast b = length (mem b)"
  shows "\<exists>x. ngx_http_parse_request_line request_line_init b =
     Some (rl_finish (length (mem b) - 1)
       (request_line_init\<lparr>request_start := Some 0, method_end := Some (length meth - 1),
          req_method := method_of_name meth, uri_start := Some (length meth + 1), uri_ext := x,
          uri_end := Some (length meth + 2 + length path),
          http_protocol_data := Some (length meth + 3 + length path),
          http_major := of_nat (decimal major), http_minor := of_nat (decimal minor),
          request_end := Some (length (mem b) - 2)\<rparr>) b)"
proof -
  obtain c cs where m: "meth = c # cs" using meth(1) by (cases meth) auto
  obtain d ds where ma: "major = d # ds" using major(1) by (cases major) auto
  obtain e es where mi: "minor = e # es" using minor(1) by (cases minor) auto
  let ?buf = "mem b"
  let ?H = "c_space # ascii ''HTTP/'' @ major @ [c_dot] @ minor @ [c_CR, c_LF]"
  have d0: "drop 0 ?buf = (c # cs) @ [c_space, c_slash] @ (path @ ?H)"
    by (simp add: b(1) request_line_text_def m)
  let ?r = "request_line_init"
  have meth': "\<forall>x \<in> set (c # cs). method_char x" using meth(2) m by simp
  note E1 = eat_method [OF d0 meth', of ?r]
  then have d1: "drop (length cs + 3) ?buf = path @ ?H" by simp
  obtain x st where E2: "byte_loop rl_step ?buf (length ?buf) (length cs + 3) RL_after_slash_in_uri r1 =
       byte_loop rl_step ?buf (length ?buf) (length cs + 3 + length path) st (r1\<lparr>uri_ext := x\<rparr>)"
     and st: "st = RL_after_slash_in_uri \<or> st = RL_check_uri"
     and d2: "drop (length cs + 3 + length path) ?buf = ?H"
    if "r1 = ?r\<lparr>request_start := Some 0, method_end := Some (length cs), req_method := method_of_name meth,
         uri_start := Some (length cs + 2)\<rparr>" for r1
    using eat_path [OF d1 path] by fastforce
  note E3 = eat_http [OF d2 [OF refl] st [OF refl]]
  have d3: "drop (length cs + 3 + length path + 6) ?buf = (d # ds) @ [c_dot] @ (e # es) @ [c_CR, c_LF] @ []"
    using E3 by (simp add: ma mi)
  have dig: "\<forall>x \<in> set (d # ds). is_digit x" "d \<noteq> c_0" "\<forall>x \<in> set (e # es). is_digit x"
    using major minor by (simp_all add: ma mi)
  note E4 = eat_version [OF d3 dig]
  have len: "length ?buf = length cs + length path + length ds + length es + 14"
    by (simp add: b(1) request_line_text_def m ma mi)
  define r1 where "r1 = ?r\<lparr>request_start := Some 0, method_end := Some (length cs),
     req_method := method_of_name meth, uri_start := Some (length cs + 2)\<rparr>"
  have L: "byte_loop rl_step ?buf (length ?buf) 0 RL_start ?r = Some (Some RL_done, RL_almost_done,
     r1\<lparr>uri_ext := x, uri_end := Some (length cs + 3 + length path),
        http_protocol_data := Some (length cs + 4 + length path),
        http_major := of_nat (decimal major), http_minor := of_nat (decimal minor),
        request_end := Some (length ?buf - 2)\<rparr>, length ?buf - 1)"
  proof -
    have "byte_loop rl_step ?buf (length ?buf) 0 RL_start ?r =
       byte_loop rl_step ?buf (length ?buf) (length cs + 3) RL_after_slash_in_uri r1"
      using E1 by (cases "map_of http_methods (c # cs)") (simp_all add: r1_def method_of_name_def m)
    also have "\<dots> = byte_loop rl_step ?buf (length ?buf) (length cs + 3 + length path) st (r1\<lparr>uri_ext := x\<rparr>)"
      by (rule E2) (simp add: r1_def)
    also have "\<dots> = byte_loop rl_step ?buf (length ?buf) (length cs + 3 + length path + 6) RL_first_major_digit
        (r1\<lparr>uri_ext := x, uri_end := Some (length cs + 3 + length path),
            http_protocol_data := Some (Suc (length cs + 3 + length path))\<rparr>)"
      using E3 by blast
    also note E4
    finally show ?thesis by (simp add: len ma mi)
  qed
  show ?thesis
    unfolding ngx_http_parse_request_line_def b(2,3)
    using L by (intro exI [of _ x]) (simp add: r1_def request_line_init_def m numeral_eq_Suc)
qed

text \<open>
  Claim C32: the text of a request line, with any method name, simple path and version numbers
  that fit the 16-bit fields, is accepted whole, and the method, the version and the URI read
  back are the ones written.
\<close>

theorem request_line_roundtrip:
  assumes meth: "meth \<noteq> []" "\<forall>x \<in> set meth. method_char x"
    and path: "simple_path True path"
    and major: "major \<noteq> []" "\<forall>x \<in> set major. is_digit x" "hd major \<noteq> c_0" "decimal major < 65536"
    and minor: "minor \<noteq> []" "\<forall>x \<in> set minor. is_digit x" "decimal minor < 65536"
    and b: "mem b = request_line_text meth (c_slash # path) major minor" "pos b = 0" "blast b = length (mem b)"
  shows "\<exists>r. ngx_http_parse_request_line request_line_init b = Some (NGX_OK, r, b\<lparr>pos := blast b\<rparr>) \<and>
     req_method r = method_of_name meth \<and> http_version r = decimal major * 1000 + decimal minor \<and>
     cut (mem b) (the (uri_start r)) (the (uri_end r)) = c_slash # path \<and>
     args_start r = None \<and> \<not> complex_uri r \<and> \<not> quoted_uri r \<and> \<not> space_in_uri r \<and> rl_state r = RL_start"
proof -
  have M: "unat (of_nat (decimal major) :: 16 word) = decimal major"
    and N: "unat (of_nat (decimal minor) :: 16 word) = decimal minor"
    using major(4) minor(3) by (simp_all add: unsigned_of_nat take_bit_nat_eq_self_iff)
  have pos: "0 < decimal major" using major by (intro decimal_pos) auto
  have len: "length (mem b) \<ge> 1" by (simp add: b(1) request_line_text_def)
  have cut: "cut (mem b) (Suc (length meth)) (Suc (Suc (length meth + length path))) = c_slash # path"
    by (simp add: b(1) request_line_text_def cut_def)
  from request_line_run [OF meth path major(1-3) minor(1,2) b] obtain x where
    "ngx_http_parse_request_line request_line_init b =
     Some (rl_finish (length (mem b) - 1)
       (request_line_init\<lparr>request_start := Some 0, method_end := Some (length meth - 1),
          req_method := method_of_name meth, uri_start := Some (length meth + 1), uri_ext := x,
          uri_end := Some (length meth + 2 + length path),
          http_protocol_data := Some (length meth + 3 + length path),
          http_major := of_nat (decimal major), http_minor := of_nat (decimal minor),
          request_end := Some (length (mem b) - 2)\<rparr>) b)" ..
  then show ?thesis
    using pos len cut by (simp add: rl_finish_def M N request_line_init_def b(3) Let_def)
qed

text \<open>
  the version fields wrap. Whatever the length of the digit strings, the version
  recorded is that of the numbers modulo 65536, so \<open>HTTP/65537.1\<close> is accepted as version 1.1.
\<close>

lemma request_line_version_wraps:
  assumes meth: "meth \<noteq> []" "\<forall>x \<in> set meth. method_char x"
    and path: "simple_path True path"
    and major: "major \<noteq> []" "\<forall>x \<in> set major. is_digit x" "hd major \<noteq> c_0" 
    and minor: "minor \<noteq> []" "\<forall>x \<in> set minor. is_digit x" 
    and b: "mem b = request_line_text meth (c_slash # path) major minor" "pos b = 0" "blast b = length (mem b)"
  shows "\<exists>rc r. ngx_http_parse_request_line request_line_init b = Some (rc, r, b\<lparr>pos := blast b\<rparr>) \<and>
     http_version r = (decimal major mod 65536) * 1000 + decimal minor mod 65536 \<and>
     (rc = NGX_OK \<longleftrightarrow> \<not> (http_version r = 9 \<and> method_of_name meth \<noteq> NGX_HTTP_GET))"
proof -
  have M: "unat (of_nat k :: 16 word) = k mod 65536" for k
    by (simp add: unsigned_of_nat take_bit_eq_mod)
  have len: "length (mem b) \<ge> 1" by (simp add: b(1) request_line_text_def)
  from request_line_run [OF meth path major(1-3) minor(1,2) b] obtain x where
    "ngx_http_parse_request_line request_line_init b =
     Some (rl_finish (length (mem b) - 1)
       (request_line_init\<lparr>request_start := Some 0, method_end := Some (length meth - 1),
          req_method := method_of_name meth, uri_start := Some (length meth + 1), uri_ext := x,
          uri_end := Some (length meth + 2 + length path),
          http_protocol_data := Some (length meth + 3 + length path),
          http_major := of_nat (decimal major), http_minor := of_nat (decimal minor),
          request_end := Some (length (mem b) - 2)\<rparr>) b)" ..
  then show ?thesis
    using len by (simp add: rl_finish_def M request_line_init_def b(3) Let_def)
qed

section \<open>Witnesses\<close>

definition ex_request :: ngx_buf where
  "ex_request = \<lparr>mem = ascii ''GET /a.b HTTP/1.1'' @ [c_CR, c_LF], pos = 0, blast = 19\<rparr>"

lemma ex_request_parse:
  "ngx_http_parse_request_line request_line_init ex_request =
    Some (NGX_OK, request_line_init\<lparr>req_method := NGX_HTTP_GET, http_version := 1001, http_major := 1, http_minor := 1, request_start := Some 0, request_end := Some 17,
    method_end := Some 2, uri_start := Some 4, uri_end := Some 8, uri_ext := Some 7, http_protocol_data := Some 9\<rparr>,
    ex_request\<lparr>pos := 19\<rparr>)"
  by code_simp

lemma ex_request_ok: "buf_ok ex_request"
  by (simp add: ex_request_def buf_ok_def)

definition ex_partial :: ngx_buf where
  "ex_partial = ex_request\<lparr>mem := take 5 (mem ex_request), blast := 5\<rparr>"

lemma ex_partial_parse:
  "ngx_http_parse_request_line request_line_init ex_partial =
    Some (NGX_AGAIN, request_line_init\<lparr>rl_state := RL_after_slash_in_uri, req_method := NGX_HTTP_GET,
       request_start := Some 0, method_end := Some 2, uri_start := Some 4\<rparr>, ex_partial\<lparr>pos := 5\<rparr>)"
  by code_simp

lemma ex_partial_ok: "buf_ok ex_partial"
  by (simp add: ex_partial_def ex_request_def buf_ok_def)

lemma request_line_init_flags [simp]:
  "args_start request_line_init = None" "\<not> complex_uri request_line_init" "\<not> quoted_uri request_line_init"
  by (simp_all add: request_line_init_def)

lemma request_line_total_witness:
  "\<exists>rc r' b'. ngx_http_parse_request_line request_line_init ex_request = Some (rc, r', b') \<and>
     rc \<in> {NGX_OK, NGX_AGAIN, NGX_HTTP_PARSE_INVALID_METHOD, NGX_HTTP_PARSE_INVALID_REQUEST,
           NGX_HTTP_PARSE_INVALID_09_METHOD}"
  by (rule request_line_total) simp_all

lemma request_line_ok_witness:
  "\<exists>r' b'. ngx_http_parse_request_line request_line_init ex_request = Some (NGX_OK, r', b') \<and>
     (\<exists>m u e. request_start r' = Some m \<and> uri_start r' = Some u \<and> uri_end r' = Some e \<and>
        m < u \<and> u < e \<and> e < pos b' \<and> mem ex_request ! u = c_slash)"
proof -
  have "rl_state request_line_init = RL_start" "request_end request_line_init = None" by simp_all
  from request_line_ok [OF this ex_request_parse] ex_request_parse show ?thesis by blast
qed

lemma request_line_resume_witness:
  "\<exists>r1 b1. ngx_http_parse_request_line request_line_init ex_partial = Some (NGX_AGAIN, r1, b1) \<and>
     rel_option rl_same
       (ngx_http_parse_request_line request_line_init (buf_receive ex_partial (drop 5 (mem ex_request))))
       (ngx_http_parse_request_line r1 (buf_receive b1 (drop 5 (mem ex_request))))"
  using request_line_resume [OF ex_partial_ok ex_partial_parse] ex_partial_parse by blast

lemma request_line_method_witness:
  "\<exists>r' b'. ngx_http_parse_request_line request_line_init ex_request = Some (NGX_OK, r', b') \<and>
     (\<exists>m e. request_start r' = Some m \<and> method_end r' = Some e \<and>
        req_method r' = method_of_name (cut (mem ex_request) m (Suc e)))"
proof -
  have "rl_state request_line_init = RL_start" "request_end request_line_init = None"
    "req_method request_line_init = NGX_HTTP_UNKNOWN" by simp_all
  from request_line_method [OF ex_request_ok this ex_request_parse] ex_request_parse show ?thesis by blast
qed

lemma request_line_plain_witness:
  "\<exists>r' b'. ngx_http_parse_request_line request_line_init ex_request = Some (NGX_OK, r', b') \<and>
     plain_path (mem ex_request) 4 8"
proof -
  let ?r = "request_line_init\<lparr>req_method := NGX_HTTP_GET, http_version := 1001, http_major := 1,
    http_minor := 1, request_start := Some 0, request_end := Some 17, method_end := Some 2,
    uri_start := Some 4, uri_end := Some 8, uri_ext := Some 7, http_protocol_data := Some 9\<rparr>"
  have "plain_path (mem ex_request) (the (uri_start ?r))
      (case args_start ?r of None \<Rightarrow> the (uri_end ?r) | Some a \<Rightarrow> a - 1)"
    by (rule request_line_plain [OF _ _ _ _ _ ex_request_parse]) simp_all
  then show ?thesis using ex_request_parse by simp
qed

definition ex_line :: "bytes \<Rightarrow> ngx_buf" where
  "ex_line major = (let s = request_line_text (ascii ''GET'') (c_slash # ascii ''a.b'') major (ascii ''1'')
     in \<lparr>mem = s, pos = 0, blast = length s\<rparr>)"

lemmas ex_line_eval = ex_line_def method_char_def is_digit_def usual_iff' Let_def

lemma request_line_roundtrip_witness:
  "\<exists>r. ngx_http_parse_request_line request_line_init (ex_line (ascii ''1'')) =
       Some (NGX_OK, r, (ex_line (ascii ''1''))\<lparr>pos := blast (ex_line (ascii ''1''))\<rparr>) \<and>
     req_method r = method_of_name (ascii ''GET'') \<and> http_version r = 1001"
  using request_line_roundtrip [of "ascii ''GET''" "ascii ''a.b''" "ascii ''1''" "ascii ''1''" "ex_line (ascii ''1'')"]
  by (auto simp: ex_line_eval)

end
