(* ===== verification/Http_Complex_Uri.thy ===== *)
theory Http_Complex_Uri
  imports Http_Common
begin

text \<open>
  \<open>ngx_http_parse_complex_uri\<close> of \<open>http/ngx_http_parse.c\<close>: the URI of a request, with quoted
  bytes decoded, dot segments resolved and, when asked for, repeated slashes merged. It reads
  from the request buffer and writes to \<open>r->uri.data\<close>, a fresh array of \<open>cap\<close> bytes; the
  configuration modelled is the Unix one (no \<open>NGX_WIN32\<close> branches).

  The bytes written are kept as the list of those before \<open>u\<close>: what lies at and above \<open>u\<close> is
  written again before it is read. Every byte is read one step before it is looked at, as in
  the source. A read outside the buffer and a write outside the array are faults.
\<close>

section \<open>State\<close>

datatype cu_state = CU_usual | CU_slash | CU_dot | CU_dot_dot | CU_quoted | CU_quoted_second

record complex_uri =
  cu_state :: cu_state
  cu_quoted_state :: cu_state
  cu_decoded :: u_char
  cu_ch :: u_char
  cu_p :: nat
  cu_u :: bytes
  cu_ext :: ptr
  cu_args :: ptr
  cu_plus :: bool
  cu_quoted :: bool

text \<open>How a state is left: another turn of the loop, \<open>goto args\<close>, \<open>goto done\<close>, \<open>return rc\<close>.\<close>

datatype cu_out = CU_go complex_uri | CU_goto_args complex_uri | CU_goto_done complex_uri | CU_return int | CU_fault

section \<open>The ways a character is consumed\<close>

text \<open>\<open>ch = *p++\<close>\<close>

definition cu_fetch :: "bytes \<Rightarrow> complex_uri \<Rightarrow> cu_out" where
  "cu_fetch buf s =
    (if cu_p s < length buf then CU_go (s\<lparr>cu_ch := buf ! cu_p s, cu_p := cu_p s + 1\<rparr>) else CU_fault)"

text \<open>\<open>state = st; *u++ = ch; ch = *p++\<close>\<close>

definition cu_emit :: "bytes \<Rightarrow> nat \<Rightarrow> cu_state \<Rightarrow> u_char \<Rightarrow> complex_uri \<Rightarrow> cu_out" where
  "cu_emit buf cap st ch s =
    (if length (cu_u s) < cap then cu_fetch buf (s\<lparr>cu_state := st, cu_u := cu_u s @ [ch]\<rparr>) else CU_fault)"

text \<open>The last byte before \<open>i\<close> in the output that is a slash: the loop of \<open>sw_dot_dot\<close>, from \<open>i\<close> down.\<close>

fun cu_back :: "bytes \<Rightarrow> nat \<Rightarrow> nat option" where
  "cu_back out 0 = None"
| "cu_back out (Suc i) = (if out ! i = c_slash then Some (Suc i) else cu_back out i)"

section \<open>The states\<close>

definition cu_sw_usual :: "bytes \<Rightarrow> nat \<Rightarrow> complex_uri \<Rightarrow> cu_out" where
  "cu_sw_usual buf cap s =
    (let ch = cu_ch s in
     if usual ch then cu_emit buf cap CU_usual ch s
     else if ch = c_slash then cu_emit buf cap CU_slash ch (s\<lparr>cu_ext := None\<rparr>)
     else if ch = c_percent then cu_fetch buf (s\<lparr>cu_quoted_state := cu_state s, cu_state := CU_quoted\<rparr>)
     else if ch = c_quest then CU_goto_args (s\<lparr>cu_args := Some (cu_p s)\<rparr>)
     else if ch = c_hash then CU_goto_done s
     else if ch = c_dot then cu_emit buf cap CU_usual ch (s\<lparr>cu_ext := Some (length (cu_u s) + 1)\<rparr>)
     else if ch = c_plus then cu_emit buf cap CU_usual ch (s\<lparr>cu_plus := True\<rparr>)
     else cu_emit buf cap CU_usual ch s)"

definition cu_sw_slash :: "bool \<Rightarrow> bytes \<Rightarrow> nat \<Rightarrow> complex_uri \<Rightarrow> cu_out" where
  "cu_sw_slash merge_slashes buf cap s =
    (let ch = cu_ch s in
     if usual ch then cu_emit buf cap CU_usual ch s
     else if ch = c_slash then
       (if \<not> merge_slashes then cu_emit buf cap CU_slash ch s else cu_fetch buf s)
     else if ch = c_dot then cu_emit buf cap CU_dot ch s
     else if ch = c_percent then cu_fetch buf (s\<lparr>cu_quoted_state := cu_state s, cu_state := CU_quoted\<rparr>)
     else if ch = c_quest then CU_goto_args (s\<lparr>cu_args := Some (cu_p s)\<rparr>)
     else if ch = c_hash then CU_goto_done s
     else if ch = c_plus then cu_emit buf cap CU_usual ch (s\<lparr>cu_plus := True\<rparr>)
     else cu_emit buf cap CU_usual ch s)"

definition cu_sw_dot :: "bytes \<Rightarrow> nat \<Rightarrow> complex_uri \<Rightarrow> cu_out" where
  "cu_sw_dot buf cap s =
    (let ch = cu_ch s in
     if usual ch then cu_emit buf cap CU_usual ch s
     else if ch = c_slash then
       (if cu_u s \<noteq> [] then cu_fetch buf (s\<lparr>cu_state := CU_slash, cu_u := butlast (cu_u s)\<rparr>) else CU_fault)
     else if ch = c_dot then cu_emit buf cap CU_dot_dot ch s
     else if ch = c_percent then cu_fetch buf (s\<lparr>cu_quoted_state := cu_state s, cu_state := CU_quoted\<rparr>)
     else if ch = c_quest then CU_goto_args (s\<lparr>cu_args := Some (cu_p s)\<rparr>)
     else if ch = c_hash then CU_goto_done s
     else if ch = c_plus then cu_emit buf cap CU_usual ch (s\<lparr>cu_plus := True\<rparr>)
     else cu_emit buf cap CU_usual ch s)"

text \<open>\<open>u -= 5\<close> may leave the array; the loop then returns before it reads there.\<close>

definition cu_sw_dot_dot :: "bytes \<Rightarrow> nat \<Rightarrow> complex_uri \<Rightarrow> cu_out" where
  "cu_sw_dot_dot buf cap s =
    (let ch = cu_ch s in
     if usual ch then cu_emit buf cap CU_usual ch s
     else if ch = c_slash then
       (if length (cu_u s) < 5 then CU_return NGX_HTTP_PARSE_INVALID_REQUEST
        else
          (case cu_back (cu_u s) (length (cu_u s) - 4) of
             None \<Rightarrow> CU_return NGX_HTTP_PARSE_INVALID_REQUEST
           | Some n \<Rightarrow> cu_fetch buf (s\<lparr>cu_state := CU_slash, cu_u := take n (cu_u s)\<rparr>)))
     else if ch = c_percent then cu_fetch buf (s\<lparr>cu_quoted_state := cu_state s, cu_state := CU_quoted\<rparr>)
     else if ch = c_quest then CU_goto_args (s\<lparr>cu_args := Some (cu_p s)\<rparr>)
     else if ch = c_hash then CU_goto_done s
     else if ch = c_plus then cu_emit buf cap CU_usual ch (s\<lparr>cu_plus := True\<rparr>)
     else cu_emit buf cap CU_usual ch s)"

definition cu_sw_quoted :: "bytes \<Rightarrow> complex_uri \<Rightarrow> cu_out" where
  "cu_sw_quoted buf s =
    (let s = s\<lparr>cu_quoted := True\<rparr>; ch = cu_ch s in
     if is_digit ch then cu_fetch buf (s\<lparr>cu_decoded := ch - 48, cu_state := CU_quoted_second\<rparr>)
     else
       (let c = lower ch in
        if is_hex_lower c then cu_fetch buf (s\<lparr>cu_decoded := c - 97 + 10, cu_state := CU_quoted_second\<rparr>)
        else CU_return NGX_HTTP_PARSE_INVALID_REQUEST))"

definition cu_sw_quoted_second :: "bytes \<Rightarrow> nat \<Rightarrow> complex_uri \<Rightarrow> cu_out" where
  "cu_sw_quoted_second buf cap s =
    (let ch = cu_ch s in
     if is_digit ch then
       (let ch = push_bit 4 (cu_decoded s) + ch - 48 in
        if ch = c_percent \<or> ch = c_hash then cu_emit buf cap CU_usual ch s
        else if ch = c_NUL then CU_return NGX_HTTP_PARSE_INVALID_REQUEST
        else CU_go (s\<lparr>cu_ch := ch, cu_state := cu_quoted_state s\<rparr>))
     else
       (let c = lower ch in
        if is_hex_lower c then
          (let ch = push_bit 4 (cu_decoded s) + c - 97 + 10 in
           if ch = c_quest then cu_emit buf cap CU_usual ch s
           else if ch = c_plus then CU_go (s\<lparr>cu_ch := ch, cu_plus := True, cu_state := cu_quoted_state s\<rparr>)
           else CU_go (s\<lparr>cu_ch := ch, cu_state := cu_quoted_state s\<rparr>))
        else CU_return NGX_HTTP_PARSE_INVALID_REQUEST))"

definition cu_step :: "bool \<Rightarrow> bytes \<Rightarrow> nat \<Rightarrow> complex_uri \<Rightarrow> cu_out" where
  "cu_step merge_slashes buf cap s =
    (case cu_state s of
       CU_usual \<Rightarrow> cu_sw_usual buf cap s
     | CU_slash \<Rightarrow> cu_sw_slash merge_slashes buf cap s
     | CU_dot \<Rightarrow> cu_sw_dot buf cap s
     | CU_dot_dot \<Rightarrow> cu_sw_dot_dot buf cap s
     | CU_quoted \<Rightarrow> cu_sw_quoted buf s
     | CU_quoted_second \<Rightarrow> cu_sw_quoted_second buf cap s)"

section \<open>The loop\<close>

text \<open>\<open>while (p <= r->uri_end)\<close>; falling out of the loop reaches \<open>done\<close>. \<open>None\<close> would be no end.\<close>

partial_function (option) cu_loop :: "bool \<Rightarrow> bytes \<Rightarrow> nat \<Rightarrow> nat \<Rightarrow> complex_uri \<Rightarrow> cu_out option" where
  "cu_loop merge_slashes buf cap uri_end s =
    (if cu_p s \<le> uri_end then
       (case cu_step merge_slashes buf cap s of
          CU_go s' \<Rightarrow> cu_loop merge_slashes buf cap uri_end s'
        | CU_goto_args s' \<Rightarrow> Some (CU_goto_args s')
        | CU_goto_done s' \<Rightarrow> Some (CU_goto_done s')
        | CU_return rc \<Rightarrow> Some (CU_return rc)
        | CU_fault \<Rightarrow> Some CU_fault)
     else Some (CU_goto_done s))"

declare cu_loop.simps [code]

text \<open>The results: \<open>r->uri\<close>, \<open>r->exten\<close> and \<open>r->args\<close> (set only after a fragment), \<open>r->args_start\<close>.\<close>

record uri_parts =
  up_uri :: bytes
  up_exten :: "bytes option"
  up_args :: "bytes option"
  up_args_start :: ptr
  up_plus_in_uri :: bool
  up_quoted_uri :: bool

definition cu_finish :: "bytes option \<Rightarrow> ptr \<Rightarrow> complex_uri \<Rightarrow> uri_parts" where
  "cu_finish args args_start s =
    \<lparr>up_uri = cu_u s, up_exten = map_option (\<lambda>e. drop e (cu_u s)) (cu_ext s), up_args = args,
     up_args_start = args_start, up_plus_in_uri = cu_plus s, up_quoted_uri = cu_quoted s\<rparr>"

text \<open>The label \<open>args\<close>: the arguments end at a number sign.\<close>

fun cu_find_hash :: "bytes \<Rightarrow> nat \<Rightarrow> nat \<Rightarrow> nat option" where
  "cu_find_hash buf p 0 = None"
| "cu_find_hash buf p (Suc n) = (if buf ! p = c_hash then Some p else cu_find_hash buf (Suc p) n)"

definition cu_args_label :: "bytes \<Rightarrow> nat \<Rightarrow> complex_uri \<Rightarrow> uri_parts" where
  "cu_args_label buf uri_end s =
    (let start = the (cu_args s) in
     case cu_find_hash buf (cu_p s) (uri_end - cu_p s) of
       None \<Rightarrow> cu_finish None (Some start) s
     | Some h \<Rightarrow> cu_finish (Some (cut buf start h)) None s)"

text \<open>
  The function. \<open>Inl\<close> is the return code of a refusal. The outer option is \<open>None\<close> for a read or
  a write outside its object.
\<close>

definition ngx_http_parse_complex_uri ::
  "bool \<Rightarrow> bytes \<Rightarrow> nat \<Rightarrow> nat \<Rightarrow> nat \<Rightarrow> bool \<Rightarrow> bool \<Rightarrow> (int + uri_parts) option"
where
  "ngx_http_parse_complex_uri merge_slashes buf cap uri_start uri_end plus_in_uri quoted_uri =
    (if uri_start < length buf then
       (let s = \<lparr>cu_state = CU_usual, cu_quoted_state = CU_usual, cu_decoded = 0, cu_ch = buf ! uri_start,
                 cu_p = uri_start + 1, cu_u = [], cu_ext = None, cu_args = None,
                 cu_plus = plus_in_uri, cu_quoted = quoted_uri\<rparr>
        in case cu_loop merge_slashes buf cap uri_end s of
             None \<Rightarrow> None
           | Some (CU_goto_done s') \<Rightarrow> Some (Inr (cu_finish None (cu_args s') s'))
           | Some (CU_goto_args s') \<Rightarrow> Some (Inr (cu_args_label buf uri_end s'))
           | Some (CU_return rc) \<Rightarrow> Some (Inl rc)
           | Some (CU_go s') \<Rightarrow> None
           | Some CU_fault \<Rightarrow> None)
     else None)"

end
