(* ===== verification/Complex_Uri_Correct.thy ===== *)
theory Complex_Uri_Correct
  imports Http_Complex_Uri
begin

text \<open>
Correctness of \<open>ngx_http_parse_complex_uri\<close>: a reference in two passes (\<open>decode_path\<close>, then
  \<open>resolve\<close> on the list of segments), and the simulation that the one-pass machine with its
  output array is at every character at a stack of kept segments and a current one (\<open>cu_at\<close>).
\<close>

section \<open>The reference\<close>

text \<open>
  Decoding: every \<open>%XX\<close> is one byte, which may not be null; an escape the end of the URI cuts
  short is dropped; an unquoted question mark or number sign ends the path.
\<close>

fun decode_path :: "bytes \<Rightarrow> bytes option" where
  "decode_path [] = Some []"
| "decode_path (c # cs) =
    (if c = c_quest \<or> c = c_hash then Some []
     else if c \<noteq> c_percent then map_option (Cons c) (decode_path cs)
     else
       (case cs of
          [] \<Rightarrow> Some []
        | a # cs' \<Rightarrow>
            if \<not> hex_digit a then None
            else
              (case cs' of
                 [] \<Rightarrow> Some []
               | b # ds \<Rightarrow>
                   if hex_digit b \<and> hex_value a * 16 + hex_value b \<noteq> 0
                   then map_option (Cons (hex_value a * 16 + hex_value b)) (decode_path ds)
                   else None)))"

text \<open>
  Resolving: the segments between slashes from left to right, with a stack of those kept. A
  dot segment is dropped, a double dot removes the segment above it or is an error; an empty
  segment is dropped if slashes are merged. Where they are not, a double dot after an empty
  segment removes two. The last segment is kept whatever it is.
\<close>

fun split_slash :: "bytes \<Rightarrow> bytes list" where
  "split_slash [] = [[]]"
| "split_slash (c # cs) =
    (if c = c_slash then [] # split_slash cs
     else (case split_slash cs of s # ss \<Rightarrow> (c # s) # ss | [] \<Rightarrow> [[c]]))"

fun pop :: "bytes list \<Rightarrow> bytes list option" where
  "pop [] = None"
| "pop (t # st) = (if t \<noteq> [] then Some st else (case st of [] \<Rightarrow> None | t' # st' \<Rightarrow> Some st'))"

definition dot :: bytes where "dot = [c_dot]"
definition dot_dot :: bytes where "dot_dot = [c_dot, c_dot]"

definition close_seg :: "bool \<Rightarrow> bytes list \<Rightarrow> bytes \<Rightarrow> bytes list option" where
  "close_seg merge st s =
    (if s = [] then Some (if merge then st else [] # st)
     else if s = dot then Some st
     else if s = dot_dot then pop st
     else Some (s # st))"

fun resolve :: "bool \<Rightarrow> bytes list \<Rightarrow> bytes list \<Rightarrow> bytes list option" where
  "resolve merge st [] = Some (rev st)"
| "resolve merge st [s] = Some (rev st @ [s])"
| "resolve merge st (s # ss) = (case close_seg merge st s of None \<Rightarrow> None | Some st' \<Rightarrow> resolve merge st' ss)"

definition join :: "bytes list \<Rightarrow> bytes" where
  "join ss = concat (map (Cons c_slash) ss)"

text \<open>The URI path the reference gives for a raw URI that begins with a slash.\<close>

definition normal_uri :: "bool \<Rightarrow> bytes \<Rightarrow> bytes option" where
  "normal_uri merge uri =
    (case decode_path (tl uri) of
       None \<Rightarrow> None
     | Some path \<Rightarrow> map_option join (resolve merge [] (split_slash path)))"

section \<open>Facts on the reference\<close>

lemma split_slash_not_Nil [simp]: "split_slash cs \<noteq> []"
  by (induction cs) (auto split: list.splits)

text \<open>The current segment has been read up to \<open>cur\<close>.\<close>

definition pre :: "bytes \<Rightarrow> bytes list \<Rightarrow> bytes list" where
  "pre cur ss = (cur @ hd ss) # tl ss"

lemma pre_Nil [simp]: "ss \<noteq> [] \<Longrightarrow> pre [] ss = ss"
  by (cases ss) (simp_all add: pre_def)

lemma pre_split:
  "pre cur [[]] = [cur]"
  "pre cur (split_slash (c # cs)) = (if c = c_slash then cur # split_slash cs else pre (cur @ [c]) (split_slash cs))"
  by (auto simp: pre_def split: list.splits)

lemma resolve_pre_Cons:
  "resolve m st (s # split_slash cs) =
     (case close_seg m st s of None \<Rightarrow> None | Some st' \<Rightarrow> resolve m st' (split_slash cs))"
  by (cases "split_slash cs") (auto split: option.splits)

definition rest_uri :: "bool \<Rightarrow> bytes list \<Rightarrow> bytes \<Rightarrow> bytes \<Rightarrow> bytes option" where
  "rest_uri m st cur xs =
    (case decode_path xs of
       None \<Rightarrow> None
     | Some path \<Rightarrow> map_option join (resolve m st (pre cur (split_slash path))))"

definition after_char :: "bool \<Rightarrow> bytes list \<Rightarrow> bytes \<Rightarrow> u_char \<Rightarrow> bytes \<Rightarrow> bytes option" where
  "after_char m st cur c xs =
    (if c = c_slash then (case close_seg m st cur of None \<Rightarrow> None | Some st' \<Rightarrow> rest_uri m st' [] xs)
     else rest_uri m st (cur @ [c]) xs)"

lemma rest_uri_Nil: "rest_uri m st cur [] = Some (join (rev st @ [cur]))"
  by (simp add: rest_uri_def pre_split)

lemma rest_uri_stop: "c = c_quest \<or> c = c_hash \<Longrightarrow> rest_uri m st cur (c # xs) = Some (join (rev st @ [cur]))"
  by (auto simp: rest_uri_def pre_split)

lemma rest_uri_decoded:
  "(case map_option (Cons c) (decode_path xs) of
      None \<Rightarrow> None | Some path \<Rightarrow> map_option join (resolve m st (pre cur (split_slash path)))) = after_char m st cur c xs"
  by (auto simp: after_char_def rest_uri_def pre_split resolve_pre_Cons simp del: split_slash.simps split: option.splits)

lemma rest_uri_char: "c \<noteq> c_quest \<Longrightarrow> c \<noteq> c_hash \<Longrightarrow> c \<noteq> c_percent \<Longrightarrow> rest_uri m st cur (c # xs) = after_char m st cur c xs"
  using rest_uri_decoded [where c = c and xs = xs and m = m and st = st and cur = cur] by (simp add: rest_uri_def)

lemma rest_uri_percent:
  "rest_uri m st cur [c_percent] = Some (join (rev st @ [cur]))"
  "rest_uri m st cur [c_percent, a] = (if hex_digit a then Some (join (rev st @ [cur])) else None)"
  "rest_uri m st cur (c_percent # a # b # xs) =
     (if hex_digit a \<and> hex_digit b \<and> hex_value a * 16 + hex_value b \<noteq> 0
      then after_char m st cur (hex_value a * 16 + hex_value b) xs else None)"
  using rest_uri_decoded [where c = "hex_value a * 16 + hex_value b" and xs = xs and m = m and st = st and cur = cur]
  by (auto simp: rest_uri_def pre_split)

lemma join_simps: "join [] = []" "join (s # ss) = c_slash # s @ join ss" "join (ss @ ts) = join ss @ join ts"
  by (simp_all add: join_def)

lemma join_snoc: "join (ss @ [s]) = join ss @ c_slash # s"
  by (simp add: join_def)

section \<open>The output as segments\<close>

definition seg_ok :: "bool \<Rightarrow> bytes \<Rightarrow> bool" where
  "seg_ok m s \<longleftrightarrow> c_slash \<notin> set s \<and> s \<noteq> dot \<and> s \<noteq> dot_dot \<and> (m \<longrightarrow> s \<noteq> [])"

definition cur_ok :: "cu_state \<Rightarrow> bytes \<Rightarrow> bool" where
  "cur_ok st cur \<longleftrightarrow>
    (case st of
       CU_slash \<Rightarrow> cur = []
     | CU_dot \<Rightarrow> cur = dot
     | CU_dot_dot \<Rightarrow> cur = dot_dot
     | CU_usual \<Rightarrow> c_slash \<notin> set cur \<and> cur \<notin> {[], dot, dot_dot}
     | _ \<Rightarrow> False)"

text \<open>The scan for the previous slash.\<close>

lemma cu_back_none: "c_slash \<notin> set (take i out) \<Longrightarrow> i \<le> length out \<Longrightarrow> cu_back out i = None"
proof (induction i)
  case (Suc i)
  then show ?case by (auto simp: take_Suc_conv_app_nth)
qed simp

lemma cu_back_some: "c_slash \<notin> set b \<Longrightarrow> cu_back (a @ c_slash # b @ c) (length a + 1 + length b) = Some (length a + 1)"
proof (induction b arbitrary: c rule: rev_induct)
  case (snoc x b)
  have "cu_back (a @ c_slash # b @ (x # c)) (length a + 1 + length b) = Some (length a + 1)" using snoc by simp
  moreover have "(a @ c_slash # b @ (x # c)) ! (length a + 1 + length b) \<noteq> c_slash" using snoc.prems by (simp add: nth_append)
  ultimately show ?case by simp
qed simp

lemma join_length: "length (join (ss @ [s])) = length (join ss) + 1 + length s"
  by (simp add: join_snoc)

lemma cu_back_dot_dot:
  assumes "list_all (seg_ok m) st"
  defines "out \<equiv> join (rev st @ [dot_dot])"
  shows "(if length out < 5 then None else cu_back out (length out - 4)) =
     map_option (\<lambda>st'. length (join (rev st' @ [[]]))) (pop st)"
    and "pop st = Some st' \<Longrightarrow> take (length (join (rev st' @ [[]]))) out = join (rev st' @ [[]])"
proof -
  show 1: "(if length out < 5 then None else cu_back out (length out - 4)) = map_option (\<lambda>st'. length (join (rev st' @ [[]]))) (pop st)"
  proof (cases st)
    case Nil
    then show ?thesis by (simp add: out_def join_def dot_dot_def)
  next
    case (Cons t st1)
    show ?thesis
    proof (cases "t = []")
      case False
      then obtain t' c where t: "t = t' @ [c]" by (cases t rule: rev_cases) auto
      have out: "out = join (rev st1) @ c_slash # t' @ [c, c_slash, c_dot, c_dot]"
        by (simp add: out_def Cons t join_def dot_dot_def)
      have "c_slash \<notin> set t'" using assms(1) by (simp add: Cons t seg_ok_def)
      from cu_back_some [OF this, of "join (rev st1)" "[c, c_slash, c_dot, c_dot]"] show ?thesis
        using False by (simp add: Cons out join_snoc)
    next
      case True
      show ?thesis
      proof (cases st1)
        case Nil
        then show ?thesis by (simp add: out_def Cons True join_def dot_dot_def)
      next
        case c2: (Cons t2 st2)
        have out: "out = join (rev st2) @ c_slash # t2 @ [c_slash, c_slash, c_dot, c_dot]"
          by (simp add: out_def Cons True c2 join_def dot_dot_def)
        have "c_slash \<notin> set t2" using assms(1) by (simp add: Cons c2 seg_ok_def)
        from cu_back_some [OF this, of "join (rev st2)" "[c_slash, c_slash, c_dot, c_dot]"] show ?thesis
          by (simp add: Cons True c2 out join_snoc)
      qed
    qed
  qed
  show "take (length (join (rev st' @ [[]]))) out = join (rev st' @ [[]])" if "pop st = Some st'"
    using that by (cases st) (auto simp: out_def join_def split: if_splits list.splits)
qed

lemma pop_ok: "list_all (seg_ok m) st \<Longrightarrow> pop st = Some st' \<Longrightarrow> list_all (seg_ok m) st'"
  by (cases st) (auto split: if_splits list.splits)

section \<open>The simulation\<close>

definition path_state :: "cu_state \<Rightarrow> bool" where
  "path_state st \<longleftrightarrow> st \<in> {CU_usual, CU_slash, CU_dot, CU_dot_dot}"

text \<open>The extension starts inside the output, and only where a segment is being read.\<close>

definition ext_ok :: "complex_uri \<Rightarrow> bool" where
  "ext_ok s \<longleftrightarrow> (case cu_ext s of None \<Rightarrow> True | Some e \<Rightarrow> cu_state s = CU_usual \<and> e \<le> length (cu_u s))"

text \<open>The machine has kept the segments \<open>st\<close> and read \<open>cur\<close> of the next.\<close>

definition cu_at :: "bool \<Rightarrow> bytes list \<Rightarrow> bytes \<Rightarrow> complex_uri \<Rightarrow> bool" where
  "cu_at m st cur s \<longleftrightarrow> cu_u s = join (rev st @ [cur]) \<and> list_all (seg_ok m) st \<and> cur_ok (cu_state s) cur \<and> ext_ok s \<and> cu_args s = None"

lemma cu_emit_fetch: "length (cu_u s) < cap \<Longrightarrow> cu_emit buf cap st c s = cu_fetch buf (s\<lparr>cu_state := st, cu_u := cu_u s @ [c]\<rparr>)"
  by (simp add: cu_emit_def)

definition next_seg :: "bool \<Rightarrow> bytes list \<Rightarrow> bytes \<Rightarrow> u_char \<Rightarrow> (bytes list \<times> bytes) option" where
  "next_seg m st cur c = (if c = c_slash then map_option (\<lambda>st'. (st', [])) (close_seg m st cur) else Some (st, cur @ [c]))"

lemma after_char_next: "after_char m st cur c xs = (case next_seg m st cur c of None \<Rightarrow> None | Some (st', cur') \<Rightarrow> rest_uri m st' cur' xs)"
  by (simp add: after_char_def next_seg_def split: option.splits)

definition cu_moved :: "bool \<Rightarrow> bytes \<Rightarrow> complex_uri \<Rightarrow> cu_out \<Rightarrow> bytes list \<Rightarrow> bytes \<Rightarrow> bool" where
  "cu_moved m buf s out st cur \<longleftrightarrow>
     (\<exists>s'. out = cu_fetch buf s' \<and> cu_at m st cur s' \<and> cu_p s' = cu_p s \<and> length (cu_u s') \<le> Suc (length (cu_u s)))"

lemma cu_movedI:
  "cu_at m st cur s' \<Longrightarrow> cu_p s' = cu_p s \<Longrightarrow> length (cu_u s') \<le> Suc (length (cu_u s)) \<Longrightarrow> cu_moved m buf s (cu_fetch buf s') st cur"
  by (auto simp: cu_moved_def)

lemma path_char_usual:
  assumes "cu_at m st cur s" and "cu_state s = CU_usual" and "length (cu_u s) < cap"
    and "cu_ch s \<noteq> c_percent" "cu_ch s \<noteq> c_quest" "cu_ch s \<noteq> c_hash"
  shows "case next_seg m st cur (cu_ch s) of None \<Rightarrow> False
     | Some (st', cur') \<Rightarrow> cu_moved m buf s (cu_sw_usual buf cap s) st' cur'"
proof -
  have at: "cu_u s = join (rev st @ [cur])" "list_all (seg_ok m) st" "c_slash \<notin> set cur" "cur \<noteq> []" "cur \<noteq> dot" "cur \<noteq> dot_dot"
    "ext_ok s" "cu_args s = None"
    using assms(1,2) by (auto simp: cu_at_def cur_ok_def)
  show ?thesis
  proof (cases "cu_ch s = c_slash")
    case True
    then show ?thesis using at assms(3)
      by (auto simp: next_seg_def close_seg_def cu_sw_usual_def cu_emit_fetch cu_at_def cur_ok_def seg_ok_def ext_ok_def join_simps Let_def
          intro!: cu_movedI)
  next
    case False
    have "cur @ [cu_ch s] \<noteq> dot" "cur @ [cu_ch s] \<noteq> dot_dot" using at(4,5) by (auto simp: dot_def dot_dot_def append_eq_Cons_conv)
    then show ?thesis using False at assms
      by (auto simp: next_seg_def cu_sw_usual_def cu_emit_fetch cu_at_def cur_ok_def ext_ok_def join_simps Let_def
          split: option.splits intro!: cu_movedI)
  qed
qed

lemma path_char_slash:
  assumes "cu_at m st cur s" and "cu_state s = CU_slash" and "length (cu_u s) < cap"
    and "cu_ch s \<noteq> c_percent" "cu_ch s \<noteq> c_quest" "cu_ch s \<noteq> c_hash"
  shows "case next_seg m st cur (cu_ch s) of None \<Rightarrow> False
     | Some (st', cur') \<Rightarrow> cu_moved m buf s (cu_sw_slash m buf cap s) st' cur'"
proof -
  have at: "cu_u s = join (rev st @ [[]])" "cur = []" "list_all (seg_ok m) st" "cu_ext s = None" "cu_args s = None"
    using assms(1,2) by (auto simp: cu_at_def cur_ok_def ext_ok_def split: option.splits)
  then show ?thesis using assms
    by (auto simp: next_seg_def close_seg_def cu_sw_slash_def cu_emit_fetch cu_at_def cur_ok_def ext_ok_def join_simps seg_ok_def dot_def dot_dot_def Let_def
        intro!: cu_movedI)
qed

lemma path_char_dot:
  assumes "cu_at m st cur s" and "cu_state s = CU_dot" and "length (cu_u s) < cap"
    and "cu_ch s \<noteq> c_percent" "cu_ch s \<noteq> c_quest" "cu_ch s \<noteq> c_hash"
  shows "case next_seg m st cur (cu_ch s) of None \<Rightarrow> False
     | Some (st', cur') \<Rightarrow> cu_moved m buf s (cu_sw_dot buf cap s) st' cur'"
proof -
  have at: "cu_u s = join (rev st @ [dot])" "cur = dot" "list_all (seg_ok m) st" "cu_ext s = None" "cu_args s = None"
    using assms(1,2) by (auto simp: cu_at_def cur_ok_def ext_ok_def split: option.splits)
  have "butlast (join (rev st @ [dot])) = join (rev st @ [[]])" "join (rev st @ [dot]) \<noteq> []"
    by (simp_all add: join_simps dot_def butlast_append)
  then show ?thesis using at assms
    by (auto simp: next_seg_def close_seg_def cu_sw_dot_def cu_emit_fetch cu_at_def cur_ok_def ext_ok_def join_simps dot_def dot_dot_def Let_def
        intro!: cu_movedI)
qed

lemma path_char_dot_dot:
  assumes "cu_at m st cur s" and "cu_state s = CU_dot_dot" and "length (cu_u s) < cap"
    and "cu_ch s \<noteq> c_percent" "cu_ch s \<noteq> c_quest" "cu_ch s \<noteq> c_hash"
  shows "case next_seg m st cur (cu_ch s) of None \<Rightarrow> cu_sw_dot_dot buf cap s = CU_return NGX_HTTP_PARSE_INVALID_REQUEST
     | Some (st', cur') \<Rightarrow> cu_moved m buf s (cu_sw_dot_dot buf cap s) st' cur'"
proof -
  have at: "cu_u s = join (rev st @ [dot_dot])" "cur = dot_dot" "list_all (seg_ok m) st" "cu_ext s = None" "cu_args s = None"
    using assms(1,2) by (auto simp: cu_at_def cur_ok_def ext_ok_def split: option.splits)
  show ?thesis
  proof (cases "cu_ch s = c_slash")
    case True
    note b = cu_back_dot_dot [OF at(3)]
    show ?thesis
    proof (cases "pop st")
      case None
      then show ?thesis using True at b(1)
        by (auto simp: next_seg_def close_seg_def cu_sw_dot_dot_def dot_def dot_dot_def Let_def split: if_splits)
    next
      case (Some st')
      have "\<not> length (cu_u s) < 5" "cu_back (cu_u s) (length (cu_u s) - 4) = Some (length (join (rev st' @ [[]])))"
        using b(1) Some at(1) by (auto split: if_splits)
      moreover have "next_seg m st cur (cu_ch s) = Some (st', [])" using True at(2) Some by (simp add: next_seg_def close_seg_def dot_def dot_dot_def)
      moreover have "length (join (rev st' @ [[]])) \<le> length (cu_u s)" using b(2) [OF Some] at(1) by (metis length_take min.cobounded1)
      ultimately show ?thesis using True at b(2) [OF Some] pop_ok [OF at(3) Some]
        by (auto simp: cu_sw_dot_dot_def cu_at_def cur_ok_def ext_ok_def Let_def intro!: cu_movedI)
    qed
  next
    case False
    then show ?thesis using at assms
      by (auto simp: next_seg_def cu_sw_dot_dot_def cu_emit_fetch cu_at_def cur_ok_def ext_ok_def join_simps dot_def dot_dot_def Let_def
          intro!: cu_movedI)
  qed
qed

lemma path_char:
  assumes "cu_at m st cur s" and "path_state (cu_state s)" and "length (cu_u s) < cap"
    and "cu_ch s \<noteq> c_percent" "cu_ch s \<noteq> c_quest" "cu_ch s \<noteq> c_hash"
  shows "case next_seg m st cur (cu_ch s) of None \<Rightarrow> cu_step m buf cap s = CU_return NGX_HTTP_PARSE_INVALID_REQUEST
     | Some (st', cur') \<Rightarrow> cu_moved m buf s (cu_step m buf cap s) st' cur'"
  using assms(2) path_char_usual [OF assms(1) _ assms(3-6), of buf] path_char_slash [OF assms(1) _ assms(3-6), of buf]
    path_char_dot [OF assms(1) _ assms(3-6), of buf] path_char_dot_dot [OF assms(1) _ assms(3-6), of buf]
  by (auto simp: path_state_def cu_step_def split: option.splits)

section \<open>Escapes\<close>

lemma hex_pair_digit:
  assumes "hex_digit a" "is_digit b"
  shows "hex_value a * 16 + hex_value b \<noteq> c_quest"
proof
  assume eq: "hex_value a * 16 + hex_value b = c_quest"
  have "hex_digit b" using assms(2) by (simp add: hex_digit_def)
  with hex_pair [OF assms(1) this] have "unat (hex_value a) * 16 + unat (hex_value b) = 63" by (simp add: eq)
  with hex_value_bound(1) [OF assms(2)] show False by presburger
qed

lemma hex_pair_letter:
  assumes "hex_digit a" "\<not> is_digit b" "hex_digit b"
  shows "hex_value a * 16 + hex_value b \<notin> {c_percent, c_hash, c_NUL}"
proof
  assume "hex_value a * 16 + hex_value b \<in> {c_percent, c_hash, c_NUL}"
  then have "unat (hex_value a) * 16 + unat (hex_value b) \<in> {37, 35, 0}" using hex_pair [OF assms(1,3)] by auto
  with hex_value_bound(2) [OF assms(2,3)] show False by auto presburger+
qed

lemma cu_sw_quoted_eq:
  "cu_sw_quoted buf s =
    (if hex_digit (cu_ch s) then cu_fetch buf (s\<lparr>cu_quoted := True, cu_decoded := hex_value (cu_ch s), cu_state := CU_quoted_second\<rparr>)
     else CU_return NGX_HTTP_PARSE_INVALID_REQUEST)"
  by (auto simp: cu_sw_quoted_def hex_digit_def hex_value_def Let_def)

lemma cu_sw_quoted_second_eq:
  assumes "cu_decoded s = hex_value a" and "hex_digit a"
  defines "v \<equiv> hex_value a * 16 + hex_value (cu_ch s)"
  shows "cu_sw_quoted_second buf cap s =
    (if \<not> hex_digit (cu_ch s) \<or> v = 0 then CU_return NGX_HTTP_PARSE_INVALID_REQUEST
     else if v = c_percent \<or> v = c_hash \<or> v = c_quest then cu_emit buf cap CU_usual v s
     else CU_go (s\<lparr>cu_ch := v, cu_plus := (cu_plus s \<or> \<not> is_digit (cu_ch s) \<and> v = c_plus), cu_state := cu_quoted_state s\<rparr>))"
proof -
  let ?b = "cu_ch s"
  have pb: "push_bit 4 (hex_value a) = hex_value a * 16" by (simp add: push_bit_eq_mult)
  show ?thesis
  proof (cases "is_digit ?b")
    case True
    then have h: "hex_digit ?b" "hex_value ?b = ?b - 48" by (simp_all add: hex_digit_def hex_value_def)
    have v: "hex_value a * 16 + ?b - 48 = v" by (simp add: v_def h)
    have "v \<noteq> c_quest" unfolding v_def by (rule hex_pair_digit [OF assms(2) True])
    then show ?thesis using True h by (simp add: cu_sw_quoted_second_def assms(1) pb v Let_def)
  next
    case False
    show ?thesis
    proof (cases "hex_digit ?b")
      case True
      with False have h: "is_hex_lower (lower ?b)" "hex_value ?b = lower ?b - 87" by (simp_all add: hex_digit_def hex_value_def)
      have v: "hex_value a * 16 + lower ?b - 97 + 10 = v" by (simp add: v_def h)
      have "v \<notin> {c_percent, c_hash, c_NUL}" unfolding v_def by (rule hex_pair_letter [OF assms(2) False True])
      then show ?thesis using True False h by (simp add: cu_sw_quoted_second_def assms(1) pb v Let_def)
    next
      case n: False
      then show ?thesis using False by (simp add: cu_sw_quoted_second_def hex_digit_def Let_def)
    qed
  qed
qed

section \<open>The loop\<close>

definition cu_rest :: "bytes \<Rightarrow> nat \<Rightarrow> complex_uri \<Rightarrow> bytes" where
  "cu_rest buf uri_end s = (if cu_p s \<le> uri_end then cu_ch s # cut buf (cu_p s) uri_end else [])"

definition raw_path :: "bytes \<Rightarrow> bytes" where
  "raw_path = takeWhile (\<lambda>c. c \<noteq> c_quest \<and> c \<noteq> c_hash)"

definition no_stop :: "bytes \<Rightarrow> nat \<Rightarrow> nat \<Rightarrow> bool" where
  "no_stop buf u0 p \<longleftrightarrow> c_quest \<notin> set (cut buf u0 p) \<and> c_hash \<notin> set (cut buf u0 p)"

text \<open>The character at hand is the last byte read, and none before it ended the path.\<close>

definition cu_raw :: "bytes \<Rightarrow> nat \<Rightarrow> complex_uri \<Rightarrow> bool" where
  "cu_raw buf u0 s \<longleftrightarrow> u0 < cu_p s \<and> cu_ch s = buf ! (cu_p s - 1) \<and> no_stop buf u0 (cu_p s - 1)"

definition cu_result :: "bytes \<Rightarrow> nat \<Rightarrow> nat \<Rightarrow> bytes option \<Rightarrow> cu_out \<Rightarrow> bool" where
  "cu_result buf u0 uri_end e out \<longleftrightarrow>
    (case e of
       None \<Rightarrow> out = CU_return NGX_HTTP_PARSE_INVALID_REQUEST
     | Some u \<Rightarrow>
         (\<exists>s. cu_u s = u \<and> (case cu_ext s of None \<Rightarrow> True | Some x \<Rightarrow> x \<le> length u) \<and>
            (out = CU_goto_done s \<and> cu_args s = None \<and>
               (no_stop buf u0 uri_end \<or> (\<exists>q. u0 \<le> q \<and> q < uri_end \<and> no_stop buf u0 q \<and> buf ! q = c_hash)) \<or>
             out = CU_goto_args s \<and> cu_args s = Some (cu_p s) \<and>
               u0 < cu_p s \<and> cu_p s \<le> uri_end \<and> no_stop buf u0 (cu_p s - 1) \<and> buf ! (cu_p s - 1) = c_quest)))"

lemma no_stop_Suc: "u0 \<le> p \<Longrightarrow> p < length buf \<Longrightarrow> no_stop buf u0 (Suc p) \<longleftrightarrow> no_stop buf u0 p \<and> buf ! p \<noteq> c_quest \<and> buf ! p \<noteq> c_hash"
  by (auto simp: no_stop_def cut_snoc)

lemma no_stop_raw:
  "u0 < p \<Longrightarrow> p \<le> length buf \<Longrightarrow> no_stop buf u0 (p - 1) \<Longrightarrow> buf ! (p - 1) \<noteq> c_quest \<Longrightarrow> buf ! (p - 1) \<noteq> c_hash \<Longrightarrow> no_stop buf u0 p"
  using no_stop_Suc [of u0 "p - 1" buf] by simp

lemma cu_loop_go:
  "cu_p s \<le> uri_end \<Longrightarrow> cu_step m buf cap s = CU_go s' \<Longrightarrow> cu_loop m buf cap uri_end s = cu_loop m buf cap uri_end s'"
  by (subst cu_loop.simps) simp

lemma cu_loop_out:
  "uri_end < cu_p s \<Longrightarrow> cu_loop m buf cap uri_end s = Some (CU_goto_done s)"
  by (subst cu_loop.simps) simp

lemma cu_loop_return:
  "cu_p s \<le> uri_end \<Longrightarrow> cu_step m buf cap s = CU_return rc \<Longrightarrow> cu_loop m buf cap uri_end s = Some (CU_return rc)"
  by (subst cu_loop.simps) simp

lemma cu_fetch_go: "cu_p s < length buf \<Longrightarrow> cu_fetch buf s = CU_go (s\<lparr>cu_ch := buf ! cu_p s, cu_p := cu_p s + 1\<rparr>)"
  by (simp add: cu_fetch_def)

lemma cu_rest_fetched:
  "cu_p s \<le> uri_end \<Longrightarrow> uri_end < length buf \<Longrightarrow>
     cu_rest buf uri_end (s\<lparr>cu_ch := buf ! cu_p s, cu_p := cu_p s + 1\<rparr>) = cut buf (cu_p s) uri_end"
  by (auto simp: cu_rest_def cut_Cons)

lemma cu_step_percent:
  "path_state (cu_state s) \<Longrightarrow> cu_ch s = c_percent \<Longrightarrow>
     cu_step m buf cap s = cu_fetch buf (s\<lparr>cu_quoted_state := cu_state s, cu_state := CU_quoted\<rparr>)"
  by (auto simp: path_state_def cu_step_def cu_sw_usual_def cu_sw_slash_def cu_sw_dot_def cu_sw_dot_dot_def Let_def)

lemma cu_step_stop:
  "path_state (cu_state s) \<Longrightarrow> cu_ch s = c_quest \<Longrightarrow> cu_step m buf cap s = CU_goto_args (s\<lparr>cu_args := Some (cu_p s)\<rparr>)"
  "path_state (cu_state s) \<Longrightarrow> cu_ch s = c_hash \<Longrightarrow> cu_step m buf cap s = CU_goto_done s"
  by (auto simp: path_state_def cu_step_def cu_sw_usual_def cu_sw_slash_def cu_sw_dot_def cu_sw_dot_dot_def Let_def)

definition cu_goal :: "bool \<Rightarrow> bytes \<Rightarrow> nat \<Rightarrow> nat \<Rightarrow> nat \<Rightarrow> bytes option \<Rightarrow> complex_uri \<Rightarrow> bool" where
  "cu_goal m buf cap uri_end u0 e s \<longleftrightarrow> (\<exists>out. cu_loop m buf cap uri_end s = Some out \<and> cu_result buf u0 uri_end e out)"

text \<open>The invariant of the loop between two characters of the path.\<close>

definition cu_inv :: "bool \<Rightarrow> bytes \<Rightarrow> nat \<Rightarrow> nat \<Rightarrow> nat \<Rightarrow> bytes list \<Rightarrow> bytes \<Rightarrow> complex_uri \<Rightarrow> bool" where
  "cu_inv m buf cap uri_end u0 st cur s \<longleftrightarrow>
     cu_at m st cur s \<and> cu_raw buf u0 s \<and> length (cu_u s) + length (raw_path (cu_rest buf uri_end s)) \<le> cap"

lemma cu_at_path: "cu_at m st cur s \<Longrightarrow> path_state (cu_state s)"
  by (auto simp: cu_at_def cur_ok_def path_state_def split: cu_state.splits)

lemma cu_at_fields: "cu_at m st cur (s\<lparr>cu_ch := c, cu_p := p\<rparr>) = cu_at m st cur s"
  by (simp add: cu_at_def ext_ok_def split: option.splits)

lemma cu_goal_go: "cu_p s \<le> uri_end \<Longrightarrow> cu_step m buf cap s = CU_go s' \<Longrightarrow> cu_goal m buf cap uri_end u0 e s' \<Longrightarrow> cu_goal m buf cap uri_end u0 e s"
  by (simp add: cu_goal_def cu_loop_go)

text \<open>A character, raw or decoded, that neither ends the path nor begins an escape.\<close>

lemma cu_char:
  assumes IH: "\<And>s' st' cur'. cu_p s' = Suc (cu_p s) \<Longrightarrow> cu_inv m buf cap uri_end u0 st' cur' s' \<Longrightarrow>
      cu_goal m buf cap uri_end u0 (rest_uri m st' cur' (cu_rest buf uri_end s')) s'"
    and at: "cu_at m st cur s" and p: "cu_p s \<le> uri_end" "uri_end < length buf" "u0 < cu_p s" "no_stop buf u0 (cu_p s)"
    and cap: "length (cu_u s) + Suc (length (raw_path (cut buf (cu_p s) uri_end))) \<le> cap"
    and ch: "cu_ch s \<noteq> c_percent" "cu_ch s \<noteq> c_quest" "cu_ch s \<noteq> c_hash"
  shows "cu_goal m buf cap uri_end u0 (after_char m st cur (cu_ch s) (cut buf (cu_p s) uri_end)) s"
proof (cases "next_seg m st cur (cu_ch s)")
  case None
  have "cu_step m buf cap s = CU_return NGX_HTTP_PARSE_INVALID_REQUEST"
    using path_char [OF at cu_at_path [OF at] _ ch, of cap buf] cap None by simp
  then show ?thesis using None p by (simp add: cu_goal_def cu_loop_return cu_result_def after_char_next)
next
  case (Some n)
  obtain st' cur' where n: "n = (st', cur')" by (cases n)
  have "cu_moved m buf s (cu_step m buf cap s) st' cur'"
    using path_char [OF at cu_at_path [OF at] _ ch, of cap buf] cap Some n by simp
  then obtain s' where s': "cu_step m buf cap s = cu_fetch buf s'" "cu_at m st' cur' s'" "cu_p s' = cu_p s"
      "length (cu_u s') \<le> Suc (length (cu_u s))"
    by (auto simp: cu_moved_def)
  let ?t = "s'\<lparr>cu_ch := buf ! cu_p s', cu_p := cu_p s' + 1\<rparr>"
  have rest: "cu_rest buf uri_end ?t = cut buf (cu_p s) uri_end" using cu_rest_fetched [of s' uri_end buf] p s'(3) by simp
  have "cu_inv m buf cap uri_end u0 st' cur' ?t"
    unfolding cu_inv_def rest cu_at_fields using s' p cap by (simp add: cu_raw_def)
  from IH [OF _ this] have "cu_goal m buf cap uri_end u0 (rest_uri m st' cur' (cut buf (cu_p s) uri_end)) ?t"
    using s'(3) rest by simp
  moreover have "cu_step m buf cap s = CU_go ?t" using s' p by (simp add: cu_fetch_go)
  ultimately show ?thesis using cu_goal_go [OF p(1)] Some n by (simp add: after_char_next)
qed

text \<open>An escape, from the percent sign on.\<close>

lemma cu_stop_short:
  "cu_at m st cur s \<Longrightarrow> cu_u s' = cu_u s \<Longrightarrow> cu_ext s' = cu_ext s \<Longrightarrow> cu_args s' = None \<Longrightarrow> uri_end < cu_p s' \<Longrightarrow> no_stop buf u0 uri_end \<Longrightarrow>
     cu_goal m buf cap uri_end u0 (Some (join (rev st @ [cur]))) s'"
  by (auto simp: cu_goal_def cu_loop_out cu_result_def cu_at_def ext_ok_def split: option.splits)

lemma cu_escape:
  assumes IH: "\<And>s' st' cur'. cu_p s < cu_p s' \<Longrightarrow> cu_inv m buf cap uri_end u0 st' cur' s' \<Longrightarrow>
      cu_goal m buf cap uri_end u0 (rest_uri m st' cur' (cu_rest buf uri_end s')) s'"
    and inv: "cu_inv m buf cap uri_end u0 st cur s" and p: "cu_p s \<le> uri_end" "uri_end < length buf"
    and ch: "cu_ch s = c_percent"
  shows "cu_goal m buf cap uri_end u0 (rest_uri m st cur (cu_rest buf uri_end s)) s"
proof -
  have at: "cu_at m st cur s" and u0: "u0 < cu_p s" using inv by (auto simp: cu_inv_def cu_raw_def)
  have ns0: "no_stop buf u0 (cu_p s)" using inv p ch by (auto simp: cu_inv_def cu_raw_def intro: no_stop_raw)
  define s1 where "s1 = s\<lparr>cu_quoted_state := cu_state s, cu_state := CU_quoted, cu_ch := buf ! cu_p s, cu_p := Suc (cu_p s)\<rparr>"
  have step1: "cu_step m buf cap s = CU_go s1"
    using cu_step_percent [OF cu_at_path [OF at] ch] p by (simp add: cu_fetch_def s1_def)
  have args: "cu_args s = None" using at by (simp add: cu_at_def)
  show ?thesis
  proof (rule cu_goal_go [OF p(1) step1], cases "Suc (cu_p s) \<le> uri_end")
    case False
    then have "cu_rest buf uri_end s = [c_percent]" using p ch by (simp add: cu_rest_def)
    then show "cu_goal m buf cap uri_end u0 (rest_uri m st cur (cu_rest buf uri_end s)) s1"
      using cu_stop_short [OF at, of s1] False args ns0 p by (simp add: rest_uri_percent s1_def le_antisym not_less_eq_eq)
  next
    case l1: True
    let ?a = "buf ! cu_p s"
    have r1: "cu_rest buf uri_end s = c_percent # ?a # cut buf (Suc (cu_p s)) uri_end" using p ch l1 by (simp add: cu_rest_def cut_Cons)
    have ps1: "cu_p s1 \<le> uri_end" "cu_step m buf cap s1 = cu_sw_quoted buf s1" "cu_ch s1 = ?a" using l1 by (simp_all add: s1_def cu_step_def)
    show "cu_goal m buf cap uri_end u0 (rest_uri m st cur (cu_rest buf uri_end s)) s1"
    proof (cases "hex_digit ?a")
      case False
      then have "rest_uri m st cur (cu_rest buf uri_end s) = None"
        unfolding r1 by (cases "cut buf (Suc (cu_p s)) uri_end") (simp_all add: rest_uri_percent)
      then show ?thesis using False ps1 by (simp add: cu_goal_def cu_loop_return cu_sw_quoted_eq cu_result_def)
    next
      case ha: True
      have hexstop: "hex_digit c \<Longrightarrow> c \<noteq> c_quest \<and> c \<noteq> c_hash" for c
        by (auto simp: hex_digit_def is_digit_def is_hex_lower_def lower_def)
      have ns1: "no_stop buf u0 (Suc (cu_p s))" using ns0 u0 p hexstop [OF ha] by (simp add: no_stop_Suc)
      define s2 where "s2 = s1\<lparr>cu_quoted := True, cu_decoded := hex_value ?a, cu_state := CU_quoted_second,
          cu_ch := buf ! Suc (cu_p s), cu_p := Suc (Suc (cu_p s))\<rparr>"
      have "cu_p s1 < length buf" using ps1 p by simp
      then have step2: "cu_step m buf cap s1 = CU_go s2" using ha by (simp add: ps1(2,3) cu_sw_quoted_eq cu_fetch_def) (simp add: s2_def s1_def)
      show ?thesis
      proof (rule cu_goal_go [OF ps1(1) step2], cases "Suc (Suc (cu_p s)) \<le> uri_end")
        case False
        then have e: "uri_end = Suc (cu_p s)" using l1 by simp
        have "cu_rest buf uri_end s = [c_percent, ?a]" unfolding r1 by (simp add: e)
        then show "cu_goal m buf cap uri_end u0 (rest_uri m st cur (cu_rest buf uri_end s)) s2"
          using cu_stop_short [OF at, of s2 uri_end] args ha ns1 by (simp add: rest_uri_percent s2_def s1_def e)
      next
        case l2: True
        let ?b = "buf ! Suc (cu_p s)"
        let ?v = "hex_value ?a * 16 + hex_value ?b"
        have r2: "cu_rest buf uri_end s = c_percent # ?a # ?b # cut buf (cu_p s2) uri_end" using r1 l2 p by (simp add: cut_Cons s2_def)
        have ps2: "cu_p s2 \<le> uri_end" "cu_step m buf cap s2 = cu_sw_quoted_second buf cap s2" "cu_ch s2 = ?b"
          "cu_decoded s2 = hex_value ?a" "cu_quoted_state s2 = cu_state s"
          using l2 by (simp_all add: s2_def s1_def cu_step_def)
        have eq: "cu_step m buf cap s2 = (if \<not> hex_digit ?b \<or> ?v = 0 then CU_return NGX_HTTP_PARSE_INVALID_REQUEST
             else if ?v = c_percent \<or> ?v = c_hash \<or> ?v = c_quest then cu_emit buf cap CU_usual ?v s2
             else CU_go (s2\<lparr>cu_ch := ?v, cu_plus := (cu_plus s2 \<or> \<not> is_digit ?b \<and> ?v = c_plus), cu_state := cu_state s\<rparr>))"
          using cu_sw_quoted_second_eq [OF ps2(4) ha, of buf cap] ps2 by simp
        have at2: "cu_at m st cur (s2\<lparr>cu_ch := c, cu_plus := b, cu_state := cu_state s\<rparr>)" for c b
          using at by (auto simp add: s2_def s1_def cu_at_def ext_ok_def split: option.splits)
        show "cu_goal m buf cap uri_end u0 (rest_uri m st cur (cu_rest buf uri_end s)) s2"
        proof (cases "hex_digit ?b \<and> ?v \<noteq> 0")
          case False
          then show ?thesis using eq ps2(1) ha by (auto simp: cu_goal_def cu_loop_return cu_result_def r2 rest_uri_percent)
        next
          case hb: True
          then have ref: "rest_uri m st cur (cu_rest buf uri_end s) = after_char m st cur ?v (cut buf (cu_p s2) uri_end)"
            using ha by (simp add: r2 rest_uri_percent)
          have len: "length (cu_u s) + 3 + length (raw_path (cut buf (cu_p s2) uri_end)) \<le> cap"
            using inv hexstop [OF ha] hb hexstop [of ?b] by (simp add: cu_inv_def r2 raw_path_def)
          have u2: "cu_u s2 = cu_u s" "u0 < cu_p s2" "cu_p s < cu_p s2" "cu_ext s2 = cu_ext s" "cu_args s2 = cu_args s"
            using u0 by (simp_all add: s2_def s1_def)
          have ns2: "no_stop buf u0 (cu_p s2)" using ns1 u0 p l2 hb hexstop [of ?b] by (simp add: s2_def no_stop_Suc)
          show ?thesis
          proof (cases "?v = c_percent \<or> ?v = c_hash \<or> ?v = c_quest")
            case False
            let ?t = "s2\<lparr>cu_ch := ?v, cu_plus := (cu_plus s2 \<or> \<not> is_digit ?b \<and> ?v = c_plus), cu_state := cu_state s\<rparr>"
            have st: "cu_step m buf cap s2 = CU_go ?t" using eq hb False by simp
            have "cu_goal m buf cap uri_end u0 (after_char m st cur (cu_ch ?t) (cut buf (cu_p ?t) uri_end)) ?t"
            proof (rule cu_char)
              show "cu_goal m buf cap uri_end u0 (rest_uri m st' cur' (cu_rest buf uri_end s')) s'"
                if "cu_p s' = Suc (cu_p ?t)" "cu_inv m buf cap uri_end u0 st' cur' s'" for s' st' cur'
                using IH that u2(3) by simp
              show "cu_at m st cur ?t" by (rule at2)
            qed (use ps2 p(2) u2 len ns2 False in simp_all)
            then show ?thesis using cu_goal_go [OF ps2(1) st] ref by simp
          next
            case True
            then have nv: "?v \<noteq> c_slash" by auto
            have sl: "cu_at m st (cur @ [?v]) (s2\<lparr>cu_state := CU_usual, cu_u := cu_u s2 @ [?v]\<rparr>)"
              using at True by (auto simp: u2 cu_at_def cur_ok_def ext_ok_def join_simps dot_def dot_dot_def append_eq_Cons_conv
                  split: cu_state.splits option.splits)
            let ?t = "s2\<lparr>cu_state := CU_usual, cu_u := cu_u s2 @ [?v], cu_ch := buf ! cu_p s2, cu_p := cu_p s2 + 1\<rparr>"
            have st: "cu_step m buf cap s2 = CU_go ?t" using eq hb True len u2 ps2(1) p(2) by (simp add: cu_emit_def cu_fetch_def)
            have rest: "cu_rest buf uri_end ?t = cut buf (cu_p s2) uri_end"
              using ps2(1) p(2) by (auto simp: cu_rest_def cut_Cons)
            have "cu_inv m buf cap uri_end u0 st (cur @ [?v]) ?t"
              unfolding cu_inv_def rest cu_at_fields using sl len u2 ns2 by (simp add: cu_raw_def)
            from IH [OF _ this] have "cu_goal m buf cap uri_end u0 (rest_uri m st (cur @ [?v]) (cut buf (cu_p s2) uri_end)) ?t"
              using rest u2(3) by simp
            then show ?thesis using cu_goal_go [OF ps2(1) st] ref nv by (simp add: after_char_def)
          qed
        qed
      qed
    qed
  qed
qed

lemma cu_main:
  assumes "uri_end < length buf"
  shows "cu_inv m buf cap uri_end u0 st cur s \<Longrightarrow> cu_goal m buf cap uri_end u0 (rest_uri m st cur (cu_rest buf uri_end s)) s"
proof (induction "uri_end + 1 - cu_p s" arbitrary: s st cur rule: less_induct)
  case less
  have at: "cu_at m st cur s" and raw: "cu_raw buf u0 s" using less.prems by (auto simp: cu_inv_def)
  show ?case
  proof (cases "cu_p s \<le> uri_end")
    case False
    then have "uri_end \<le> cu_p s - 1" by simp
    from set_take_subset_set_take [OF diff_le_mono [OF this, of u0], of "drop u0 buf"] have "no_stop buf u0 uri_end" using raw
      by (auto simp: cu_raw_def no_stop_def cut_def)
    then show ?thesis using cu_stop_short [OF at, of s] at False by (simp add: cu_rest_def rest_uri_Nil cu_at_def)
  next
    case p: True
    have IH: "cu_goal m buf cap uri_end u0 (rest_uri m st' cur' (cu_rest buf uri_end s')) s'"
      if "cu_p s < cu_p s'" "cu_inv m buf cap uri_end u0 st' cur' s'" for s' st' cur'
      using less.hyps [OF _ that(2)] that(1) p by simp
    have r: "cu_rest buf uri_end s = cu_ch s # cut buf (cu_p s) uri_end" using p by (simp add: cu_rest_def)
    have ext: "case cu_ext s of None \<Rightarrow> True | Some x \<Rightarrow> x \<le> length (cu_u s)"
      using at by (auto simp add: cu_at_def ext_ok_def split: option.splits)
    consider "cu_ch s = c_percent" | "cu_ch s = c_quest" | "cu_ch s = c_hash"
      | "cu_ch s \<noteq> c_percent" "cu_ch s \<noteq> c_quest" "cu_ch s \<noteq> c_hash" by blast
    then show ?thesis
    proof cases
      case 1
      then show ?thesis using cu_escape [OF IH less.prems p assms] by blast
    next
      case 2
      have "cu_loop m buf cap uri_end s = Some (CU_goto_args (s\<lparr>cu_args := Some (cu_p s)\<rparr>))"
        using cu_step_stop(1) [OF cu_at_path [OF at] 2] p by (subst cu_loop.simps) simp
      then show ?thesis using at raw 2 p ext by (auto simp add: cu_goal_def r rest_uri_stop cu_result_def cu_raw_def cu_at_def split: option.splits)
    next
      case 3
      have "cu_loop m buf cap uri_end s = Some (CU_goto_done s)"
        using cu_step_stop(2) [OF cu_at_path [OF at] 3] p by (subst cu_loop.simps) simp
      then show ?thesis using at 3 p raw ext by (auto simp: cu_goal_def r rest_uri_stop cu_result_def cu_at_def cu_raw_def split: option.splits intro!: exI [of _ "cu_p s - 1"])
    next
      case 4
      have "cu_goal m buf cap uri_end u0 (after_char m st cur (cu_ch s) (cut buf (cu_p s) uri_end)) s"
        using 4 at p assms raw less.prems by (intro cu_char IH) (auto simp: cu_raw_def cu_inv_def r raw_path_def intro: no_stop_raw)
      then show ?thesis using 4 by (simp add: r rest_uri_char)
    qed
  qed
qed

section \<open>The arguments\<close>

definition raw_args :: "bytes \<Rightarrow> bytes option" where
  "raw_args uri =
    (case drop (length (raw_path uri)) uri of
       [] \<Rightarrow> None
     | c # cs \<Rightarrow> if c = c_quest then Some (takeWhile (\<lambda>c. c \<noteq> c_hash) cs) else None)"

text \<open>The arguments the caller takes from the result: \<open>r->args\<close>, or all bytes from \<open>r->args_start\<close> on.\<close>

definition complex_args :: "bytes \<Rightarrow> nat \<Rightarrow> uri_parts \<Rightarrow> bytes option" where
  "complex_args buf uri_end r = (case up_args_start r of Some a \<Rightarrow> Some (cut buf a uri_end) | None \<Rightarrow> up_args r)"

lemma cut_split_at:
  "i \<le> q \<Longrightarrow> q < j \<Longrightarrow> j \<le> length buf \<Longrightarrow> cut buf i j = cut buf i q @ buf ! q # cut buf (Suc q) j"
  using cut_append [of i q j buf] cut_Cons [of q j buf] by simp

lemma raw_path_no_stop: "no_stop buf i q \<Longrightarrow> raw_path (cut buf i q) = cut buf i q"
  by (auto simp: raw_path_def no_stop_def takeWhile_eq_all_conv)

lemma raw_path_append: "no_stop buf i q \<Longrightarrow> raw_path (cut buf i q @ xs) = cut buf i q @ raw_path xs"
  by (auto simp: raw_path_def no_stop_def intro!: takeWhile_append2)

lemma raw_args_none: "no_stop buf i j \<Longrightarrow> raw_args (cut buf i j) = None"
  by (simp add: raw_args_def raw_path_no_stop)

lemma raw_args_stop:
  assumes "i \<le> q" "q < j" "j \<le> length buf" "no_stop buf i q" "buf ! q = c_quest \<or> buf ! q = c_hash"
  shows "raw_args (cut buf i j) = (if buf ! q = c_quest then Some (takeWhile (\<lambda>c. c \<noteq> c_hash) (cut buf (Suc q) j)) else None)"
proof -
  have "raw_path (buf ! q # cut buf (Suc q) j) = []" using assms(5) by (auto simp: raw_path_def)
  then show ?thesis
    using cut_split_at [OF assms(1-3)] by (simp add: raw_args_def raw_path_append [OF assms(4)])
qed

lemma cu_find_hash_range: "cu_find_hash buf p n = Some h \<Longrightarrow> p \<le> h \<and> h < p + n"
proof (induction n arbitrary: p)
  case (Suc n)
  then show ?case using Suc.IH [of "Suc p"] by (force split: if_splits)
qed simp

lemma cu_find_hash_takeWhile:
  "p + n \<le> length buf \<Longrightarrow>
     takeWhile (\<lambda>c. c \<noteq> c_hash) (cut buf p (p + n)) =
       (case cu_find_hash buf p n of None \<Rightarrow> cut buf p (p + n) | Some h \<Rightarrow> cut buf p h)"
proof (induction n arbitrary: p)
  case (Suc n)
  have c: "cut buf p (p + Suc n) = buf ! p # cut buf (Suc p) (Suc p + n)" using Suc.prems by (simp add: cut_Cons)
  show ?case
    unfolding c using Suc.IH [of "Suc p"] Suc.prems
    by (auto simp: cut_Cons split: option.splits dest: cu_find_hash_range)
qed simp

lemma cu_args_label_args:
  assumes "cu_args s = Some (cu_p s)" "cu_p s \<le> uri_end" "uri_end \<le> length buf"
  shows "complex_args buf uri_end (cu_args_label buf uri_end s) = Some (takeWhile (\<lambda>c. c \<noteq> c_hash) (cut buf (cu_p s) uri_end))"
    and "up_uri (cu_args_label buf uri_end s) = cu_u s"
  using cu_find_hash_takeWhile [of "cu_p s" "uri_end - cu_p s" buf] assms
  by (auto simp: complex_args_def cu_args_label_def cu_finish_def Let_def split: option.splits)

section \<open>The whole function\<close>

lemma complex_uri_first:
  assumes "uri_start < uri_end" "uri_end < length buf" "buf ! uri_start = c_slash" "0 < cap" "cu_u s = []"
    "cu_state s = CU_usual" "cu_ch s = c_slash" "cu_p s = Suc uri_start"
  shows "cu_step m buf cap s =
     CU_go (s\<lparr>cu_state := CU_slash, cu_u := [c_slash], cu_ext := None, cu_ch := buf ! Suc uri_start, cu_p := Suc (Suc uri_start)\<rparr>)"
  using assms by (simp add: cu_step_def cu_sw_usual_def cu_emit_def cu_fetch_def)

lemma complex_uri_spec:
  assumes se: "uri_start < uri_end" "uri_end < length buf" and slash: "buf ! uri_start = c_slash"
    and cap: "length (raw_path (cut buf uri_start uri_end)) \<le> cap"
  shows "case normal_uri merge (cut buf uri_start uri_end) of
       None \<Rightarrow> ngx_http_parse_complex_uri merge buf cap uri_start uri_end pl qu = Some (Inl NGX_HTTP_PARSE_INVALID_REQUEST)
     | Some u \<Rightarrow> \<exists>r. ngx_http_parse_complex_uri merge buf cap uri_start uri_end pl qu = Some (Inr r) \<and>
         up_uri r = u \<and> complex_args buf uri_end r = raw_args (cut buf uri_start uri_end)"
proof -
  have uri: "cut buf uri_start uri_end = c_slash # cut buf (Suc uri_start) uri_end" using se slash by (simp add: cut_Cons)
  define s0 where "s0 = \<lparr>cu_state = CU_usual, cu_quoted_state = CU_usual, cu_decoded = 0, cu_ch = buf ! uri_start,
      cu_p = uri_start + 1, cu_u = [], cu_ext = None, cu_args = None, cu_plus = pl, cu_quoted = qu\<rparr>"
  define s1 where "s1 = s0\<lparr>cu_state := CU_slash, cu_u := [c_slash], cu_ext := None, cu_ch := buf ! Suc uri_start, cu_p := Suc (Suc uri_start)\<rparr>"
  have rest: "cu_rest buf uri_end s1 = cut buf (Suc uri_start) uri_end"
    using se by (auto simp: cu_rest_def s1_def cut_Cons)
  have len: "1 + length (raw_path (cut buf (Suc uri_start) uri_end)) \<le> cap" using cap by (simp add: uri raw_path_def)
  have step: "cu_step merge buf cap s0 = CU_go s1"
    using complex_uri_first [OF se slash, of cap s0 merge] len slash by (simp add: s0_def s1_def)
  have "cu_inv merge buf cap uri_end uri_start [] [] s1"
    using len se slash by (simp add: cu_inv_def rest cu_raw_def) (simp add: s1_def s0_def cu_at_def cur_ok_def ext_ok_def join_def no_stop_def cut_Cons)
  from cu_main [OF se(2) this]
  have "cu_goal merge buf cap uri_end uri_start (rest_uri merge [] [] (cut buf (Suc uri_start) uri_end)) s1" by (simp add: rest)
  moreover have "rest_uri merge [] [] (cut buf (Suc uri_start) uri_end) = normal_uri merge (cut buf uri_start uri_end)"
    by (simp add: rest_uri_def normal_uri_def uri split: option.splits)
  moreover have "cu_p s0 \<le> uri_end" using se by (simp add: s0_def)
  ultimately have "cu_goal merge buf cap uri_end uri_start (normal_uri merge (cut buf uri_start uri_end)) s0"
    using cu_goal_go [OF _ step] by simp
  then obtain out where out: "cu_loop merge buf cap uri_end s0 = Some out"
      "cu_result buf uri_start uri_end (normal_uri merge (cut buf uri_start uri_end)) out"
    by (auto simp: cu_goal_def)
  have run: "ngx_http_parse_complex_uri merge buf cap uri_start uri_end pl qu =
      (case out of
         CU_goto_done s' \<Rightarrow> Some (Inr (cu_finish None (cu_args s') s'))
       | CU_goto_args s' \<Rightarrow> Some (Inr (cu_args_label buf uri_end s'))
       | CU_return rc \<Rightarrow> Some (Inl rc)
       | CU_go s' \<Rightarrow> None
       | CU_fault \<Rightarrow> None)"
    using out(1) se unfolding ngx_http_parse_complex_uri_def s0_def by (cases out) (simp_all add: Let_def)
  show ?thesis
  proof (cases "normal_uri merge (cut buf uri_start uri_end)")
    case None
    then show ?thesis using out(2) run by (simp add: cu_result_def)
  next
    case (Some u)
    then obtain s where s: "cu_u s = u" and alt:
        "out = CU_goto_done s \<and> cu_args s = None \<and>
           (no_stop buf uri_start uri_end \<or> (\<exists>q. uri_start \<le> q \<and> q < uri_end \<and> no_stop buf uri_start q \<and> buf ! q = c_hash)) \<or>
         out = CU_goto_args s \<and> cu_args s = Some (cu_p s) \<and> uri_start < cu_p s \<and> cu_p s \<le> uri_end \<and>
           no_stop buf uri_start (cu_p s - 1) \<and> buf ! (cu_p s - 1) = c_quest"
      using out(2) by (auto simp: cu_result_def)
    from alt show ?thesis
    proof (elim disjE conjE exE)
      assume "out = CU_goto_done s" "cu_args s = None" "no_stop buf uri_start uri_end"
      then show ?thesis using Some s run by (simp add: cu_finish_def complex_args_def raw_args_none)
    next
      fix q assume "out = CU_goto_done s" "cu_args s = None" "uri_start \<le> q" "q < uri_end" "no_stop buf uri_start q" "buf ! q = c_hash"
      then show ?thesis using Some s run se raw_args_stop [of uri_start q uri_end buf] by (simp add: cu_finish_def complex_args_def)
    next
      assume a: "out = CU_goto_args s" "cu_args s = Some (cu_p s)" "uri_start < cu_p s" "cu_p s \<le> uri_end"
        "no_stop buf uri_start (cu_p s - 1)" "buf ! (cu_p s - 1) = c_quest"
      then have "raw_args (cut buf uri_start uri_end) = Some (takeWhile (\<lambda>c. c \<noteq> c_hash) (cut buf (cu_p s) uri_end))"
        using raw_args_stop [of uri_start "cu_p s - 1" uri_end buf] se by simp
      then show ?thesis using Some s run a se cu_args_label_args [of s uri_end buf] by simp
    qed
  qed
qed

section \<open>The normal form\<close>

lemma split_slash_free: "s \<in> set (split_slash xs) \<Longrightarrow> c_slash \<notin> set s"
  by (induction xs arbitrary: s rule: split_slash.induct) (fastforce split: if_splits list.splits)+

lemma split_slash_set: "s \<in> set (split_slash xs) \<Longrightarrow> set s \<subseteq> set xs"
  by (induction xs arbitrary: s rule: split_slash.induct) (fastforce split: if_splits list.splits)+

lemma split_slash_segment: "c_slash \<notin> set s \<Longrightarrow> split_slash s = [s]"
  by (induction s) auto

lemma split_slash_append: "c_slash \<notin> set s \<Longrightarrow> split_slash (s @ c_slash # xs) = s # split_slash xs"
  by (induction s) auto

lemma split_slash_join: "ss \<noteq> [] \<Longrightarrow> \<forall>s \<in> set ss. c_slash \<notin> set s \<Longrightarrow> split_slash (tl (join ss)) = ss"
proof (induction ss rule: induct_list012)
  case (3 s s' ss)
  then show ?case using split_slash_append [of s "tl (join (s' # ss))"] by (simp add: join_simps)
qed (simp_all add: join_simps split_slash_segment)

lemma close_seg_ok:
  "close_seg m st s = Some st' \<Longrightarrow> list_all (seg_ok m) st \<Longrightarrow> c_slash \<notin> set s \<Longrightarrow> list_all (seg_ok m) st'"
  by (auto simp: close_seg_def seg_ok_def dot_def dot_dot_def split: if_splits dest: pop_ok [rotated])

lemma close_seg_set: "close_seg m st s = Some st' \<Longrightarrow> set st' \<subseteq> insert s (set st)"
  by (cases st) (auto simp: close_seg_def split: if_splits list.splits)

lemma resolve_ok:
  "resolve m st ss = Some out \<Longrightarrow> ss \<noteq> [] \<Longrightarrow> list_all (seg_ok m) st \<Longrightarrow> \<forall>s \<in> set ss. c_slash \<notin> set s \<Longrightarrow>
     \<exists>segs s. out = segs @ [s] \<and> list_all (seg_ok m) segs \<and> c_slash \<notin> set s"
  by (induction m st ss rule: resolve.induct) (auto split: option.splits dest: close_seg_ok)

lemma resolve_set: "resolve m st ss = Some out \<Longrightarrow> set out \<subseteq> set st \<union> set ss"
  by (induction m st ss rule: resolve.induct) (fastforce split: option.splits dest: close_seg_set)+

lemma resolve_id:
  "list_all (seg_ok m) segs \<Longrightarrow> resolve m st (segs @ [s]) = Some (rev st @ segs @ [s])"
proof (induction segs arbitrary: st)
  case (Cons t segs)
  have "close_seg m st t = Some (t # st)" using Cons.prems by (auto simp: close_seg_def seg_ok_def)
  then have "resolve m st (t # (segs @ [s])) = resolve m (t # st) (segs @ [s])" by (cases "segs @ [s]") auto
  then show ?case using Cons by simp
qed simp

lemma decode_plain: "\<forall>c \<in> set xs. c \<notin> {c_percent, c_quest, c_hash} \<Longrightarrow> decode_path xs = Some xs"
  by (induction xs) auto

lemma decode_path_NUL: "decode_path xs = Some ys \<Longrightarrow> c_NUL \<in> set ys \<Longrightarrow> c_NUL \<in> set xs"
proof (induction "length xs" arbitrary: xs ys rule: less_induct)
  case less
  show ?case
  proof (cases xs)
    case (Cons c cs)
    have IH: "decode_path xs' = Some ys' \<Longrightarrow> c_NUL \<in> set ys' \<Longrightarrow> length xs' < Suc (length cs) \<Longrightarrow> c_NUL \<in> set xs'" for xs' ys'
      using less.hyps [of xs' ys'] Cons by simp
    from less.prems show ?thesis
      unfolding Cons by (auto split: if_splits list.splits dest: IH)
  qed (use less.prems in simp)
qed

lemma normal_uri_segments:
  assumes "normal_uri m uri = Some u"
  obtains segs s where "u = join (segs @ [s])" "list_all (seg_ok m) segs" "c_slash \<notin> set s"
proof -
  obtain path out where p: "decode_path (tl uri) = Some path" "resolve m [] (split_slash path) = Some out" "u = join out"
    using assms by (auto simp: normal_uri_def split: option.splits)
  from resolve_ok [OF p(2)] split_slash_free p(3) that show ?thesis by auto
qed

lemma normal_uri_path:
  assumes "normal_uri m uri = Some u"
  shows "\<exists>path. u = c_slash # path \<and> list_all (\<lambda>s. s \<noteq> dot \<and> s \<noteq> dot_dot \<and> (m \<longrightarrow> s \<noteq> [])) (butlast (split_slash path))"
proof -
  from normal_uri_segments [OF assms] obtain segs s where
    s: "u = join (segs @ [s])" "list_all (seg_ok m) segs" "c_slash \<notin> set s" by blast
  then obtain path where path: "u = c_slash # path" by (cases segs) (auto simp: join_simps)
  have "split_slash path = segs @ [s]"
    using split_slash_join [of "segs @ [s]"] s path [unfolded s(1)] by (auto simp: list_all_iff seg_ok_def)
  then show ?thesis using path s(2) by (auto simp: list_all_iff seg_ok_def)
qed

lemma normal_uri_NUL: "normal_uri m uri = Some u \<Longrightarrow> c_NUL \<in> set u \<Longrightarrow> c_NUL \<in> set uri"
proof -
  assume u: "normal_uri m uri = Some u" "c_NUL \<in> set u"
  obtain path out where p: "decode_path (tl uri) = Some path" "resolve m [] (split_slash path) = Some out" "u = join out"
    using u(1) by (auto simp: normal_uri_def split: option.splits)
  obtain s where "s \<in> set out" "c_NUL \<in> set s" using u(2) p(3) by (auto simp: join_def split: if_splits)
  then have "c_NUL \<in> set path" using resolve_set [OF p(2)] split_slash_set [of s path] by auto
  with decode_path_NUL [OF p(1)] show ?thesis by (cases uri) auto
qed

lemma normal_uri_id:
  assumes "list_all (seg_ok m) segs" and "c_slash \<notin> set s"
    and "\<forall>c \<in> set (join (segs @ [s])). c \<notin> {c_percent, c_quest, c_hash}"
  shows "normal_uri m (join (segs @ [s])) = Some (join (segs @ [s]))"
proof -
  have "\<forall>c \<in> set (tl (join (segs @ [s]))). c \<notin> {c_percent, c_quest, c_hash}"
    using assms(3) by (metis list.set_sel(2) tl_Nil)
  moreover have "split_slash (tl (join (segs @ [s]))) = segs @ [s]"
    using assms(1,2) by (intro split_slash_join) (auto simp: list_all_iff seg_ok_def)
  ultimately show ?thesis using resolve_id [OF assms(1), of "[]" s] by (simp add: normal_uri_def decode_plain)
qed

section \<open>Correctness\<close>

text \<open>
  Claim C12: On a URI that begins with a slash, ends inside the buffer and whose path fits the
  output array, the function never reads or writes out of bounds and always returns; it refuses
  exactly when the reference does (a bad or null escape, a double dot above the root), and
  otherwise the path is the reference's: decoded, cut at the first unquoted question mark or
  number sign, and resolved segment by segment. The arguments are the bytes after that question
  mark, up to a number sign.
\<close>
theorem complex_uri_normalises:
  assumes "uri_start < uri_end" and "uri_end < length buf" and "buf ! uri_start = c_slash"
    and "length (raw_path (cut buf uri_start uri_end)) \<le> cap"
  shows "case normal_uri merge (cut buf uri_start uri_end) of
       None \<Rightarrow> ngx_http_parse_complex_uri merge buf cap uri_start uri_end pl qu = Some (Inl NGX_HTTP_PARSE_INVALID_REQUEST)
     | Some u \<Rightarrow> \<exists>r. ngx_http_parse_complex_uri merge buf cap uri_start uri_end pl qu = Some (Inr r) \<and>
         up_uri r = u \<and> complex_args buf uri_end r = raw_args (cut buf uri_start uri_end)"
  by (rule complex_uri_spec [OF assms])

text \<open>
  Claim C33: The URI produced begins with a slash; of its segments only the last may be a dot or
  a double dot, and with slashes merged only the last may be empty, so no segment steps out of
  the directory before it. A null byte in it stood in the request as such.
\<close>
theorem complex_uri_segments:
  assumes "uri_start < uri_end" and "uri_end < length buf" and "buf ! uri_start = c_slash"
    and "length (raw_path (cut buf uri_start uri_end)) \<le> cap"
    and "ngx_http_parse_complex_uri merge buf cap uri_start uri_end pl qu = Some (Inr r)"
  shows "\<exists>path. up_uri r = c_slash # path \<and>
     list_all (\<lambda>s. s \<noteq> dot \<and> s \<noteq> dot_dot \<and> (merge \<longrightarrow> s \<noteq> [])) (butlast (split_slash path)) \<and>
     (c_NUL \<in> set path \<longrightarrow> c_NUL \<in> set (cut buf uri_start uri_end))"
proof -
  obtain u where u: "normal_uri merge (cut buf uri_start uri_end) = Some u" "up_uri r = u"
    using complex_uri_spec [OF assms(1-4), of merge pl qu] assms(5) by (auto split: option.splits)
  from normal_uri_path [OF u(1)] normal_uri_NUL [OF u(1)] show ?thesis by (auto simp: u(2))
qed

text \<open>
  Claim C40: A URI that is already in normal form, printed from segments none of which holds a
  slash or a character with a meaning and none of which but the last is a dot, a double dot or,
  when slashes are merged, empty, is read back unchanged. The last segment is arbitrary: a
  trailing dot or double dot is not resolved.
\<close>
theorem complex_uri_roundtrip:
  assumes "list_all (seg_ok merge) segs" and "c_slash \<notin> set s"
    and "\<forall>c \<in> set (join (segs @ [s])). c \<notin> {c_percent, c_quest, c_hash}"
    and "buf = before @ join (segs @ [s]) @ c_space # after" and "length (join (segs @ [s])) \<le> cap"
  shows "\<exists>r. ngx_http_parse_complex_uri merge buf cap (length before) (length before + length (join (segs @ [s]))) pl qu = Some (Inr r) \<and>
     up_uri r = join (segs @ [s]) \<and> complex_args buf (length before + length (join (segs @ [s]))) r = None"
proof -
  let ?u = "join (segs @ [s])"
  have c: "cut buf (length before) (length before + length ?u) = ?u" by (simp add: cut_def assms(4))
  have ne: "?u \<noteq> []" by (simp add: join_simps)
  have hd: "buf ! length before = c_slash" using ne by (cases segs) (simp_all add: assms(4) nth_append join_simps)
  have raw: "raw_path ?u = ?u" using assms(3) by (auto simp: raw_path_def takeWhile_eq_all_conv)
  show ?thesis
    using complex_uri_spec [of "length before" "length before + length ?u" buf cap merge pl qu]
      normal_uri_id [OF assms(1-3)] ne hd raw assms(5)
    by (simp add: c raw_args_def) (simp add: assms(4))
qed


section \<open>Examples\<close>

definition uri_example :: bytes where
  "uri_example = ascii ''/a/./b/../%63?x#y HTTP''"

lemma uri_example_normal:
  "normal_uri True (cut uri_example 0 17) = Some (ascii ''/a/c'')" "raw_args (cut uri_example 0 17) = Some (ascii ''x'')"
  by code_simp+

theorem complex_uri_normalises_witness:
  "\<exists>r. ngx_http_parse_complex_uri True uri_example 18 0 17 False False = Some (Inr r) \<and>
     up_uri r = ascii ''/a/c'' \<and> complex_args uri_example 17 r = Some (ascii ''x'')"
proof -
  show ?thesis
    using complex_uri_normalises [of 0 17 uri_example 18 True False False] uri_example_normal
    by (simp add: uri_example_def raw_path_def cut_def)
qed

theorem complex_uri_segments_witness:
  "\<exists>r path. ngx_http_parse_complex_uri True uri_example 18 0 17 False False = Some (Inr r) \<and> up_uri r = c_slash # path \<and>
     list_all (\<lambda>s. s \<noteq> dot \<and> s \<noteq> dot_dot \<and> s \<noteq> []) (butlast (split_slash path)) \<and> c_NUL \<notin> set path"
proof -
  obtain r where r: "ngx_http_parse_complex_uri True uri_example 18 0 17 False False = Some (Inr r)"
    using complex_uri_spec [of 0 17 uri_example 18 True False False] uri_example_normal
    by (auto simp: uri_example_def raw_path_def cut_def)
  have "c_NUL \<notin> set (cut uri_example 0 17)" by code_simp
  with complex_uri_segments [OF _ _ _ _ r] r show ?thesis by (fastforce simp: uri_example_def raw_path_def cut_def)
qed

theorem complex_uri_roundtrip_witness:
  "\<exists>r. ngx_http_parse_complex_uri True (join [[c_a], dot_dot] @ [c_space]) 6 0 5 False False = Some (Inr r) \<and>
     up_uri r = join [[c_a], dot_dot] \<and> complex_args (join [[c_a], dot_dot] @ [c_space]) 5 r = None"
proof -
  have "list_all (seg_ok True) [[c_a]]" "c_slash \<notin> set dot_dot" "length (join ([[c_a]] @ [dot_dot])) = 5"
    "\<forall>c \<in> set (join ([[c_a]] @ [dot_dot])). c \<notin> {c_percent, c_quest, c_hash}"
    by (simp_all add: join_def dot_dot_def dot_def seg_ok_def)
  with complex_uri_roundtrip [of True "[[c_a]]" dot_dot "join [[c_a], dot_dot] @ [c_space]" "[]" "[]" 6 False False]
  show ?thesis by simp
qed

end
