(* ===== verification/Http_Uri.thy ===== *)
theory Http_Uri
  imports Http_Request_Line Http_Complex_Uri
begin

text \<open>
The URI of a request after its line has been parsed: \<open>ngx_http_parse_uri\<close> of
  \<open>http/ngx_http_parse.c\<close>, which rescans a URI given without a request line, and
  \<open>ngx_http_process_request_uri\<close> of \<open>http/ngx_http_request.c\<close>, which sets the strings the later
  phases read and runs the complex parser when the flags ask for it. Both work on the fields of
  the request line; the configuration is the Unix one.
\<close>

section \<open>ngx_http_parse_uri\<close>

datatype pu_state = PU_start | PU_after_slash_in_uri | PU_check_uri | PU_uri

type_synonym pu_out = "(int, pu_state, request_line) outcome"

definition pu_sw_after_slash_in_uri :: "nat \<Rightarrow> u_char \<Rightarrow> request_line \<Rightarrow> pu_out" where
  "pu_sw_after_slash_in_uri p ch r =
    (if usual ch then Next PU_check_uri r
     else if ch = c_space then Next PU_check_uri (r\<lparr>space_in_uri := True\<rparr>)
     else if ch = c_dot then Next PU_uri (r\<lparr>complex_uri := True\<rparr>)
     else if ch = c_percent then Next PU_uri (r\<lparr>quoted_uri := True\<rparr>)
     else if ch = c_slash then Next PU_uri (r\<lparr>complex_uri := True\<rparr>)
     else if ch = c_quest then Next PU_uri (r\<lparr>args_start := Some (p + 1)\<rparr>)
     else if ch = c_hash then Next PU_uri (r\<lparr>complex_uri := True\<rparr>)
     else if ch = c_plus then Next PU_after_slash_in_uri (r\<lparr>plus_in_uri := True\<rparr>)
     else Next PU_check_uri r)"

definition pu_sw_check_uri :: "nat \<Rightarrow> u_char \<Rightarrow> request_line \<Rightarrow> pu_out" where
  "pu_sw_check_uri p ch r =
    (if usual ch then Next PU_check_uri r
     else if ch = c_slash then Next PU_after_slash_in_uri (r\<lparr>uri_ext := None\<rparr>)
     else if ch = c_dot then Next PU_check_uri (r\<lparr>uri_ext := Some (p + 1)\<rparr>)
     else if ch = c_space then Next PU_check_uri (r\<lparr>space_in_uri := True\<rparr>)
     else if ch = c_percent then Next PU_uri (r\<lparr>quoted_uri := True\<rparr>)
     else if ch = c_quest then Next PU_uri (r\<lparr>args_start := Some (p + 1)\<rparr>)
     else if ch = c_hash then Next PU_uri (r\<lparr>complex_uri := True\<rparr>)
     else if ch = c_plus then Next PU_check_uri (r\<lparr>plus_in_uri := True\<rparr>)
     else Next PU_check_uri r)"

definition pu_sw_uri :: "u_char \<Rightarrow> request_line \<Rightarrow> pu_out" where
  "pu_sw_uri ch r =
    (if usual ch then Next PU_uri r
     else if ch = c_space then Next PU_uri (r\<lparr>space_in_uri := True\<rparr>)
     else if ch = c_hash then Next PU_uri (r\<lparr>complex_uri := True\<rparr>)
     else Next PU_uri r)"

definition pu_step :: "(int, pu_state, request_line) body" where
  "pu_step buf p ch st r =
    (case st of
       PU_start \<Rightarrow> if ch \<noteq> c_slash then Exit NGX_ERROR PU_start r else Next PU_after_slash_in_uri r
     | PU_after_slash_in_uri \<Rightarrow> pu_sw_after_slash_in_uri p ch r
     | PU_check_uri \<Rightarrow> pu_sw_check_uri p ch r
     | PU_uri \<Rightarrow> pu_sw_uri ch r)"

text \<open>
  The loop runs while \<open>p != r->uri_end\<close>; from a \<open>uri_start\<close> above \<open>uri_end\<close>, or with either
  null, it would leave the buffer: \<open>None\<close>.
\<close>

definition ngx_http_parse_uri :: "bytes \<Rightarrow> request_line \<Rightarrow> (int \<times> request_line) option" where
  "ngx_http_parse_uri buf r =
    (case (uri_start r, uri_end r) of
       (Some u, Some e) \<Rightarrow>
         if u \<le> e \<and> e \<le> length buf then
           (case byte_loop pu_step buf e u PU_start r of
              None \<Rightarrow> None
            | Some (None, _, r', _) \<Rightarrow> Some (NGX_OK, r')
            | Some (Some rc, _, r', _) \<Rightarrow> Some (rc, r'))
         else None
     | _ \<Rightarrow> None)"

section \<open>ngx_http_process_request_uri\<close>

text \<open>
  The fields the function sets: \<open>r->uri\<close>, \<open>r->unparsed_uri\<close>, \<open>r->exten\<close>, \<open>r->args\<close> as the bytes
  the \<open>ngx_str_t\<close> denotes (empty as \<open>ngx_pcalloc\<close> leaves them), and the flag.
\<close>

record request_uri =
  ru_uri :: bytes
  ru_unparsed_uri :: bytes
  ru_valid_unparsed_uri :: bool
  ru_exten :: bytes
  ru_args :: bytes

text \<open>The difference of two pointers; \<open>None\<close> if one is null or the result is negative.\<close>

fun ptr_diff :: "ptr \<Rightarrow> ptr \<Rightarrow> nat option" where
  "ptr_diff (Some a) (Some b) = (if b \<le> a then Some (a - b) else None)"
| "ptr_diff _ _ = None"

text \<open>The bytes of an \<open>ngx_str_t\<close> in the request buffer, from \<open>data\<close> up to \<open>end\<close>.\<close>

definition str_in :: "bytes \<Rightarrow> ptr \<Rightarrow> ptr \<Rightarrow> bytes option" where
  "str_in buf data end =
    (case ptr_diff end data of
       None \<Rightarrow> None
     | Some n \<Rightarrow> if the data + n \<le> length buf then Some (take n (drop (the data) buf)) else None)"

text \<open>Where the path ends: before the question mark, or at the end of the URI.\<close>

definition path_end :: "request_line \<Rightarrow> ptr" where
  "path_end r = (case args_start r of Some a \<Rightarrow> (if a = 0 then None else Some (a - 1)) | None \<Rightarrow> uri_end r)"

text \<open>The code from \<open>r->unparsed_uri.len\<close> on, with \<open>r->uri\<close>, \<open>r->exten\<close> and \<open>r->args\<close> as they stand.\<close>

definition ngx_http_set_uri_parts :: "bytes \<Rightarrow> request_line \<Rightarrow> bytes \<Rightarrow> bytes \<Rightarrow> bytes \<Rightarrow> (int + request_uri) option" where
  "ngx_http_set_uri_parts buf r uri exten args =
    (case str_in buf (uri_start r) (uri_end r) of
       None \<Rightarrow> None
     | Some unparsed \<Rightarrow>
         (case (if uri_ext r \<noteq> None then str_in buf (uri_ext r) (path_end r) else Some exten) of
            None \<Rightarrow> None
          | Some exten' \<Rightarrow>
              (case (if args_start r \<noteq> None \<and> the (args_start r) < the (uri_end r)
                     then str_in buf (args_start r) (uri_end r) else Some args) of
                 None \<Rightarrow> None
               | Some args' \<Rightarrow>
                   Some (Inr \<lparr>ru_uri = uri, ru_unparsed_uri = unparsed, ru_valid_unparsed_uri = (\<not> space_in_uri r),
                              ru_exten = exten', ru_args = args'\<rparr>))))"

text \<open>
  \<open>Inl\<close> is the status the request is closed with when the function returns \<open>NGX_ERROR\<close>: 500 if
  the pool has no memory, 400 if the URI is refused. The fields the complex parser writes back
  (\<open>uri_ext\<close> null, \<open>args_start\<close>) are in the request the last part sees.
\<close>

definition ngx_http_process_request_uri :: "bool \<Rightarrow> bool \<Rightarrow> bytes \<Rightarrow> request_line \<Rightarrow> (int + request_uri) option" where
  "ngx_http_process_request_uri pnalloc merge_slashes buf r =
    (case str_in buf (uri_start r) (path_end r) of
       None \<Rightarrow> None
     | Some path \<Rightarrow>
         if complex_uri r \<or> quoted_uri r then
           (if \<not> pnalloc then Some (Inl 500)
            else
              (case ngx_http_parse_complex_uri merge_slashes buf (length path + 1) (the (uri_start r)) (the (uri_end r))
                      (plus_in_uri r) (quoted_uri r) of
                 None \<Rightarrow> None
               | Some (Inl rc) \<Rightarrow> Some (Inl 400)
               | Some (Inr p) \<Rightarrow>
                   ngx_http_set_uri_parts buf
                     (r\<lparr>uri_ext := None, args_start := up_args_start p, plus_in_uri := up_plus_in_uri p, quoted_uri := up_quoted_uri p\<rparr>)
                     (up_uri p)
                     (case up_exten p of None \<Rightarrow> [] | Some x \<Rightarrow> x)
                     (case up_args p of None \<Rightarrow> [] | Some x \<Rightarrow> x)))
         else ngx_http_set_uri_parts buf r path [] [])"

end
