(* ===== verification/Request_Uri_Correct.thy ===== *)
theory Request_Uri_Correct
  imports Request_Line_Correct Complex_Uri_Correct Http_Uri
begin

text \<open>
The URI of an accepted request: what the request-line machine guarantees about its pointers
  and bytes (\<open>rl_ainv\<close>), that a path it does not flag is already in normal form, and that
  \<open>ngx_http_process_request_uri\<close> therefore gives the reference normal form on either route.
\<close>

section \<open>What the request line leaves for the URI\<close>

text \<open>No null byte has been passed, and no number sign unless it set \<open>complex_uri\<close>.\<close>

definition uri_bytes_ok :: "bytes \<Rightarrow> request_line \<Rightarrow> nat \<Rightarrow> bool" where
  "uri_bytes_ok buf r e \<longleftrightarrow>
     (\<forall>i. the (uri_start r) \<le> i \<and> i < e \<longrightarrow> buf ! i \<noteq> c_NUL \<and> (complex_uri r \<or> buf ! i \<noteq> c_hash))"

text \<open>The arguments start after a question mark, and the extension ends before it.\<close>

definition uri_ptrs_ok :: "bytes \<Rightarrow> request_line \<Rightarrow> nat \<Rightarrow> bool" where
  "uri_ptrs_ok buf r e \<longleftrightarrow>
     (\<forall>a. args_start r = Some a \<longrightarrow> the (uri_start r) < a \<and> a \<le> e \<and> buf ! (a - 1) = c_quest) \<and>
     (\<forall>x. uri_ext r = Some x \<longrightarrow> x \<le> e \<and> (\<forall>a. args_start r = Some a \<longrightarrow> x < a))"

definition rl_ainv :: "bytes \<Rightarrow> nat \<Rightarrow> rl_state \<Rightarrow> request_line \<Rightarrow> bool" where
  "rl_ainv buf p st r \<longleftrightarrow>
     (if rl_uri_phase st then uri_ptrs_ok buf r p \<and> uri_bytes_ok buf r p
      else if rl_end_phase st then
        uri_ptrs_ok buf r (the (uri_end r)) \<and>
        uri_bytes_ok buf r (if st = RL_check_uri_http_09 \<or> st = RL_http_09 then p else the (uri_end r))
      else args_start r = None \<and> uri_ext r = None) \<and>
     (st \<in> {RL_after_slash_in_uri, RL_check_uri, RL_check_uri_http_09} \<longrightarrow> args_start r = None)"

lemma uri_bytes_Suc:
  "the (uri_start r) \<le> p \<Longrightarrow>
     uri_bytes_ok buf r (Suc p) \<longleftrightarrow> uri_bytes_ok buf r p \<and> buf ! p \<noteq> c_NUL \<and> (complex_uri r \<or> buf ! p \<noteq> c_hash)"
  by (auto simp: uri_bytes_ok_def less_Suc_eq)

lemma uri_bytes_mono: "uri_bytes_ok buf r p \<Longrightarrow> e \<le> p \<Longrightarrow> uri_bytes_ok buf r e"
  by (auto simp: uri_bytes_ok_def)

lemma rl_ainv_step:
  assumes "rl_inv buf p0 p st r" "rl_ainv buf p st r"
  shows "case rl_step buf p (buf ! p) st r of
           Next st' r' \<Rightarrow> rl_ainv buf (Suc p) st' r'
         | Redo st' r' \<Rightarrow> rl_ainv buf p st' r'
         | Exit x st' r' \<Rightarrow> x = RL_done \<longrightarrow> uri_ptrs_ok buf r' (the (uri_end r')) \<and> uri_bytes_ok buf r' (the (uri_end r'))"
proof -
  consider (uri) "rl_uri_phase st" | (host) "rl_host_phase st" | (fin) "rl_end_phase st" | (pre) "st \<in> {RL_start, RL_method, RL_spaces_before_uri, RL_schema, RL_schema_slash, RL_schema_slash_slash}"
    by (cases st) (auto simp: rl_phases)
  then show ?thesis
  proof cases
    case uri
    with assms(2) rl_inv_uri [OF assms(1) uri] show ?thesis
      by (cases st) (auto simp: rl_phases rl_step_def rl_sw_defs rl_ainv_def uri_ptrs_ok_def uri_bytes_ok_def usual_iff' less_Suc_eq split: option.splits)
  next
    case host
    with assms(2) rl_inv_host [OF assms(1) host] show ?thesis
      by (cases st) (auto simp: rl_phases rl_step_def rl_sw_defs rl_ainv_def uri_ptrs_ok_def uri_bytes_ok_def less_Suc_eq Let_def split: option.splits)
  next
    case fin
    with assms(2) rl_inv_end [OF assms(1) fin] show ?thesis
      by (cases st) (auto simp: rl_phases rl_step_def rl_sw_defs rl_ainv_def uri_ptrs_ok_def uri_bytes_ok_def usual_iff' less_Suc_eq Let_def split: option.splits)
  next
    case pre
    with assms show ?thesis
      by (cases st) (auto simp: rl_phases rl_step_def rl_sw_defs rl_ainv_def rl_inv_def uri_ptrs_ok_def uri_bytes_ok_def less_Suc_eq Let_def split: option.splits)
  qed
qed

definition fresh_request :: "request_line \<Rightarrow> bool" where
  "fresh_request r \<longleftrightarrow> rl_state r = RL_start \<and> request_end r = None \<and> args_start r = None \<and> uri_ext r = None \<and>
     \<not> complex_uri r \<and> \<not> quoted_uri r"

lemma request_line_uri:
  assumes "fresh_request r" and "buf_ok b" and parse: "ngx_http_parse_request_line r b = Some (NGX_OK, r', b')"
  obtains u e where "uri_start r' = Some u" "uri_end r' = Some e" "u < e" "e < length (mem b)" "mem b ! u = c_slash"
    "uri_ptrs_ok (mem b) r' e" "uri_bytes_ok (mem b) r' e" "rl_path_ok (mem b) r' e"
proof -
  have fresh: "rl_state r = RL_start" "request_end r = None" using assms(1) by (simp_all add: fresh_request_def)
  show thesis
    using fresh
  proof (cases rule: rl_run [where buf = "mem b" and lim = "blast b" and ?p0.0 = "pos b"])
    case (1 st r' p)
    then show ?thesis using parse fresh by (simp add: ngx_http_parse_request_line_def)
  next
    case (2 x st r1 p)
    have x: "x = RL_done" and f: "rl_finish p r1 b = (NGX_OK, r', b')"
      using parse fresh 2 by (cases x; auto simp: ngx_http_parse_request_line_def rl_post_def)+
    let ?I = "\<lambda>p st r. rl_inv (mem b) (pos b) p st r \<and> rl_uinv (mem b) p st r \<and> rl_ainv (mem b) p st r"
    let ?Q = "\<lambda>x p r. x = RL_done \<longrightarrow> rl_path_ok (mem b) r (the (uri_end r)) \<and>
        uri_ptrs_ok (mem b) r (the (uri_end r)) \<and> uri_bytes_ok (mem b) r (the (uri_end r))"
    have S: "case rl_step (mem b) p (mem b ! p) s r of
                Next s' r' \<Rightarrow> ?I (Suc p) s' r' | Redo s' r' \<Rightarrow> ?I p s' r' | Exit x s' r' \<Rightarrow> ?Q x p r'"
      if "p < blast b" and "?I p s r" for p s r
      using rl_inv_step [of "mem b" "pos b" p s r] rl_uinv_step [of "mem b" "pos b" p s r] rl_ainv_step [of "mem b" "pos b" p s r] that
      by (simp split: outcome.splits)
    have I: "?I (pos b) RL_start r"
      using rl_inv_init [OF fresh] assms(1) by (simp add: fresh_request_def rl_uinv_def rl_ainv_def rl_phases rl_flagged_def)
    have Q: "?Q x p r1" using rl.loop_invariant [where I = ?I and Q = ?Q, OF 2(1) I S] by simp
    have "p < length (mem b)" using rl.loop_position [OF 2(1)] assms(2) by (simp add: buf_ok_def)
    note fin = rl_finish_simps [OF f refl]
    have ext: "uri_ext r' = uri_ext r1" using f by (auto simp: rl_finish_def Let_def split: if_splits)
    have eq: "uri_ptrs_ok (mem b) r' e = uri_ptrs_ok (mem b) r1 e" "uri_bytes_ok (mem b) r' e = uri_bytes_ok (mem b) r1 e"
      "rl_path_ok (mem b) r' e = rl_path_ok (mem b) r1 e" for e
      using fin ext by (simp_all add: uri_ptrs_ok_def uri_bytes_ok_def rl_path_ok_def rl_flagged_def split: option.split)
    from 2(2) have "uri_start r1 \<noteq> None" "uri_end r1 \<noteq> None" "the (uri_start r1) < the (uri_end r1)" "the (uri_end r1) \<le> p"
      "mem b ! the (uri_start r1) = c_slash" unfolding x rl_post_def by simp_all
    then show ?thesis
      using that [of "the (uri_start r1)" "the (uri_end r1)", unfolded eq] fin Q x \<open>p < length (mem b)\<close> by auto
  qed
qed

section \<open>A plain path is in normal form\<close>

fun plain_pairs :: "bytes \<Rightarrow> bool" where
  "plain_pairs (a # b # xs) = ((a = c_slash \<longrightarrow> b \<noteq> c_slash \<and> b \<noteq> c_dot) \<and> plain_pairs (b # xs))"
| "plain_pairs _ = True"

lemma plain_segments:
  "plain_pairs (c # xs) \<Longrightarrow>
     list_all (seg_ok m) (butlast (tl (split_slash xs))) \<and>
     (c = c_slash \<longrightarrow> tl (split_slash xs) \<noteq> [] \<longrightarrow> seg_ok m (hd (split_slash xs)))"
proof (induction xs arbitrary: c)
  case (Cons d ds)
  obtain s ss where ss: "split_slash ds = s # ss" by (cases "split_slash ds") simp_all
  have free: "c_slash \<notin> set s" using split_slash_free [of s ds] ss by simp
  have IH: "list_all (seg_ok m) (butlast ss)" "d = c_slash \<Longrightarrow> ss \<noteq> [] \<Longrightarrow> seg_ok m s"
    using Cons.IH [of d] Cons.prems ss by auto
  show ?case
  proof (cases "d = c_slash")
    case True
    then show ?thesis using IH Cons.prems ss by (auto split: list.splits)
  next
    case False
    then have "c = c_slash \<Longrightarrow> seg_ok m (d # s)" using Cons.prems free by (auto simp: seg_ok_def dot_def dot_dot_def)
    then show ?thesis using IH(1) False ss by simp
  qed
qed simp

lemma plain_pairs_cut:
  assumes "\<forall>i. u \<le> i \<and> Suc i < e \<and> buf ! i = c_slash \<longrightarrow> buf ! Suc i \<notin> {c_slash, c_dot}" and "e \<le> length buf"
  shows "plain_pairs (cut buf u e)"
  using assms
proof (induction "e - u" arbitrary: u)
  case (Suc n)
  then have "plain_pairs (cut buf (Suc u) e)" by simp
  moreover have "u < e" using Suc by simp
  ultimately show ?case using Suc.prems
    by (cases "Suc u < e") (auto simp: cut_Cons)
qed simp

lemma decode_plain_stop:
  "\<forall>c \<in> set xs. c \<notin> {c_percent, c_quest, c_hash} \<Longrightarrow> decode_path (xs @ c_quest # ys) = Some xs"
  by (induction xs) auto

lemma plain_path_normal:
  assumes "plain_path buf u e" and "u < e" and "e \<le> length buf" and "buf ! u = c_slash"
    and "ys = [] \<or> hd ys = c_quest"
  shows "normal_uri m (cut buf u e @ ys) = Some (cut buf u e)"
proof -
  obtain path where path: "cut buf u e = c_slash # path" using assms(2-4) by (simp add: cut_Cons)
  have "\<forall>c \<in> set (cut buf u e). c \<notin> {c_percent, c_quest, c_hash}"
    using assms(1,3) by (auto simp: plain_path_def cut_def in_set_conv_nth)
  then have dec: "decode_path (path @ ys) = Some path"
    using assms(5) path decode_plain [of path] decode_plain_stop [of path "tl ys"] by (cases ys) auto
  have "plain_pairs (c_slash # path)" using plain_pairs_cut [of u e buf] assms(1,3) path by (auto simp: plain_path_def)
  note seg = plain_segments [OF this, of m]
  obtain segs s where split: "split_slash path = segs @ [s]" by (metis split_slash_not_Nil rev_exhaust)
  have ok: "list_all (seg_ok m) segs" using seg split by (cases segs) (auto split: list.splits)
  have "join (split_slash path) = c_slash # path"
    by (induction path) (auto simp: join_simps split: list.splits)
  then show ?thesis using resolve_id [OF ok, of "[]" s] dec by (simp add: normal_uri_def path split)
qed

section \<open>The request line and the URI together\<close>

lemma str_in_cut: "i \<le> j \<Longrightarrow> j \<le> length buf \<Longrightarrow> str_in buf (Some i) (Some j) = Some (cut buf i j)"
  by (simp add: str_in_def cut_def)

lemma raw_path_bound:
  assumes "i < length uri" and "uri ! i = c_quest \<or> uri ! i = c_hash"
  shows "length (raw_path uri) \<le> i"
proof (rule ccontr)
  assume "\<not> length (raw_path uri) \<le> i"
  then have "i < length (takeWhile (\<lambda>c. c \<noteq> c_quest \<and> c \<noteq> c_hash) uri)" by (simp add: raw_path_def)
  from nth_mem [OF this] takeWhile_nth [OF this] assms(2) show False by (auto dest: set_takeWhileD)
qed

lemma complex_uri_args_once:
  "ngx_http_parse_complex_uri merge buf cap us ue pl qu = Some (Inr p) \<Longrightarrow> up_args_start p = None \<or> up_args p = None"
  by (auto simp: ngx_http_parse_complex_uri_def cu_args_label_def cu_finish_def Let_def split: if_splits option.splits cu_out.splits)

definition uri_args :: "bytes \<Rightarrow> bytes" where
  "uri_args uri = (case raw_args uri of None \<Rightarrow> [] | Some a \<Rightarrow> a)"

definition path_len_ok :: "bytes \<Rightarrow> request_line \<Rightarrow> nat \<Rightarrow> nat \<Rightarrow> bool" where
  "path_len_ok buf r u e \<longleftrightarrow> uri_start r = Some u \<and> uri_end r = Some e \<and> u < e \<and> e \<le> length buf \<and>
     (\<forall>a. args_start r = Some a \<longrightarrow> u < a \<and> a \<le> e \<and> buf ! (a - 1) = c_quest)"

lemma path_end_str:
  assumes "path_len_ok buf r u e"
  shows "str_in buf (uri_start r) (path_end r) = Some (cut buf u (case args_start r of None \<Rightarrow> e | Some a \<Rightarrow> a - 1))"
    and "length (raw_path (cut buf u e)) \<le> length (cut buf u (case args_start r of None \<Rightarrow> e | Some a \<Rightarrow> a - 1))"
proof -
  note ok = assms [unfolded path_len_ok_def]
  show "str_in buf (uri_start r) (path_end r) = Some (cut buf u (case args_start r of None \<Rightarrow> e | Some a \<Rightarrow> a - 1))"
  proof (cases "args_start r")
    case None
    then show ?thesis using ok by (simp add: path_end_def str_in_cut)
  next
    case (Some a)
    then have "u \<le> a - 1" "a - 1 \<le> length buf" "a \<noteq> 0" using ok by auto
    then show ?thesis using ok Some by (simp add: path_end_def str_in_cut)
  qed
  show "length (raw_path (cut buf u e)) \<le> length (cut buf u (case args_start r of None \<Rightarrow> e | Some a \<Rightarrow> a - 1))"
  proof (cases "args_start r")
    case None
    then show ?thesis unfolding raw_path_def option.case by (simp only: option.case length_takeWhile_le)
  next
    case (Some a)
    then have a: "u < a" "a \<le> e" "buf ! (a - 1) = c_quest" "e \<le> length buf" using ok by auto
    then have "cut buf u e ! (a - 1 - u) = c_quest" "a - 1 - u < length (cut buf u e)" by (simp_all add: cut_def)
    from raw_path_bound [OF this(2)] this(1) a show ?thesis by (simp add: Some cut_def)
  qed
qed

lemma set_parts_args:
  assumes "uri_start r = Some u" "uri_end r = Some e" "u \<le> e" "e \<le> length buf" "uri_ext r = None"
    and "args_start r \<noteq> None \<Longrightarrow> args = []"
  shows "\<exists>q. ngx_http_set_uri_parts buf r uri exten args = Some (Inr q) \<and> ru_uri q = uri \<and> ru_unparsed_uri q = cut buf u e \<and>
     ru_args q = (case args_start r of None \<Rightarrow> args | Some a \<Rightarrow> cut buf a e)"
  using assms by (auto simp: ngx_http_set_uri_parts_def str_in_cut split: option.splits)

lemma process_uri_complex:
  assumes ok: "path_len_ok buf r u e" "e < length buf" "buf ! u = c_slash" and fl: "complex_uri r \<or> quoted_uri r"
  shows "case normal_uri merge (cut buf u e) of
      None \<Rightarrow> ngx_http_process_request_uri True merge buf r = Some (Inl 400)
    | Some v \<Rightarrow> \<exists>q. ngx_http_process_request_uri True merge buf r = Some (Inr q) \<and> ru_uri q = v \<and>
        ru_unparsed_uri q = cut buf u e \<and> ru_args q = uri_args (cut buf u e)"
proof -
  let ?cap = "length (cut buf u (case args_start r of None \<Rightarrow> e | Some a \<Rightarrow> a - 1)) + 1"
  note u = ok(1) [unfolded path_len_ok_def]
  have run: "ngx_http_process_request_uri True merge buf r =
      (case ngx_http_parse_complex_uri merge buf ?cap u e (plus_in_uri r) (quoted_uri r) of
         None \<Rightarrow> None
       | Some (Inl rc) \<Rightarrow> Some (Inl 400)
       | Some (Inr p) \<Rightarrow>
           ngx_http_set_uri_parts buf
             (r\<lparr>uri_ext := None, args_start := up_args_start p, plus_in_uri := up_plus_in_uri p, quoted_uri := up_quoted_uri p\<rparr>)
             (up_uri p)
             (case up_exten p of None \<Rightarrow> [] | Some x \<Rightarrow> x)
             (case up_args p of None \<Rightarrow> [] | Some x \<Rightarrow> x))"
    using path_end_str(1) [OF ok(1)] u fl by (simp add: ngx_http_process_request_uri_def)
  have spec: "case normal_uri merge (cut buf u e) of
       None \<Rightarrow> ngx_http_parse_complex_uri merge buf ?cap u e (plus_in_uri r) (quoted_uri r) = Some (Inl NGX_HTTP_PARSE_INVALID_REQUEST)
     | Some u' \<Rightarrow> \<exists>p. ngx_http_parse_complex_uri merge buf ?cap u e (plus_in_uri r) (quoted_uri r) = Some (Inr p) \<and>
         up_uri p = u' \<and> complex_args buf e p = raw_args (cut buf u e)"
    using u ok(2,3) path_end_str(2) [OF ok(1)] by (intro complex_uri_spec) auto
  show ?thesis
  proof (cases "normal_uri merge (cut buf u e)")
    case None
    then show ?thesis using spec run by simp
  next
    case (Some v)
    then obtain p where p: "ngx_http_parse_complex_uri merge buf ?cap u e (plus_in_uri r) (quoted_uri r) = Some (Inr p)"
      "up_uri p = v" "complex_args buf e p = raw_args (cut buf u e)" using spec by auto
    let ?r = "r\<lparr>uri_ext := None, args_start := up_args_start p, plus_in_uri := up_plus_in_uri p, quoted_uri := up_quoted_uri p\<rparr>"
    let ?args = "case up_args p of None \<Rightarrow> [] | Some x \<Rightarrow> x"
    have a: "args_start ?r \<noteq> None \<Longrightarrow> ?args = []" using complex_uri_args_once [OF p(1)] by auto
    have "uri_start ?r = Some u" "uri_end ?r = Some e" "u \<le> e" "e \<le> length buf" "uri_ext ?r = None" using u by auto
    from set_parts_args [OF this a] obtain q where
      "ngx_http_set_uri_parts buf ?r (up_uri p) (case up_exten p of None \<Rightarrow> [] | Some x \<Rightarrow> x) ?args = Some (Inr q)"
      "ru_uri q = up_uri p" "ru_unparsed_uri q = cut buf u e" "ru_args q = (case args_start ?r of None \<Rightarrow> ?args | Some a \<Rightarrow> cut buf a e)"
      by blast
    moreover have "(case args_start ?r of None \<Rightarrow> ?args | Some a \<Rightarrow> cut buf a e) = uri_args (cut buf u e)"
      using p(3) by (auto simp add: uri_args_def complex_args_def split: option.splits)
    ultimately show ?thesis using Some p(1,2) run by simp
  qed
qed

lemma process_uri_plain:
  assumes ok: "path_len_ok buf r u e" "buf ! u = c_slash" and fl: "\<not> complex_uri r" "\<not> quoted_uri r"
    and line: "uri_ptrs_ok buf r e" "uri_bytes_ok buf r e" "rl_path_ok buf r e"
  shows "\<exists>q. ngx_http_process_request_uri alloc merge buf r = Some (Inr q) \<and>
     normal_uri merge (cut buf u e) = Some (ru_uri q) \<and> ru_unparsed_uri q = cut buf u e \<and> ru_args q = uri_args (cut buf u e)"
proof -
  note u = ok(1) [unfolded path_len_ok_def]
  have hash: "c_hash \<notin> set (cut buf u e)" using line(2) fl u by (auto simp: uri_bytes_ok_def cut_def in_set_conv_nth)
  define k where "k = (case args_start r of None \<Rightarrow> e | Some a \<Rightarrow> a - 1)"
  have k: "u < k" "k \<le> e" "plain_path buf u k" "path_end r = Some k"
  proof -
    have "k \<noteq> u" using ok(2) line(3) fl u by (auto simp: k_def rl_path_ok_def rl_flagged_def split: option.splits)
    moreover have "u \<le> k" "k \<le> e" "path_end r = Some k" using u by (auto simp: k_def path_end_def split: option.splits)
    ultimately show "u < k" "k \<le> e" "path_end r = Some k" by auto
    show "plain_path buf u k" using line(3) fl u by (auto simp: k_def rl_path_ok_def rl_flagged_def split: option.splits)
  qed
  have stop: "no_stop buf u k" using k(1-3) u by (auto simp: no_stop_def plain_path_def cut_def in_set_conv_nth)
  have args: "uri_args (cut buf u e) = (case args_start r of None \<Rightarrow> [] | Some a \<Rightarrow> cut buf a e)"
  proof (cases "args_start r")
    case None
    then show ?thesis using stop by (simp add: k_def uri_args_def raw_args_none)
  next
    case (Some a)
    then have a: "u < a" "a \<le> e" "buf ! (a - 1) = c_quest" "k = a - 1" using u by (auto simp: k_def)
    have "c_hash \<notin> set (cut buf a e)" using hash cut_append [of u a e buf] a by (metis Un_iff less_imp_le set_append)
    then have "takeWhile (\<lambda>c. c \<noteq> c_hash) (cut buf a e) = cut buf a e" by (auto simp: takeWhile_eq_all_conv)
    moreover have "u \<le> a - 1" "a - 1 < e" "e \<le> length buf" "no_stop buf u (a - 1)" using a u stop by auto
    note raw_args_stop [OF this, unfolded a(3)]
    ultimately show ?thesis using a(1) Some by (simp add: uri_args_def)
  qed
  have norm: "normal_uri merge (cut buf u e) = Some (cut buf u k)"
  proof (cases "k = e")
    case True
    then show ?thesis using plain_path_normal [of buf u k "[]"] k u ok(2) by simp
  next
    case False
    then have "buf ! k = c_quest" "k < e" using k u by (auto simp: k_def split: option.splits)
    then have "cut buf k e = c_quest # cut buf (Suc k) e" using u by (simp add: cut_Cons)
    then show ?thesis using plain_path_normal [of buf u k "cut buf k e"] k u ok(2) cut_append [of u k e buf] by simp
  qed
  have ext: "(case uri_ext r of None \<Rightarrow> True | Some x \<Rightarrow> x \<le> k)" using line(1) u by (auto simp: uri_ptrs_ok_def k_def split: option.splits)
  have "ngx_http_process_request_uri alloc merge buf r = ngx_http_set_uri_parts buf r (cut buf u k) [] []"
    using path_end_str(1) [OF ok(1)] fl by (simp add: ngx_http_process_request_uri_def k_def)
  moreover have "\<exists>q. ngx_http_set_uri_parts buf r (cut buf u k) [] [] = Some (Inr q) \<and> ru_uri q = cut buf u k \<and>
      ru_unparsed_uri q = cut buf u e \<and> ru_args q = (case args_start r of None \<Rightarrow> [] | Some a \<Rightarrow> cut buf a e)"
    using u k ext by (auto simp: ngx_http_set_uri_parts_def str_in_cut split: option.splits)
  ultimately show ?thesis using norm args by auto
qed

lemma request_uri_spec:
  assumes "fresh_request r" and "buf_ok b" and "ngx_http_parse_request_line r b = Some (NGX_OK, r', b')"
  defines "uri \<equiv> cut (mem b) (the (uri_start r')) (the (uri_end r'))"
  shows "case normal_uri merge uri of
      None \<Rightarrow> ngx_http_process_request_uri True merge (mem b) r' = Some (Inl 400)
    | Some v \<Rightarrow> \<exists>q. ngx_http_process_request_uri True merge (mem b) r' = Some (Inr q) \<and> ru_uri q = v \<and>
        ru_unparsed_uri q = uri \<and> ru_args q = uri_args uri"
    and "c_NUL \<notin> set uri"
proof -
  obtain u e where ue: "uri_start r' = Some u" "uri_end r' = Some e" "u < e" "e < length (mem b)" "mem b ! u = c_slash"
    and line: "uri_ptrs_ok (mem b) r' e" "uri_bytes_ok (mem b) r' e" "rl_path_ok (mem b) r' e"
    using request_line_uri [OF assms(1-3)] by blast
  have ok: "path_len_ok (mem b) r' u e" using ue line(1) by (auto simp: path_len_ok_def uri_ptrs_ok_def)
  have uri: "uri = cut (mem b) u e" by (simp add: uri_def ue)
  show "c_NUL \<notin> set uri" using line(2) ue by (auto simp: uri uri_bytes_ok_def cut_def in_set_conv_nth)
  show "case normal_uri merge uri of
      None \<Rightarrow> ngx_http_process_request_uri True merge (mem b) r' = Some (Inl 400)
    | Some v \<Rightarrow> \<exists>q. ngx_http_process_request_uri True merge (mem b) r' = Some (Inr q) \<and> ru_uri q = v \<and>
        ru_unparsed_uri q = uri \<and> ru_args q = uri_args uri"
  proof (cases "complex_uri r' \<or> quoted_uri r'")
    case True
    show ?thesis unfolding uri by (rule process_uri_complex [OF ok ue(4,5) True])
  next
    case False
    then show ?thesis using process_uri_plain [OF ok ue(5) _ _ line, where merge = merge and alloc = True] by (auto simp: uri)
  qed
qed

section \<open>The second scan of a URI\<close>

text \<open>The state of the request-line machine in which a state of this one lies.\<close>

fun rl_of_pu :: "pu_state \<Rightarrow> rl_state" where
  "rl_of_pu PU_start = RL_start"
| "rl_of_pu PU_after_slash_in_uri = RL_after_slash_in_uri"
| "rl_of_pu PU_check_uri = RL_check_uri"
| "rl_of_pu PU_uri = RL_uri"

definition uri_char :: "u_char \<Rightarrow> bool" where
  "uri_char c \<longleftrightarrow> c \<notin> {c_space, c_CR, c_LF, c_NUL}"

lemmas pu_step_defs = pu_step_def pu_sw_after_slash_in_uri_def pu_sw_check_uri_def pu_sw_uri_def

lemma pu_step_rl:
  assumes "st \<noteq> PU_start" and "uri_char ch"
  obtains st' r' where "pu_step buf p ch st r = Next st' r'" "st' \<noteq> PU_start" "rl_step buf p ch (rl_of_pu st) r = Next (rl_of_pu st') r'"
proof -
  have "\<exists>st' r'. pu_step buf p ch st r = Next st' r' \<and> st' \<noteq> PU_start \<and> rl_step buf p ch (rl_of_pu st) r = Next (rl_of_pu st') r'"
    using assms
    by (cases st) (simp_all add: pu_step_defs rl_step_def rl_sw_after_slash_in_uri_def rl_sw_check_uri_def rl_sw_uri_def uri_char_def)
  with that show thesis by blast
qed

lemma pu_step_redo: "pu_step buf p ch st r \<noteq> Redo st' r'"
  by (cases st) (auto simp: pu_step_defs)

lemma pu_loop_rl:
  assumes "st \<noteq> PU_start" and "\<forall>i. p \<le> i \<and> i < e \<longrightarrow> uri_char (buf ! i)" and "p \<le> e" and "e \<le> lim"
  shows "\<exists>st' r'. byte_loop pu_step buf e p st r = Some (None, st', r', e) \<and>
     byte_loop rl_step buf lim p (rl_of_pu st) r = byte_loop rl_step buf lim e (rl_of_pu st') r'"
  using assms
proof (induction "e - p" arbitrary: p st r)
  case (Suc n)
  have p: "p < e" "p < lim" using Suc by auto
  then have "uri_char (buf ! p)" using Suc.prems(2) by simp
  from pu_step_rl [OF Suc.prems(1) this] obtain st' r' where
    s: "pu_step buf p (buf ! p) st r = Next st' r'" "st' \<noteq> PU_start" "rl_step buf p (buf ! p) (rl_of_pu st) r = Next (rl_of_pu st') r'"
    by blast
  have "n = e - Suc p" using Suc.hyps(2) by simp
  from Suc.hyps(1) [OF this s(2), of r'] Suc.prems p
  show ?case using byte_loop_next [of p e pu_step buf st r, OF p(1) s(1)] byte_loop_next [of p lim rl_step buf "rl_of_pu st" r, OF p(2) s(3)]
    by simp
qed auto

text \<open>
  Given a URI on its own, without a space, line end or null byte in it,
  \<open>ngx_http_parse_uri\<close> refuses it unless it is empty or starts with a slash, and otherwise leaves
  the request with the flags and pointers the request-line machine has at the end of the same
  bytes, whatever follows them.
\<close>
lemma parse_uri_agrees:
  assumes "uri_start r = Some u" and "uri_end r = Some e" and "u < e" and "e \<le> length buf"
    and "\<forall>i. u \<le> i \<and> i < e \<longrightarrow> uri_char (buf ! i)"
  shows "if buf ! u \<noteq> c_slash then ngx_http_parse_uri buf r = Some (NGX_ERROR, r)
     else \<exists>st' r'. ngx_http_parse_uri buf r = Some (NGX_OK, r') \<and>
       (\<forall>lim \<ge> e. byte_loop rl_step buf lim (Suc u) RL_after_slash_in_uri r = byte_loop rl_step buf lim e st' r')"
proof (cases "buf ! u = c_slash")
  case False
  then have "pu_step buf u (buf ! u) PU_start r = Exit NGX_ERROR PU_start r" by (simp add: pu_step_def)
  from byte_loop_exit [of u e pu_step, OF assms(3) this] show ?thesis using False assms by (simp add: ngx_http_parse_uri_def)
next
  case True
  then have s: "pu_step buf u (buf ! u) PU_start r = Next PU_after_slash_in_uri r" by (simp add: pu_step_def)
  have run: "\<exists>st' r'. byte_loop pu_step buf e (Suc u) PU_after_slash_in_uri r = Some (None, st', r', e) \<and>
     byte_loop rl_step buf lim (Suc u) RL_after_slash_in_uri r = byte_loop rl_step buf lim e (rl_of_pu st') r'" if "e \<le> lim" for lim
    using pu_loop_rl [of PU_after_slash_in_uri "Suc u" e buf lim r] assms that by simp
  obtain st' r' where st': "byte_loop pu_step buf e (Suc u) PU_after_slash_in_uri r = Some (None, st', r', e)" using run [of e] by auto
  have "ngx_http_parse_uri buf r = Some (NGX_OK, r')"
    using assms st' byte_loop_next [of u e pu_step buf PU_start r, OF assms(3) s] by (simp add: ngx_http_parse_uri_def)
  moreover have "byte_loop rl_step buf lim (Suc u) RL_after_slash_in_uri r = byte_loop rl_step buf lim e (rl_of_pu st') r'" if "e \<le> lim" for lim
    using run [OF that] st' by auto
  ultimately show ?thesis using True by auto
qed

section \<open>An example request\<close>

definition ex_get :: ngx_buf where
  "ex_get = (let s = ascii ''GET /a/../%41?x HTTP/1.0'' @ [c_LF] in \<lparr>mem = s, pos = 0, blast = length s\<rparr>)"

definition ex_get_line :: request_line where
  "ex_get_line = (case ngx_http_parse_request_line request_line_init ex_get of Some (_, r, _) \<Rightarrow> r | None \<Rightarrow> request_line_init)"

lemma ex_get_parse:
  "\<exists>b'. ngx_http_parse_request_line request_line_init ex_get = Some (NGX_OK, ex_get_line, b')"
proof -
  have "map_option fst (ngx_http_parse_request_line request_line_init ex_get) = Some NGX_OK" by code_simp
  then show ?thesis by (auto simp: ex_get_line_def)
qed

lemma ex_get_uri:
  "cut (mem ex_get) (the (uri_start ex_get_line)) (the (uri_end ex_get_line)) = ascii ''/a/../%41?x''"
  by code_simp

lemma ex_get_normal:
  "normal_uri True (ascii ''/a/../%41?x'') = Some (ascii ''/A'')" "uri_args (ascii ''/a/../%41?x'') = ascii ''x''"
  by code_simp+

lemma ex_get_ok: "buf_ok ex_get" "fresh_request request_line_init"
  by (simp_all add: ex_get_def buf_ok_def Let_def fresh_request_def request_line_init_def)

end
