(* ===== verification/Ngx_Escape.thy ===== *)
theory Ngx_Escape
  imports Nginx_Prelude
begin

text \<open>
  Escaping and unescaping (\<open>core/ngx_string.c\<close>): \<open>ngx_escape_uri\<close> with its seven tables,
  \<open>ngx_unescape_uri\<close> as a state machine, and \<open>ngx_escape_html\<close>. A source pointer with its size
  is the list of the bytes it denotes; the bytes written at the destination are the result.
\<close>

section \<open>ngx_escape_uri\<close>

definition escape_tbl_uri :: "32 word list" where
  "escape_tbl_uri =
    [0xffffffff, 0x80000029, 0x00000000, 0x80000000, 0xffffffff, 0xffffffff, 0xffffffff, 0xffffffff]"

definition escape_tbl_args :: "32 word list" where
  "escape_tbl_args =
    [0xffffffff, 0x88000869, 0x00000000, 0x80000000, 0xffffffff, 0xffffffff, 0xffffffff, 0xffffffff]"

definition escape_tbl_uri_component :: "32 word list" where
  "escape_tbl_uri_component =
    [0xffffffff, 0xfc009fff, 0x78000001, 0xb8000001, 0xffffffff, 0xffffffff, 0xffffffff, 0xffffffff]"

definition escape_tbl_html :: "32 word list" where
  "escape_tbl_html =
    [0xffffffff, 0x000000ad, 0x00000000, 0x80000000, 0xffffffff, 0xffffffff, 0xffffffff, 0xffffffff]"

definition escape_tbl_refresh :: "32 word list" where
  "escape_tbl_refresh =
    [0xffffffff, 0x00000085, 0x00000000, 0x80000000, 0xffffffff, 0xffffffff, 0xffffffff, 0xffffffff]"

definition escape_tbl_memcached :: "32 word list" where
  "escape_tbl_memcached = [0xffffffff, 0x00000021, 0, 0, 0, 0, 0, 0]"

text \<open>\<open>map[type]\<close>; a type above 6 reads past the array.\<close>

definition escape_map :: "32 word list list" where
  "escape_map =
    [escape_tbl_uri, escape_tbl_args, escape_tbl_uri_component, escape_tbl_html, escape_tbl_refresh,
     escape_tbl_memcached, escape_tbl_memcached]"

abbreviation (input) NGX_ESCAPE_URI :: nat where "NGX_ESCAPE_URI \<equiv> 0"
abbreviation (input) NGX_ESCAPE_ARGS :: nat where "NGX_ESCAPE_ARGS \<equiv> 1"
abbreviation (input) NGX_ESCAPE_URI_COMPONENT :: nat where "NGX_ESCAPE_URI_COMPONENT \<equiv> 2"
abbreviation (input) NGX_ESCAPE_HTML :: nat where "NGX_ESCAPE_HTML \<equiv> 3"
abbreviation (input) NGX_ESCAPE_REFRESH :: nat where "NGX_ESCAPE_REFRESH \<equiv> 4"
abbreviation (input) NGX_ESCAPE_MEMCACHED :: nat where "NGX_ESCAPE_MEMCACHED \<equiv> 5"
abbreviation (input) NGX_ESCAPE_MAIL_AUTH :: nat where "NGX_ESCAPE_MAIL_AUTH \<equiv> 6"

text \<open>The two loops: \<open>dst == NULL\<close> counts the characters to be escaped, otherwise they are written.\<close>

fun escape_uri_count :: "32 word list \<Rightarrow> bytes \<Rightarrow> nat" where
  "escape_uri_count escape [] = 0"
| "escape_uri_count escape (c # src) = (if bit_table escape c then Suc (escape_uri_count escape src) else escape_uri_count escape src)"

fun escape_uri_write :: "32 word list \<Rightarrow> bytes \<Rightarrow> bytes" where
  "escape_uri_write escape [] = []"
| "escape_uri_write escape (c # src) =
    (if bit_table escape c
     then c_percent # hex_chars ! unat (drop_bit 4 c) # hex_chars ! unat (c AND 0xf) # escape_uri_write escape src
     else c # escape_uri_write escape src)"

text \<open>\<open>src\<close> is the \<open>size\<close> bytes at the pointer; \<open>Inl\<close> is the count, \<open>Inr\<close> the bytes written at \<open>dst\<close>.\<close>

definition ngx_escape_uri :: "bool \<Rightarrow> bytes \<Rightarrow> nat \<Rightarrow> (nat + bytes) option" where
  "ngx_escape_uri dst_null src ty =
    (if ty < length escape_map then
       (if dst_null then Some (Inl (escape_uri_count (escape_map ! ty) src))
        else Some (Inr (escape_uri_write (escape_map ! ty) src)))
     else None)"

section \<open>ngx_unescape_uri\<close>

datatype un_state = UN_usual | UN_quoted | UN_quoted_second

abbreviation (input) NGX_UNESCAPE_URI :: "64 word" where "NGX_UNESCAPE_URI \<equiv> 1"
abbreviation (input) NGX_UNESCAPE_REDIRECT :: "64 word" where "NGX_UNESCAPE_REDIRECT \<equiv> 2"

text \<open>The locals; \<open>un_before\<close> is \<open>*(s - 2)\<close>, the byte read before the current one.\<close>

record unescape =
  un_state :: un_state
  un_decoded :: u_char
  un_before :: u_char
  un_out :: bytes

definition un_put :: "bytes \<Rightarrow> unescape \<Rightarrow> unescape" where
  "un_put cs s = s\<lparr>un_out := un_out s @ cs\<rparr>"

text \<open>The cases of the switch; \<open>Inl\<close> is \<open>goto done\<close>.\<close>

definition un_sw_usual :: "64 word \<Rightarrow> u_char \<Rightarrow> unescape \<Rightarrow> unescape + unescape" where
  "un_sw_usual ty ch s =
    (if ch = c_quest \<and> ty AND (NGX_UNESCAPE_URI OR NGX_UNESCAPE_REDIRECT) \<noteq> 0 then Inl (un_put [ch] s)
     else if ch = c_percent then Inr (s\<lparr>un_state := UN_quoted\<rparr>)
     else Inr (un_put [ch] s))"

definition un_sw_quoted :: "u_char \<Rightarrow> unescape \<Rightarrow> unescape + unescape" where
  "un_sw_quoted ch s =
    (if is_digit ch then Inr (s\<lparr>un_decoded := ch - 48, un_state := UN_quoted_second\<rparr>)
     else
       (let c = lower ch in
        if is_hex_lower c then Inr (s\<lparr>un_decoded := c - 97 + 10, un_state := UN_quoted_second\<rparr>)
        else Inr (un_put [ch] (s\<lparr>un_state := UN_usual\<rparr>))))"

definition un_sw_quoted_second :: "64 word \<Rightarrow> u_char \<Rightarrow> unescape \<Rightarrow> unescape + unescape" where
  "un_sw_quoted_second ty ch s =
    (let s = s\<lparr>un_state := UN_usual\<rparr>; raw = [c_percent, un_before s, ch] in
     if is_digit ch then
       (let ch = push_bit 4 (un_decoded s) + ch - 48 in
        if ty AND NGX_UNESCAPE_REDIRECT \<noteq> 0 then
          (if ch > c_percent \<and> ch < 0x7f then Inr (un_put [ch] s) else Inr (un_put raw s))
        else Inr (un_put [ch] s))
     else
       (let c = lower ch in
        if is_hex_lower c then
          (let ch = push_bit 4 (un_decoded s) + c - 97 + 10 in
           if ty AND NGX_UNESCAPE_URI \<noteq> 0 then
             (if ch = c_quest then Inl (un_put [ch] s) else Inr (un_put [ch] s))
           else if ty AND NGX_UNESCAPE_REDIRECT \<noteq> 0 then
             (if ch = c_quest then Inl (un_put [ch] s)
              else if ch > c_percent \<and> ch < 0x7f then Inr (un_put [ch] s)
              else Inr (un_put raw s))
           else Inr (un_put [ch] s))
        else Inr s))"

definition un_step :: "64 word \<Rightarrow> u_char \<Rightarrow> unescape \<Rightarrow> unescape + unescape" where
  "un_step ty ch s =
    (case un_state s of
       UN_usual \<Rightarrow> un_sw_usual ty ch s
     | UN_quoted \<Rightarrow> un_sw_quoted ch s
     | UN_quoted_second \<Rightarrow> un_sw_quoted_second ty ch s)"

text \<open>The loop over the bytes of \<open>src\<close>; the second component is what it leaves unread.\<close>

fun un_loop :: "64 word \<Rightarrow> bytes \<Rightarrow> unescape \<Rightarrow> unescape \<times> bytes" where
  "un_loop ty [] s = (s, [])"
| "un_loop ty (ch # src) s =
    (case un_step ty ch s of
       Inl s' \<Rightarrow> (s', src)
     | Inr s' \<Rightarrow> un_loop ty src (s'\<lparr>un_before := ch\<rparr>))"

text \<open>The bytes written from \<open>*dst\<close> on, and how far \<open>*src\<close> moves.\<close>

definition ngx_unescape_uri :: "bytes \<Rightarrow> 64 word \<Rightarrow> bytes \<times> nat" where
  "ngx_unescape_uri src ty =
    (let (s, rest) = un_loop ty src \<lparr>un_state = UN_usual, un_decoded = 0, un_before = 0, un_out = []\<rparr>
     in (un_out s, length src - length rest))"

section \<open>ngx_escape_html\<close>

definition html_entity :: "u_char \<Rightarrow> bytes" where
  "html_entity ch =
    (if ch = 0x3C then ascii ''&lt;''
     else if ch = 0x3E then ascii ''&gt;''
     else if ch = 0x26 then ascii ''&amp;''
     else if ch = 0x22 then ascii ''&quot;''
     else [ch])"

text \<open>The length of each entity less one, as the counting loop adds it.\<close>

fun escape_html_count :: "bytes \<Rightarrow> nat" where
  "escape_html_count [] = 0"
| "escape_html_count (ch # src) =
    (if ch = 0x3C then 3 else if ch = 0x3E then 3 else if ch = 0x26 then 4 else if ch = 0x22 then 5 else 0) +
    escape_html_count src"

fun escape_html_write :: "bytes \<Rightarrow> bytes" where
  "escape_html_write [] = []"
| "escape_html_write (ch # src) = html_entity ch @ escape_html_write src"

definition ngx_escape_html :: "bool \<Rightarrow> bytes \<Rightarrow> nat + bytes" where
  "ngx_escape_html dst_null src = (if dst_null then Inl (escape_html_count src) else Inr (escape_html_write src))"

end
