(* ===== verification/Escape_Correct.thy ===== *)
theory Escape_Correct
  imports Ngx_Escape
begin

text \<open>
Correctness of the escaping functions: the sets of characters the tables stand for, the room
  the outputs need, and that unescaping restores what was escaped.
\<close>

section \<open>The tables\<close>

text \<open>
  The characters each type escapes, as the comments above the tables list them.
\<close>

definition high_bytes :: "u_char \<Rightarrow> bool" where
  "high_bytes c \<longleftrightarrow> c < 0x20 \<or> 0x7f \<le> c"

definition escaped_chars :: "nat \<Rightarrow> u_char \<Rightarrow> bool" where
  "escaped_chars ty c \<longleftrightarrow>
    (if ty = NGX_ESCAPE_URI then high_bytes c \<or> c \<in> set (ascii '' #%?'')
     else if ty = NGX_ESCAPE_ARGS then high_bytes c \<or> c \<in> set (ascii '' #%&+;?'')
     else if ty = NGX_ESCAPE_URI_COMPONENT then
       \<not> (is_digit c \<or> is_alpha_lower c \<or> is_alpha_lower (c + 32) \<or> c \<in> set (ascii ''-._~''))
     else if ty = NGX_ESCAPE_HTML then high_bytes c \<or> c \<in> {c_space, c_hash, c_quote, c_percent, 0x27}
     else if ty = NGX_ESCAPE_REFRESH then high_bytes c \<or> c \<in> {c_space, c_quote, 0x27}
     else c < 0x20 \<or> c \<in> {c_space, c_percent})"

lemmas escape_tbl_defs = escape_tbl_uri_def escape_tbl_args_def escape_tbl_uri_component_def
  escape_tbl_html_def escape_tbl_refresh_def escape_tbl_memcached_def

lemma tbl_uri: "bit_table escape_tbl_uri c \<longleftrightarrow> escaped_chars NGX_ESCAPE_URI c"
  by (rule byte_check [where P = "\<lambda>c. bit_table escape_tbl_uri c \<longleftrightarrow> escaped_chars NGX_ESCAPE_URI c"])
    (simp add: bit_table_iff escape_tbl_defs escaped_chars_def high_bytes_def all_bytes_list)

lemma tbl_args: "bit_table escape_tbl_args c \<longleftrightarrow> escaped_chars NGX_ESCAPE_ARGS c"
  by (rule byte_check [where P = "\<lambda>c. bit_table escape_tbl_args c \<longleftrightarrow> escaped_chars NGX_ESCAPE_ARGS c"])
    (simp add: bit_table_iff escape_tbl_defs escaped_chars_def high_bytes_def all_bytes_list)

lemma tbl_uri_component: "bit_table escape_tbl_uri_component c \<longleftrightarrow> escaped_chars NGX_ESCAPE_URI_COMPONENT c"
  by (rule byte_check [where P = "\<lambda>c. bit_table escape_tbl_uri_component c \<longleftrightarrow> escaped_chars NGX_ESCAPE_URI_COMPONENT c"])
    (simp add: bit_table_iff escape_tbl_defs escaped_chars_def high_bytes_def is_digit_def is_alpha_lower_def word_le_nat_alt all_bytes_list)

lemma tbl_html: "bit_table escape_tbl_html c \<longleftrightarrow> escaped_chars NGX_ESCAPE_HTML c"
  by (rule byte_check [where P = "\<lambda>c. bit_table escape_tbl_html c \<longleftrightarrow> escaped_chars NGX_ESCAPE_HTML c"])
    (simp add: bit_table_iff escape_tbl_defs escaped_chars_def high_bytes_def all_bytes_list)

lemma tbl_refresh: "bit_table escape_tbl_refresh c \<longleftrightarrow> escaped_chars NGX_ESCAPE_REFRESH c"
  by (rule byte_check [where P = "\<lambda>c. bit_table escape_tbl_refresh c \<longleftrightarrow> escaped_chars NGX_ESCAPE_REFRESH c"])
    (simp add: bit_table_iff escape_tbl_defs escaped_chars_def high_bytes_def all_bytes_list)

lemma tbl_memcached: "bit_table escape_tbl_memcached c \<longleftrightarrow> escaped_chars NGX_ESCAPE_MEMCACHED c"
  by (rule byte_check [where P = "\<lambda>c. bit_table escape_tbl_memcached c \<longleftrightarrow> escaped_chars NGX_ESCAPE_MEMCACHED c"])
    (simp add: bit_table_iff escape_tbl_defs escaped_chars_def high_bytes_def all_bytes_list)

lemma tbl_mail_auth: "escaped_chars NGX_ESCAPE_MAIL_AUTH = escaped_chars NGX_ESCAPE_MEMCACHED"
  by (simp add: escaped_chars_def fun_eq_iff)

lemma escape_map_iff:
  assumes "ty < 7"
  shows "bit_table (escape_map ! ty) c \<longleftrightarrow> escaped_chars ty c"
proof -
  from assms consider "ty = 0" | "ty = 1" | "ty = 2" | "ty = 3" | "ty = 4" | "ty = 5" | "ty = 6" by linarith
  then show ?thesis
    by cases (simp_all add: escape_map_def tbl_uri tbl_args tbl_uri_component tbl_html tbl_refresh tbl_memcached tbl_mail_auth)
qed

text \<open>Which characters a type escapes, as a reference on the characters, and the escaped text.\<close>

definition escape_char :: "nat \<Rightarrow> u_char \<Rightarrow> bytes" where
  "escape_char ty c =
    (if escaped_chars ty c then [c_percent, hex_chars ! (unat c div 16), hex_chars ! (unat c mod 16)] else [c])"

lemma escape_uri_write_eq: "ty < 7 \<Longrightarrow> escape_uri_write (escape_map ! ty) src = concat (map (escape_char ty) src)"
  by (induction src) (simp_all add: escape_map_iff escape_char_def nibbles)

lemma escape_uri_count_eq: "ty < 7 \<Longrightarrow> escape_uri_count (escape_map ! ty) src = length (filter (escaped_chars ty) src)"
  by (induction src) (simp_all add: escape_map_iff)

lemma length_escape: "length (concat (map (escape_char ty) src)) = length src + 2 * length (filter (escaped_chars ty) src)"
  by (induction src) (simp_all add: escape_char_def)

section \<open>Unescaping\<close>

text \<open>
  The reference for type 0: an escape is its byte; a percent sign before a character that is not
  a hexadecimal digit vanishes; an escape whose second character is not one vanishes whole.
\<close>

fun unquote :: "bytes \<Rightarrow> bytes" where
  "unquote [] = []"
| "unquote (c # cs) =
    (if c \<noteq> c_percent then c # unquote cs
     else
       (case cs of
          [] \<Rightarrow> []
        | a # ds \<Rightarrow>
            if \<not> hex_digit a then a # unquote ds
            else
              (case ds of
                 [] \<Rightarrow> []
               | b # es \<Rightarrow> if hex_digit b then (hex_value a * 16 + hex_value b) # unquote es else unquote es)))"

lemma un_sw_quoted_eq:
  "un_sw_quoted ch s =
    (if hex_digit ch then Inr (s\<lparr>un_decoded := hex_value ch, un_state := UN_quoted_second\<rparr>)
     else Inr (un_put [ch] (s\<lparr>un_state := UN_usual\<rparr>)))"
  by (auto simp: un_sw_quoted_def hex_digit_def hex_value_def Let_def)

lemma un_sw_quoted_second_0:
  "un_decoded s = hex_value a \<Longrightarrow> hex_digit a \<Longrightarrow>
     un_sw_quoted_second 0 ch s =
       Inr ((if hex_digit ch then un_put [hex_value a * 16 + hex_value ch] else id) (s\<lparr>un_state := UN_usual\<rparr>))"
  by (auto simp: un_sw_quoted_second_def hex_digit_def hex_value_def Let_def push_bit_eq_mult algebra_simps)

lemma un_loop_0: "un_state s = UN_usual \<Longrightarrow> \<exists>s'. un_loop 0 src s = (s', []) \<and> un_out s' = un_out s @ unquote src"
proof (induction src arbitrary: s rule: unquote.induct)
  case (2 c cs)
  show ?case
  proof (cases "c = c_percent")
    case False
    then show ?thesis using 2(1) [OF False, of "s\<lparr>un_out := un_out s @ [c], un_before := c\<rparr>"] 2(5)
      by (simp add: un_step_def un_sw_usual_def un_put_def)
  next
    case True
    note pc = this
    have s1: "un_step 0 c s = Inr (s\<lparr>un_state := UN_quoted\<rparr>)" using True 2 by (simp add: un_step_def un_sw_usual_def)
    show ?thesis
    proof (cases cs)
      case Nil
      then show ?thesis using True s1 by simp
    next
      case (Cons a ds)
      show ?thesis
      proof (cases "hex_digit a")
        case False
        then show ?thesis
          using 2(2) [OF _ Cons, of "s\<lparr>un_state := UN_usual, un_out := un_out s @ [a], un_before := a\<rparr>"] True s1 Cons
          by (simp add: un_step_def un_sw_quoted_eq un_put_def)
      next
        case h: True
        show ?thesis
        proof (cases ds)
          case Nil
          then show ?thesis using True s1 h Cons by (simp add: un_step_def un_sw_quoted_eq)
        next
          case c2: (Cons b es)
          let ?s2 = "s\<lparr>un_decoded := hex_value a, un_state := UN_quoted_second, un_before := a\<rparr>"
          let ?s3 = "(if hex_digit b then un_put [hex_value a * 16 + hex_value b] else id) (?s2\<lparr>un_state := UN_usual\<rparr>)\<lparr>un_before := b\<rparr>"
          have "un_loop 0 (c # cs) s = un_loop 0 (b # es) ?s2"
            using True s1 h Cons c2 by (simp add: un_step_def un_sw_quoted_eq)
          also have "un_step 0 b ?s2 = Inr ((if hex_digit b then un_put [hex_value a * 16 + hex_value b] else id) (?s2\<lparr>un_state := UN_usual\<rparr>))"
            by (simp add: un_step_def un_sw_quoted_second_0 [of _ a] h)
          then have "un_loop 0 (b # es) ?s2 = un_loop 0 es ?s3"
            by simp
          finally have run: "un_loop 0 (c # cs) s = un_loop 0 es ?s3" .
          have "un_state ?s3 = UN_usual" by (simp add: un_put_def)
          then obtain s' where "un_loop 0 es ?s3 = (s', [])" "un_out s' = un_out ?s3 @ unquote es"
            using 2(3) [OF _ Cons _ c2, of ?s3] 2(4) [OF _ Cons _ c2, of ?s3] True h by blast
          then show ?thesis using run True h Cons c2 by (simp add: un_put_def)
        qed
      qed
    qed
  qed
qed simp

lemma ngx_unescape_uri_0: "ngx_unescape_uri src 0 = (unquote src, length src)"
  using un_loop_0 [of "\<lparr>un_state = UN_usual, un_decoded = 0, un_before = 0, un_out = []\<rparr>" src]
  by (auto simp: ngx_unescape_uri_def)

lemma unquote_escape:
  assumes "escaped_chars ty c_percent"
  shows "unquote (concat (map (escape_char ty) src)) = src"
proof (induction src)
  case (Cons c src)
  note h = hex_chars_byte [of c, unfolded nibbles]
  show ?case using Cons h assms by (auto simp: escape_char_def)
qed simp

section \<open>The room the output needs\<close>

fun un_pending :: "un_state \<Rightarrow> nat" where
  "un_pending UN_usual = 0"
| "un_pending UN_quoted = 1"
| "un_pending UN_quoted_second = 2"

lemma un_step_length:
  "case un_step ty ch s of
     Inl s' \<Rightarrow> length (un_out s') \<le> length (un_out s) + un_pending (un_state s) + 1
   | Inr s' \<Rightarrow> length (un_out s') + un_pending (un_state s') \<le> length (un_out s) + un_pending (un_state s) + 1"
  by (cases "un_state s") (auto simp: un_step_def un_sw_usual_def un_sw_quoted_def un_sw_quoted_second_def un_put_def Let_def)

lemma un_loop_length:
  "un_loop ty src s = (s', rest) \<Longrightarrow>
     length rest \<le> length src \<and> length (un_out s') + length rest \<le> length (un_out s) + un_pending (un_state s) + length src"
proof (induction ty src s rule: un_loop.induct)
  case (2 ty ch src s)
  note l = un_step_length [where ty = ty and ch = ch and s = s]
  show ?case
  proof (cases "un_step ty ch s")
    case (Inl t)
    then show ?thesis using 2 l by auto
  next
    case (Inr t)
    then show ?thesis using 2(1) [OF Inr] 2(2) l by auto
  qed
qed simp

section \<open>HTML\<close>

text \<open>A reader of the four entities; any other ampersand stands for itself.\<close>

function html_decode :: "bytes \<Rightarrow> bytes" where
  "html_decode [] = []"
| "html_decode (c # cs) =
    (if c = c_amp \<and> take 3 cs = ascii ''lt;'' then c_lt # html_decode (drop 3 cs)
     else if c = c_amp \<and> take 3 cs = ascii ''gt;'' then c_gt # html_decode (drop 3 cs)
     else if c = c_amp \<and> take 4 cs = ascii ''amp;'' then c_amp # html_decode (drop 4 cs)
     else if c = c_amp \<and> take 5 cs = ascii ''quot;'' then c_quote # html_decode (drop 5 cs)
     else c # html_decode cs)"
  by pat_completeness auto
termination
  by (relation "measure length") auto

lemma html_decode_entity: "html_decode (html_entity c @ cs) = c # html_decode cs"
  by (auto simp: html_entity_def)

lemma html_decode_write: "html_decode (escape_html_write src) = src"
  by (induction src) (simp_all add: html_decode_entity)

lemma length_escape_html: "length (escape_html_write src) = length src + escape_html_count src"
  by (induction src) (auto simp: html_entity_def)

lemma escape_html_no_markup: "c \<in> set (escape_html_write src) \<Longrightarrow> c \<notin> {c_lt, c_gt, c_quote}"
  by (induction src) (auto simp: html_entity_def split: if_splits)

section \<open>Correctness\<close>


text \<open>
  Unescaping never needs more room than its source, for any type: not more bytes are
  written than have been read, so that the caller's copy of \<open>size\<close> bytes is enough and source
  and destination may be the same. With type 0 all of the source is read and the bytes written
  are the reference's.
\<close>
lemma unescape_uri_fits:
  "(\<exists>out n. ngx_unescape_uri src ty = (out, n) \<and> length out \<le> n \<and> n \<le> length src) \<and>
   ngx_unescape_uri src 0 = (unquote src, length src)"
proof -
  let ?s = "\<lparr>un_state = UN_usual, un_decoded = 0, un_before = 0, un_out = []\<rparr>"
  obtain s rest where l: "un_loop ty src ?s = (s, rest)" by (cases "un_loop ty src ?s")
  from un_loop_length [OF l] have "\<exists>out n. ngx_unescape_uri src ty = (out, n) \<and> length out \<le> n \<and> n \<le> length src"
    by (auto simp: ngx_unescape_uri_def l)
  then show ?thesis by (simp add: ngx_unescape_uri_0)
qed

text \<open>
  Claim C25: What has been escaped with a type that escapes the percent sign, all but
  \<open>NGX_ESCAPE_REFRESH\<close>, is restored by unescaping; a percent sign escaped as a refresh target is
  not: \<open>%41\<close> comes back as \<open>A\<close>.
\<close>
theorem escape_uri_roundtrip:
  "(\<forall>ty \<in> {NGX_ESCAPE_URI, NGX_ESCAPE_ARGS, NGX_ESCAPE_URI_COMPONENT, NGX_ESCAPE_HTML, NGX_ESCAPE_MEMCACHED, NGX_ESCAPE_MAIL_AUTH}.
      \<exists>text. ngx_escape_uri False src ty = Some (Inr text) \<and> ngx_unescape_uri text 0 = (src, length text)) \<and>
   ngx_escape_uri False (ascii ''%41'') NGX_ESCAPE_REFRESH = Some (Inr (ascii ''%41'')) \<and> ngx_unescape_uri (ascii ''%41'') 0 = (ascii ''A'', 3)"
proof -
  have "\<exists>text. ngx_escape_uri False src ty = Some (Inr text) \<and> ngx_unescape_uri text 0 = (src, length text)"
    if "ty < 7" "escaped_chars ty c_percent" for ty
    using that escape_uri_write_eq [OF that(1), of src] unquote_escape [OF that(2), of src]
    by (simp add: ngx_escape_uri_def ngx_unescape_uri_0 escape_map_def [THEN arg_cong [where f = length]])
  moreover have "escaped_chars ty c_percent" if "ty \<in> {0, 1, 2, 3, 5, 6}" for ty
    using that by (auto simp: escaped_chars_def is_digit_def is_alpha_lower_def)
  ultimately have "\<forall>ty \<in> {NGX_ESCAPE_URI, NGX_ESCAPE_ARGS, NGX_ESCAPE_URI_COMPONENT, NGX_ESCAPE_HTML, NGX_ESCAPE_MEMCACHED, NGX_ESCAPE_MAIL_AUTH}.
      \<exists>text. ngx_escape_uri False src ty = Some (Inr text) \<and> ngx_unescape_uri text 0 = (src, length text)"
    by simp
  moreover have "ngx_escape_uri False (ascii ''%41'') NGX_ESCAPE_REFRESH = Some (Inr (ascii ''%41''))"
    "ngx_unescape_uri (ascii ''%41'') 0 = (ascii ''A'', 3)" by code_simp+
  ultimately show ?thesis by blast
qed

theorem escape_uri_roundtrip_witness:
  "\<exists>text. ngx_escape_uri False (ascii ''a b%?'') NGX_ESCAPE_URI = Some (Inr text) \<and> ngx_unescape_uri text 0 = (ascii ''a b%?'', length text)"
  using escape_uri_roundtrip [of "ascii ''a b%?''"] by blast

text \<open>
  Text escaped for HTML holds no angle bracket and no double quote, its length is that
  of the source plus the count returned for a null destination, and reading the entities gives
  the source back.
\<close>
lemma escape_html_safe:
  "\<exists>text. ngx_escape_html False src = Inr text \<and> ngx_escape_html True src = Inl (length text - length src) \<and>
     set text \<inter> {c_lt, c_gt, c_quote} = {} \<and> html_decode text = src"
  using escape_html_no_markup [of _ src] by (auto simp: ngx_escape_html_def length_escape_html html_decode_write)

end
