(* ===== verification/Http_Args.thy ===== *)
theory Http_Args
  imports Ngx_Compare Http_Common Ngx_Escape
begin

text \<open>
Query arguments, header values with parameters and URIs given by a trusted source: \<open>ngx_http_arg\<close>,
  \<open>ngx_http_split_args\<close>, \<open>ngx_http_parse_multi_header_lines\<close> and \<open>ngx_http_parse_unsafe_uri\<close> of
  \<open>http/ngx_http_parse.c\<close>.
\<close>

section \<open>Query arguments\<close>

text \<open>
  \<open>ngx_http_arg\<close>: \<open>args\<close> is the string \<open>r->args\<close>, \<open>p\<close> an offset in it, \<open>name\<close> at least \<open>len\<close>
  bytes. The result is the value; \<open>Some None\<close> is \<open>NGX_DECLINED\<close>, \<open>None\<close> a read out of bounds or
  a negative length.
\<close>

function http_arg_loop :: "bytes \<Rightarrow> bytes \<Rightarrow> nat \<Rightarrow> nat \<Rightarrow> bytes option option" where
  "http_arg_loop args name len p =
    (if p < length args then
       (case ngx_strlcasestrn (drop p args) (length args - 1 - p) name (len - 1) of
          None \<Rightarrow> None
        | Some None \<Rightarrow> Some None
        | Some (Some k) \<Rightarrow>
            (let p' = p + k in
             if length args \<le> p' + len then None
             else if (p' = 0 \<or> args ! (p' - 1) = c_amp) \<and> args ! (p' + len) = c_eq then
               (let v = p' + len + 1 in
                case ngx_strlchr (drop p' args) (length args - p') c_amp of
                  None \<Rightarrow> None
                | Some None \<Rightarrow> Some (Some (drop v args))
                | Some (Some n) \<Rightarrow> if p' + n < v then None else Some (Some (cut args v (p' + n))))
             else http_arg_loop args name len (p' + 1)))
     else Some None)"
  by pat_completeness auto
termination
  by (relation "measure (\<lambda>(args, name, len, p). length args - p)") auto

declare http_arg_loop.simps [simp del]

definition ngx_http_arg :: "bytes \<Rightarrow> bytes \<Rightarrow> nat \<Rightarrow> bytes option option" where
  "ngx_http_arg args name len = (if args = [] then Some None else http_arg_loop args name len 0)"

text \<open>\<open>ngx_http_split_args\<close>: the new \<open>uri\<close> and \<open>args\<close>.\<close>

definition ngx_http_split_args :: "bytes \<Rightarrow> (bytes \<times> bytes) option" where
  "ngx_http_split_args uri =
    (case ngx_strlchr uri (length uri) c_quest of
       None \<Rightarrow> None
     | Some None \<Rightarrow> Some (uri, [])
     | Some (Some p) \<Rightarrow> Some (take p uri, drop (p + 1) uri))"

section \<open>Header values with parameters\<close>

text \<open>
  \<open>ngx_http_parse_multi_header_lines\<close>. A header value is the memory from \<open>value.data\<close> on and the
  length \<open>e\<close> of the value; \<open>start\<close> is an offset. The comparison with the name may read past the
  value, and \<open>start\<close> may then lie beyond \<open>e\<close>.
\<close>

definition mh_spaces :: "bytes \<Rightarrow> nat \<Rightarrow> nat \<Rightarrow> nat" where
  "mh_spaces m e p = p + length (takeWhile (\<lambda>c. c = c_space) (cut m p e))"

text \<open>The label \<open>skip\<close>.\<close>

definition mh_skip :: "bytes \<Rightarrow> nat \<Rightarrow> nat \<Rightarrow> nat" where
  "mh_skip m e p =
    (let q = p + length (takeWhile (\<lambda>c. c \<noteq> c_semi \<and> c \<noteq> c_comma) (cut m p e))
     in mh_spaces m e (if q < e then q + 1 else q))"

text \<open>
  What a turn of the loop does: return with a value (empty when \<open>value\<close> is null), go to \<open>skip\<close>
  from a position, or read out of bounds.
\<close>

datatype mh_out = MH_return bytes | MH_goto_skip nat | MH_fault

definition mh_turn :: "bytes \<Rightarrow> bool \<Rightarrow> bytes \<Rightarrow> nat \<Rightarrow> nat \<Rightarrow> mh_out" where
  "mh_turn name value_null m e start =
    (case ngx_strncasecmp (drop start m) name (length name) of
       None \<Rightarrow> MH_fault
     | Some r \<Rightarrow>
         if r \<noteq> 0 then MH_goto_skip start
         else
           (let p = mh_spaces m e (start + length name) in
            if p = e then (if value_null then MH_return [] else MH_goto_skip p)
            else if length m \<le> p then MH_fault
            else if value_null then (if m ! p = c_comma then MH_return [] else MH_goto_skip p)
            else if m ! p \<noteq> c_eq then MH_goto_skip (p + 1)
            else
              (let v = mh_spaces m e (p + 1)
               in MH_return (takeWhile (\<lambda>c. c \<noteq> c_semi) (cut m v e)))))"

lemma mh_spaces_ge: "p \<le> mh_spaces m e p"
  by (simp add: mh_spaces_def)

lemma mh_skip_gt: "p < e \<Longrightarrow> p < mh_skip m e p"
  using mh_spaces_ge [of "let q = p + length (takeWhile (\<lambda>c. c \<noteq> c_semi \<and> c \<noteq> c_comma) (cut m p e)) in if q < e then q + 1 else q" m e]
  by (auto simp: mh_skip_def Let_def split: if_splits)

lemma mh_skip_ge: "p \<le> mh_skip m e p"
  by (auto simp: mh_skip_def Let_def intro: order_trans [OF _ mh_spaces_ge])

lemma mh_turn_skip: "mh_turn name vn m e start = MH_goto_skip p \<Longrightarrow> start \<le> p"
  using mh_spaces_ge [of "start + length name" m e] by (auto simp: mh_turn_def Let_def split: option.splits if_splits)

text \<open>The loop over one value; \<open>Some None\<close>: not found, \<open>None\<close>: a read out of bounds.\<close>

function mh_value :: "bytes \<Rightarrow> bool \<Rightarrow> bytes \<Rightarrow> nat \<Rightarrow> nat \<Rightarrow> bytes option option" where
  "mh_value name value_null m e start =
    (if start < e then
       (case mh_turn name value_null m e start of
          MH_fault \<Rightarrow> None
        | MH_return v \<Rightarrow> Some (Some v)
        | MH_goto_skip p \<Rightarrow> mh_value name value_null m e (mh_skip m e p))
     else Some None)"
  by pat_completeness auto
termination
proof (relation "measure (\<lambda>(name, value_null, m, e, start). e - start)")
  fix name value_null m e start p
  assume a: "start < e" "mh_turn name value_null m e start = MH_goto_skip p"
  have "start < mh_skip m e p"
    using mh_turn_skip [OF a(2)] mh_skip_gt [of p e m] mh_skip_ge [of p m e] a(1) by (cases "p < e") auto
  with a(1) show "((name, value_null, m, e, mh_skip m e p), (name, value_null, m, e, start)) \<in> measure (\<lambda>(name, value_null, m, e, start). e - start)"
    by auto
qed simp

declare mh_value.simps [simp del]

text \<open>The loop over the headers; the result is the index returned and the value.\<close>

fun mh_headers :: "bytes \<Rightarrow> bool \<Rightarrow> nat \<Rightarrow> (bytes \<times> nat) list \<Rightarrow> (nat \<times> bytes) option option" where
  "mh_headers name value_null i [] = Some None"
| "mh_headers name value_null i ((m, e) # hs) =
    (if e < length name then mh_headers name value_null (i + 1) hs
     else
       (case mh_value name value_null m e 0 of
          None \<Rightarrow> None
        | Some (Some v) \<Rightarrow> Some (Some (i, v))
        | Some None \<Rightarrow> mh_headers name value_null (i + 1) hs))"

definition ngx_http_parse_multi_header_lines :: "bytes \<Rightarrow> bool \<Rightarrow> (bytes \<times> nat) list \<Rightarrow> (nat \<times> bytes) option option" where
  "ngx_http_parse_multi_header_lines name value_null headers = mh_headers name value_null 0 headers"

section \<open>URIs from a trusted source\<close>

text \<open>
  \<open>ngx_http_parse_unsafe_uri\<close>: both scans look for a double dot segment after a slash. \<open>at\<close> is
  \<open>p[k] == c\<close>; the code reads \<open>p[0]\<close> to \<open>p[2]\<close> only inside the string, which the lists reflect.
\<close>

definition dot_dot_at :: "bytes \<Rightarrow> bool" where
  "dot_dot_at p \<longleftrightarrow>
     (case p of
        a # b # r \<Rightarrow> a = c_dot \<and> b = c_dot \<and> (r = [] \<or> hd r = c_slash)
      | _ \<Rightarrow> False)"

datatype un_uri_out = UU_ok bool | UU_args bool bytes bytes | UU_unsafe

text \<open>
  The first loop over the rest of the string, with the part passed: \<open>UU_args\<close> is the \<open>break\<close> at a
  question mark, with the URI before it and the arguments after; the flag is \<open>quoted\<close>.
\<close>

fun unsafe_scan :: "bytes \<Rightarrow> bool \<Rightarrow> bytes \<Rightarrow> un_uri_out" where
  "unsafe_scan before quoted [] = UU_ok quoted"
| "unsafe_scan before quoted (ch # p) =
    (if ch = c_percent then unsafe_scan (before @ [ch]) True p
     else if usual ch then unsafe_scan (before @ [ch]) quoted p
     else if ch = c_quest then UU_args quoted before p
     else if ch = c_NUL then UU_unsafe
     else if ch = c_slash \<and> 2 < length (ch # p) \<and> dot_dot_at p then UU_unsafe
     else unsafe_scan (before @ [ch]) quoted p)"

text \<open>The second loop, over the unescaped URI.\<close>

fun unsafe_rescan :: "bytes \<Rightarrow> bool" where
  "unsafe_rescan [] = True"
| "unsafe_rescan (ch # p) =
    (if ch = c_NUL then False
     else if ch = c_slash \<and> 2 < length (ch # p) \<and> dot_dot_at p then False
     else unsafe_rescan p)"

text \<open>
  \<open>Inr\<close> is \<open>NGX_OK\<close> with the new URI and the arguments (\<open>None\<close>: left as they were), \<open>Inl\<close> an error,
  which a failed allocation also gives.
\<close>

definition ngx_http_parse_unsafe_uri :: "bool \<Rightarrow> bytes \<Rightarrow> int + bytes \<times> bytes option" where
  "ngx_http_parse_unsafe_uri pnalloc uri =
    (if uri = [] \<or> hd uri = c_quest then Inl NGX_ERROR
     else if dot_dot_at uri then Inl NGX_ERROR
     else
       (let finish = (\<lambda>quoted uri args.
              if quoted then
                (if \<not> pnalloc then Inl NGX_ERROR
                 else
                   (let uri = fst (ngx_unescape_uri uri 0) in
                    if dot_dot_at uri \<or> \<not> unsafe_rescan uri then Inl NGX_ERROR else Inr (uri, args)))
              else Inr (uri, args))
        in case unsafe_scan [] False uri of
             UU_unsafe \<Rightarrow> Inl NGX_ERROR
           | UU_ok quoted \<Rightarrow> finish quoted uri None
           | UU_args quoted before args \<Rightarrow> finish quoted before (Some args)))"

end
