(* ===== verification/Http_Args_Correct.thy ===== *)
theory Http_Args_Correct
  imports Http_Args Complex_Uri_Correct
begin

text \<open>
What the functions of \<open>Http_Args\<close> find: the value of an argument, the value of a parameter in a
  header, and that an unsafe URI that is accepted has no double dot segment.
\<close>

section \<open>Unsafe URIs\<close>

lemma dot_dot_at_split: "dot_dot_at p \<longleftrightarrow> hd (split_slash p) = dot_dot"
proof -
  have h: "hd (split_slash r) = [] \<longleftrightarrow> r = [] \<or> hd r = c_slash" for r
    by (cases r) (auto split: list.splits)
  have c: "hd (split_slash (a # r)) = (if a = c_slash then [] else a # hd (split_slash r))" for a r
    by (auto split: list.splits)
  show ?thesis
    by (cases p rule: list.exhaust [OF _ list.exhaust]) (auto simp: dot_dot_at_def c h dot_dot_def simp del: split_slash.simps(2) split: list.splits)
qed

lemma split_slash_tl: "tl (split_slash (ch # p)) = (if ch = c_slash then split_slash p else tl (split_slash p))"
  by (auto split: list.splits)

lemma unsafe_rescan_iff:
  "unsafe_rescan p \<longleftrightarrow> c_NUL \<notin> set p \<and> dot_dot \<notin> set (tl (split_slash p))"
proof (induction p)
  case (Cons ch p)
  have "dot_dot_at p \<Longrightarrow> 2 < length (ch # p)" by (auto simp: dot_dot_at_def split: list.splits)
  moreover have "split_slash p = hd (split_slash p) # tl (split_slash p)" by simp
  then have "dot_dot \<in> set (split_slash p) \<longleftrightarrow> dot_dot_at p \<or> dot_dot \<in> set (tl (split_slash p))"
    by (metis dot_dot_at_split list.set_intros(1) set_ConsD list.set_intros(2))
  ultimately show ?case using Cons by (auto simp: split_slash_tl simp del: split_slash.simps(2))
qed simp

lemma segments_ok: "\<not> dot_dot_at p \<Longrightarrow> unsafe_rescan p \<Longrightarrow> c_NUL \<notin> set p \<and> dot_dot \<notin> set (split_slash p)"
  by (metis unsafe_rescan_iff dot_dot_at_split list.collapse set_ConsD split_slash_not_Nil)

lemma unsafe_scan_ok:
  "unsafe_scan before q p = UU_ok q' \<Longrightarrow> unsafe_rescan p"
  by (induction before q p rule: unsafe_scan.induct) (auto simp: usual_iff' split: if_splits)

lemma split_slash_hd_append: "tl (split_slash u) \<noteq> [] \<Longrightarrow> hd (split_slash (u @ xs)) = hd (split_slash u)"
proof (induction u)
  case (Cons c u)
  obtain s ss where ss: "split_slash u = s # ss" by (cases "split_slash u") simp_all
  obtain t ts where ts: "split_slash (u @ xs) = t # ts" by (cases "split_slash (u @ xs)") simp_all
  show ?case using Cons ss ts by auto
qed simp

text \<open>Cut at a question mark, only the last segment before it has not been looked at.\<close>

lemma unsafe_scan_args:
  "unsafe_scan before q p = UU_args q' u args \<Longrightarrow>
     \<exists>v. u = before @ v \<and> p = v @ c_quest # args \<and> c_NUL \<notin> set v \<and> dot_dot \<notin> set (butlast (tl (split_slash v)))"
proof (induction before q p rule: unsafe_scan.induct)
  case (2 before q ch p)
  show ?case
  proof (cases "ch = c_quest")
    case True
    then show ?thesis using 2(4) by (simp add: usual_iff')
  next
    case False
    then obtain q'' where go: "unsafe_scan (before @ [ch]) q'' p = UU_args q' u args" "ch \<noteq> c_NUL"
      and safe: "ch = c_slash \<Longrightarrow> \<not> (2 < length (ch # p) \<and> dot_dot_at p)"
      using 2(4) by (cases "ch = c_percent"; cases "usual ch") (auto simp: usual_iff' split: if_splits)
    have "\<exists>v. u = (before @ [ch]) @ v \<and> p = v @ c_quest # args \<and> c_NUL \<notin> set v \<and> dot_dot \<notin> set (butlast (tl (split_slash v)))"
    proof (cases "ch = c_percent")
      case True
      then show ?thesis using 2(1) 2(4) by simp
    next
      case np: False
      show ?thesis using 2(2) [OF np] 2(3) [OF np _ False go(2)] 2(4) np False go(2) safe
        by (auto split: if_splits)
    qed
    then obtain v where v: "u = (before @ [ch]) @ v" "p = v @ c_quest # args" "c_NUL \<notin> set v" "dot_dot \<notin> set (butlast (tl (split_slash v)))"
      by blast
    have "dot_dot \<notin> set (butlast (tl (split_slash (ch # v))))"
    proof (cases "ch = c_slash \<and> tl (split_slash v) \<noteq> []")
      case True
      have "2 < length (ch # p) \<or> \<not> dot_dot_at p" by (auto simp: dot_dot_at_def split: list.splits)
      then have "\<not> dot_dot_at p" using safe True by blast
      then have "hd (split_slash v) \<noteq> dot_dot" using v(2) split_slash_hd_append [of v] True by (simp add: dot_dot_at_split)
      moreover have "split_slash v = hd (split_slash v) # tl (split_slash v)" by simp
      ultimately show ?thesis using v(4) True by (metis butlast.simps(2) set_ConsD split_slash_tl)
    next
      case False
      then show ?thesis using v(4) by (cases "split_slash v") (auto simp: split_slash_tl simp del: split_slash.simps(2))
    qed
    then show ?thesis using v go(2) by (intro exI [of _ "ch # v"]) auto
  qed
qed simp

lemma unsafe_uri_spec:
  assumes "ngx_http_parse_unsafe_uri pnalloc uri = Inr (u, args)"
  shows "c_NUL \<notin> set u" and "dot_dot \<notin> set (butlast (split_slash u))" and "args = None \<Longrightarrow> dot_dot \<notin> set (split_slash u)"
proof -
  have start: "\<not> dot_dot_at uri" using assms by (auto simp: ngx_http_parse_unsafe_uri_def split: if_splits)
  have q: "\<not> dot_dot_at u \<and> unsafe_rescan u" if "quoted" and
    "(if quoted then (if \<not> pnalloc then Inl NGX_ERROR
       else (let uri = fst (ngx_unescape_uri uri' 0) in if dot_dot_at uri \<or> \<not> unsafe_rescan uri then Inl NGX_ERROR else Inr (uri, a)))
      else Inr (uri', a)) = Inr (u, args)" for quoted uri' a
    using that by (auto simp: Let_def split: if_splits)
  have "c_NUL \<notin> set u \<and> dot_dot \<notin> set (butlast (split_slash u)) \<and> (args = None \<longrightarrow> dot_dot \<notin> set (split_slash u))"
  proof (cases "unsafe_scan [] False uri")
    case (UU_ok quoted)
    have "\<not> dot_dot_at u \<and> unsafe_rescan u"
    proof (cases quoted)
      case True
      then show ?thesis using assms UU_ok q [of quoted uri None] by (auto simp: ngx_http_parse_unsafe_uri_def split: if_splits)
    next
      case False
      then show ?thesis using assms UU_ok start unsafe_scan_ok [OF UU_ok] by (auto simp: ngx_http_parse_unsafe_uri_def split: if_splits)
    qed
    then show ?thesis using segments_ok [of u] by (auto dest: in_set_butlastD)
  next
    case (UU_args quoted before a)
    show ?thesis
    proof (cases quoted)
      case True
      then have "\<not> dot_dot_at u \<and> unsafe_rescan u"
        using assms UU_args q [of quoted before "Some a"] by (auto simp: ngx_http_parse_unsafe_uri_def split: if_splits)
      then show ?thesis using segments_ok [of u] by (auto dest: in_set_butlastD)
    next
      case False
      then have u: "u = before" "args = Some a" using assms UU_args by (auto simp: ngx_http_parse_unsafe_uri_def split: if_splits)
      from unsafe_scan_args [OF UU_args] have v: "uri = u @ c_quest # a" "c_NUL \<notin> set u" "dot_dot \<notin> set (butlast (tl (split_slash u)))"
        by (auto simp: u)
      have "dot_dot \<notin> set (butlast (split_slash u))"
      proof (cases "tl (split_slash u) = []")
        case True
        then show ?thesis by (cases "split_slash u") auto
      next
        case False
        then have "hd (split_slash u) \<noteq> dot_dot" using start split_slash_hd_append [OF False, of "c_quest # a"] by (simp add: v(1) dot_dot_at_split)
        moreover have "split_slash u = hd (split_slash u) # tl (split_slash u)" by simp
        ultimately show ?thesis using v(3) False by (metis butlast.simps(2) set_ConsD)
      qed
      then show ?thesis using v(2) u(2) by simp
    qed
  next
    case UU_unsafe
    then show ?thesis using assms by (auto simp: ngx_http_parse_unsafe_uri_def split: if_splits)
  qed
  then show "c_NUL \<notin> set u" "dot_dot \<notin> set (butlast (split_slash u))" "args = None \<Longrightarrow> dot_dot \<notin> set (split_slash u)" by auto
qed

text \<open>
  Claim C27: A URI that passes \<open>ngx_http_parse_unsafe_uri\<close> holds no null byte and no double dot
  segment, whether it was quoted or not, with one exception: the segment before a question mark
  is not looked at unless the URI is quoted, so \<open>/a/..?x\<close> is accepted as the URI \<open>/a/..\<close>.
\<close>
theorem unsafe_uri_contained:
  assumes "ngx_http_parse_unsafe_uri pnalloc uri = Inr (u, args)"
  shows "c_NUL \<notin> set u \<and> dot_dot \<notin> set (butlast (split_slash u)) \<and> (args = None \<longrightarrow> dot_dot \<notin> set (split_slash u)) \<and>
    ngx_http_parse_unsafe_uri True (ascii ''/a/..?x'') = Inr (ascii ''/a/..'', Some (ascii ''x''))"
proof -
  have "ngx_http_parse_unsafe_uri True (ascii ''/a/..?x'') = Inr (ascii ''/a/..'', Some (ascii ''x''))" by code_simp
  then show ?thesis using unsafe_uri_spec [OF assms] by blast
qed

theorem unsafe_uri_contained_witness:
  "ngx_http_parse_unsafe_uri True (ascii ''/a%2e/b'') = Inr (ascii ''/a./b'', None) \<and> dot_dot \<notin> set (split_slash (ascii ''/a./b''))"
proof -
  have e: "ngx_http_parse_unsafe_uri True (ascii ''/a%2e/b'') = Inr (ascii ''/a./b'', None)" by code_simp
  from unsafe_uri_contained [OF e] e show ?thesis by simp
qed

section \<open>Searching without regard to case\<close>

definition same_case :: "bytes \<Rightarrow> bytes \<Rightarrow> bool" where
  "same_case xs ys \<longleftrightarrow> map ngx_tolower xs = map ngx_tolower ys"

lemma tolower_NUL [simp]: "ngx_tolower c = c_NUL \<longleftrightarrow> c = c_NUL"
  by (rule byte_check [where P = "\<lambda>c. ngx_tolower c = c_NUL \<longleftrightarrow> c = c_NUL"]) (simp add: ngx_tolower_def all_bytes_list word_le_nat_alt)

lemma byte_diff_0 [simp]: "byte_diff a b = 0 \<longleftrightarrow> a = b"
  by (simp add: byte_diff_def word_uint_eq_iff)

lemma strncasecmp_spec:
  "n \<le> length s1 \<Longrightarrow> n \<le> length s2 \<Longrightarrow> c_NUL \<notin> set (take n s2) \<Longrightarrow>
     \<exists>r. ngx_strncasecmp s1 s2 n = Some r \<and> (r = 0 \<longleftrightarrow> same_case (take n s1) (take n s2))"
proof (induction s1 s2 n rule: ngx_strncasecmp.induct)
  case (2 a s1 b s2 n)
  then have "b \<noteq> c_NUL" by auto
  then have "ngx_tolower b \<noteq> c_NUL" by simp
  with 2 show ?case by (cases "ngx_tolower a = ngx_tolower b") (auto simp: same_case_def Let_def)
qed (auto simp: same_case_def)

definition case_at :: "u_char \<Rightarrow> bytes \<Rightarrow> bytes \<Rightarrow> nat \<Rightarrow> bool" where
  "case_at c2 s2 s1 j \<longleftrightarrow> ngx_tolower (s1 ! j) = c2 \<and> same_case (take (length s2) (drop (Suc j) s1)) s2"

lemma strlcasestrn_loop_spec:
  assumes "m + n \<le> length s1" and "n \<le> length s2" and "c_NUL \<notin> set (take n s2)"
  shows "\<exists>res. strlcasestrn_loop c2 s2 n s1 i m = Some res \<and>
    (case res of
       None \<Rightarrow> \<forall>j < m. \<not> case_at c2 (take n s2) s1 j
     | Some k \<Rightarrow> i \<le> k \<and> k - i < m \<and> case_at c2 (take n s2) s1 (k - i) \<and> (\<forall>j < k - i. \<not> case_at c2 (take n s2) s1 j))"
  using assms
proof (induction c2 s2 n s1 i m rule: strlcasestrn_loop.induct)
  case (3 c2 s2 n a s1 i m)
  have len: "n \<le> length s1" "m + n \<le> length s1" using 3(3) by auto
  obtain r where r: "ngx_strncasecmp s1 s2 n = Some r" "r = 0 \<longleftrightarrow> same_case (take n s1) (take n s2)"
    using strncasecmp_spec [OF len(1) 3(4,5)] by blast
  have min: "min (length s2) n = n" using 3(4) by simp
  show ?case
  proof (cases "case_at c2 (take n s2) (a # s1) 0")
    case True
    then show ?thesis using r min by (auto simp: case_at_def)
  next
    case False
    have run: "strlcasestrn_loop c2 s2 n (a # s1) i (Suc m) = strlcasestrn_loop c2 s2 n s1 (Suc i) m"
      using False r min by (auto simp: case_at_def)
    obtain res where res: "strlcasestrn_loop c2 s2 n s1 (Suc i) m = Some res" 
      "case res of
       None \<Rightarrow> \<forall>j < m. \<not> case_at c2 (take n s2) s1 j
     | Some k \<Rightarrow> Suc i \<le> k \<and> k - Suc i < m \<and> case_at c2 (take n s2) s1 (k - Suc i) \<and> (\<forall>j < k - Suc i. \<not> case_at c2 (take n s2) s1 j)"
      using 3(1) [OF _ len(2) 3(4,5)] 3(2) [OF _ r(1) _ len(2) 3(4,5)] False r min
      by (cases "ngx_tolower a = c2") (auto simp: case_at_def)
    have "case_at c2 (take n s2) (a # s1) (Suc j) = case_at c2 (take n s2) s1 j" for j by (simp add: case_at_def)
    note shift = this
    have none: "(\<forall>j < Suc k. \<not> case_at c2 (take n s2) (a # s1) j) \<longleftrightarrow> (\<forall>j < k. \<not> case_at c2 (take n s2) s1 j)" for k
      using False shift by (auto simp: less_Suc_eq_0_disj)
    show ?thesis
    proof (cases res)
      case None
      then show ?thesis using run res none [of m] by simp
    next
      case (Some k)
      then have "k - i = Suc (k - Suc i)" "i \<le> k" using res(2) by auto
      then show ?thesis using run res none [of "k - Suc i"] shift Some by simp
    qed
  qed
qed auto

section \<open>Query arguments\<close>

text \<open>An argument with the name, in any case, stands at \<open>q\<close>: at the start or after an ampersand.\<close>

definition arg_at :: "bytes \<Rightarrow> bytes \<Rightarrow> nat \<Rightarrow> bool" where
  "arg_at args name q \<longleftrightarrow> q + length name < length args \<and> (q = 0 \<or> args ! (q - 1) = c_amp) \<and>
     same_case (cut args q (q + length name)) name \<and> args ! (q + length name) = c_eq"

definition name_at :: "bytes \<Rightarrow> bytes \<Rightarrow> nat \<Rightarrow> bool" where
  "name_at args name q \<longleftrightarrow> q + length name < length args \<and> same_case (cut args q (q + length name)) name"

lemma strlcasestrn_name:
  assumes "name \<noteq> []" "c_NUL \<notin> set name" "p < length args"
  shows "\<exists>res. ngx_strlcasestrn (drop p args) (length args - 1 - p) name (length name - 1) = Some res \<and>
    (case res of
       None \<Rightarrow> \<forall>q \<ge> p. \<not> name_at args name q
     | Some k \<Rightarrow> name_at args name (p + k) \<and> (\<forall>q \<ge> p. q < p + k \<longrightarrow> \<not> name_at args name q))"
proof -
  obtain c s2 where name: "name = c # s2" using assms(1) by (cases name) auto
  let ?m = "length args - 1 - p - length s2"
  have at: "name_at args name (p + j) \<longleftrightarrow> j < ?m \<and> case_at (ngx_tolower c) s2 (drop p args) j" for j
  proof -
    have "j < ?m \<longleftrightarrow> p + j + length name < length args" using assms(3) by (auto simp: name)
    moreover have "cut args (p + j) (p + j + length name) = args ! (p + j) # take (length s2) (drop (Suc (p + j)) args)"
      if "p + j + length name < length args"
      using that by (simp add: cut_def name Cons_nth_drop_Suc [symmetric])
    ultimately show ?thesis by (auto simp: name_at_def case_at_def same_case_def name add.commute)
  qed
  have nz: "c_NUL \<notin> set (take (length s2) s2)" using assms(2) name by simp
  have len: "?m + length s2 \<le> length (drop p args) \<or> ?m = 0" using assms(3) by auto
  have sub: "\<not> name_at args name q" if "\<forall>j < k. \<not> (j < ?m \<and> case_at (ngx_tolower c) s2 (drop p args) j)" "p \<le> q" "q < p + k" for q k
    using at [of "q - p"] that by auto
  show ?thesis
  proof (cases "?m = 0")
    case True
    have "\<not> name_at args name q" if "p \<le> q" for q using at [of "q - p"] True that by simp
    then show ?thesis using True by (simp add: ngx_strlcasestrn_def name)
  next
    case False
    with len have l: "?m + length s2 \<le> length (drop p args)" by simp
    obtain res where res: "strlcasestrn_loop (ngx_tolower c) s2 (length s2) (drop p args) 0 ?m = Some res"
      "case res of
         None \<Rightarrow> \<forall>j < ?m. \<not> case_at (ngx_tolower c) s2 (drop p args) j
       | Some k \<Rightarrow> k < ?m \<and> case_at (ngx_tolower c) s2 (drop p args) k \<and> (\<forall>j < k. \<not> case_at (ngx_tolower c) s2 (drop p args) j)"
      using strlcasestrn_loop_spec [OF l order_refl nz, of "ngx_tolower c" 0] by (auto split: option.splits)
    show ?thesis
    proof (cases res)
      case None
      have "\<not> name_at args name q" if "p \<le> q" for q using at [of "q - p"] None res(2) that by auto
      then show ?thesis using None res(1) by (simp add: ngx_strlcasestrn_def name)
    next
      case (Some k)
      have "\<not> name_at args name q" if "p \<le> q" "q < p + k" for q using sub [of k q] Some res(2) that by auto
      then show ?thesis using Some res at [of k] by (simp add: ngx_strlcasestrn_def name)
    qed
  qed
qed

lemma strlchr_spec: "ngx_strlchr p (length p) c = Some (if c \<in> set p then Some (length (takeWhile (\<lambda>x. x \<noteq> c) p)) else None)"
  by (induction p) auto

lemma arg_name_at: "arg_at args name q \<longleftrightarrow> name_at args name q \<and> (q = 0 \<or> args ! (q - 1) = c_amp) \<and> args ! (q + length name) = c_eq"
  by (auto simp: arg_at_def name_at_def)

lemma same_case_amp: "same_case xs ys \<Longrightarrow> c_amp \<notin> set ys \<Longrightarrow> c_amp \<notin> set xs"
proof -
  have t: "ngx_tolower c = c_amp \<longleftrightarrow> c = c_amp" for c
    by (rule byte_check [where P = "\<lambda>c. ngx_tolower c = c_amp \<longleftrightarrow> c = c_amp"]) (simp add: ngx_tolower_def all_bytes_list word_le_nat_alt)
  have "c_amp \<in> set zs \<longleftrightarrow> c_amp \<in> set (map ngx_tolower zs)" for zs using t by force
  then show "same_case xs ys \<Longrightarrow> c_amp \<notin> set ys \<Longrightarrow> c_amp \<notin> set xs" unfolding same_case_def by metis
qed

lemma http_arg_loop_spec:
  assumes "name \<noteq> []" "c_NUL \<notin> set name" "c_amp \<notin> set name"
  shows "\<exists>res. http_arg_loop args name (length name) p = Some res \<and>
    (case res of
       None \<Rightarrow> \<forall>q \<ge> p. \<not> arg_at args name q
     | Some v \<Rightarrow> \<exists>q \<ge> p. arg_at args name q \<and> (\<forall>q' \<ge> p. q' < q \<longrightarrow> \<not> arg_at args name q') \<and>
         v = takeWhile (\<lambda>c. c \<noteq> c_amp) (drop (q + length name + 1) args))"
proof (induction "length args - p" arbitrary: p rule: less_induct)
  case less
  show ?case
  proof (cases "p < length args")
    case False
    then show ?thesis by (auto simp: http_arg_loop.simps [of args name "length name" p] arg_at_def)
  next
    case True
    obtain res where res: "ngx_strlcasestrn (drop p args) (length args - 1 - p) name (length name - 1) = Some res"
      "case res of
       None \<Rightarrow> \<forall>q \<ge> p. \<not> name_at args name q
     | Some k \<Rightarrow> name_at args name (p + k) \<and> (\<forall>q \<ge> p. q < p + k \<longrightarrow> \<not> name_at args name q)"
      using strlcasestrn_name [OF assms(1,2) True] by blast
    show ?thesis
    proof (cases res)
      case None
      then show ?thesis using True res by (auto simp: http_arg_loop.simps [of args name "length name" p] arg_name_at)
    next
      case (Some k)
      let ?q = "p + k"
      have k: "name_at args name ?q" "\<And>q. p \<le> q \<Longrightarrow> q < ?q \<Longrightarrow> \<not> name_at args name q" using res(2) Some by auto
      have in_range: "?q + length name < length args" using k(1) by (simp add: name_at_def)
      show ?thesis
      proof (cases "(?q = 0 \<or> args ! (?q - 1) = c_amp) \<and> args ! (?q + length name) = c_eq")
        case True
        let ?v = "Suc (?q + length name)"
        define D where "D = drop ?v args"
        define w where "w = takeWhile (\<lambda>c. c \<noteq> c_amp) D"
        have w: "c_amp \<notin> set D \<Longrightarrow> D = w" "take (length w) D = w"
          unfolding w_def by (rule sym, rule takeWhile_eq_all_conv [THEN iffD2], blast) (rule takeWhile_eq_take [symmetric])
        have named: "drop ?q args = cut args ?q (?q + length name) @ c_eq # D" "c_amp \<notin> set (cut args ?q (?q + length name))"
          "length (cut args ?q (?q + length name)) = length name"
        proof -
          have "drop ?q args = take (length name) (drop ?q args) @ drop (length name) (drop ?q args)" by (rule append_take_drop_id [symmetric])
          also have "drop (length name) (drop ?q args) = c_eq # D"
            using Cons_nth_drop_Suc [OF in_range] True by (simp add: D_def add.commute add.left_commute)
          finally show "drop ?q args = cut args ?q (?q + length name) @ c_eq # D" by (simp add: cut_def)
          show "c_amp \<notin> set (cut args ?q (?q + length name))" using k(1) assms(3) same_case_amp unfolding name_at_def by blast
          show "length (cut args ?q (?q + length name)) = length name" using in_range by (simp add: cut_def)
        qed
        have len: "length args - ?q = length (drop ?q args)" by simp
        have tw: "takeWhile (\<lambda>x. x \<noteq> c_amp) (drop ?q args) = cut args ?q (?q + length name) @ c_eq # w"
          unfolding named(1) w_def using named(2) by (subst takeWhile_append2) auto
        have chr: "ngx_strlchr (drop ?q args) (length args - ?q) c_amp =
            Some (if c_amp \<in> set D then Some (length name + 1 + length w) else None)"
          unfolding len strlchr_spec tw using named(2,3) unfolding named(1) by (auto simp: set_append)
        have wc: "cut args ?v (?q + (length name + 1 + length w)) = w"
          using w(2) by (simp add: cut_def D_def)
        have "http_arg_loop args name (length name) p =
          (case ngx_strlchr (drop ?q args) (length args - ?q) c_amp of None \<Rightarrow> None | Some None \<Rightarrow> Some (Some D)
           | Some (Some n) \<Rightarrow> if ?q + n < ?v then None else Some (Some (cut args ?v (?q + n))))"
          using \<open>p < length args\<close> res(1) Some True in_range
          unfolding D_def by (subst http_arg_loop.simps) (simp add: Let_def)
        then have "http_arg_loop args name (length name) p = Some (Some w)" using chr w(1) wc by simp
        moreover have "arg_at args name ?q" using True k(1) by (simp add: arg_name_at)
        ultimately show ?thesis using k(2) by (auto simp: arg_name_at w_def D_def intro!: exI [of _ ?q])
      next
        case False
        have "http_arg_loop args name (length name) p = http_arg_loop args name (length name) (?q + 1)"
          using \<open>p < length args\<close> res(1) Some False in_range
          by (subst http_arg_loop.simps) (auto simp add: Let_def)
        note run = this
        have no: "\<not> arg_at args name q" if "p \<le> q" "q < ?q + 1" for q
          using k(2) [of q] that False by (cases "q = ?q") (auto simp: arg_name_at)
        have "length args - (?q + 1) < length args - p" using in_range by auto
        from less.hyps [OF this] obtain r where r: "http_arg_loop args name (length name) (?q + 1) = Some r"
          "case r of
             None \<Rightarrow> \<forall>q \<ge> ?q + 1. \<not> arg_at args name q
           | Some v \<Rightarrow> \<exists>q \<ge> ?q + 1. arg_at args name q \<and> (\<forall>q' \<ge> ?q + 1. q' < q \<longrightarrow> \<not> arg_at args name q') \<and>
               v = takeWhile (\<lambda>c. c \<noteq> c_amp) (drop (q + length name + 1) args)" by (elim exE conjE)
        show ?thesis
        proof (cases r)
          case None
          then have "\<forall>q \<ge> p. \<not> arg_at args name q" using r(2) no by (auto simp: not_le [symmetric])
          then show ?thesis using run r(1) None by simp
        next
          case (Some v)
          then obtain q where q: "?q + 1 \<le> q" "arg_at args name q" "\<forall>q' \<ge> ?q + 1. q' < q \<longrightarrow> \<not> arg_at args name q'"
            "v = takeWhile (\<lambda>c. c \<noteq> c_amp) (drop (q + length name + 1) args)" using r(2) by auto
          have "p \<le> q" using q(1) by simp
          moreover have "\<forall>q' \<ge> p. q' < q \<longrightarrow> \<not> arg_at args name q'" using q(3) no by (metis not_le)
          ultimately show ?thesis using run r(1) Some q(2,4) by auto
        qed
      qed
    qed
  qed
qed

text \<open>
  Claim C28: For a non-empty name without a null byte or an ampersand the search for a query argument never reads
  past the arguments; it finds the first place, at their start or after an ampersand, at which
  the name stands in any case followed by an equals sign, and its value goes up to the next
  ampersand; it declines exactly when there is no such place.
\<close>
theorem http_arg_finds:
  assumes "name \<noteq> []" and "c_NUL \<notin> set name" and "c_amp \<notin> set name"
  shows "case ngx_http_arg args name (length name) of
     None \<Rightarrow> False
   | Some None \<Rightarrow> \<forall>q. \<not> arg_at args name q
   | Some (Some v) \<Rightarrow> \<exists>q. arg_at args name q \<and> (\<forall>q' < q. \<not> arg_at args name q') \<and>
       v = takeWhile (\<lambda>c. c \<noteq> c_amp) (drop (q + length name + 1) args)"
proof -
  obtain res where "http_arg_loop args name (length name) 0 = Some res" and
    "case res of
       None \<Rightarrow> \<forall>q \<ge> 0. \<not> arg_at args name q
     | Some v \<Rightarrow> \<exists>q \<ge> 0. arg_at args name q \<and> (\<forall>q' \<ge> 0. q' < q \<longrightarrow> \<not> arg_at args name q') \<and>
         v = takeWhile (\<lambda>c. c \<noteq> c_amp) (drop (q + length name + 1) args)"
    using http_arg_loop_spec [OF assms, of args 0] by blast
  then show ?thesis by (auto simp: ngx_http_arg_def arg_at_def split: option.splits)
qed

theorem http_arg_finds_witness:
  "\<exists>q. arg_at (ascii ''a=1&B=2'') (ascii ''b'') q \<and> ngx_http_arg (ascii ''a=1&B=2'') (ascii ''b'') 1 = Some (Some (ascii ''2'')) \<and>
     ascii ''2'' = takeWhile (\<lambda>c. c \<noteq> c_amp) (drop (q + 2) (ascii ''a=1&B=2''))"
proof -
  have e: "ngx_http_arg (ascii ''a=1&B=2'') (ascii ''b'') (length (ascii ''b'')) = Some (Some (ascii ''2''))" by code_simp
  have n: "ascii ''b'' \<noteq> []" "c_NUL \<notin> set (ascii ''b'')" "c_amp \<notin> set (ascii ''b'')" by simp_all
  from http_arg_finds [OF n, of "ascii ''a=1&B=2''", unfolded e] e show ?thesis by (auto simp del: ascii_simps)
qed

section \<open>Header values with parameters\<close>

lemma strncasecmp_terminated:
  "c_NUL \<notin> set name \<Longrightarrow> c_NUL \<in> set s1 \<Longrightarrow>
     \<exists>r. ngx_strncasecmp s1 name (length name) = Some r \<and>
       (r = 0 \<longrightarrow> length name \<le> length (takeWhile (\<lambda>c. c \<noteq> c_NUL) s1) \<and> same_case (take (length name) s1) name)"
proof (induction name arbitrary: s1)
  case (Cons b name)
  obtain a s where s1: "s1 = a # s" using Cons.prems(2) by (cases s1) auto
  have b: "b \<noteq> c_NUL" using Cons.prems(1) by auto
  show ?case
  proof (cases "ngx_tolower a = ngx_tolower b")
    case True
    then have "a \<noteq> c_NUL" "ngx_tolower b \<noteq> c_NUL" using b tolower_NUL by metis+
    moreover from this obtain r where "ngx_strncasecmp s name (length name) = Some r"
      "r = 0 \<longrightarrow> length name \<le> length (takeWhile (\<lambda>c. c \<noteq> c_NUL) s) \<and> same_case (take (length name) s) name"
      using Cons.IH [of s] Cons.prems s1 by auto
    ultimately show ?thesis using True s1 by (simp add: same_case_def)
  qed (simp add: s1 Let_def)
qed (simp add: same_case_def)

text \<open>A value that its memory ends with a null byte, as the header parser leaves it.\<close>

definition terminated :: "bytes \<times> nat \<Rightarrow> bool" where
  "terminated = (\<lambda>(m, e). e < length m \<and> m ! e = c_NUL)"

text \<open>The start of a parameter: that of the value, or after a separator and spaces.\<close>

definition param_start :: "bytes \<Rightarrow> nat \<Rightarrow> bool" where
  "param_start m k \<longleftrightarrow> k = 0 \<or> (\<exists>j < k. (m ! j = c_semi \<or> m ! j = c_comma) \<and> (\<forall>i. j < i \<and> i < k \<longrightarrow> m ! i = c_space))"

text \<open>
  The parameter at \<open>k\<close> has the name, in any case, and the value \<open>v\<close>: after the name and spaces
  comes an equals sign and, after spaces, the bytes up to a semicolon or the end. Without a value
  the end or a comma follows.
\<close>

definition param_at :: "bytes \<Rightarrow> bool \<Rightarrow> bytes \<Rightarrow> nat \<Rightarrow> nat \<Rightarrow> bytes \<Rightarrow> bool" where
  "param_at name value_null m e k v \<longleftrightarrow>
     param_start m k \<and> k + length name \<le> e \<and> same_case (cut m k (k + length name)) name \<and>
     (let p = mh_spaces m e (k + length name) in
      if value_null then (p = e \<or> p < e \<and> m ! p = c_comma) \<and> v = []
      else p < e \<and> m ! p = c_eq \<and> v = takeWhile (\<lambda>c. c \<noteq> c_semi) (cut m (mh_spaces m e (p + 1)) e))"

lemma mh_spaces_le: "p \<le> e \<Longrightarrow> mh_spaces m e p \<le> e"
  using length_takeWhile_le [of "\<lambda>c. c = c_space" "cut m p e"] by (auto simp: mh_spaces_def)

lemma mh_spaces_all: "p \<le> i \<Longrightarrow> i < mh_spaces m e p \<Longrightarrow> m ! i = c_space"
proof -
  assume a: "p \<le> i" "i < mh_spaces m e p"
  then have l: "i - p < length (takeWhile (\<lambda>c. c = c_space) (cut m p e))" by (auto simp: mh_spaces_def)
  then have "i - p < length (cut m p e)" using length_takeWhile_le [of "\<lambda>c. c = c_space" "cut m p e"] by linarith
  moreover have "cut m p e ! (i - p) = c_space" using nth_mem [OF l] takeWhile_nth [OF l] by (auto dest: set_takeWhileD)
  ultimately show ?thesis using a(1) by (auto simp: cut_def)
qed

lemma mh_skip_start:
  assumes "p \<le> e" "e < length m" "mh_skip m e p < e"
  shows "param_start m (mh_skip m e p)"
proof -
  define q where "q = p + length (takeWhile (\<lambda>c. c \<noteq> c_semi \<and> c \<noteq> c_comma) (cut m p e))"
  have "q \<noteq> e"
  proof
    assume "q = e"
    then have "mh_skip m e p = e" by (simp add: mh_skip_def q_def [symmetric] mh_spaces_def)
    with assms(3) show False by simp
  qed
  moreover have "q \<le> e" using length_takeWhile_le [of "\<lambda>c. c \<noteq> c_semi \<and> c \<noteq> c_comma" "cut m p e"] assms(1) by (auto simp: q_def)
  ultimately have q: "p \<le> q" "q < e" by (auto simp: q_def)
  have "length (takeWhile (\<lambda>c. c \<noteq> c_semi \<and> c \<noteq> c_comma) (cut m p e)) < length (cut m p e)" using q assms by (simp add: q_def)
  from nth_length_takeWhile [OF this] have "m ! q = c_semi \<or> m ! q = c_comma"
    using q assms by (auto simp: q_def cut_def)
  moreover have "mh_skip m e p = mh_spaces m e (q + 1)" using q(2) by (simp add: mh_skip_def q_def [symmetric])
  ultimately show ?thesis
    using mh_spaces_all [of "q + 1" _ m e] mh_spaces_ge [of "q + 1" m e] by (auto simp: param_start_def intro!: exI [of _ q])
qed

lemma mh_turn_spec:
  assumes "terminated (m, e)" "c_NUL \<notin> set name" "start \<le> e" "param_start m start"
  shows "case mh_turn name value_null m e start of
      MH_fault \<Rightarrow> False
    | MH_return v \<Rightarrow> param_at name value_null m e start v
    | MH_goto_skip p \<Rightarrow> start \<le> p \<and> p \<le> e"
proof -
  have e: "e < length m" "m ! e = c_NUL" using assms(1) by (simp_all add: terminated_def)
  have "drop start m ! (e - start) = c_NUL" "e - start < length (drop start m)" using e assms(3) by simp_all
  then have "c_NUL \<in> set (drop start m)" by (metis nth_mem)
  from strncasecmp_terminated [OF assms(2) this] obtain r where r: "ngx_strncasecmp (drop start m) name (length name) = Some r"
    "r = 0 \<longrightarrow> length name \<le> length (takeWhile (\<lambda>c. c \<noteq> c_NUL) (drop start m)) \<and> same_case (take (length name) (drop start m)) name"
    by blast
  have tw: "length (takeWhile (\<lambda>c. c \<noteq> c_NUL) (drop start m)) \<le> e - start"
  proof (rule ccontr)
    assume "\<not> ?thesis"
    then have l: "e - start < length (takeWhile (\<lambda>c. c \<noteq> c_NUL) (drop start m))" by simp
    from nth_mem [OF l] takeWhile_nth [OF l] show False using e assms(3) by (auto dest: set_takeWhileD)
  qed
  show ?thesis
  proof (cases "r = 0")
    case False
    then show ?thesis using r(1) assms(3) by (simp add: mh_turn_def)
  next
    case True
    let ?p = "mh_spaces m e (start + length name)"
    have le: "start + length name \<le> e" using r(2) True tw assms(3) by linarith
    have p: "?p \<le> e" "start \<le> ?p" using mh_spaces_le [OF le] mh_spaces_ge [of "start + length name" m e] by auto
    have n: "same_case (cut m start (start + length name)) name" using r(2) True by (simp add: cut_def)
    show ?thesis using r(1) True p le n e(1) assms(4) by (auto simp: mh_turn_def param_at_def Let_def)
  qed
qed

lemma mh_value_spec:
  assumes "terminated (m, e)" "c_NUL \<notin> set name"
  shows "start < e \<longrightarrow> param_start m start \<Longrightarrow>
     \<exists>res. mh_value name value_null m e start = Some res \<and> (\<forall>v. res = Some v \<longrightarrow> (\<exists>k < e. param_at name value_null m e k v))"
proof (induction "e - start" arbitrary: start rule: less_induct)
  case less
  show ?case
  proof (cases "start < e")
    case False
    then show ?thesis by (simp add: mh_value.simps [of name value_null m e start])
  next
    case True
    have e: "e < length m" using assms(1) by (simp add: terminated_def)
    note t = mh_turn_spec [OF assms, of start value_null]
    show ?thesis
    proof (cases "mh_turn name value_null m e start")
      case (MH_goto_skip p)
      then have p: "start \<le> p" "p \<le> e" using t True less.prems by auto
      have "start < mh_skip m e p" using mh_skip_gt [of p e m] mh_skip_ge [of p m e] p True by (cases "p < e") auto
      then show ?thesis
        using less.hyps [of "mh_skip m e p"] mh_skip_start [OF p(2) e] True MH_goto_skip
        by (auto simp: mh_value.simps [of name value_null m e start])
    qed (use t True less.prems in \<open>auto simp: mh_value.simps [of name value_null m e start]\<close>)
  qed
qed

lemma mh_headers_spec:
  "\<forall>h \<in> set hs. terminated h \<Longrightarrow> c_NUL \<notin> set name \<Longrightarrow>
     \<exists>res. mh_headers name value_null i hs = Some res \<and>
       (\<forall>j v. res = Some (j, v) \<longrightarrow> i \<le> j \<and> j < i + length hs \<and>
          (\<exists>k. param_at name value_null (fst (hs ! (j - i))) (snd (hs ! (j - i))) k v))"
proof (induction hs arbitrary: i)
  case (Cons h hs)
  obtain m e where h: "h = (m, e)" by (cases h)
  obtain r where r: "mh_headers name value_null (Suc i) hs = Some r"
    "\<And>j v. r = Some (j, v) \<Longrightarrow> Suc i \<le> j \<and> j < Suc i + length hs \<and>
       (\<exists>k. param_at name value_null (fst (hs ! (j - Suc i))) (snd (hs ! (j - Suc i))) k v)"
    using Cons.IH [of "Suc i"] Cons.prems by auto
  have rest: "i \<le> j \<and> j < i + length (h # hs) \<and> (\<exists>k. param_at name value_null (fst ((h # hs) ! (j - i))) (snd ((h # hs) ! (j - i))) k v)"
    if "r = Some (j, v)" for j v
  proof -
    from r(2) [OF that] have "j - i = Suc (j - Suc i)" "Suc i \<le> j" "j < Suc i + length hs" by auto
    with r(2) [OF that] show ?thesis by simp
  qed
  have "terminated (m, e)" using Cons.prems h by simp
  from mh_value_spec [OF this Cons.prems(2), of 0 value_null] obtain res where
    res: "mh_value name value_null m e 0 = Some res" "\<And>v. res = Some v \<Longrightarrow> \<exists>k < e. param_at name value_null m e k v"
    by (auto simp: param_start_def)
  show ?case using r(1) rest res h by (cases res) (auto split: if_splits)
qed simp

text \<open>
  On header values ended by a null byte and a name without one, the search never reads
  past a value and always returns; an index it returns is that of a header in which a parameter
  with the name stands, and the value is that parameter's.
\<close>
lemma multi_header_lines_sound:
  assumes "\<forall>h \<in> set hs. terminated h" and "c_NUL \<notin> set name"
  shows "case ngx_http_parse_multi_header_lines name value_null hs of
     None \<Rightarrow> False
   | Some None \<Rightarrow> True
   | Some (Some (i, v)) \<Rightarrow> i < length hs \<and> (\<exists>k. param_at name value_null (fst (hs ! i)) (snd (hs ! i)) k v)"
proof -
  obtain res where "mh_headers name value_null 0 hs = Some res"
    "\<forall>j v. res = Some (j, v) \<longrightarrow> 0 \<le> j \<and> j < 0 + length hs \<and> (\<exists>k. param_at name value_null (fst (hs ! (j - 0))) (snd (hs ! (j - 0))) k v)"
    using mh_headers_spec [OF assms, of value_null 0] by blast
  then show ?thesis by (auto simp: ngx_http_parse_multi_header_lines_def split: option.splits)
qed

definition ex_cookie :: bytes where
  "ex_cookie = ascii ''b=1; a = 2;c''"

end
