(* ===== verification/Ngx_Sort.thy ===== *)
theory Ngx_Sort
  imports Ngx_Compare "HOL-Library.Multiset"
begin

text \<open>
Sorting: \<open>ngx_sort\<close> on arrays (\<open>core/ngx_string.c\<close>), \<open>ngx_queue_sort\<close> and \<open>ngx_queue_middle\<close>
  on queues (\<open>core/ngx_queue.c\<close>). The locale \<open>comparison\<close> states what both rely on; under it the
  result is a sorted permutation that keeps the order of elements that compare equal.
\<close>

section \<open>Orders of comparison functions\<close>

text \<open>
  What the sorting functions rely on: on the elements \<open>D\<close> they compare, the function is a total
  preorder, as far as a result above 0 or not tells. An element is never compared with itself.
\<close>

locale comparison =
  fixes D :: "'a set" and cmp :: "'a \<Rightarrow> 'a \<Rightarrow> int"
  assumes total: "x \<in> D \<Longrightarrow> y \<in> D \<Longrightarrow> x \<noteq> y \<Longrightarrow> 0 < cmp x y \<Longrightarrow> cmp y x \<le> 0"
    and trans: "x \<in> D \<Longrightarrow> y \<in> D \<Longrightarrow> z \<in> D \<Longrightarrow> x \<noteq> y \<Longrightarrow> y \<noteq> z \<Longrightarrow> x \<noteq> z \<Longrightarrow>
      cmp x y \<le> 0 \<Longrightarrow> cmp y z \<le> 0 \<Longrightarrow> cmp x z \<le> 0"

section \<open>ngx_sort\<close>

text \<open>The inner loop: \<open>p\<close> is the element set aside, \<open>p2\<close> the place now free.\<close>

fun sort_shift :: "('a \<Rightarrow> 'a \<Rightarrow> int) \<Rightarrow> 'a \<Rightarrow> 'a list \<Rightarrow> nat \<Rightarrow> 'a list" where
  "sort_shift cmp p base 0 = base[0 := p]"
| "sort_shift cmp p base (Suc k) =
    (if cmp (base ! k) p > 0 then sort_shift cmp p (base[Suc k := base ! k]) k else base[Suc k := p])"

text \<open>The outer loop from the element \<open>p1\<close> on; \<open>n\<close> elements in all.\<close>

function sort_from :: "('a \<Rightarrow> 'a \<Rightarrow> int) \<Rightarrow> nat \<Rightarrow> 'a list \<Rightarrow> nat \<Rightarrow> 'a list" where
  "sort_from cmp n base p1 =
    (if p1 < n then sort_from cmp n (sort_shift cmp (base ! p1) base p1) (Suc p1) else base)"
  by pat_completeness auto
termination
  by (relation "measure (\<lambda>(cmp, n, base, p1). n - p1)") auto

declare sort_from.simps [simp del]

text \<open>Without memory for the element set aside the array is left as it is.\<close>

definition ngx_sort :: "bool \<Rightarrow> 'a list \<Rightarrow> ('a \<Rightarrow> 'a \<Rightarrow> int) \<Rightarrow> 'a list" where
  "ngx_sort alloc base cmp = (if alloc then sort_from cmp (length base) base 1 else base)"

section \<open>Insertion as a function on lists\<close>

text \<open>\<open>p\<close> goes before the longest end of \<open>xs\<close> whose elements all compare above it.\<close>

fun insert_back :: "('a \<Rightarrow> 'a \<Rightarrow> int) \<Rightarrow> 'a \<Rightarrow> 'a list \<Rightarrow> 'a list" where
  "insert_back cmp p xs =
    rev (takeWhile (\<lambda>x. 0 < cmp x p) (rev xs) @ p # dropWhile (\<lambda>x. 0 < cmp x p) (rev xs))"

lemma sort_shift_insert:
  "k < length base \<Longrightarrow> sort_shift cmp p base k = insert_back cmp p (take k base) @ drop (Suc k) base"
proof (induction cmp p base k rule: sort_shift.induct)
  case (1 cmp p base)
  then show ?case by (cases base) auto
next
  case (2 cmp p base k)
  have k: "k < length base" "Suc k < length base" using 2(2) by auto
  have t: "take (Suc k) base = take k base @ [base ! k]" using k by (simp add: take_Suc_conv_app_nth)
  show ?case
  proof (cases "0 < cmp (base ! k) p")
    case True
    have "drop (Suc k) (base[Suc k := base ! k]) = base ! k # drop (Suc (Suc k)) base"
      using k by (simp add: Cons_nth_drop_Suc [symmetric])
    then show ?thesis using 2(1) [OF True] True k by (simp add: t)
  next
    case False
    then show ?thesis using k by (simp add: t upd_conv_take_nth_drop)
  qed
qed

lemma sort_from_insert:
  "p1 \<le> length base \<Longrightarrow> sort_from cmp (length base) base p1 = foldl (\<lambda>xs p. insert_back cmp p xs) (take p1 base) (drop p1 base)"
proof (induction "length base - p1" arbitrary: base p1)
  case (Suc n)
  then have l: "p1 < length base" by simp
  let ?b = "sort_shift cmp (base ! p1) base p1"
  have b: "?b = insert_back cmp (base ! p1) (take p1 base) @ drop (Suc p1) base" by (rule sort_shift_insert [OF l])
  have il: "length (insert_back cmp p xs) = Suc (length xs)" for p xs
  proof -
    have "length (takeWhile (\<lambda>x. 0 < cmp x p) (rev xs)) + length (dropWhile (\<lambda>x. 0 < cmp x p) (rev xs)) = length xs"
      by (metis length_append length_rev takeWhile_dropWhile_id)
    then show ?thesis by simp
  qed
  have len: "length ?b = length base" using l by (simp add: b il del: insert_back.simps)
  have "sort_from cmp (length base) base p1 = sort_from cmp (length ?b) ?b (Suc p1)"
    using l len by (subst sort_from.simps) simp
  also have "\<dots> = foldl (\<lambda>xs p. insert_back cmp p xs) (take (Suc p1) ?b) (drop (Suc p1) ?b)"
    using Suc.hyps(1) [of ?b "Suc p1"] Suc.hyps(2) len l by simp
  also have "\<dots> = foldl (\<lambda>xs p. insert_back cmp p xs) (insert_back cmp (base ! p1) (take p1 base)) (drop (Suc p1) base)"
    using l by (simp add: b il del: insert_back.simps)
  finally show ?case using l by (simp add: Cons_nth_drop_Suc [symmetric] del: insert_back.simps)
qed (simp add: sort_from.simps)

lemma ngx_sort_foldl: "ngx_sort True base cmp = foldl (\<lambda>xs p. insert_back cmp p xs) [] base"
proof (cases base)
  case (Cons x xs)
  then show ?thesis using sort_from_insert [of 1 base cmp] by (simp add: ngx_sort_def)
qed (simp add: ngx_sort_def sort_from.simps)

section \<open>Sorted, a permutation, stable\<close>

lemma mset_insert_back: "mset (insert_back cmp p xs) = add_mset p (mset xs)"
proof -
  have "mset (takeWhile (\<lambda>x. 0 < cmp x p) (rev xs)) + mset (dropWhile (\<lambda>x. 0 < cmp x p) (rev xs)) = mset xs"
    by (metis mset_append mset_rev takeWhile_dropWhile_id)
  then show ?thesis by (simp add: add.commute)
qed

lemma set_insert_back: "set (insert_back cmp p xs) = insert p (set xs)"
  by (metis mset_insert_back set_mset_add_mset_insert set_mset_mset)

lemma distinct_insert_back: "distinct (insert_back cmp p xs) \<longleftrightarrow> p \<notin> set xs \<and> distinct xs"
  by (metis distinct.simps(2) mset.simps(2) mset_eq_imp_distinct_iff mset_insert_back)

lemma mset_foldl_insert: "mset (foldl (\<lambda>xs p. insert_back cmp p xs) ys base) = mset ys + mset base"
  by (induction base arbitrary: ys) (simp_all add: mset_insert_back del: insert_back.simps)

context comparison
begin

abbreviation le :: "'a \<Rightarrow> 'a \<Rightarrow> bool" where
  "le x y \<equiv> cmp x y \<le> 0"

abbreviation same :: "'a \<Rightarrow> 'a \<Rightarrow> bool" where
  "same x y \<equiv> cmp x y \<le> 0 \<and> cmp y x \<le> 0"

lemma insert_back_sorted:
  assumes "sorted_wrt le xs" "set xs \<subseteq> D" "p \<in> D" "p \<notin> set xs" "distinct xs"
  shows "sorted_wrt le (insert_back cmp p xs)"
proof -
  let ?t = "takeWhile (\<lambda>x. 0 < cmp x p) (rev xs)" and ?d = "dropWhile (\<lambda>x. 0 < cmp x p) (rev xs)"
  have td: "xs = rev ?d @ rev ?t" by (metis rev_append rev_rev_ident takeWhile_dropWhile_id)
  have st: "sorted_wrt le (rev ?d)" "sorted_wrt le (rev ?t)" "\<And>x y. x \<in> set ?d \<Longrightarrow> y \<in> set ?t \<Longrightarrow> cmp x y \<le> 0"
    using assms(1) td by (metis sorted_wrt_append set_rev)+
  have sub: "set ?t \<subseteq> set xs" "set ?d \<subseteq> set xs" by (metis Un_upper2 set_append set_rev td) (metis Un_upper1 set_append set_rev td)
  have D: "x \<in> D \<and> x \<noteq> p" if "x \<in> set ?t \<or> x \<in> set ?d" for x using that sub assms(2,4) by blast
  have after: "cmp p y \<le> 0" if "y \<in> set ?t" for y
    using that D [of y] assms(3) total [of y p] by (auto dest: set_takeWhileD)
  have before: "cmp x p \<le> 0" if "x \<in> set ?d" for x
  proof -
    have "?d \<noteq> []" using that by (metis empty_iff empty_set)
    then obtain y ys where y: "?d = y # ys" by (meson list.exhaust)
    then have h: "cmp y p \<le> 0" using hd_dropWhile [of "\<lambda>x. 0 < cmp x p" "rev xs"] by (metis list.discI list.sel(1) not_le)
    show ?thesis
    proof (cases "x = y")
      case False
      then have "x \<in> set ys" using that y by auto
      moreover have "sorted_wrt le (rev ys @ [y])" using st(1) y by simp
      ultimately have "cmp x y \<le> 0" by (auto simp: sorted_wrt_append)
      then show ?thesis using trans [of x y p] h D [of x] D [of y] that y False assms(3) by auto
    qed (use h in simp)
  qed
  show ?thesis using st after before by (auto simp: sorted_wrt_append)
qed

lemma foldl_insert_sorted:
  "sorted_wrt le ys \<Longrightarrow> set (ys @ base) \<subseteq> D \<Longrightarrow> distinct (ys @ base) \<Longrightarrow> sorted_wrt le (foldl (\<lambda>xs p. insert_back cmp p xs) ys base)"
proof (induction base arbitrary: ys)
  case (Cons p base)
  have "distinct (insert_back cmp p ys @ base)" "set (insert_back cmp p ys @ base) \<subseteq> D"
    using Cons.prems by (auto simp: distinct_insert_back set_insert_back simp del: insert_back.simps)
  moreover have "sorted_wrt le (insert_back cmp p ys)" using Cons.prems by (intro insert_back_sorted) auto
  ultimately show ?case using Cons.IH by (simp del: insert_back.simps)
qed simp

text \<open>Elements that come neither before nor after \<open>k\<close> keep their order.\<close>

lemma insert_back_stable:
  assumes "set xs \<subseteq> D" "p \<in> D" "p \<notin> set xs" "k \<in> D"
  shows "filter (same k) (insert_back cmp p xs) = filter (same k) xs @ (if same k p then [p] else [])"
proof -
  let ?t = "takeWhile (\<lambda>x. 0 < cmp x p) (rev xs)" and ?d = "dropWhile (\<lambda>x. 0 < cmp x p) (rev xs)"
  have td: "xs = rev ?d @ rev ?t" by (metis rev_append rev_rev_ident takeWhile_dropWhile_id)
  have "filter (same k) ?t = []" if kp: "same k p"
  proof -
    have "\<not> same k x" if "x \<in> set ?t" for x
    proof
      assume e: "same k x"
      have "x \<in> set xs" using that by (metis in_set_conv_decomp set_takeWhileD set_rev)
      then have x: "x \<in> D" "x \<noteq> p" "0 < cmp x p" using that assms(1,3) by (auto dest: set_takeWhileD)
      have "cmp x p \<le> 0"
      proof (cases "k = x \<or> k = p")
        case True
        then show ?thesis using e kp by auto
      next
        case False
        then show ?thesis using trans [of x k p] e kp x assms(2,4) by auto
      qed
      with x(3) show False by simp
    qed
    then show ?thesis by (simp add: filter_empty_conv)
  qed
  moreover have "filter (same k) xs = rev (filter (same k) ?d) @ rev (filter (same k) ?t)"
    by (subst td) (simp add: rev_filter [symmetric])
  ultimately show ?thesis by (simp add: rev_filter [symmetric])
qed

lemma foldl_insert_stable:
  "set (ys @ base) \<subseteq> D \<Longrightarrow> distinct (ys @ base) \<Longrightarrow> k \<in> D \<Longrightarrow>
     filter (same k) (foldl (\<lambda>xs p. insert_back cmp p xs) ys base) = filter (same k) ys @ filter (same k) base"
proof (induction base arbitrary: ys)
  case (Cons p base)
  have "distinct (insert_back cmp p ys @ base)" "set (insert_back cmp p ys @ base) \<subseteq> D"
    using Cons.prems by (auto simp: distinct_insert_back set_insert_back simp del: insert_back.simps)
  then show ?case using Cons.IH [of "insert_back cmp p ys"] Cons.prems insert_back_stable [of ys p k] by (simp del: insert_back.simps)
qed simp

lemma foldl_insert_correct:
  assumes "set base \<subseteq> D" "distinct base"
  defines "out \<equiv> foldl (\<lambda>xs p. insert_back cmp p xs) [] base"
  shows "mset out = mset base" and "sorted_wrt le out" and "k \<in> D \<Longrightarrow> filter (same k) out = filter (same k) base"
  using mset_foldl_insert [of cmp "[]" base] foldl_insert_sorted [of "[]" base] foldl_insert_stable [of "[]" base k] assms
  by (simp_all add: out_def del: insert_back.simps)

end

section \<open>ngx_queue_sort\<close>

text \<open>
  A queue is the list of its elements from head to last. The inner loop walks back from the
  element before \<open>q\<close>: \<open>prev\<close> is the reverse of the elements before it; \<open>q\<close> is inserted after
  the one at which the loop stops. The outer loop has sorted \<open>before\<close>.
\<close>

fun queue_back :: "('a \<Rightarrow> 'a \<Rightarrow> int) \<Rightarrow> 'a \<Rightarrow> 'a list \<Rightarrow> 'a list \<Rightarrow> 'a list" where
  "queue_back cmp q [] passed = q # passed"
| "queue_back cmp q (p # prev) passed =
    (if cmp p q \<le> 0 then rev (p # prev) @ q # passed else queue_back cmp q prev (p # passed))"

fun queue_sort_from :: "('a \<Rightarrow> 'a \<Rightarrow> int) \<Rightarrow> 'a list \<Rightarrow> 'a list \<Rightarrow> 'a list" where
  "queue_sort_from cmp before [] = before"
| "queue_sort_from cmp before (q # after) = queue_sort_from cmp (queue_back cmp q (rev before) []) after"

definition ngx_queue_sort :: "('a \<Rightarrow> 'a \<Rightarrow> int) \<Rightarrow> 'a list \<Rightarrow> 'a list" where
  "ngx_queue_sort cmp queue =
    (case queue of
       [] \<Rightarrow> []
     | [q] \<Rightarrow> [q]
     | q # rest \<Rightarrow> queue_sort_from cmp [q] rest)"

lemma queue_back_insert:
  "queue_back cmp q prev passed = rev (dropWhile (\<lambda>x. 0 < cmp x q) prev) @ q # rev (takeWhile (\<lambda>x. 0 < cmp x q) prev) @ passed"
  by (induction prev arbitrary: passed) (auto simp: not_le)

lemma queue_sort_from_foldl: "queue_sort_from cmp before after = foldl (\<lambda>xs p. insert_back cmp p xs) before after"
  by (induction after arbitrary: before) (simp_all add: queue_back_insert)

lemma ngx_queue_sort_foldl: "ngx_queue_sort cmp queue = foldl (\<lambda>xs p. insert_back cmp p xs) [] queue"
  by (auto simp: ngx_queue_sort_def queue_sort_from_foldl split: list.splits)

text \<open>
  \<open>ngx_queue_middle\<close> gives the offset of the middle element. In the loop \<open>d\<close> is the number of
  steps from \<open>next\<close> to the last element; it is positive, as head and last differ.
\<close>

fun queue_middle_loop :: "nat \<Rightarrow> nat \<Rightarrow> nat" where
  "queue_middle_loop 0 middle = middle"
| "queue_middle_loop (Suc 0) middle = middle + 1"
| "queue_middle_loop (Suc (Suc 0)) middle = middle + 1"
| "queue_middle_loop (Suc (Suc (Suc d))) middle = queue_middle_loop (Suc d) (middle + 1)"

definition ngx_queue_middle :: "'a list \<Rightarrow> nat" where
  "ngx_queue_middle queue = (if length queue \<le> 1 then 0 else queue_middle_loop (length queue - 1) 0)"

lemma queue_middle_loop_eq: "0 < d \<Longrightarrow> queue_middle_loop d middle = middle + (d + 1) div 2"
  by (induction d middle rule: queue_middle_loop.induct) auto

lemma ngx_queue_middle_eq: "ngx_queue_middle queue = length queue div 2"
  by (cases "length queue \<le> 1") (auto simp: ngx_queue_middle_def queue_middle_loop_eq)

end
