(* ===== verification/Http_Locations.thy ===== *)
theory Http_Locations
  imports Ngx_Sort
begin

text \<open>
The locations of a server: adding them to the queue, sorting and splitting it, building the
  tree of the static ones (\<open>http/ngx_http.c\<close>) and looking a URI up in it
  (\<open>ngx_http_core_find_static_location\<close> of \<open>http/ngx_http_core_module.c\<close>).
\<close>

section \<open>Locations\<close>

text \<open>
  What the location queue uses of \<open>ngx_http_core_loc_conf_t\<close>: the name, the flags and, as
  \<open>lc_conf\<close>, the identity of the configuration \<open>loc_conf\<close>. \<open>lc_regex\<close> tells whether \<open>regex\<close> is
  set. The configuration modelled has \<open>NGX_PCRE\<close>.
\<close>

record loc_conf =
  lc_name :: bytes
  lc_exact_match :: bool
  lc_regex :: bool
  lc_named :: bool
  lc_noname :: bool
  lc_auto_redirect :: bool
  lc_conf :: nat

text \<open>\<open>ngx_http_location_queue_t\<close>; the queue \<open>list\<close> is a list.\<close>

datatype loc_queue =
  LQ (lq_exact: "loc_conf option") (lq_inclusive: "loc_conf option") (lq_name: bytes) (lq_list: "loc_queue list")

definition ngx_http_add_location :: "loc_queue list \<Rightarrow> loc_conf \<Rightarrow> loc_queue list" where
  "ngx_http_add_location locations clcf =
    locations @
      [if lc_exact_match clcf \<or> lc_regex clcf \<or> lc_named clcf \<or> lc_noname clcf
       then LQ (Some clcf) None (lc_name clcf) []
       else LQ None (Some clcf) (lc_name clcf) []]"

text \<open>\<open>lq->exact ? lq->exact : lq->inclusive\<close>, which one of the two always is.\<close>

definition lq_clcf :: "loc_queue \<Rightarrow> loc_conf" where
  "lq_clcf lq = (case lq_exact lq of Some c \<Rightarrow> c | None \<Rightarrow> the (lq_inclusive lq))"

text \<open>The comparison; the names are followed by a null byte, as the configuration parser leaves them.\<close>

definition ngx_http_cmp_locations :: "loc_queue \<Rightarrow> loc_queue \<Rightarrow> int" where
  "ngx_http_cmp_locations one two =
    (let first = lq_clcf one; second = lq_clcf two in
     if lc_noname first \<and> \<not> lc_noname second then 1
     else if \<not> lc_noname first \<and> lc_noname second then -1
     else if lc_noname first \<or> lc_noname second then 0
     else if lc_named first \<and> \<not> lc_named second then 1
     else if \<not> lc_named first \<and> lc_named second then -1
     else if lc_named first \<and> lc_named second then
       the (ngx_strcmp (lc_name first @ [c_NUL]) (lc_name second @ [c_NUL]))
     else if lc_regex first \<and> \<not> lc_regex second then 1
     else if \<not> lc_regex first \<and> lc_regex second then -1
     else if lc_regex first \<or> lc_regex second then 0
     else
       (let rc = the (ngx_filename_cmp (lc_name first @ [c_NUL]) (lc_name second @ [c_NUL])
                        (min (length (lc_name first)) (length (lc_name second)) + 1))
        in if rc = 0 \<and> \<not> lc_exact_match first \<and> lc_exact_match second then 1 else rc))"

text \<open>
  One level of \<open>ngx_http_init_locations\<close>: the queue sorted and split into the static locations,
  the regular expressions and the named locations; what follows the first location without a
  name is cut off.
\<close>

definition ngx_http_init_locations :: "loc_queue list \<Rightarrow> loc_queue list \<times> loc_conf option list \<times> loc_conf option list" where
  "ngx_http_init_locations locations =
    (let sorted = ngx_queue_sort ngx_http_cmp_locations locations;
         regex = (\<lambda>q. lc_regex (lq_clcf q));
         named = (\<lambda>q. \<not> regex q \<and> lc_named (lq_clcf q));
         kept = takeWhile (\<lambda>q. regex q \<or> named q \<or> \<not> lc_noname (lq_clcf q)) sorted;
         unnamed = takeWhile (\<lambda>q. \<not> named q) kept
     in (takeWhile (\<lambda>q. \<not> regex q) unnamed,
         map lq_exact (dropWhile (\<lambda>q. \<not> regex q) unnamed),
         map lq_exact (dropWhile (\<lambda>q. \<not> named q) kept)))"

text \<open>\<open>None\<close> is the error \<open>duplicate location\<close>.\<close>

fun ngx_http_join_exact_locations :: "loc_queue list \<Rightarrow> loc_queue list option" where
  "ngx_http_join_exact_locations [] = Some []"
| "ngx_http_join_exact_locations [q] = Some [q]"
| "ngx_http_join_exact_locations (q # x # rest) =
    (if length (lq_name q) = length (lq_name x) \<and> ngx_filename_cmp (lq_name q) (lq_name x) (length (lq_name x)) = Some 0 then
       (if lq_exact q \<noteq> None \<and> lq_exact x \<noteq> None \<or> lq_inclusive q \<noteq> None \<and> lq_inclusive x \<noteq> None then None
        else ngx_http_join_exact_locations (LQ (lq_exact q) (lq_inclusive x) (lq_name q) (lq_list q) # rest))
     else map_option (Cons q) (ngx_http_join_exact_locations (x # rest)))"

text \<open>
  The locations that extend the name of an inclusive one go to its own list. \<open>continues\<close> is the
  condition of the loop that looks for the first that does not.
\<close>

definition lq_continues :: "loc_queue \<Rightarrow> loc_queue \<Rightarrow> bool" where
  "lq_continues lq lx \<longleftrightarrow> length (lq_name lq) \<le> length (lq_name lx) \<and>
     ngx_filename_cmp (lq_name lq) (lq_name lx) (length (lq_name lq)) = Some 0"

fun lq_count :: "loc_queue \<Rightarrow> nat" where
  "lq_count (LQ e i n list) = Suc (sum_list (map lq_count list))"

function ngx_http_create_locations_list :: "loc_queue list \<Rightarrow> loc_queue list" where
  "ngx_http_create_locations_list [] = []"
| "ngx_http_create_locations_list (lq # rest) =
    (if rest = [] then [lq]
     else if lq_inclusive lq = None then lq # ngx_http_create_locations_list rest
     else
       (let ext = takeWhile (lq_continues lq) rest; x = dropWhile (lq_continues lq) rest in
        if ext = [] then lq # ngx_http_create_locations_list x
        else
          LQ (lq_exact lq) (lq_inclusive lq) (lq_name lq) (ngx_http_create_locations_list (lq_list lq @ ext)) #
          (if x = [] then [] else ngx_http_create_locations_list x)))"
  by pat_completeness auto

termination
proof (relation "measure (\<lambda>qs. sum_list (map lq_count qs))")
  fix lq :: loc_queue and rest ext x :: "loc_queue list"
  have split: "sum_list (map lq_count (takeWhile P rest)) + sum_list (map lq_count (dropWhile P rest)) = sum_list (map lq_count rest)" for P
    by (metis map_append sum_list_append takeWhile_dropWhile_id)
  have lq: "lq_count lq = Suc (sum_list (map lq_count (lq_list lq)))" by (cases lq) simp
  show "(rest, lq # rest) \<in> measure (\<lambda>qs. sum_list (map lq_count qs))" using lq by simp
  show "(x, lq # rest) \<in> measure (\<lambda>qs. sum_list (map lq_count qs))" if "x = dropWhile (lq_continues lq) rest"
    using split [of "lq_continues lq"] lq that by simp
  then show "(x, lq # rest) \<in> measure (\<lambda>qs. sum_list (map lq_count qs))" if "x = dropWhile (lq_continues lq) rest"
    using that by simp
  show "(lq_list lq @ ext, lq # rest) \<in> measure (\<lambda>qs. sum_list (map lq_count qs))" if "ext = takeWhile (lq_continues lq) rest"
    using split [of "lq_continues lq"] lq that by simp
qed simp

declare ngx_http_create_locations_list.simps(2) [simp del]

section \<open>The tree\<close>

datatype loc_tree =
    LT_null
  | LT (lt_left: loc_tree) (lt_right: loc_tree) (lt_tree: loc_tree) (lt_exact: "loc_conf option")
       (lt_inclusive: "loc_conf option") (lt_auto_redirect: bool) (lt_len: u_char) (lt_name: bytes)

text \<open>
  The node in the middle, then the subtrees; \<open>len\<close> is stored in a \<open>u_char\<close>. An empty queue has no
  middle; the code never passes one.
\<close>

function ngx_http_create_locations_tree :: "loc_queue list \<Rightarrow> nat \<Rightarrow> loc_tree" where
  "ngx_http_create_locations_tree [] prefix = LT_null"
| "ngx_http_create_locations_tree (q0 # qs) prefix =
    (let queue = q0 # qs; k = ngx_queue_middle queue; lq = queue ! k;
         len = length (lq_name lq) - prefix
     in LT (ngx_http_create_locations_tree (take k queue) prefix)
           (ngx_http_create_locations_tree (drop (Suc k) queue) prefix)
           (ngx_http_create_locations_tree (lq_list lq) (prefix + len))
           (lq_exact lq) (lq_inclusive lq)
           ((case lq_exact lq of None \<Rightarrow> False | Some c \<Rightarrow> lc_auto_redirect c) \<or>
            (case lq_inclusive lq of None \<Rightarrow> False | Some c \<Rightarrow> lc_auto_redirect c))
           (of_nat len) (drop prefix (lq_name lq)))"
  by pat_completeness auto
termination
proof (relation "measure (\<lambda>(qs, prefix). sum_list (map lq_count qs))")
  fix q0 :: loc_queue and qs queue :: "loc_queue list" and prefix k len :: nat and lq :: loc_queue
  assume q: "queue = q0 # qs" "k = ngx_queue_middle queue" "lq = queue ! k"
  have k: "k < length queue" by (simp add: q(1,2) ngx_queue_middle_eq)
  have pos: "0 < lq_count x" for x by (cases x) simp
  have lq: "lq_count lq = Suc (sum_list (map lq_count (lq_list lq)))" by (cases lq) simp
  have "queue = take k queue @ lq # drop (Suc k) queue" using k by (simp add: q(3) id_take_nth_drop)
  then have sum: "sum_list (map lq_count (q0 # qs)) =
      sum_list (map lq_count (take k queue)) + lq_count lq + sum_list (map lq_count (drop (Suc k) queue))"
    by (metis (no_types, lifting) add.assoc list.simps(9) map_append q(1) sum_list.Cons sum_list_append)
  show "((take k queue, prefix), (q0 # qs, prefix)) \<in> measure (\<lambda>(qs, prefix). sum_list (map lq_count qs))"
    using sum pos [of lq] by simp
  show "((drop (Suc k) queue, prefix), (q0 # qs, prefix)) \<in> measure (\<lambda>(qs, prefix). sum_list (map lq_count qs))"
    using sum pos [of lq] by simp
  show "((lq_list lq, prefix + len), (q0 # qs, prefix)) \<in> measure (\<lambda>(qs, prefix). sum_list (map lq_count qs))"
    using sum lq by simp
qed simp

declare ngx_http_create_locations_tree.simps(2) [simp del]

text \<open>
  \<open>ngx_http_init_static_location_trees\<close> for one level: \<open>None\<close> is the error of duplicate locations;
  an empty queue leaves \<open>static_locations\<close> null.
\<close>

definition ngx_http_init_static_location_trees :: "loc_queue list \<Rightarrow> loc_tree option" where
  "ngx_http_init_static_location_trees locations =
    (if locations = [] then Some LT_null
     else map_option (\<lambda>qs. ngx_http_create_locations_tree (ngx_http_create_locations_list qs) 0)
            (ngx_http_join_exact_locations locations))"

section \<open>The lookup\<close>

text \<open>
  The return code with \<open>r->loc_conf\<close>, \<open>None\<close> where it is not set. No result at all is a read out of
  bounds or through a null pointer.
\<close>

primrec ngx_http_core_find_static_location ::
  "loc_tree \<Rightarrow> bytes \<Rightarrow> int \<times> nat option \<Rightarrow> (int \<times> nat option) option"
where
  "ngx_http_core_find_static_location LT_null uri rv = Some rv"
| "ngx_http_core_find_static_location (LT left right tree exact inclusive auto nlen name) uri rv =
    (let len = length uri; nl = unat nlen; n = (if len \<le> nl then len else nl) in
     case ngx_filename_cmp uri name n of
       None \<Rightarrow> None
     | Some rc \<Rightarrow>
         if rc \<noteq> 0 then
           (if rc < 0 then ngx_http_core_find_static_location left uri rv
            else ngx_http_core_find_static_location right uri rv)
         else if nl < len then
           (case inclusive of
              Some c \<Rightarrow> ngx_http_core_find_static_location tree (drop n uri) (NGX_AGAIN, Some (lc_conf c))
            | None \<Rightarrow> ngx_http_core_find_static_location right uri rv)
         else if len = nl then
           (case exact of
              Some c \<Rightarrow> Some (NGX_OK, Some (lc_conf c))
            | None \<Rightarrow> map_option (\<lambda>c. (NGX_AGAIN, Some (lc_conf c))) inclusive)
         else if len + 1 = nl \<and> auto then
           (case (case exact of Some c \<Rightarrow> Some c | None \<Rightarrow> inclusive) of
              None \<Rightarrow> None
            | Some c \<Rightarrow> ngx_http_core_find_static_location left uri (NGX_DONE, Some (lc_conf c)))
         else ngx_http_core_find_static_location left uri rv)"

end
