(* ===== verification/Location_Tree_Correct.thy ===== *)
theory Location_Tree_Correct
  imports Http_Locations "HOL-Library.Sublist"
begin

text \<open>
The tree of static locations: the order of names, the shape of the lists the tree is built from,
  and that a lookup in the tree finds the entry a search of all entries would.
\<close>

section \<open>The order of names\<close>

text \<open>The slash is the lowest character, and a name comes before those it is a prefix of.\<close>

definition loc_key :: "u_char \<Rightarrow> nat" where
  "loc_key c = (if c = c_slash then 0 else unat c)"

fun name_less :: "bytes \<Rightarrow> bytes \<Rightarrow> bool" where
  "name_less xs [] = False"
| "name_less [] (y # ys) = True"
| "name_less (x # xs) (y # ys) = (loc_key x < loc_key y \<or> x = y \<and> name_less xs ys)"

lemma loc_key_inj: "x \<noteq> c_NUL \<Longrightarrow> y \<noteq> c_NUL \<Longrightarrow> loc_key x = loc_key y \<Longrightarrow> x = y"
  by (auto simp: loc_key_def word_unat_eq_iff split: if_splits)

lemma loc_key_total: "x \<noteq> c_NUL \<Longrightarrow> y \<noteq> c_NUL \<Longrightarrow> x \<noteq> y \<Longrightarrow> loc_key x < loc_key y \<or> loc_key y < loc_key x"
  using loc_key_inj [of x y] by linarith

lemma loc_key_slash: "\<not> loc_key c < loc_key c_slash"
  by (simp add: loc_key_def)

lemma name_less_irrefl [simp]: "\<not> name_less xs xs"
  by (induction xs) auto

lemma name_less_trans: "name_less xs ys \<Longrightarrow> name_less ys zs \<Longrightarrow> name_less xs zs"
proof (induction xs ys arbitrary: zs rule: name_less.induct)
  case (2 y ys)
  then show ?case by (cases zs) auto
next
  case (3 x xs y ys)
  then show ?case by (cases zs) auto
qed simp

lemma name_less_total: "c_NUL \<notin> set xs \<Longrightarrow> c_NUL \<notin> set ys \<Longrightarrow> xs \<noteq> ys \<Longrightarrow> name_less xs ys \<or> name_less ys xs"
  by (induction xs ys rule: name_less.induct) (auto dest: loc_key_total, metis list.exhaust name_less.simps(2))

lemma name_less_append [simp]: "name_less (p @ xs) (p @ ys) = name_less xs ys"
  by (induction p) auto

lemma strict_prefix_less: "strict_prefix xs ys \<Longrightarrow> name_less xs ys"
  by (auto simp: strict_prefix_def prefix_def) (metis append_Nil2 list.exhaust name_less.simps(2) name_less_append)

section \<open>Names and the URI\<close>

definition diverge :: "bytes \<Rightarrow> bytes \<Rightarrow> bool" where
  "diverge xs ys \<longleftrightarrow> \<not> prefix xs ys \<and> \<not> prefix ys xs"

lemma diverge_Cons: "diverge (x # xs) (y # ys) \<longleftrightarrow> x \<noteq> y \<or> diverge xs ys"
  by (auto simp: diverge_def)

lemma diverge_Nil [simp]: "\<not> diverge [] ys" "\<not> diverge xs []"
  by (simp_all add: diverge_def)

text \<open>Comparing up to the shorter length tells the three cases apart.\<close>

lemma filename_cmp_min:
  "c_NUL \<notin> set xs \<Longrightarrow> c_NUL \<notin> set ys \<Longrightarrow>
     \<exists>r. ngx_filename_cmp xs ys (min (length xs) (length ys)) = Some r \<and>
       (r = 0 \<longleftrightarrow> \<not> diverge xs ys) \<and> (r < 0 \<longleftrightarrow> diverge xs ys \<and> name_less xs ys) \<and> (0 < r \<longleftrightarrow> diverge xs ys \<and> name_less ys xs)"
proof (induction xs ys rule: name_less.induct)
  case (3 x xs y ys)
  have nz: "x \<noteq> c_NUL" "y \<noteq> c_NUL" using 3(2,3) by auto
  show ?case
  proof (cases "x = y")
    case True
    then show ?thesis using 3 nz by (auto simp: diverge_Cons)
  next
    case False
    have "byte_diff (if x = c_slash then c_NUL else x) (if y = c_slash then c_NUL else y) = int (loc_key x) - int (loc_key y)"
      by (simp add: byte_diff_def loc_key_def)
    then show ?thesis using False nz loc_key_total [OF nz False] by (auto simp: diverge_Cons Let_def)
  qed
qed (auto simp: diverge_def)

lemma after_divergence:
  "diverge u n \<Longrightarrow> name_less u n \<Longrightarrow> x = n \<or> name_less n x \<Longrightarrow> \<not> prefix x u \<and> \<not> prefix u x"
proof (induction u n arbitrary: x rule: name_less.induct)
  case (3 a u b n)
  then show ?case by (cases x) (auto simp: diverge_Cons)
qed simp_all

lemma before_divergence:
  "diverge u n \<Longrightarrow> name_less n u \<Longrightarrow> x = n \<or> name_less x n \<Longrightarrow> \<not> prefix u x \<and> (prefix x u \<longrightarrow> strict_prefix x n)"
proof (induction n u arbitrary: x rule: name_less.induct)
  case (3 b n a u)
  then show ?case by (cases x) (auto simp: diverge_Cons)
qed simp_all

lemma before_prefix: "prefix n u \<Longrightarrow> name_less x n \<Longrightarrow> \<not> prefix u x \<and> (prefix x u \<longrightarrow> strict_prefix x n)"
proof (induction x n arbitrary: u rule: name_less.induct)
  case (3 a x b n)
  then show ?case by (cases u) auto
qed (auto simp: strict_prefix_def)

lemma after_prefix: "prefix n u \<Longrightarrow> name_less n x \<Longrightarrow> \<not> prefix n x \<Longrightarrow> \<not> prefix x u \<and> \<not> prefix u x"
proof (induction n x arbitrary: u rule: name_less.induct)
  case (3 a n b x)
  then show ?case by (cases u) auto
qed simp_all

lemma after_extension:
  "strict_prefix u n \<Longrightarrow> x = n \<or> name_less n x \<Longrightarrow> \<not> prefix x u \<and> (x \<noteq> n \<longrightarrow> x \<noteq> u @ [c_slash])"
proof (induction n x arbitrary: u rule: name_less.induct)
  case (3 a n b x)
  show ?case
  proof (cases u)
    case Nil
    then show ?thesis using 3(3) loc_key_slash by auto
  next
    case (Cons c u')
    then show ?thesis using 3 by (auto simp: strict_prefix_def)
  qed
qed (auto simp: strict_prefix_def)

section \<open>What a lookup should find\<close>

text \<open>
  The result for an entry whose name is the URI, for one the URI is redirected to (the URI with
  the trailing slash the name has), and for one that is an inclusive prefix of it.
\<close>

definition loc_found :: "loc_queue \<Rightarrow> int \<times> nat option" where
  "loc_found d = (case lq_exact d of
     Some c \<Rightarrow> (NGX_OK, Some (lc_conf c)) | None \<Rightarrow> (NGX_AGAIN, Some (lc_conf (the (lq_inclusive d)))))"

definition loc_redirect :: "loc_queue \<Rightarrow> int \<times> nat option" where
  "loc_redirect d = (NGX_DONE, Some (lc_conf (lq_clcf d)))"

definition loc_inclusive :: "loc_queue \<Rightarrow> int \<times> nat option" where
  "loc_inclusive d = (NGX_AGAIN, Some (lc_conf (the (lq_inclusive d))))"

definition redirects :: "loc_queue \<Rightarrow> bool" where
  "redirects d \<longleftrightarrow> (\<exists>c. lq_exact d = Some c \<and> lc_auto_redirect c) \<or> (\<exists>c. lq_inclusive d = Some c \<and> lc_auto_redirect c)"

definition redirect_to :: "loc_queue \<Rightarrow> bytes \<Rightarrow> bool" where
  "redirect_to d uri \<longleftrightarrow> redirects d \<and> lq_name d = uri @ [c_slash]"

definition prefix_of :: "loc_queue \<Rightarrow> bytes \<Rightarrow> bool" where
  "prefix_of d uri \<longleftrightarrow> lq_inclusive d \<noteq> None \<and> strict_prefix (lq_name d) uri"

text \<open>
  The reference: the entry with the URI as its name; failing that the one the URI is redirected
  to; failing that the longest inclusive prefix; failing that \<open>rv\<close>.
\<close>

definition loc_result :: "loc_queue set \<Rightarrow> bytes \<Rightarrow> int \<times> nat option \<Rightarrow> int \<times> nat option \<Rightarrow> bool" where
  "loc_result E uri rv res \<longleftrightarrow>
     (if \<exists>d \<in> E. lq_name d = uri then \<exists>d \<in> E. lq_name d = uri \<and> res = loc_found d
      else if \<exists>d \<in> E. redirect_to d uri then \<exists>d \<in> E. redirect_to d uri \<and> res = loc_redirect d
      else if \<exists>d \<in> E. prefix_of d uri then
        \<exists>d \<in> E. prefix_of d uri \<and> (\<forall>d' \<in> E. prefix_of d' uri \<longrightarrow> length (lq_name d') \<le> length (lq_name d)) \<and> res = loc_inclusive d
      else res = rv)"

definition relevant :: "loc_queue \<Rightarrow> bytes \<Rightarrow> bool" where
  "relevant d uri \<longleftrightarrow> lq_name d = uri \<or> redirect_to d uri \<or> prefix_of d uri"

lemma loc_result_cong:
  assumes "loc_result E' uri rv res" "E' \<subseteq> E" "\<And>d. d \<in> E \<Longrightarrow> relevant d uri \<Longrightarrow> d \<in> E'"
  shows "loc_result E uri rv res"
proof -
  have e: "(\<exists>d \<in> E. lq_name d = uri \<and> P d) = (\<exists>d \<in> E'. lq_name d = uri \<and> P d)"
    "(\<exists>d \<in> E. redirect_to d uri \<and> P d) = (\<exists>d \<in> E'. redirect_to d uri \<and> P d)"
    "(\<exists>d \<in> E. prefix_of d uri \<and> P d) = (\<exists>d \<in> E'. prefix_of d uri \<and> P d)"
    "(\<forall>d \<in> E. prefix_of d uri \<longrightarrow> P d) = (\<forall>d \<in> E'. prefix_of d uri \<longrightarrow> P d)" for P
    using assms(2,3) unfolding relevant_def by blast+
  show ?thesis using assms(1) e(1-3) [of "\<lambda>_. True"] unfolding loc_result_def by (simp add: e)
qed

section \<open>The shape of the lists\<close>

text \<open>An entry with those in its own list, in order.\<close>

fun lq_all :: "loc_queue \<Rightarrow> loc_queue list" where
  "lq_all (LQ e i n qs) = LQ e i n qs # concat (map lq_all qs)"

definition lqs_all :: "loc_queue list \<Rightarrow> loc_queue list" where
  "lqs_all qs = concat (map lq_all qs)"

definition lq_before :: "loc_queue \<Rightarrow> loc_queue \<Rightarrow> bool" where
  "lq_before q r \<longleftrightarrow> (\<forall>d \<in> set (lq_all q). \<forall>e \<in> set (lq_all r). name_less (lq_name d) (lq_name e)) \<and>
     (lq_inclusive q \<noteq> None \<longrightarrow> \<not> prefix (lq_name q) (lq_name r))"

definition lq_valid :: "loc_queue \<Rightarrow> bool" where
  "lq_valid q \<longleftrightarrow> (lq_exact q \<noteq> None \<or> lq_inclusive q \<noteq> None) \<and> c_NUL \<notin> set (lq_name q) \<and> length (lq_name q) < 256 \<and>
     (redirects q \<longrightarrow> (\<exists>n. lq_name q = n @ [c_slash]))"

text \<open>
  Names extend the common prefix; only an inclusive location has a list, whose names extend its
  own; siblings are in order and none extends the name of an inclusive one before it.
\<close>

fun lq_ok :: "bytes \<Rightarrow> loc_queue \<Rightarrow> bool" where
  "lq_ok pre (LQ e i n qs) \<longleftrightarrow> strict_prefix pre n \<and> lq_valid (LQ e i n qs) \<and> (qs \<noteq> [] \<longrightarrow> i \<noteq> None) \<and>
     (\<forall>q \<in> set qs. lq_ok n q) \<and> sorted_wrt lq_before qs"

definition level_ok :: "bytes \<Rightarrow> loc_queue list \<Rightarrow> bool" where
  "level_ok pre qs \<longleftrightarrow> (\<forall>q \<in> set qs. lq_ok pre q) \<and> sorted_wrt lq_before qs"

lemma lq_ok_iff:
  "lq_ok pre q \<longleftrightarrow> strict_prefix pre (lq_name q) \<and> lq_valid q \<and> (lq_list q \<noteq> [] \<longrightarrow> lq_inclusive q \<noteq> None) \<and> level_ok (lq_name q) (lq_list q)"
  by (cases q) (simp add: level_ok_def)

lemma lq_all_iff: "set (lq_all q) = insert q (set (lqs_all (lq_list q)))"
  by (cases q) (simp add: lqs_all_def)

lemma lq_all_self [simp]: "q \<in> set (lq_all q)"
  by (simp add: lq_all_iff)

lemma lq_ok_prefix: "lq_ok pre q \<Longrightarrow> d \<in> set (lq_all q) \<Longrightarrow> d = q \<or> strict_prefix (lq_name q) (lq_name d)"
proof (induction pre q arbitrary: d rule: lq_ok.induct)
  case (1 pre e i n qs)
  show ?case
  proof (cases "d = LQ e i n qs")
    case False
    then obtain q where q: "q \<in> set qs" "d \<in> set (lq_all q)" using 1(3) by auto
    have "lq_ok n q" using 1(2) q(1) by simp
    then have "strict_prefix n (lq_name q)" by (simp add: lq_ok_iff)
    with 1(1) [OF q(1) \<open>lq_ok n q\<close> q(2)] show ?thesis by (auto intro: prefix_order.less_trans)
  qed simp
qed

lemma lq_ok_inclusive: "lq_ok pre q \<Longrightarrow> d \<in> set (lq_all q) \<Longrightarrow> d \<noteq> q \<Longrightarrow> lq_inclusive q \<noteq> None"
  by (cases q) auto

section \<open>The tree finds what it should\<close>

lemma lqs_all_append [simp]: "lqs_all (xs @ ys) = lqs_all xs @ lqs_all ys"
  by (simp add: lqs_all_def)

lemma lqs_all_Cons: "set (lqs_all (q # qs)) = insert q (set (lqs_all (lq_list q))) \<union> set (lqs_all qs)"
  using lq_all_iff [of q] by (simp add: lqs_all_def)

lemma lqs_all_in: "x \<in> set (lqs_all qs) \<longleftrightarrow> (\<exists>q \<in> set qs. x \<in> set (lq_all q))"
  by (auto simp: lqs_all_def)

lemma relevant_prefix: "relevant d u \<Longrightarrow> prefix (lq_name d) u \<or> prefix u (lq_name d)"
  by (auto simp: relevant_def redirect_to_def prefix_of_def strict_prefix_def)

lemma level_ok_append: "level_ok pre (xs @ ys) \<longleftrightarrow> level_ok pre xs \<and> level_ok pre ys \<and> (\<forall>x \<in> set xs. \<forall>y \<in> set ys. lq_before x y)"
  by (auto simp: level_ok_def sorted_wrt_append)

lemma level_ok_Cons: "level_ok pre (q # qs) \<longleftrightarrow> lq_ok pre q \<and> level_ok pre qs \<and> (\<forall>y \<in> set qs. lq_before q y)"
  by (auto simp: level_ok_def)

text \<open>An entry against those before it, in its own list and after it.\<close>

lemma level_left:
  assumes "level_ok pre (L @ lq # R)" and "x \<in> set (lqs_all L)"
  shows "name_less (lq_name x) (lq_name lq)" and "lq_inclusive x \<noteq> None \<Longrightarrow> \<not> prefix (lq_name x) (lq_name lq)"
proof -
  obtain q where q: "q \<in> set L" "x \<in> set (lq_all q)" using assms(2) unfolding lqs_all_in by blast
  have b: "lq_before q lq" "lq_ok pre q" using assms(1) q(1) unfolding level_ok_def by (auto simp: sorted_wrt_append)
  show "name_less (lq_name x) (lq_name lq)" using b(1) q(2) by (simp add: lq_before_def)
  show "\<not> prefix (lq_name x) (lq_name lq)" if i: "lq_inclusive x \<noteq> None"
  proof
    assume p: "prefix (lq_name x) (lq_name lq)"
    have "lq_inclusive q \<noteq> None" using lq_ok_inclusive [OF b(2) q(2)] i by (cases "x = q") auto
    moreover have "prefix (lq_name q) (lq_name x)" using lq_ok_prefix [OF b(2) q(2)] by (auto simp: strict_prefix_def)
    ultimately show False using b(1) p unfolding lq_before_def by (metis prefix_order.trans)
  qed
qed

lemma level_own:
  assumes "level_ok pre (L @ lq # R)" and "x \<in> set (lqs_all (lq_list lq))"
  shows "strict_prefix (lq_name lq) (lq_name x)" and "lq_inclusive lq \<noteq> None"
proof -
  have ok: "lq_ok pre lq" using assms(1) by (simp add: level_ok_append level_ok_Cons)
  obtain q where q: "q \<in> set (lq_list lq)" "x \<in> set (lq_all q)" using assms(2) unfolding lqs_all_in by blast
  have lv: "level_ok (lq_name lq) (lq_list lq)" and i: "lq_list lq \<noteq> [] \<longrightarrow> lq_inclusive lq \<noteq> None" using ok unfolding lq_ok_iff by blast+
  have q_ok: "lq_ok (lq_name lq) q" using lv q(1) by (simp add: level_ok_def)
  then have "strict_prefix (lq_name lq) (lq_name q)" unfolding lq_ok_iff by blast
  with lq_ok_prefix [OF q_ok q(2)] show "strict_prefix (lq_name lq) (lq_name x)" by (auto intro: prefix_order.less_trans)
  show "lq_inclusive lq \<noteq> None" using i q(1) by auto
qed

lemma level_right:
  assumes "level_ok pre (L @ lq # R)" and "x \<in> set (lqs_all R)"
  shows "name_less (lq_name lq) (lq_name x)" and "lq_inclusive lq \<noteq> None \<Longrightarrow> \<not> prefix (lq_name lq) (lq_name x)"
proof -
  obtain q where q: "q \<in> set R" "x \<in> set (lq_all q)" using assms(2) unfolding lqs_all_in by blast
  have b: "lq_before lq q" "lq_ok pre q" using assms(1) q(1) unfolding level_ok_def by (auto simp: sorted_wrt_append)
  show "name_less (lq_name lq) (lq_name x)" using b(1) q(2) by (simp add: lq_before_def)
  show "\<not> prefix (lq_name lq) (lq_name x)" if i: "lq_inclusive lq \<noteq> None"
  proof
    assume p: "prefix (lq_name lq) (lq_name x)"
    have n: "\<not> prefix (lq_name lq) (lq_name q)" using b(1) i by (simp add: lq_before_def)
    have "prefix (lq_name q) (lq_name x)" using lq_ok_prefix [OF b(2) q(2)] by (auto simp: strict_prefix_def)
    from prefix_same_cases [OF p this] n have "prefix (lq_name q) (lq_name lq)" by blast
    moreover have "lq_name q \<noteq> lq_name lq" using n by auto
    ultimately have "strict_prefix (lq_name q) (lq_name lq)" by (simp add: strict_prefix_def)
    then have "name_less (lq_name q) (lq_name lq)" by (rule strict_prefix_less)
    moreover have "name_less (lq_name lq) (lq_name q)" using b(1) by (simp add: lq_before_def)
    ultimately show False using name_less_trans name_less_irrefl by blast
  qed
qed

text \<open>What a step to the left, to the right and into the list of an entry leaves out.\<close>

lemma step_left:
  assumes ok: "level_ok pre (L @ lq # R)" and d: "diverge u (lq_name lq)" "name_less u (lq_name lq)"
    and x: "x \<in> set (lqs_all (L @ lq # R))" "relevant x u"
  shows "x \<in> set (lqs_all L)"
proof (rule ccontr)
  assume "x \<notin> set (lqs_all L)"
  then have "x = lq \<or> x \<in> set (lqs_all (lq_list lq)) \<or> x \<in> set (lqs_all R)" using x(1) by (auto simp: lqs_all_Cons simp del: append.simps)
  then have "lq_name x = lq_name lq \<or> name_less (lq_name lq) (lq_name x)"
    using level_own(1) [OF ok] level_right(1) [OF ok] strict_prefix_less by blast
  with after_divergence [OF d] relevant_prefix [OF x(2)] show False by blast
qed

lemma relevant_before:
  assumes "level_ok pre (L @ lq # R)" "x \<in> set (lqs_all L)" "relevant x u"
    and "\<not> prefix u (lq_name x) \<and> (prefix (lq_name x) u \<longrightarrow> strict_prefix (lq_name x) (lq_name lq))"
  shows False
proof -
  have "prefix_of x u" using assms(3,4) by (auto simp: relevant_def redirect_to_def)
  then have "lq_inclusive x \<noteq> None" "prefix (lq_name x) u" by (auto simp: prefix_of_def)
  then show False using level_left(2) [OF assms(1,2)] assms(4) by (auto simp: strict_prefix_def)
qed

lemma step_right:
  assumes ok: "level_ok pre (L @ lq # R)" and d: "diverge u (lq_name lq)" "name_less (lq_name lq) u"
    and x: "x \<in> set (lqs_all (L @ lq # R))" "relevant x u"
  shows "x \<in> set (lqs_all R)"
proof (rule ccontr)
  assume "x \<notin> set (lqs_all R)"
  then consider "x \<in> set (lqs_all L)" | "prefix (lq_name lq) (lq_name x)"
    using x(1) level_own(1) [OF ok] by (auto simp: lqs_all_Cons strict_prefix_def simp del: append.simps)
  then show False
  proof cases
    case 1
    then show False using relevant_before [OF ok 1 x(2)] before_divergence [OF d, of "lq_name x"] level_left(1) [OF ok 1] by blast
  next
    case 2
    then show False using relevant_prefix [OF x(2)] d(1) unfolding diverge_def by (metis prefix_order.trans prefix_same_cases)
  qed
qed

lemma step_into:
  assumes ok: "level_ok pre (L @ lq # R)" and p: "strict_prefix (lq_name lq) u"
    and x: "x \<in> set (lqs_all (L @ lq # R))" "relevant x u"
  shows "lq_inclusive lq \<noteq> None \<Longrightarrow> x \<in> insert lq (set (lqs_all (lq_list lq)))"
    and "lq_inclusive lq = None \<Longrightarrow> x \<in> set (lqs_all R)"
proof -
  have pu: "prefix (lq_name lq) u" using p by (simp add: strict_prefix_def)
  have l: "x \<notin> set (lqs_all L)"
    using relevant_before [OF ok _ x(2)] before_prefix [OF pu, of "lq_name x"] level_left(1) [OF ok] by blast
  then have c: "x = lq \<or> x \<in> set (lqs_all (lq_list lq)) \<or> x \<in> set (lqs_all R)" using x(1) by (auto simp: lqs_all_Cons simp del: append.simps)
  show "x \<in> insert lq (set (lqs_all (lq_list lq)))" if i: "lq_inclusive lq \<noteq> None"
    using c after_prefix [OF pu, of "lq_name x"] level_right [OF ok _ ] i relevant_prefix [OF x(2)] by blast
  show "x \<in> set (lqs_all R)" if i: "lq_inclusive lq = None"
  proof -
    have "\<not> relevant lq u" using p i by (auto simp: relevant_def redirect_to_def prefix_of_def strict_prefix_def)
    then show ?thesis using c x(2) level_own(2) [OF ok] i by blast
  qed
qed

lemma step_extension:
  assumes ok: "level_ok pre (L @ lq # R)" and p: "strict_prefix u (lq_name lq)"
    and x: "x \<in> set (lqs_all (L @ lq # R))" "relevant x u"
  shows "\<not> prefix_of x u" and "x \<in> set (lqs_all L) \<or> x = lq \<and> redirect_to lq u"
proof -
  have gt: "\<not> prefix (lq_name x) u \<and> (x \<noteq> lq \<longrightarrow> lq_name x \<noteq> u @ [c_slash])" if "x \<notin> set (lqs_all L)"
  proof -
    have "x = lq \<or> x \<in> set (lqs_all (lq_list lq)) \<or> x \<in> set (lqs_all R)" using x(1) that by (auto simp: lqs_all_Cons simp del: append.simps)
    then have "x = lq \<or> name_less (lq_name lq) (lq_name x)"
      using level_own(1) [OF ok] level_right(1) [OF ok] strict_prefix_less by blast
    moreover have "name_less (lq_name lq) (lq_name x) \<Longrightarrow> lq_name x \<noteq> lq_name lq" by auto
    ultimately show ?thesis using after_extension [OF p, of "lq_name x"] after_extension [OF p, of "lq_name lq"] by blast
  qed
  show np: "\<not> prefix_of x u"
  proof
    assume a: "prefix_of x u"
    then have b: "lq_inclusive x \<noteq> None" "prefix (lq_name x) u" by (auto simp: prefix_of_def strict_prefix_def)
    then have "x \<in> set (lqs_all L)" using gt by blast
    from level_left(2) [OF ok this b(1)] show False using b(2) p unfolding strict_prefix_def by (metis prefix_order.trans)
  qed
  show "x \<in> set (lqs_all L) \<or> x = lq \<and> redirect_to lq u"
    using gt np x(2) unfolding relevant_def redirect_to_def by (metis prefix_order.refl)
qed

section \<open>The results\<close>

lemma loc_result_mono:
  assumes "loc_result (set (lqs_all S)) u rv res" and "set (lqs_all S) \<subseteq> set (lqs_all qs)"
    and "\<And>x. x \<in> set (lqs_all qs) \<Longrightarrow> relevant x u \<Longrightarrow> x \<in> set (lqs_all S)"
  shows "loc_result (set (lqs_all qs)) u rv res"
  by (rule loc_result_cong [OF assms])

lemma loc_result_into:
  assumes r: "loc_result E u (loc_inclusive d) res" and d: "prefix_of d u" and E: "\<And>x. x \<in> E \<Longrightarrow> strict_prefix (lq_name d) (lq_name x)"
  shows "loc_result (insert d E) u rv res"
proof -
  have n: "lq_name d \<noteq> u" "\<not> redirect_to d u" using d by (auto simp: prefix_of_def strict_prefix_def redirect_to_def)
  have len: "length (lq_name d) \<le> length (lq_name x)" if "x \<in> E" for x
    using E [OF that] by (auto simp: strict_prefix_def dest: prefix_length_le)
  show ?thesis
  proof (cases "\<exists>x \<in> E. prefix_of x u")
    case True
    then show ?thesis using r n d len unfolding loc_result_def by (auto 0 4)
  next
    case False
    then show ?thesis using r n d unfolding loc_result_def by auto
  qed
qed

lemma loc_result_redirect:
  assumes r: "loc_result E u (loc_redirect d) res" and d: "redirect_to d u" "d \<in> E'" and sub: "E \<subseteq> E'"
    and E: "\<And>x. x \<in> E \<Longrightarrow> \<not> prefix_of x u" "\<And>x. x \<in> E' \<Longrightarrow> relevant x u \<Longrightarrow> x \<in> E \<or> x = d"
  shows "loc_result E' u rv res"
proof -
  have n: "lq_name d \<noteq> u" using d(1) by (auto simp: redirect_to_def)
  show ?thesis
  proof (cases "\<exists>x \<in> E. lq_name x = u")
    case True
    then show ?thesis using r sub unfolding loc_result_def by auto
  next
    case False
    then have F: "\<not> (\<exists>x \<in> E'. lq_name x = u)" using E(2) n unfolding relevant_def by blast
    have "\<exists>x \<in> E'. redirect_to x u \<and> res = loc_redirect x"
    proof (cases "\<exists>x \<in> E. redirect_to x u")
      case True
      then have "\<exists>x \<in> E. redirect_to x u \<and> res = loc_redirect x" using r False unfolding loc_result_def by simp
      then show ?thesis using sub by blast
    next
      case False
      then have "res = loc_redirect d" using r \<open>\<not> (\<exists>x \<in> E. lq_name x = u)\<close> E(1) unfolding loc_result_def by simp
      then show ?thesis using d by blast
    qed
    then show ?thesis using F unfolding loc_result_def by auto
  qed
qed

lemma loc_result_exact: "d \<in> E \<Longrightarrow> lq_name d = u \<Longrightarrow> res = loc_found d \<Longrightarrow> loc_result E u rv res"
  unfolding loc_result_def by auto

lemma redirects_auto:
  "((case lq_exact q of None \<Rightarrow> False | Some c \<Rightarrow> lc_auto_redirect c) \<or> (case lq_inclusive q of None \<Rightarrow> False | Some c \<Rightarrow> lc_auto_redirect c)) \<longleftrightarrow> redirects q"
  by (auto simp: redirects_def split: option.splits)

section \<open>The main lemma\<close>

text \<open>The tree of a level built below the prefix \<open>pre\<close>, looked up with the rest \<open>u\<close> of a URI.\<close>

lemma find_tree:
  "level_ok pre qs \<Longrightarrow> prefx = length pre \<Longrightarrow> c_NUL \<notin> set u \<Longrightarrow>
     \<exists>res. ngx_http_core_find_static_location (ngx_http_create_locations_tree qs prefx) u rv = Some res \<and>
       loc_result (set (lqs_all qs)) (pre @ u) rv res"
proof (induction qs prefx arbitrary: pre u rv rule: ngx_http_create_locations_tree.induct)
  case (1 prefx)
  then show ?case by (simp add: lqs_all_def loc_result_def)
next
  case (2 q0 qs prefx)
  define queue where "queue = q0 # qs"
  define k where "k = ngx_queue_middle queue"
  define lq where "lq = queue ! k"
  define L where "L = take k queue"
  define R where "R = drop (Suc k) queue"
  define name where "name = drop prefx (lq_name lq)"
  let ?U = "pre @ u" and ?E = "set (lqs_all queue)"
  have k: "k < length queue" by (simp add: k_def queue_def ngx_queue_middle_eq)
  have split: "queue = L @ lq # R" using k by (simp add: L_def R_def lq_def id_take_nth_drop)
  have ok: "level_ok pre (L @ lq # R)" using 2(4) unfolding split [symmetric] by (simp add: queue_def)
  have lvl: "level_ok pre L" "level_ok pre R" "lq_ok pre lq" using ok by (auto simp: level_ok_append level_ok_Cons)
  have lqf: "strict_prefix pre (lq_name lq)" "lq_valid lq" "level_ok (lq_name lq) (lq_list lq)" using lvl(3) unfolding lq_ok_iff by blast+
  have name: "lq_name lq = pre @ name" using lqf(1) 2(5) by (auto simp: name_def strict_prefix_def prefix_def)
  have nm: "name \<noteq> []" "c_NUL \<notin> set name" "length name < 256" "lq_exact lq \<noteq> None \<or> lq_inclusive lq \<noteq> None"
    using lqf(1,2) by (auto simp: name lq_valid_def)
  have plen: "length (lq_name lq) - prefx = length name" "prefx + length name = length (lq_name lq)" using 2(5) by (simp_all add: name)
  have nl: "unat (of_nat (length name) :: u_char) = length name" using nm(3) by (simp add: unat_of_nat)
  have auto: "(case lq_exact lq of None \<Rightarrow> False | Some c \<Rightarrow> lc_auto_redirect c) \<or>
      (case lq_inclusive lq of None \<Rightarrow> False | Some c \<Rightarrow> lc_auto_redirect c) \<longleftrightarrow> redirects lq" by (rule redirects_auto)
  let ?left = "ngx_http_create_locations_tree L prefx" and ?right = "ngx_http_create_locations_tree R prefx"
  let ?tree = "ngx_http_create_locations_tree (lq_list lq) (prefx + length name)"
  let ?find = "\<lambda>t u rv. ngx_http_core_find_static_location t u rv"
  have T: "ngx_http_create_locations_tree queue prefx =
      LT ?left ?right ?tree (lq_exact lq) (lq_inclusive lq) (redirects lq) (of_nat (length name)) name"
    using ngx_http_create_locations_tree.simps(2) [of q0 qs prefx, unfolded Let_def, folded queue_def, folded k_def, folded lq_def,
      folded L_def R_def, unfolded auto plen(1), folded name_def] .
  note left = 2(1) [OF queue_def k_def lq_def plen(1) [symmetric], folded L_def, OF lvl(1) 2(5,6)]
  note right = 2(2) [OF queue_def k_def lq_def plen(1) [symmetric], folded R_def, OF lvl(2) 2(5,6)]
  note own = 2(3) [OF queue_def k_def lq_def plen(1) [symmetric] lqf(3) plen(2)]
  have sub: "set (lqs_all L) \<subseteq> ?E" "set (lqs_all R) \<subseteq> ?E" "insert lq (set (lqs_all (lq_list lq))) \<subseteq> ?E"
    by (auto simp: split lqs_all_Cons simp del: append.simps)
  obtain rc where rc: "ngx_filename_cmp u name (min (length u) (length name)) = Some rc"
      "rc = 0 \<longleftrightarrow> \<not> diverge u name" "rc < 0 \<longleftrightarrow> diverge u name \<and> name_less u name" "0 < rc \<longleftrightarrow> diverge u name \<and> name_less name u"
    using filename_cmp_min [OF 2(6) nm(2)] by blast
  have dv: "diverge u name \<Longrightarrow> diverge ?U (lq_name lq)" by (simp add: name diverge_def)
  have lt: "name_less u name \<Longrightarrow> name_less ?U (lq_name lq)" "name_less name u \<Longrightarrow> name_less (lq_name lq) ?U" by (simp_all add: name)
  have mn: "(if length u \<le> length name then length u else length name) = min (length u) (length name)" by simp
  note step = T ngx_http_core_find_static_location.simps(2) Let_def nl mn rc(1) option.case
  have "\<exists>res. ?find (ngx_http_create_locations_tree queue prefx) u rv = Some res \<and> loc_result ?E ?U rv res"
  proof (cases "diverge u name")
    case True
    show ?thesis
    proof (cases "name_less u name")
      case less: True
      have e: "?find (ngx_http_create_locations_tree queue prefx) u rv = ?find ?left u rv" unfolding step using rc True less by simp
      obtain res where "?find ?left u rv = Some res" "loc_result (set (lqs_all L)) ?U rv res" using left by blast
      moreover from this(2) have "loc_result ?E ?U rv res"
        by (rule loc_result_mono [OF _ sub(1)]) (rule step_left [OF ok dv [OF True] lt(1) [OF less], folded split])
      ultimately show ?thesis unfolding e by blast
    next
      case False
      then have less: "name_less name u" using rc True by linarith
      have e: "?find (ngx_http_create_locations_tree queue prefx) u rv = ?find ?right u rv" unfolding step using rc True less False by simp
      obtain res where "?find ?right u rv = Some res" "loc_result (set (lqs_all R)) ?U rv res" using right by blast
      moreover from this(2) have "loc_result ?E ?U rv res"
        by (rule loc_result_mono [OF _ sub(2)]) (rule step_right [OF ok dv [OF True] lt(2) [OF less], folded split])
      ultimately show ?thesis unfolding e by blast
    qed
  next
    case False
    then have rc0: "rc = 0" using rc by simp
    consider "u = name" | "strict_prefix name u" | "strict_prefix u name" using False by (auto simp: diverge_def strict_prefix_def)
    then show ?thesis
    proof cases
      case 1
      have "?find (ngx_http_create_locations_tree queue prefx) u rv = Some (loc_found lq)"
        unfolding step rc0 using 1 nm(4) by (auto simp: loc_found_def split: option.splits)
      moreover have "loc_result ?E ?U rv (loc_found lq)" using sub(3) 1 by (intro loc_result_exact [of lq]) (auto simp: name)
      ultimately show ?thesis by blast
    next
      case 2
      have len: "length name < length u" using 2 by (rule prefix_length_less)
      have p: "strict_prefix (lq_name lq) ?U" using 2 by (auto simp: name strict_prefix_def)
      show ?thesis
      proof (cases "lq_inclusive lq")
        case None
        have e: "?find (ngx_http_create_locations_tree queue prefx) u rv = ?find ?right u rv" unfolding step rc0 using len None by simp
        obtain res where "?find ?right u rv = Some res" "loc_result (set (lqs_all R)) ?U rv res" using right by blast
        moreover from this(2) have "loc_result ?E ?U rv res"
          by (rule loc_result_mono [OF _ sub(2)]) (rule step_into(2) [OF ok p _ _ None, folded split])
        ultimately show ?thesis unfolding e by blast
      next
        case (Some c)
        have U: "lq_name lq @ drop (length name) u = ?U" using 2 by (auto simp: name strict_prefix_def prefix_def)
        have e: "?find (ngx_http_create_locations_tree queue prefx) u rv = ?find ?tree (drop (length name) u) (loc_inclusive lq)"
          unfolding step rc0 using len Some by (simp add: loc_inclusive_def)
        have nz: "c_NUL \<notin> set (drop (length name) u)" using \<open>c_NUL \<notin> set u\<close> by (meson in_set_dropD)
        obtain res where r: "?find ?tree (drop (length name) u) (loc_inclusive lq) = Some res"
            "loc_result (set (lqs_all (lq_list lq))) ?U (loc_inclusive lq) res"
          using own [OF nz, of "loc_inclusive lq"] unfolding U by blast
        have po: "prefix_of lq ?U" using p Some by (simp add: prefix_of_def)
        have "loc_result (insert lq (set (lqs_all (lq_list lq)))) ?U rv res"
          by (rule loc_result_into [OF r(2) po]) (rule level_own(1) [OF ok])
        then have "loc_result ?E ?U rv res"
          by (rule loc_result_cong [OF _ sub(3)]) (rule step_into(1) [OF ok p, folded split], use Some in simp_all)
        with r(1) show ?thesis unfolding e by blast
      qed
    next
      case 3
      have len: "length u < length name" using 3 by (rule prefix_length_less)
      have p: "strict_prefix ?U (lq_name lq)" using 3 by (auto simp: name strict_prefix_def)
      note ext = step_extension [OF ok p, folded split]
      show ?thesis
      proof (cases "length u + 1 = length name \<and> redirects lq")
        case True
        have e: "?find (ngx_http_create_locations_tree queue prefx) u rv = ?find ?left u (loc_redirect lq)"
          unfolding step rc0 using len True nm(4) by (auto simp: loc_redirect_def lq_clcf_def split: option.splits)
        obtain n where "lq_name lq = n @ [c_slash]" using lqf(2) True by (auto simp: lq_valid_def)
        moreover obtain z where "name = u @ z" using 3 by (auto simp: strict_prefix_def prefix_def)
        ultimately have rt: "redirect_to lq ?U" using True name by (cases z) (auto simp: redirect_to_def)
        obtain res where r: "?find ?left u (loc_redirect lq) = Some res" "loc_result (set (lqs_all L)) ?U (loc_redirect lq) res" using left by blast
        have "loc_result ?E ?U rv res"
        proof (rule loc_result_redirect [OF r(2) rt _ sub(1)])
          show "lq \<in> ?E" using sub(3) by blast
          show "\<not> prefix_of x ?U" if "x \<in> set (lqs_all L)" for x
            using ext(1) [of x] that sub(1) unfolding relevant_def by blast
          show "x \<in> set (lqs_all L) \<or> x = lq" if "x \<in> ?E" "relevant x ?U" for x using ext(2) [OF that] by blast
        qed
        with r(1) show ?thesis unfolding e by blast
      next
        case False
        have e: "?find (ngx_http_create_locations_tree queue prefx) u rv = ?find ?left u rv"
          unfolding step rc0 using len False by auto
        have nr: "\<not> redirect_to lq ?U" using False by (auto simp: redirect_to_def name)
        obtain res where r: "?find ?left u rv = Some res" "loc_result (set (lqs_all L)) ?U rv res" using left by blast
        from r(2) have "loc_result ?E ?U rv res" by (rule loc_result_mono [OF _ sub(1)]) (use ext(2) nr in blast)
        with r(1) show ?thesis unfolding e by blast
      qed
    qed
  qed
  then show ?case by (simp add: queue_def)
qed

section \<open>Building the lists\<close>

definition lq_strip :: "loc_queue \<Rightarrow> loc_queue" where
  "lq_strip q = LQ (lq_exact q) (lq_inclusive q) (lq_name q) []"

lemma lq_strip_sel [simp]: "lq_exact (lq_strip q) = lq_exact q" "lq_inclusive (lq_strip q) = lq_inclusive q"
  "lq_name (lq_strip q) = lq_name q" "lq_list (lq_strip q) = []"
  by (simp_all add: lq_strip_def)

lemma lq_strip_flat: "lq_list q = [] \<Longrightarrow> lq_strip q = q"
  by (cases q) (simp add: lq_strip_def)

lemma loc_result_strip: "loc_result (lq_strip ` E) u rv res \<longleftrightarrow> loc_result E u rv res"
proof -
  have "redirect_to (lq_strip d) u = redirect_to d u" "prefix_of (lq_strip d) u = prefix_of d u" "loc_found (lq_strip d) = loc_found d"
    "loc_redirect (lq_strip d) = loc_redirect d" "loc_inclusive (lq_strip d) = loc_inclusive d" for d
    by (simp_all add: redirect_to_def redirects_def prefix_of_def loc_found_def loc_redirect_def loc_inclusive_def lq_clcf_def split: option.splits)
  then show ?thesis unfolding loc_result_def by simp
qed

lemma between_prefix: "name_less n h \<Longrightarrow> name_less h z \<Longrightarrow> prefix n z \<Longrightarrow> prefix n h"
proof (induction n h arbitrary: z rule: name_less.induct)
  case (3 a n b h)
  then show ?case by (cases z) auto
qed simp_all

lemma lq_continues_iff:
  assumes "c_NUL \<notin> set (lq_name lq)" "c_NUL \<notin> set (lq_name lx)"
  shows "lq_continues lq lx \<longleftrightarrow> prefix (lq_name lq) (lq_name lx)"
proof (cases "length (lq_name lq) \<le> length (lq_name lx)")
  case True
  have "\<not> prefix (lq_name lx) (lq_name lq) \<or> lq_name lx = lq_name lq" using True by (auto simp: prefix_def)
  then show ?thesis using filename_cmp_min [OF assms] True by (auto simp: lq_continues_def min_def diverge_def)
next
  case False
  then show ?thesis by (auto simp: lq_continues_def dest: prefix_length_le)
qed

definition lq_flat :: "bytes \<Rightarrow> loc_queue \<Rightarrow> bool" where
  "lq_flat pre q \<longleftrightarrow> lq_list q = [] \<and> lq_valid q \<and> strict_prefix pre (lq_name q)"

abbreviation in_order :: "loc_queue list \<Rightarrow> bool" where
  "in_order \<equiv> sorted_wrt (\<lambda>q r. name_less (lq_name q) (lq_name r))"

lemma lq_valid_LQ: "lq_valid (LQ e i n l) \<longleftrightarrow> lq_valid (LQ e i n [])"
  by (simp add: lq_valid_def redirects_def)

lemma strip_in: "map lq_strip (lqs_all Q) = qs \<Longrightarrow> x \<in> set (lqs_all Q) \<Longrightarrow> \<exists>y \<in> set qs. lq_name x = lq_name y"
  by force

lemma lqs_all_top: "q \<in> set Q \<Longrightarrow> q \<in> set (lqs_all Q)"
  unfolding lqs_all_in by (rule bexI [of _ q]) simp_all

lemma create_list:
  "\<forall>q \<in> set qs. lq_flat pre q \<Longrightarrow> in_order qs \<Longrightarrow>
     level_ok pre (ngx_http_create_locations_list qs) \<and> map lq_strip (lqs_all (ngx_http_create_locations_list qs)) = qs"
proof (induction qs arbitrary: pre rule: ngx_http_create_locations_list.induct)
  case 1
  then show ?case by (simp add: level_ok_def lqs_all_def)
next
  case (2 lq rest)
  let ?mk = "ngx_http_create_locations_list"
  obtain e i n where lq: "lq = LQ e i n []" using 2(5) by (cases lq) (auto simp: lq_flat_def)
  have f: "lq_valid lq" "strict_prefix pre n" using 2(5) by (auto simp: lq_flat_def lq)
  have single: "lq_ok pre lq" using f by (simp add: lq)
  have rest: "\<forall>q \<in> set rest. lq_flat pre q" "in_order rest" "\<And>y. y \<in> set rest \<Longrightarrow> name_less n (lq_name y)" using 2(5,6) by (auto simp: lq)
  have head: "level_ok pre (LQ e i n l # Q) \<and> map lq_strip (lqs_all (LQ e i n l # Q)) = lq # ys @ zs"
    if own: "level_ok n l" "map lq_strip (lqs_all l) = ys" "l \<noteq> [] \<longrightarrow> i \<noteq> None" and nxt: "level_ok pre Q" "map lq_strip (lqs_all Q) = zs"
      and yz: "\<And>y. y \<in> set ys \<union> set zs \<Longrightarrow> name_less n (lq_name y)" "\<And>y z. y \<in> set ys \<Longrightarrow> z \<in> set zs \<Longrightarrow> name_less (lq_name y) (lq_name z)"
        "\<And>z. i \<noteq> None \<Longrightarrow> z \<in> set zs \<Longrightarrow> \<not> prefix n (lq_name z)" for l Q ys zs
  proof -
    have "lq_ok pre (LQ e i n l)" using f own lq_valid_LQ [of e i n l] unfolding lq_ok_iff by (simp add: lq)
    moreover have "lq_before (LQ e i n l) q" if q: "q \<in> set Q" for q
      unfolding lq_before_def
    proof (intro conjI ballI impI)
      fix d x assume d: "d \<in> set (lq_all (LQ e i n l))" and x: "x \<in> set (lq_all q)"
      have "x \<in> set (lqs_all Q)" using q x unfolding lqs_all_in by blast
      then obtain z where z: "z \<in> set zs" "lq_name x = lq_name z" using strip_in [OF nxt(2)] by blast
      have "d = LQ e i n l \<or> d \<in> set (lqs_all l)" using d unfolding lq_all_iff by simp
      then show "name_less (lq_name d) (lq_name x)"
      proof
        assume "d \<in> set (lqs_all l)"
        then obtain y where "y \<in> set ys" "lq_name d = lq_name y" using strip_in [OF own(2)] by blast
        then show ?thesis using yz(2) z by simp
      qed (use yz(1) z in simp)
    next
      assume "lq_inclusive (LQ e i n l) \<noteq> None"
      then show "\<not> prefix (lq_name (LQ e i n l)) (lq_name q)" using strip_in [OF nxt(2) lqs_all_top [OF q]] yz(3) by auto
    qed
    moreover have "map lq_strip (lqs_all (LQ e i n l # Q)) = lq # ys @ zs"
      using own(2) nxt(2) by (simp add: lqs_all_def lq lq_strip_def map_concat comp_def)
    ultimately show ?thesis using nxt(1) unfolding level_ok_Cons by blast
  qed
  have nil: "level_ok n []" "map lq_strip (lqs_all []) = []" by (simp_all add: level_ok_def lqs_all_def)
  consider "rest = []" | "rest \<noteq> []" "i = None" | "rest \<noteq> []" "i \<noteq> None" by blast
  then show ?case
  proof cases
    case 1
    then show ?thesis using head [of "[]" "[]" "[]" "[]"] nil by (simp add: ngx_http_create_locations_list.simps(2) lq level_ok_def)
  next
    case 2
    have "lq_inclusive lq = None" using \<open>i = None\<close> by (simp add: lq)
    then have "?mk (lq # rest) = lq # ?mk rest" using 2 by (simp add: ngx_http_create_locations_list.simps(2) [of lq])
    then show ?thesis
      using head [of "[]" "[]" "?mk rest" rest] nil 2 "2.IH"(1) [OF _ _ rest(1,2)] rest(3) by (simp add: lq)
  next
    case 3
    define ext where "ext = takeWhile (lq_continues lq) rest"
    define x where "x = dropWhile (lq_continues lq) rest"
    have i: "lq_inclusive lq \<noteq> None" using 3 by (simp add: lq)
    have r: "rest = ext @ x" by (simp add: ext_def x_def)
    have cont: "lq_continues lq q \<longleftrightarrow> prefix n (lq_name q)" if "q \<in> set rest" for q
      using lq_continues_iff [of lq q] f(1) rest(1) that by (auto simp: lq_flat_def lq_valid_def lq)
    have xs: "\<forall>q \<in> set x. lq_flat pre q" "in_order x" using rest(1,2) by (auto simp: r sorted_wrt_append)
    have xp: "\<not> prefix n (lq_name z)" if z: "z \<in> set x" for z
    proof -
      obtain h x' where h: "x = h # x'" using z by (cases x) auto
      have "\<not> lq_continues lq h" using hd_dropWhile [of "lq_continues lq" rest] h by (metis list.discI list.sel(1) x_def)
      then have nh: "\<not> prefix n (lq_name h)" "name_less n (lq_name h)" using cont [of h] rest(3) [of h] by (auto simp: r h)
      show ?thesis
      proof (cases "z = h")
        case False
        then have "name_less (lq_name h) (lq_name z)" using z xs(2) h by auto
        then show ?thesis using between_prefix nh by blast
      qed (use nh in simp)
    qed
    show ?thesis
    proof (cases "ext = []")
      case True
      then have "?mk (lq # rest) = lq # ?mk x"
        unfolding ngx_http_create_locations_list.simps(2) [of lq] Let_def ext_def [symmetric] x_def [symmetric] using 3(1) i by auto
      then show ?thesis using head [of "[]" "[]" "?mk x" x] nil "2.IH"(2) [OF 3(1) i ext_def x_def True xs] rest(3) xp True
        by (simp add: lq r)
    next
      case False
      have es: "lq_flat n q" if "q \<in> set ext" for q
      proof -
        have "q \<in> set rest" "lq_continues lq q" using that unfolding ext_def by (auto dest: set_takeWhileD)
        then have "prefix n (lq_name q)" "name_less n (lq_name q)" "lq_flat pre q" using cont rest(1,3) by blast+
        then show ?thesis by (auto simp: lq_flat_def strict_prefix_def)
      qed
      have eo: "in_order ext" using rest(2) by (simp add: r sorted_wrt_append)
      have E: "?mk (lq # rest) = LQ e i n (?mk ext) # ?mk x"
        unfolding ngx_http_create_locations_list.simps(2) [of lq] Let_def ext_def [symmetric] x_def [symmetric]
        using 3(1) i False by (auto simp: lq)
      have own: "level_ok n (?mk ext) \<and> map lq_strip (lqs_all (?mk ext)) = ext"
        using "2.IH"(3) [OF 3(1) i ext_def x_def False, of n] es eo by (simp add: lq)
      have nxt: "level_ok pre (?mk x) \<and> map lq_strip (lqs_all (?mk x)) = x"
        using "2.IH"(4) [OF 3(1) i ext_def x_def False _ xs] by (cases "x = []") (simp_all add: level_ok_def lqs_all_def)
      show ?thesis unfolding E
        using head [of "?mk ext" ext "?mk x" x] own nxt 3 rest(2,3) xp by (auto simp: r sorted_wrt_append)
    qed
  qed
qed

end
