(* ===== verification/Locations_Correct.thy ===== *)
theory Locations_Correct
  imports Location_Tree_Correct
begin

text \<open>
From a configuration to a lookup: the comparison of locations satisfies the laws of the locale
  \<open>comparison\<close>, the queue is split into its groups, the lists have the shape the tree needs, and
  the location found is the one the configuration promises.
\<close>

section \<open>The order of the locations\<close>

text \<open>
  The classes in the order of the queue: static locations, regular expressions, named locations,
  those without a name.
\<close>

definition loc_class :: "loc_conf \<Rightarrow> nat" where
  "loc_class c = (if lc_noname c then 3 else if lc_named c then 2 else if lc_regex c then 1 else 0)"

definition loc_before :: "loc_conf \<Rightarrow> loc_conf \<Rightarrow> bool" where
  "loc_before c d \<longleftrightarrow> loc_class c < loc_class d \<or> loc_class c = loc_class d \<and>
     (loc_class c = 0 \<longrightarrow> name_less (lc_name c) (lc_name d) \<or> lc_name c = lc_name d \<and> (lc_exact_match d \<longrightarrow> lc_exact_match c)) \<and>
     (loc_class c = 2 \<longrightarrow> \<not> ord_class.lexordp (lc_name d) (lc_name c))"

lemma uint_pos: "a \<noteq> 0 \<Longrightarrow> 0 < uint a" for a :: u_char
  using uint_ge_0 [of a] by (auto simp: less_le uint_0_iff)

lemma filename_cmp_names:
  "c_NUL \<notin> set xs \<Longrightarrow> c_NUL \<notin> set ys \<Longrightarrow>
     \<exists>r. ngx_filename_cmp (xs @ [c_NUL]) (ys @ [c_NUL]) (Suc (min (length xs) (length ys))) = Some r \<and>
       (r < 0 \<longleftrightarrow> name_less xs ys) \<and> (0 < r \<longleftrightarrow> name_less ys xs)"
proof (induction xs ys rule: name_less.induct)
  case (1 xs)
  then show ?case by (cases xs) (auto simp: byte_diff_def uint_pos)
next
  case (2 y ys)
  then show ?case by (auto simp: byte_diff_def uint_pos)
next
  case (3 x xs y ys)
  have nz: "x \<noteq> c_NUL" "y \<noteq> c_NUL" using 3(2,3) by auto
  show ?case
  proof (cases "x = y")
    case True
    then show ?thesis using 3 nz by auto
  next
    case False
    have "byte_diff (if x = c_slash then c_NUL else x) (if y = c_slash then c_NUL else y) = int (loc_key x) - int (loc_key y)"
      by (simp add: byte_diff_def loc_key_def)
    then show ?thesis using False nz by (auto simp: Let_def)
  qed
qed

lemma strcmp_names:
  "c_NUL \<notin> set xs \<Longrightarrow> c_NUL \<notin> set ys \<Longrightarrow>
     \<exists>r. ngx_strcmp (xs @ [c_NUL]) (ys @ [c_NUL]) = Some r \<and> (0 < r \<longleftrightarrow> ord_class.lexordp ys xs)"
proof (induction xs ys rule: list_induct2')
  case 1
  then show ?case by simp
next
  case (2 x xs)
  then show ?case by (auto simp: byte_diff_def uint_pos)
next
  case (3 y ys)
  then show ?case by (auto simp: byte_diff_def)
next
  case (4 x xs y ys)
  then show ?case using less_linear [of x y] by (auto simp: byte_diff_def word_less_def)
qed

definition loc_entry :: "loc_queue \<Rightarrow> bool" where
  "loc_entry q \<longleftrightarrow> c_NUL \<notin> set (lc_name (lq_clcf q))"

lemma cmp_locations:
  assumes "c_NUL \<notin> set (lc_name (lq_clcf q))" "c_NUL \<notin> set (lc_name (lq_clcf r))"
  shows "ngx_http_cmp_locations q r \<le> 0 \<longleftrightarrow> loc_before (lq_clcf q) (lq_clcf r)"
proof -
  let ?c = "lq_clcf q" and ?d = "lq_clcf r"
  obtain f where f: "ngx_filename_cmp (lc_name ?c @ [c_NUL]) (lc_name ?d @ [c_NUL]) (Suc (min (length (lc_name ?c)) (length (lc_name ?d)))) = Some f"
      "f < 0 \<longleftrightarrow> name_less (lc_name ?c) (lc_name ?d)" "0 < f \<longleftrightarrow> name_less (lc_name ?d) (lc_name ?c)"
    using filename_cmp_names [OF assms] by blast
  obtain s where s: "ngx_strcmp (lc_name ?c @ [c_NUL]) (lc_name ?d @ [c_NUL]) = Some s" "0 < s \<longleftrightarrow> ord_class.lexordp (lc_name ?d) (lc_name ?c)"
    using strcmp_names [OF assms] by blast
  have t: "f = 0 \<longleftrightarrow> lc_name ?c = lc_name ?d" using f(2,3) name_less_total [OF assms] by (metis less_irrefl name_less_irrefl not_less_iff_gr_or_eq)
  have a: "\<not> (name_less (lc_name ?c) (lc_name ?d) \<and> name_less (lc_name ?d) (lc_name ?c))" using f(2,3) by linarith
  consider "lc_noname ?c \<or> lc_noname ?d" | "\<not> lc_noname ?c" "\<not> lc_noname ?d" "lc_named ?c \<or> lc_named ?d"
    | "\<not> lc_noname ?c" "\<not> lc_noname ?d" "\<not> lc_named ?c" "\<not> lc_named ?d" by blast
  then show ?thesis
  proof cases
    case 1
    then show ?thesis by (auto simp: ngx_http_cmp_locations_def loc_before_def loc_class_def Let_def)
  next
    case 2
    then show ?thesis using s by (auto simp: ngx_http_cmp_locations_def loc_before_def loc_class_def Let_def not_less)
  next
    case 3
    show ?thesis
    proof (cases "lc_regex ?c \<or> lc_regex ?d")
      case True
      then show ?thesis using 3 by (auto simp: ngx_http_cmp_locations_def loc_before_def loc_class_def Let_def)
    next
      case False
      have "ngx_http_cmp_locations q r = (if f = 0 \<and> \<not> lc_exact_match ?c \<and> lc_exact_match ?d then 1 else f)"
        using 3 False f(1) by (simp add: ngx_http_cmp_locations_def Let_def)
      moreover have "loc_before ?c ?d \<longleftrightarrow> name_less (lc_name ?c) (lc_name ?d) \<or> lc_name ?c = lc_name ?d \<and> (lc_exact_match ?d \<longrightarrow> lc_exact_match ?c)"
        using 3 False by (simp add: loc_before_def loc_class_def)
      ultimately show ?thesis using f(2) t by auto
    qed
  qed
qed

lemma loc_before_total:
  "c_NUL \<notin> set (lc_name c) \<Longrightarrow> c_NUL \<notin> set (lc_name d) \<Longrightarrow> \<not> loc_before c d \<Longrightarrow> loc_before d c"
  using name_less_total [of "lc_name c" "lc_name d"] lexordp_antisym [of "lc_name c" "lc_name d"] unfolding loc_before_def
  by (cases "lc_name c = lc_name d") auto

lemma loc_before_trans: "loc_before c d \<Longrightarrow> loc_before d e \<Longrightarrow> loc_before c e"
proof -
  have lt: "\<not> ord_class.lexordp z x" if "\<not> ord_class.lexordp y x" "\<not> ord_class.lexordp z y" for x y z :: bytes
  proof
    assume zx: "ord_class.lexordp z x"
    show False
    proof (cases "x = y")
      case False
      then have "ord_class.lexordp x y" using that(1) lexordp_linear [of x y] by blast
      with zx have "ord_class.lexordp z y" by (rule lexordp_trans)
      with that(2) show False by simp
    qed (use that(2) zx in simp)
  qed
  assume cd: "loc_before c d" and de: "loc_before d e"
  then have le: "loc_class c \<le> loc_class d" "loc_class d \<le> loc_class e" unfolding loc_before_def by auto
  show "loc_before c e"
  proof (cases "loc_class c = loc_class e")
    case True
    with le have same: "loc_class c = loc_class d" "loc_class d = loc_class e" by auto
    have "name_less (lc_name c) (lc_name e) \<or> lc_name c = lc_name e \<and> (lc_exact_match e \<longrightarrow> lc_exact_match c)" if "loc_class c = 0"
      using cd de that same name_less_trans [of "lc_name c" "lc_name d" "lc_name e"] by (auto simp: loc_before_def)
    moreover have "\<not> ord_class.lexordp (lc_name e) (lc_name c)" if "loc_class c = 2"
      using cd de that same lt [of "lc_name d" "lc_name c" "lc_name e"] by (auto simp: loc_before_def)
    ultimately show ?thesis using True unfolding loc_before_def by blast
  qed (use le in \<open>auto simp: loc_before_def\<close>)
qed

interpretation locations: comparison "{q. loc_entry q}" ngx_http_cmp_locations
proof
  fix x y z
  show "x \<in> {q. loc_entry q} \<Longrightarrow> y \<in> {q. loc_entry q} \<Longrightarrow> 0 < ngx_http_cmp_locations x y \<Longrightarrow> ngx_http_cmp_locations y x \<le> 0"
    using cmp_locations [of x y] cmp_locations [of y x] loc_before_total by (auto simp: loc_entry_def not_le [symmetric])
  show "x \<in> {q. loc_entry q} \<Longrightarrow> y \<in> {q. loc_entry q} \<Longrightarrow> z \<in> {q. loc_entry q} \<Longrightarrow> ngx_http_cmp_locations x y \<le> 0 \<Longrightarrow>
      ngx_http_cmp_locations y z \<le> 0 \<Longrightarrow> ngx_http_cmp_locations x z \<le> 0"
    using cmp_locations loc_before_trans by (auto simp: loc_entry_def)
qed

section \<open>The three groups of a configuration\<close>

text \<open>
  A location as the configuration gives it: at most one of the flags is set, the name has no null
  byte, the name of a static location is neither empty nor longer than a node can tell, and only
  one that ends with a slash redirects.
\<close>

definition loc_ok :: "loc_conf \<Rightarrow> bool" where
  "loc_ok c \<longleftrightarrow> c_NUL \<notin> set (lc_name c) \<and> (lc_noname c \<longrightarrow> \<not> lc_named c \<and> \<not> lc_regex c) \<and> (lc_named c \<longrightarrow> \<not> lc_regex c) \<and>
     (loc_class c = 0 \<longrightarrow> lc_name c \<noteq> [] \<and> length (lc_name c) < 256 \<and> (lc_auto_redirect c \<longrightarrow> List.last (lc_name c) = c_slash))"

definition loc_entry_of :: "loc_conf \<Rightarrow> loc_queue" where
  "loc_entry_of c = (if lc_exact_match c \<or> loc_class c \<noteq> 0 then LQ (Some c) None (lc_name c) [] else LQ None (Some c) (lc_name c) [])"

lemma lq_clcf_entry [simp]: "lq_clcf (loc_entry_of c) = c"
  by (simp add: loc_entry_of_def lq_clcf_def)

lemma add_locations: "foldl ngx_http_add_location qs locs = qs @ map loc_entry_of locs"
  by (induction locs arbitrary: qs) (auto simp: ngx_http_add_location_def loc_entry_of_def loc_class_def)

lemma takeWhile_filter: "sorted_wrt (\<lambda>x y. f x \<le> f y) xs \<Longrightarrow> takeWhile (\<lambda>x. f x < k) xs = filter (\<lambda>x. f x < k) xs" for f :: "'a \<Rightarrow> nat"
proof (induction xs)
  case (Cons x xs)
  have "filter (\<lambda>x. f x < k) xs = []" if "\<not> f x < k" using Cons.prems that by (auto simp: filter_empty_conv)
  then show ?case using Cons by simp
qed simp

lemma dropWhile_filter: "sorted_wrt (\<lambda>x y. f x \<le> f y) xs \<Longrightarrow> dropWhile (\<lambda>x. f x < k) xs = filter (\<lambda>x. k \<le> f x) xs" for f :: "'a \<Rightarrow> nat"
proof (induction xs)
  case (Cons x xs)
  have "filter (\<lambda>x. k \<le> f x) xs = xs" if "\<not> f x < k" using Cons.prems that by (auto intro!: filter_True)
  then show ?case using Cons by simp
qed simp

lemma init_locations_groups:
  fixes locs :: "loc_conf list"
  assumes ok: "\<forall>c \<in> set locs. loc_ok c" and dist: "distinct locs"
  obtains sorted where "mset sorted = mset locs" "sorted_wrt loc_before sorted"
    "\<And>k. c_NUL \<notin> set (lc_name k) \<Longrightarrow> filter (\<lambda>c. loc_before k c \<and> loc_before c k) sorted = filter (\<lambda>c. loc_before k c \<and> loc_before c k) locs"
    "ngx_http_init_locations (foldl ngx_http_add_location [] locs) =
       (map loc_entry_of (filter (\<lambda>c. loc_class c = 0) sorted), map Some (filter (\<lambda>c. loc_class c = 1) sorted),
        map Some (filter (\<lambda>c. loc_class c = 2) sorted))"
proof -
  define base where "base = map loc_entry_of locs"
  define out where "out = ngx_queue_sort ngx_http_cmp_locations base"
  have inj: "inj_on loc_entry_of A" for A by (rule inj_on_inverseI [of _ lq_clcf]) simp
  have D: "set base \<subseteq> {q. loc_entry q}" using ok by (auto simp: base_def loc_entry_def loc_ok_def)
  have "distinct base" using dist inj by (simp add: base_def distinct_map)
  note sorted = locations.foldl_insert_correct [OF D this, folded ngx_queue_sort_foldl, folded out_def]
  define S where "S = map lq_clcf out"
  have so: "set out = set base" using sorted(1) by (metis mset_eq_setD)
  have "map (\<lambda>q. loc_entry_of (lq_clcf q)) out = map (\<lambda>q. q) out"
    by (rule map_cong) (auto simp: so base_def)
  then have out: "out = map loc_entry_of S" by (simp add: S_def comp_def)
  have S1: "mset S = mset locs"
    using arg_cong [OF sorted(1), of "image_mset lq_clcf"] by (simp add: S_def base_def image_mset.compositionality comp_def)
  have nul: "c_NUL \<notin> set (lc_name c)" "loc_ok c" if "c \<in> set S" for c
    using ok mset_eq_setD [OF S1] that by (auto simp: loc_ok_def)
  have le: "ngx_http_cmp_locations (loc_entry_of c) (loc_entry_of d) \<le> 0 \<longleftrightarrow> loc_before c d"
    if "c_NUL \<notin> set (lc_name c)" "c_NUL \<notin> set (lc_name d)" for c d
    using cmp_locations [of "loc_entry_of c" "loc_entry_of d"] that by simp
  have S2: "sorted_wrt loc_before S"
    using sorted(2) unfolding out sorted_wrt_map by (rule sorted_wrt_mono_rel [rotated]) (use le nul in blast)
  have S3: "filter (\<lambda>c. loc_before k c \<and> loc_before c k) S = filter (\<lambda>c. loc_before k c \<and> loc_before c k) locs"
    if k: "c_NUL \<notin> set (lc_name k)" for k
  proof -
    let ?P = "\<lambda>q. ngx_http_cmp_locations (loc_entry_of k) q \<le> 0 \<and> ngx_http_cmp_locations q (loc_entry_of k) \<le> 0"
    have "loc_entry_of k \<in> {q. loc_entry q}" using k by (simp add: loc_entry_def)
    from sorted(3) [OF this] have "map lq_clcf (filter ?P (map loc_entry_of S)) = map lq_clcf (filter ?P (map loc_entry_of locs))"
      unfolding out base_def by simp
    then have "filter (\<lambda>c. ?P (loc_entry_of c)) S = filter (\<lambda>c. ?P (loc_entry_of c)) locs" by (simp add: filter_map comp_def)
    moreover have "filter (\<lambda>c. ?P (loc_entry_of c)) xs = filter (\<lambda>c. loc_before k c \<and> loc_before c k) xs"
      if "\<And>c. c \<in> set xs \<Longrightarrow> c_NUL \<notin> set (lc_name c)" for xs
      by (rule filter_cong) (use le k that in auto)
    ultimately show ?thesis using nul(1) ok by (metis (no_types, lifting) loc_ok_def)
  qed
  let ?f = "\<lambda>q. loc_class (lq_clcf q)"
  have cls: "sorted_wrt (\<lambda>x y. ?f x \<le> ?f y) out"
    unfolding out sorted_wrt_map by (rule sorted_wrt_mono_rel [OF _ S2]) (auto simp: loc_before_def)
  have f: "lc_regex (lq_clcf q) \<longleftrightarrow> ?f q = 1" "lc_named (lq_clcf q) \<longleftrightarrow> ?f q = 2" "lc_noname (lq_clcf q) \<longleftrightarrow> ?f q = 3" "?f q \<le> 3"
    if "q \<in> set out" for q
  proof -
    have "loc_ok (lq_clcf q)" using that nul(2) by (auto simp: S_def)
    then show "lc_regex (lq_clcf q) \<longleftrightarrow> ?f q = 1" "lc_named (lq_clcf q) \<longleftrightarrow> ?f q = 2" "lc_noname (lq_clcf q) \<longleftrightarrow> ?f q = 3" "?f q \<le> 3"
      by (auto simp: loc_ok_def loc_class_def)
  qed
  show ?thesis
  proof (rule that [OF S1 S2 S3])
    let ?kept = "filter (\<lambda>q. ?f q < 3) out" and ?unnamed = "filter (\<lambda>q. ?f q < 2) out"
    have c1: "sorted_wrt (\<lambda>x y. ?f x \<le> ?f y) (filter P out)" for P using cls by (rule sorted_wrt_filter)
    have k: "takeWhile (\<lambda>q. lc_regex (lq_clcf q) \<or> \<not> lc_regex (lq_clcf q) \<and> lc_named (lq_clcf q) \<or> \<not> lc_noname (lq_clcf q)) out = ?kept"
    proof -
      have "takeWhile (\<lambda>q. lc_regex (lq_clcf q) \<or> \<not> lc_regex (lq_clcf q) \<and> lc_named (lq_clcf q) \<or> \<not> lc_noname (lq_clcf q)) out = takeWhile (\<lambda>q. ?f q < 3) out"
        by (rule takeWhile_cong) (use f in force)+
      then show ?thesis by (simp add: takeWhile_filter [OF cls])
    qed
    have nm: "(\<not> lc_regex (lq_clcf q) \<and> lc_named (lq_clcf q)) \<longleftrightarrow> \<not> ?f q < 2" if "q \<in> set ?kept" for q
      using f [of q] that by (auto simp del: One_nat_def)
    have u: "takeWhile (\<lambda>q. \<not> (\<not> lc_regex (lq_clcf q) \<and> lc_named (lq_clcf q))) ?kept = ?unnamed"
    proof -
      have "takeWhile (\<lambda>q. \<not> (\<not> lc_regex (lq_clcf q) \<and> lc_named (lq_clcf q))) ?kept = takeWhile (\<lambda>q. ?f q < 2) ?kept"
        by (rule takeWhile_cong) (use nm in auto)
      also have "\<dots> = ?unnamed" unfolding takeWhile_filter [OF c1] filter_filter by (rule filter_cong) auto
      finally show ?thesis .
    qed
    have d: "dropWhile (\<lambda>q. \<not> (\<not> lc_regex (lq_clcf q) \<and> lc_named (lq_clcf q))) ?kept = filter (\<lambda>q. ?f q = 2) out"
    proof -
      have "dropWhile (\<lambda>q. \<not> (\<not> lc_regex (lq_clcf q) \<and> lc_named (lq_clcf q))) ?kept = dropWhile (\<lambda>q. ?f q < 2) ?kept"
        by (rule dropWhile_cong) (use nm in auto)
      also have "\<dots> = filter (\<lambda>q. ?f q = 2) out" unfolding dropWhile_filter [OF c1] filter_filter by (rule filter_cong) auto
      finally show ?thesis .
    qed
    have rg: "\<not> lc_regex (lq_clcf q) \<longleftrightarrow> ?f q < 1" if "q \<in> set ?unnamed" for q
      using f [of q] that by auto
    have t0: "takeWhile (\<lambda>q. \<not> lc_regex (lq_clcf q)) ?unnamed = filter (\<lambda>q. ?f q = 0) out"
    proof -
      have "takeWhile (\<lambda>q. \<not> lc_regex (lq_clcf q)) ?unnamed = takeWhile (\<lambda>q. ?f q < 1) ?unnamed"
        by (rule takeWhile_cong) (use rg in auto)
      also have "\<dots> = filter (\<lambda>q. ?f q = 0) out" unfolding takeWhile_filter [OF c1] filter_filter by (rule filter_cong) auto
      finally show ?thesis .
    qed
    have d1: "dropWhile (\<lambda>q. \<not> lc_regex (lq_clcf q)) ?unnamed = filter (\<lambda>q. ?f q = 1) out"
    proof -
      have "dropWhile (\<lambda>q. \<not> lc_regex (lq_clcf q)) ?unnamed = dropWhile (\<lambda>q. ?f q < 1) ?unnamed"
        by (rule dropWhile_cong) (use rg in auto)
      also have "\<dots> = filter (\<lambda>q. ?f q = 1) out" unfolding dropWhile_filter [OF c1] filter_filter by (rule filter_cong) auto
      finally show ?thesis .
    qed
    have ex: "map lq_exact (filter (\<lambda>q. ?f q = i) out) = map Some (filter (\<lambda>c. loc_class c = i) S)" if "i \<noteq> 0" for i
      unfolding out using that by (simp add: filter_map comp_def) (auto simp: loc_entry_of_def)
    have st: "filter (\<lambda>q. ?f q = 0) out = map loc_entry_of (filter (\<lambda>c. loc_class c = 0) S)"
      unfolding out by (simp add: filter_map comp_def)
    show "ngx_http_init_locations (foldl ngx_http_add_location [] locs) =
       (map loc_entry_of (filter (\<lambda>c. loc_class c = 0) S), map Some (filter (\<lambda>c. loc_class c = 1) S), map Some (filter (\<lambda>c. loc_class c = 2) S))"
      unfolding ngx_http_init_locations_def add_locations append_Nil base_def [symmetric] out_def [symmetric] Let_def k u d t0 d1
      using ex [of 1] ex [of 2] st by simp
  qed
qed

section \<open>Joining\<close>

definition lq_confs :: "loc_queue \<Rightarrow> loc_conf list" where
  "lq_confs q = (case lq_exact q of None \<Rightarrow> [] | Some c \<Rightarrow> [c]) @ (case lq_inclusive q of None \<Rightarrow> [] | Some c \<Rightarrow> [c])"

definition lq_flat_ok :: "loc_queue \<Rightarrow> bool" where
  "lq_flat_ok q \<longleftrightarrow> lq_list q = [] \<and> (lq_exact q \<noteq> None \<or> lq_inclusive q \<noteq> None) \<and> c_NUL \<notin> set (lq_name q) \<and>
     (\<forall>c. lq_exact q = Some c \<longrightarrow> lc_name c = lq_name q \<and> lc_exact_match c) \<and>
     (\<forall>c. lq_inclusive q = Some c \<longrightarrow> lc_name c = lq_name q \<and> \<not> lc_exact_match c)"

lemma lq_flat_exact: "lq_flat_ok q \<Longrightarrow> lq_exact q = Some c \<Longrightarrow> lc_name c = lq_name q \<and> lc_exact_match c"
  unfolding lq_flat_ok_def by blast

lemma lq_flat_inclusive: "lq_flat_ok q \<Longrightarrow> lq_inclusive q = Some c \<Longrightarrow> lc_name c = lq_name q \<and> \<not> lc_exact_match c"
  unfolding lq_flat_ok_def by blast

definition conf_key :: "loc_conf \<Rightarrow> bytes \<times> bool" where
  "conf_key c = (lc_name c, lc_exact_match c)"

definition joinable :: "loc_queue \<Rightarrow> loc_queue \<Rightarrow> bool" where
  "joinable q r \<longleftrightarrow> name_less (lq_name q) (lq_name r) \<or> lq_name q = lq_name r \<and> (lq_exact r \<noteq> None \<longrightarrow> lq_exact q \<noteq> None)"

definition one_conf :: "loc_queue \<Rightarrow> bool" where
  "one_conf q \<longleftrightarrow> (lq_exact q = None \<longleftrightarrow> lq_inclusive q \<noteq> None)"

lemma same_name:
  assumes "c_NUL \<notin> set x" "c_NUL \<notin> set y"
  shows "length x = length y \<and> ngx_filename_cmp x y (length y) = Some 0 \<longleftrightarrow> x = y"
proof (cases "length x = length y")
  case True
  then have "\<not> diverge x y \<longleftrightarrow> x = y" by (auto simp: diverge_def prefix_def)
  then show ?thesis using filename_cmp_min [OF assms] True by auto
qed auto

lemma confs_both:
  assumes "lq_flat_ok q" "lq_flat_ok x" "lq_exact q \<noteq> None \<and> lq_exact x \<noteq> None \<or> lq_inclusive q \<noteq> None \<and> lq_inclusive x \<noteq> None"
  shows "\<exists>c d. c \<in> set (lq_confs q) \<and> d \<in> set (lq_confs x) \<and> lc_name c = lq_name q \<and> lc_name d = lq_name x \<and> lc_exact_match c = lc_exact_match d"
  using assms(3)
proof
  assume "lq_exact q \<noteq> None \<and> lq_exact x \<noteq> None"
  then obtain c d where "lq_exact q = Some c" "lq_exact x = Some d" by blast
  then show ?thesis using assms(1,2) by (intro exI [of _ c] exI [of _ d]) (simp add: lq_flat_ok_def lq_confs_def)
next
  assume "lq_inclusive q \<noteq> None \<and> lq_inclusive x \<noteq> None"
  then obtain c d where "lq_inclusive q = Some c" "lq_inclusive x = Some d" by blast
  then show ?thesis using assms(1,2) by (intro exI [of _ c] exI [of _ d]) (simp add: lq_flat_ok_def lq_confs_def)
qed

lemma join_exact:
  "\<forall>q \<in> set qs. lq_flat_ok q \<Longrightarrow> \<forall>q \<in> set (tl qs). one_conf q \<Longrightarrow> sorted_wrt joinable qs \<Longrightarrow>
     case ngx_http_join_exact_locations qs of
       None \<Rightarrow> \<not> distinct (map conf_key (concat (map lq_confs qs)))
     | Some js \<Rightarrow> (\<forall>q \<in> set js. lq_flat_ok q) \<and> in_order js \<and> concat (map lq_confs js) = concat (map lq_confs qs) \<and>
         (qs \<noteq> [] \<longrightarrow> lq_name (hd js) = lq_name (hd qs))"
proof (induction qs rule: ngx_http_join_exact_locations.induct)
  case (3 q x rest)
  have ok: "lq_flat_ok q" "lq_flat_ok x" "one_conf x" "joinable q x" using 3(3-5) by auto
  have same: "length (lq_name q) = length (lq_name x) \<and> ngx_filename_cmp (lq_name q) (lq_name x) (length (lq_name x)) = Some 0 \<longleftrightarrow> lq_name q = lq_name x"
    using ok(1,2) by (intro same_name) (simp_all add: lq_flat_ok_def)
  show ?case
  proof (cases "lq_name q = lq_name x")
    case eq: True
    show ?thesis
    proof (cases "lq_exact q \<noteq> None \<and> lq_exact x \<noteq> None \<or> lq_inclusive q \<noteq> None \<and> lq_inclusive x \<noteq> None")
      case True
      then obtain c d where "c \<in> set (lq_confs q)" "d \<in> set (lq_confs x)" "lc_name c = lq_name q" "lc_name d = lq_name x"
          "lc_exact_match c = lc_exact_match d"
        using confs_both [OF ok(1,2) True] by blast
      then have k: "conf_key c = conf_key d" and i: "c \<in> set (lq_confs q)" "d \<in> set (lq_confs x)" using eq by (simp_all add: conf_key_def)
      have "conf_key c \<in> conf_key ` set (lq_confs q) \<inter> conf_key ` set (lq_confs x)" using imageI [OF i(1), of conf_key] imageI [OF i(2), of conf_key] k by simp
      then have "\<not> distinct (map conf_key (lq_confs q @ lq_confs x @ concat (map lq_confs rest)))" unfolding map_append distinct_append set_append set_map by blast
      moreover have "ngx_http_join_exact_locations (q # x # rest) = None" using True same eq by simp
      ultimately show ?thesis by simp
    next
      case False
      let ?j = "LQ (lq_exact q) (lq_inclusive x) (lq_name q) (lq_list q)"
      have x: "lq_exact x = None" "lq_inclusive x \<noteq> None" "lq_inclusive q = None" "lq_exact q \<noteq> None"
      proof -
        have a: "lq_exact q \<noteq> None \<or> lq_inclusive q \<noteq> None" using ok(1) unfolding lq_flat_ok_def by blast
        have b: "lq_exact x \<noteq> None \<longrightarrow> lq_exact q \<noteq> None" using ok(4) eq unfolding joinable_def by auto
        have c: "lq_exact x = None \<longleftrightarrow> lq_inclusive x \<noteq> None" using ok(3) by (simp add: one_conf_def)
        show "lq_exact x = None" "lq_inclusive x \<noteq> None" "lq_inclusive q = None" "lq_exact q \<noteq> None" using False a b c by blast+
      qed
      have "lq_list q = []" "c_NUL \<notin> set (lq_name q)" using ok(1) unfolding lq_flat_ok_def by blast+
      then have j: "lq_flat_ok ?j" using lq_flat_exact [OF ok(1)] lq_flat_inclusive [OF ok(2)] x eq unfolding lq_flat_ok_def by simp
      have "joinable ?j y" if "joinable q y" for y using that by (simp add: joinable_def)
      then have "sorted_wrt joinable (?j # rest)" using 3(5) by simp
      moreover have "lq_confs ?j = lq_confs q @ lq_confs x" using x by (simp add: lq_confs_def)
      moreover have "ngx_http_join_exact_locations (q # x # rest) = ngx_http_join_exact_locations (?j # rest)"
        using same eq False by auto
      moreover have "case ngx_http_join_exact_locations (?j # rest) of
           None \<Rightarrow> \<not> distinct (map conf_key (concat (map lq_confs (?j # rest))))
         | Some js \<Rightarrow> (\<forall>q \<in> set js. lq_flat_ok q) \<and> in_order js \<and> concat (map lq_confs js) = concat (map lq_confs (?j # rest)) \<and>
             (?j # rest \<noteq> [] \<longrightarrow> lq_name (hd js) = lq_name (hd (?j # rest)))"
      proof (rule 3(1) [OF _ False])
        show "length (lq_name q) = length (lq_name x) \<and> ngx_filename_cmp (lq_name q) (lq_name x) (length (lq_name x)) = Some 0" using same eq by blast
        show "\<forall>q \<in> set (?j # rest). lq_flat_ok q" using j 3(3) by simp
        show "\<forall>q \<in> set (tl (?j # rest)). one_conf q" using 3(4) by simp
      qed (fact \<open>sorted_wrt joinable (?j # rest)\<close>)
      ultimately show ?thesis by (auto split: option.splits)
    qed
  next
    case False
    have e: "ngx_http_join_exact_locations (q # x # rest) = map_option (Cons q) (ngx_http_join_exact_locations (x # rest))"
      using same False by auto
    have IH: "case ngx_http_join_exact_locations (x # rest) of
       None \<Rightarrow> \<not> distinct (map conf_key (concat (map lq_confs (x # rest))))
     | Some js \<Rightarrow> (\<forall>q \<in> set js. lq_flat_ok q) \<and> in_order js \<and> concat (map lq_confs js) = concat (map lq_confs (x # rest)) \<and>
         lq_name (hd js) = lq_name x"
      using 3(2) same False 3(3-5) by (simp split: option.splits)
    have lt: "name_less (lq_name q) (lq_name x)" using ok(4) False by (simp add: joinable_def)
    show ?thesis
    proof (cases "ngx_http_join_exact_locations (x # rest)")
      case None
      then show ?thesis using IH e by (auto simp: distinct_append)
    next
      case (Some js)
      then have js: "\<forall>q \<in> set js. lq_flat_ok q" "in_order js" "concat (map lq_confs js) = concat (map lq_confs (x # rest))" "lq_name (hd js) = lq_name x"
        using IH by auto
      have "name_less (lq_name q) (lq_name y)" if y: "y \<in> set js" for y
      proof (cases js)
        case (Cons h js')
        then have "y = h \<or> name_less (lq_name h) (lq_name y)" using y js(2) by auto
        then show ?thesis using lt js(4) Cons name_less_trans [of "lq_name q" "lq_name x" "lq_name y"] by auto
      qed (use y in simp)
      then show ?thesis using js ok(1) e Some by auto
    qed
  qed
qed simp_all

lemma in_order_inj: "in_order qs \<Longrightarrow> q \<in> set qs \<Longrightarrow> r \<in> set qs \<Longrightarrow> lq_name q = lq_name r \<Longrightarrow> q = r"
proof (induction qs)
  case (Cons a qs)
  then have "name_less (lq_name a) (lq_name y)" if "y \<in> set qs" for y using that by simp
  then show ?case using Cons by (metis name_less_irrefl set_ConsD sorted_wrt.simps(2))
qed simp

section \<open>The reference on configurations\<close>

text \<open>
  The location with the URI as its name, an exact one first; failing that one that redirects the
  URI to itself with a slash; failing that the longest inclusive prefix.
\<close>

definition loc_best :: "loc_conf set \<Rightarrow> bytes \<Rightarrow> loc_conf \<Rightarrow> bool" where
  "loc_best C name c \<longleftrightarrow> c \<in> C \<and> lc_name c = name \<and> (lc_exact_match c \<or> (\<forall>d \<in> C. lc_name d = name \<longrightarrow> \<not> lc_exact_match d))"

definition static_location_spec :: "loc_conf set \<Rightarrow> bytes \<Rightarrow> int \<times> nat option \<Rightarrow> bool" where
  "static_location_spec C uri res \<longleftrightarrow>
     (if \<exists>c \<in> C. lc_name c = uri then
        \<exists>c. loc_best C uri c \<and> res = (if lc_exact_match c then NGX_OK else NGX_AGAIN, Some (lc_conf c))
      else if \<exists>c \<in> C. lc_name c = uri @ [c_slash] \<and> lc_auto_redirect c then
        \<exists>c. loc_best C (uri @ [c_slash]) c \<and> res = (NGX_DONE, Some (lc_conf c))
      else if \<exists>c \<in> C. \<not> lc_exact_match c \<and> prefix (lc_name c) uri then
        \<exists>c \<in> C. \<not> lc_exact_match c \<and> prefix (lc_name c) uri \<and> res = (NGX_AGAIN, Some (lc_conf c)) \<and>
          (\<forall>d \<in> C. \<not> lc_exact_match d \<and> prefix (lc_name d) uri \<longrightarrow> length (lc_name d) \<le> length (lc_name c))
      else res = (NGX_DECLINED, None))"

lemma lq_confs_iff:
  "lq_flat_ok q \<Longrightarrow> c \<in> set (lq_confs q) \<longleftrightarrow> (if lc_exact_match c then lq_exact q = Some c else lq_inclusive q = Some c)"
  by (auto simp: lq_confs_def lq_flat_ok_def split: option.splits)

lemma loc_result_confs:
  assumes ok: "\<forall>q \<in> set qs. lq_flat_ok q" and ord: "in_order qs" and C: "C = set (concat (map lq_confs qs))"
    and res: "loc_result (set qs) uri (NGX_DECLINED, None) res"
  shows "static_location_spec C uri res"
proof -
  have mem: "c \<in> C \<longleftrightarrow> (\<exists>q \<in> set qs. lq_name q = lc_name c \<and> (if lc_exact_match c then lq_exact q = Some c else lq_inclusive q = Some c))" for c
  proof -
    have "c \<in> C \<longleftrightarrow> (\<exists>q \<in> set qs. c \<in> set (lq_confs q))" by (auto simp: C)
    also have "\<dots> \<longleftrightarrow> (\<exists>q \<in> set qs. lq_name q = lc_name c \<and> (if lc_exact_match c then lq_exact q = Some c else lq_inclusive q = Some c))"
    proof (rule bex_cong [OF refl])
      fix q assume "q \<in> set qs"
      then have q: "lq_flat_ok q" using ok by blast
      then have "(if lc_exact_match c then lq_exact q = Some c else lq_inclusive q = Some c) \<Longrightarrow> lq_name q = lc_name c"
        using lq_flat_exact [OF q, of c] lq_flat_inclusive [OF q, of c] by (cases "lc_exact_match c") auto
      then show "c \<in> set (lq_confs q) \<longleftrightarrow> lq_name q = lc_name c \<and> (if lc_exact_match c then lq_exact q = Some c else lq_inclusive q = Some c)"
        unfolding lq_confs_iff [OF q] by blast
    qed
    finally show ?thesis .
  qed
  have clcf: "lq_clcf q \<in> C" "lc_name (lq_clcf q) = lq_name q" "lc_exact_match (lq_clcf q) \<longleftrightarrow> lq_exact q \<noteq> None" if q: "q \<in> set qs" for q
  proof -
    have f: "lq_flat_ok q" using ok q by blast
    consider e where "lq_exact q = Some e" | i where "lq_exact q = None" "lq_inclusive q = Some i" using f unfolding lq_flat_ok_def by blast
    then have "lc_name (lq_clcf q) = lq_name q \<and> (lc_exact_match (lq_clcf q) \<longleftrightarrow> lq_exact q \<noteq> None) \<and> lq_clcf q \<in> set (lq_confs q)"
      by cases (use f in \<open>simp_all add: lq_flat_ok_def lq_clcf_def lq_confs_def\<close>)
    then show "lq_clcf q \<in> C" "lc_name (lq_clcf q) = lq_name q" "lc_exact_match (lq_clcf q) \<longleftrightarrow> lq_exact q \<noteq> None" using q by (auto simp: C)
  qed
  have owner: "\<exists>q \<in> set qs. lq_name q = lc_name c \<and> (if lc_exact_match c then lq_exact q = Some c else lq_inclusive q = Some c)" if "c \<in> C" for c
    using that unfolding mem .
  have incl: "c \<in> C" "lc_name c = lq_name q" "\<not> lc_exact_match c" if "lq_inclusive q = Some c" "q \<in> set qs" for q c
    using lq_flat_inclusive [OF _ that(1)] ok that unfolding mem by auto
  have exct: "c \<in> C" "lc_name c = lq_name q" "lc_exact_match c" if "lq_exact q = Some c" "q \<in> set qs" for q c
    using lq_flat_exact [OF _ that(1)] ok that unfolding mem by auto
  have best: "loc_best C (lq_name q) (lq_clcf q)" if q: "q \<in> set qs" for q
  proof -
    have "\<not> lc_exact_match d" if d: "d \<in> C" "lc_name d = lq_name q" and n: "lq_exact q = None" for d
    proof
      assume e: "lc_exact_match d"
      obtain r where r: "r \<in> set qs" "lq_name r = lc_name d" "lq_exact r = Some d" using owner [OF d(1)] e by auto
      have "r = q" using in_order_inj [OF ord r(1) q] r(2) d(2) by simp
      then show False using r(3) n by simp
    qed
    then show ?thesis using clcf [OF q] unfolding loc_best_def by blast
  qed
  have names: "(\<exists>q \<in> set qs. lq_name q = n) \<longleftrightarrow> (\<exists>c \<in> C. lc_name c = n)" for n
  proof
    assume "\<exists>q \<in> set qs. lq_name q = n"
    then show "\<exists>c \<in> C. lc_name c = n" using clcf(1,2) by blast
  next
    assume "\<exists>c \<in> C. lc_name c = n"
    then show "\<exists>q \<in> set qs. lq_name q = n" using owner by metis
  qed
  have red: "(\<exists>q \<in> set qs. redirect_to q uri) \<longleftrightarrow> (\<exists>c \<in> C. lc_name c = uri @ [c_slash] \<and> lc_auto_redirect c)"
  proof
    assume "\<exists>q \<in> set qs. redirect_to q uri"
    then obtain q c where "q \<in> set qs" "lq_name q = uri @ [c_slash]" "lc_auto_redirect c" "lq_exact q = Some c \<or> lq_inclusive q = Some c"
      unfolding redirect_to_def redirects_def by blast
    then show "\<exists>c \<in> C. lc_name c = uri @ [c_slash] \<and> lc_auto_redirect c" using incl [of q c] exct [of q c] by auto
  next
    assume "\<exists>c \<in> C. lc_name c = uri @ [c_slash] \<and> lc_auto_redirect c"
    then obtain c where c: "c \<in> C" "lc_name c = uri @ [c_slash]" "lc_auto_redirect c" by blast
    obtain q where "q \<in> set qs" "lq_name q = lc_name c" "lq_exact q = Some c \<or> lq_inclusive q = Some c" using owner [OF c(1)] by (auto split: if_splits)
    then show "\<exists>q \<in> set qs. redirect_to q uri" using c(2,3) unfolding redirect_to_def redirects_def by auto
  qed
  show ?thesis
  proof (cases "\<exists>q \<in> set qs. lq_name q = uri")
    case True
    then obtain q where q: "q \<in> set qs" "lq_name q = uri" "res = loc_found q" using res unfolding loc_result_def by auto
    then have "res = (if lc_exact_match (lq_clcf q) then NGX_OK else NGX_AGAIN, Some (lc_conf (lq_clcf q)))"
      using clcf(3) [OF q(1)] by (auto simp: loc_found_def lq_clcf_def split: option.splits)
    then show ?thesis using True best [OF q(1)] q(2) unfolding static_location_spec_def names by auto
  next
    case no: False
    show ?thesis
    proof (cases "\<exists>q \<in> set qs. redirect_to q uri")
      case True
      then obtain q where q: "q \<in> set qs" "redirect_to q uri" "res = loc_redirect q" using res no unfolding loc_result_def by auto
      then have "loc_best C (uri @ [c_slash]) (lq_clcf q)" using best [OF q(1)] by (simp add: redirect_to_def)
      then show ?thesis using True no q(3) unfolding static_location_spec_def names red by (auto simp: loc_redirect_def)
    next
      case nored: False
      have pre: "prefix_of q uri \<longleftrightarrow> lq_inclusive q \<noteq> None \<and> prefix (lq_name q) uri" if "q \<in> set qs" for q
        using no that by (auto simp: prefix_of_def strict_prefix_def)
      have pc: "(\<exists>q \<in> set qs. prefix_of q uri) \<longleftrightarrow> (\<exists>c \<in> C. \<not> lc_exact_match c \<and> prefix (lc_name c) uri)"
        proof
        assume "\<exists>q \<in> set qs. prefix_of q uri"
        then obtain q c where "q \<in> set qs" "lq_inclusive q = Some c" "prefix (lq_name q) uri" using pre by blast
        then show "\<exists>c \<in> C. \<not> lc_exact_match c \<and> prefix (lc_name c) uri" using incl by metis
      next
        assume "\<exists>c \<in> C. \<not> lc_exact_match c \<and> prefix (lc_name c) uri"
        then obtain c where c: "c \<in> C" "\<not> lc_exact_match c" "prefix (lc_name c) uri" by blast
        obtain q where q: "q \<in> set qs" "lq_name q = lc_name c" "lq_inclusive q = Some c" using owner [OF c(1)] c(2) by auto
        then show "\<exists>q \<in> set qs. prefix_of q uri" using pre [OF q(1)] c(3) by auto
      qed
      show ?thesis
      proof (cases "\<exists>q \<in> set qs. prefix_of q uri")
        case True
        then obtain q where q: "q \<in> set qs" "prefix_of q uri" "res = loc_inclusive q"
            "\<forall>d \<in> set qs. prefix_of d uri \<longrightarrow> length (lq_name d) \<le> length (lq_name q)"
          using res no nored unfolding loc_result_def by auto
        obtain c where c: "lq_inclusive q = Some c" using q(2) by (auto simp: prefix_of_def)
        note cc = incl [OF c q(1)]
        have pq: "prefix (lc_name c) uri" using pre [OF q(1)] q(2) cc(2) by simp
        have "length (lc_name d) \<le> length (lc_name c)" if d: "d \<in> C" "\<not> lc_exact_match d" "prefix (lc_name d) uri" for d
        proof -
          obtain r where "r \<in> set qs" "lq_name r = lc_name d" "lq_inclusive r = Some d" using owner [OF d(1)] d(2) by auto
          then show ?thesis using q(4) pre [of r] d(3) cc(2) by auto
        qed
        then have "\<exists>c \<in> C. \<not> lc_exact_match c \<and> prefix (lc_name c) uri \<and> res = (NGX_AGAIN, Some (lc_conf c)) \<and>
          (\<forall>d \<in> C. \<not> lc_exact_match d \<and> prefix (lc_name d) uri \<longrightarrow> length (lc_name d) \<le> length (lc_name c))"
          using cc pq q(3) c by (auto simp: loc_inclusive_def)
        then show ?thesis using True no nored unfolding static_location_spec_def names red pc by auto
      next
        case False
        then have "res = (NGX_DECLINED, None)" using res no nored unfolding loc_result_def by simp
        then show ?thesis using False no nored unfolding static_location_spec_def names red pc by simp
      qed
    qed
  qed
qed

section \<open>From the configuration to the lookup\<close>

lemma static_entries:
  assumes ok: "\<forall>c \<in> set cs. loc_ok c \<and> loc_class c = 0" and sorted: "sorted_wrt loc_before cs"
  defines "qs \<equiv> map loc_entry_of cs"
  shows "\<forall>q \<in> set qs. lq_flat_ok q \<and> one_conf q" and "sorted_wrt joinable qs" and "concat (map lq_confs qs) = cs"
proof -
  have entry: "lq_flat_ok (loc_entry_of c)" "one_conf (loc_entry_of c)" "lq_confs (loc_entry_of c) = [c]"
    "lq_name (loc_entry_of c) = lc_name c" "lq_exact (loc_entry_of c) \<noteq> None \<longleftrightarrow> lc_exact_match c" if "loc_ok c" "loc_class c = 0" for c
    using that by (auto simp: loc_entry_of_def lq_flat_ok_def one_conf_def lq_confs_def loc_ok_def)
  show "\<forall>q \<in> set qs. lq_flat_ok q \<and> one_conf q" using ok entry(1,2) by (auto simp: qs_def)
  have "joinable (loc_entry_of c) (loc_entry_of d)" if "c \<in> set cs" "d \<in> set cs" "loc_before c d" for c d
    using that ok entry(4,5) [of c] entry(4,5) [of d] by (auto simp: joinable_def loc_before_def)
  then show "sorted_wrt joinable qs" unfolding qs_def sorted_wrt_map using sorted by (rule sorted_wrt_mono_rel)
  show "concat (map lq_confs qs) = cs" unfolding qs_def using ok entry(3) by (induction cs) auto
qed

lemma flat_of_confs:
  assumes f: "lq_flat_ok q" and ok: "\<forall>c \<in> set (lq_confs q). loc_ok c \<and> loc_class c = 0"
  shows "lq_flat [] q"
proof -
  have b: "lq_list q = []" "lq_exact q \<noteq> None \<or> lq_inclusive q \<noteq> None" "c_NUL \<notin> set (lq_name q)" using f unfolding lq_flat_ok_def by blast+
  have c: "lc_name c = lq_name q" "loc_ok c" "loc_class c = 0" if "lq_exact q = Some c \<or> lq_inclusive q = Some c" for c
    using that lq_flat_exact [OF f, of c] lq_flat_inclusive [OF f, of c] ok lq_confs_iff [OF f, of c] by auto
  obtain d where "lq_exact q = Some d \<or> lq_inclusive q = Some d" using b(2) by auto
  then have n: "lq_name q \<noteq> []" "length (lq_name q) < 256" using c [of d] by (auto simp: loc_ok_def)
  have "\<exists>n. lq_name q = n @ [c_slash]" if r: "redirects q"
  proof -
    obtain e where e: "lq_exact q = Some e \<or> lq_inclusive q = Some e" "lc_auto_redirect e" using r unfolding redirects_def by blast
    then have "List.last (lq_name q) = c_slash" using c [of e] by (auto simp: loc_ok_def)
    then show ?thesis using n(1) by (metis append_butlast_last_id)
  qed
  then show ?thesis using b n by (auto simp: lq_flat_def lq_valid_def strict_prefix_def)
qed

lemma static_trees:
  assumes ok: "\<forall>c \<in> set cs. loc_ok c \<and> loc_class c = 0" and sorted: "sorted_wrt loc_before cs"
  shows "case ngx_http_init_static_location_trees (map loc_entry_of cs) of
       None \<Rightarrow> \<not> distinct (map conf_key cs)
     | Some t \<Rightarrow> \<forall>uri. c_NUL \<notin> set uri \<longrightarrow>
         (\<exists>res. ngx_http_core_find_static_location t uri (NGX_DECLINED, None) = Some res \<and> static_location_spec (set cs) uri res)"
proof (cases "cs = []")
  case True
  then show ?thesis by (simp add: ngx_http_init_static_location_trees_def static_location_spec_def)
next
  case False
  define qs where "qs = map loc_entry_of cs"
  note st = static_entries [OF ok sorted, folded qs_def]
  have ne: "qs \<noteq> []" using False by (simp add: qs_def)
  have "\<forall>q \<in> set qs. lq_flat_ok q" "\<forall>q \<in> set (tl qs). one_conf q" using st(1) by (auto dest: list.set_sel(2) [OF ne])
  note join = join_exact [OF this st(2), unfolded st(3)]
  show ?thesis
  proof (cases "ngx_http_join_exact_locations qs")
    case None
    then show ?thesis using join ne by (simp add: ngx_http_init_static_location_trees_def qs_def)
  next
    case (Some js)
    have js: "\<forall>q \<in> set js. lq_flat_ok q" "in_order js" "concat (map lq_confs js) = cs" using join Some by auto
    have flat: "\<forall>q \<in> set js. lq_flat [] q"
    proof
      fix q assume q: "q \<in> set js"
      have "set (lq_confs q) \<subseteq> set cs" using q js(3) by auto
      then show "lq_flat [] q" using ok q js(1) by (intro flat_of_confs) auto
    qed
    note mk = create_list [OF flat js(2)]
    have "\<exists>res. ngx_http_core_find_static_location (ngx_http_create_locations_tree (ngx_http_create_locations_list js) 0) uri (NGX_DECLINED, None) = Some res \<and>
        static_location_spec (set cs) uri res" if u: "c_NUL \<notin> set uri" for uri
    proof -
      obtain res where r: "ngx_http_core_find_static_location (ngx_http_create_locations_tree (ngx_http_create_locations_list js) 0) uri (NGX_DECLINED, None) = Some res"
          "loc_result (set (lqs_all (ngx_http_create_locations_list js))) uri (NGX_DECLINED, None) res"
        using find_tree [of "[]" "ngx_http_create_locations_list js" 0 uri "(NGX_DECLINED, None)"] mk u by auto
      have "lq_strip ` set (lqs_all (ngx_http_create_locations_list js)) = set js" using mk by (metis image_set)
      then have "loc_result (set js) uri (NGX_DECLINED, None) res" using r(2) loc_result_strip by metis
      with loc_result_confs [OF js(1,2)] js(3) r(1) show ?thesis by metis
    qed
    then show ?thesis using Some ne by (simp add: ngx_http_init_static_location_trees_def qs_def)
  qed
qed

section \<open>Properties\<close>

text \<open>
  Claim C26: The locations of a configuration, in whatever order they are written, are split into
  the static locations, sorted by name with the slash the lowest character and an exact location
  before the inclusive one of the same name; the regular expressions, all of them and in the order
  they are written; and the named locations, sorted by name.
\<close>
theorem locations_grouped:
  assumes "\<forall>c \<in> set locs. loc_ok c" and "distinct (map lc_conf locs)"
  shows "\<exists>static named.
     ngx_http_init_locations (foldl ngx_http_add_location [] locs) =
       (map loc_entry_of static, map Some (filter (\<lambda>c. loc_class c = 1) locs), map Some named) \<and>
     mset static = mset (filter (\<lambda>c. loc_class c = 0) locs) \<and>
     sorted_wrt (\<lambda>c d. name_less (lc_name c) (lc_name d) \<or> lc_name c = lc_name d \<and> (lc_exact_match d \<longrightarrow> lc_exact_match c)) static \<and>
     mset named = mset (filter (\<lambda>c. loc_class c = 2) locs) \<and>
     sorted_wrt (\<lambda>c d. \<not> ord_class.lexordp (lc_name d) (lc_name c)) named"
proof -
  have "distinct locs" using assms(2) by (simp add: distinct_map)
  from init_locations_groups [OF assms(1) this] obtain sorted where s: "mset sorted = mset locs" "sorted_wrt loc_before sorted"
    "\<And>k. c_NUL \<notin> set (lc_name k) \<Longrightarrow> filter (\<lambda>c. loc_before k c \<and> loc_before c k) sorted = filter (\<lambda>c. loc_before k c \<and> loc_before c k) locs"
    "ngx_http_init_locations (foldl ngx_http_add_location [] locs) =
       (map loc_entry_of (filter (\<lambda>c. loc_class c = 0) sorted), map Some (filter (\<lambda>c. loc_class c = 1) sorted),
        map Some (filter (\<lambda>c. loc_class c = 2) sorted))" by blast
  have rgx: "filter (\<lambda>c. loc_class c = 1) sorted = filter (\<lambda>c. loc_class c = 1) locs"
  proof -
    let ?k = "\<lparr>lc_name = [], lc_exact_match = False, lc_regex = True, lc_named = False, lc_noname = False, lc_auto_redirect = False, lc_conf = 0\<rparr>"
    have "(loc_before ?k c \<and> loc_before c ?k) \<longleftrightarrow> loc_class c = 1" for c by (auto simp: loc_before_def loc_class_def)
    then show ?thesis using s(3) [of ?k] by simp
  qed
  have m: "mset (filter P sorted) = mset (filter P locs)" for P by (simp add: s(1))
  have o: "sorted_wrt loc_before (filter P sorted)" for P using s(2) by (rule sorted_wrt_filter)
  have "sorted_wrt (\<lambda>c d. name_less (lc_name c) (lc_name d) \<or> lc_name c = lc_name d \<and> (lc_exact_match d \<longrightarrow> lc_exact_match c)) (filter (\<lambda>c. loc_class c = 0) sorted)"
    by (rule sorted_wrt_mono_rel [OF _ o]) (auto simp: loc_before_def)
  moreover have "sorted_wrt (\<lambda>c d. \<not> ord_class.lexordp (lc_name d) (lc_name c)) (filter (\<lambda>c. loc_class c = 2) sorted)"
    by (rule sorted_wrt_mono_rel [OF _ o]) (auto simp: loc_before_def)
  ultimately show ?thesis using s(4) m unfolding rgx by blast
qed


definition ex_locations :: "loc_conf list" where
  "ex_locations =
    [\<lparr>lc_name = ascii ''/'', lc_exact_match = False, lc_regex = False, lc_named = False, lc_noname = False, lc_auto_redirect = False, lc_conf = 0\<rparr>,
     \<lparr>lc_name = ascii ''[.]js'', lc_exact_match = False, lc_regex = True, lc_named = False, lc_noname = False, lc_auto_redirect = False, lc_conf = 1\<rparr>,
     \<lparr>lc_name = ascii ''/img/'', lc_exact_match = False, lc_regex = False, lc_named = False, lc_noname = False, lc_auto_redirect = True, lc_conf = 2\<rparr>,
     \<lparr>lc_name = ascii ''/img/a'', lc_exact_match = True, lc_regex = False, lc_named = False, lc_noname = False, lc_auto_redirect = False, lc_conf = 3\<rparr>]"

lemma ex_locations_ok: "\<forall>c \<in> set ex_locations. loc_ok c" "distinct (map lc_conf ex_locations)"
  by (simp_all add: ex_locations_def loc_ok_def loc_class_def)

lemma ex_locations_static: "filter (\<lambda>c. loc_class c = 0) ex_locations = [ex_locations ! 0, ex_locations ! 2, ex_locations ! 3]"
  by (simp add: ex_locations_def loc_class_def)

theorem locations_grouped_witness:
  "\<exists>static named.
     ngx_http_init_locations (foldl ngx_http_add_location [] ex_locations) =
       (map loc_entry_of static, map Some (filter (\<lambda>c. loc_class c = 1) ex_locations), map Some named) \<and>
     mset static = mset [ex_locations ! 0, ex_locations ! 2, ex_locations ! 3]"
  using locations_grouped [OF ex_locations_ok] unfolding ex_locations_static by blast


end
