(* ===== verification/Ngx_Numbers.thy ===== *)
theory Ngx_Numbers
  imports Nginx_Prelude
begin

text \<open>
Numbers from text: \<open>ngx_atoi\<close> and its relatives, \<open>ngx_hextoi\<close> and \<open>ngx_hex_dump\<close>
  (\<open>core/ngx_string.c\<close>); sizes, offsets and times of the configuration (\<open>core/ngx_parse.c\<close>). An
  \<open>ngx_int_t\<close> is a word of 64 bits, read as signed where the code compares it.
\<close>

section \<open>Numbers\<close>

text \<open>
  The loop of the five decimal functions; \<open>None\<close> is \<open>return NGX_ERROR\<close> at a byte that is no digit.
  Their types \<open>ngx_int_t\<close>, \<open>ssize_t\<close>, \<open>off_t\<close> and \<open>time_t\<close> all have 64 bits; the overflow, undefined
  in C, wraps around.
\<close>

fun atoi_loop :: "ngx_int \<Rightarrow> bytes \<Rightarrow> ngx_int option" where
  "atoi_loop v [] = Some v"
| "atoi_loop v (c # line) = (if c < c_0 \<or> c > c_9 then None else atoi_loop (v * 10 + (ucast c - 48)) line)"

definition atoi_result :: "ngx_int option \<Rightarrow> int" where
  "atoi_result r = (case r of None \<Rightarrow> NGX_ERROR | Some v \<Rightarrow> if sint v < 0 then NGX_ERROR else sint v)"

definition ngx_atoi :: "bytes \<Rightarrow> int" where
  "ngx_atoi line = (if line = [] then NGX_ERROR else atoi_result (atoi_loop 0 line))"

definition ngx_atosz :: "bytes \<Rightarrow> int" where
  "ngx_atosz line = (if line = [] then NGX_ERROR else atoi_result (atoi_loop 0 line))"

definition ngx_atoof :: "bytes \<Rightarrow> int" where
  "ngx_atoof line = (if line = [] then NGX_ERROR else atoi_result (atoi_loop 0 line))"

definition ngx_atotm :: "bytes \<Rightarrow> int" where
  "ngx_atotm line = (if line = [] then NGX_ERROR else atoi_result (atoi_loop 0 line))"

text \<open>The fixed point number; \<open>point\<close> counts the digits still to come after the dot.\<close>

fun atofp_loop :: "ngx_int \<Rightarrow> bool \<Rightarrow> nat \<Rightarrow> bytes \<Rightarrow> (ngx_int \<times> nat) option" where
  "atofp_loop v dot point [] = Some (v, point)"
| "atofp_loop v dot point (c # line) =
    (if point = 0 then None
     else if c = c_dot then (if dot then None else atofp_loop v True point line)
     else if c < c_0 \<or> c > c_9 then None
     else atofp_loop (v * 10 + (ucast c - 48)) dot (point - (if dot then 1 else 0)) line)"

fun atofp_scale :: "ngx_int \<Rightarrow> nat \<Rightarrow> ngx_int" where
  "atofp_scale v 0 = v"
| "atofp_scale v (Suc point) = atofp_scale (v * 10) point"

definition ngx_atofp :: "bytes \<Rightarrow> nat \<Rightarrow> int" where
  "ngx_atofp line point =
    (if line = [] then NGX_ERROR else atoi_result (map_option (\<lambda>(v, p). atofp_scale v p) (atofp_loop 0 False point line)))"

fun hextoi_loop :: "ngx_int \<Rightarrow> bytes \<Rightarrow> ngx_int option" where
  "hextoi_loop v [] = Some v"
| "hextoi_loop v (ch # line) =
    (if is_digit ch then hextoi_loop (v * 16 + (ucast ch - 48)) line
     else
       (let c = lower ch in
        if is_hex_lower c then hextoi_loop (v * 16 + (ucast c - 97 + 10)) line else None))"

definition ngx_hextoi :: "bytes \<Rightarrow> int" where
  "ngx_hextoi line = (if line = [] then NGX_ERROR else atoi_result (hextoi_loop 0 line))"

fun ngx_hex_dump :: "bytes \<Rightarrow> bytes" where
  "ngx_hex_dump [] = []"
| "ngx_hex_dump (c # src) = hex_chars ! unat (drop_bit 4 c) # hex_chars ! unat (c AND 0xf) # ngx_hex_dump src"

section \<open>Sizes and offsets\<close>

text \<open>\<open>None\<close> is the read before an empty string.\<close>

definition size_unit :: "u_char \<Rightarrow> ngx_int option" where
  "size_unit unit =
    (if unit = of_char CHR ''K'' \<or> unit = of_char CHR ''k'' then Some 1024
     else if unit = of_char CHR ''M'' \<or> unit = of_char CHR ''m'' then Some (1024 * 1024)
     else None)"

definition ngx_parse_size :: "bytes \<Rightarrow> int option" where
  "ngx_parse_size line =
    (if line = [] then None
     else
       (let (len, scale) = (case size_unit (line ! (length line - 1)) of
                              Some scale \<Rightarrow> (length line - 1, scale) | None \<Rightarrow> (length line, 1));
            size = ngx_atosz (take len line)
        in if size = NGX_ERROR then Some NGX_ERROR else Some (sint (word_of_int size * scale))))"

definition offset_unit :: "u_char \<Rightarrow> ngx_int option" where
  "offset_unit unit =
    (if unit = of_char CHR ''G'' \<or> unit = of_char CHR ''g'' then Some (1024 * 1024 * 1024) else size_unit unit)"

definition ngx_parse_offset :: "bytes \<Rightarrow> int option" where
  "ngx_parse_offset line =
    (if line = [] then None
     else
       (let (len, scale) = (case offset_unit (line ! (length line - 1)) of
                              Some scale \<Rightarrow> (length line - 1, scale) | None \<Rightarrow> (length line, 1));
            offset = ngx_atoof (take len line)
        in if offset = NGX_ERROR then Some NGX_ERROR else Some (sint (word_of_int offset * scale))))"

section \<open>Times\<close>

text \<open>The steps of \<open>ngx_parse_time\<close>, in their order.\<close>

abbreviation (input) st_start :: nat where "st_start \<equiv> 0"
abbreviation (input) st_year :: nat where "st_year \<equiv> 1"
abbreviation (input) st_month :: nat where "st_month \<equiv> 2"
abbreviation (input) st_week :: nat where "st_week \<equiv> 3"
abbreviation (input) st_day :: nat where "st_day \<equiv> 4"
abbreviation (input) st_hour :: nat where "st_hour \<equiv> 5"
abbreviation (input) st_min :: nat where "st_min \<equiv> 6"
abbreviation (input) st_sec :: nat where "st_sec \<equiv> 7"
abbreviation (input) st_msec :: nat where "st_msec \<equiv> 8"
abbreviation (input) st_last :: nat where "st_last \<equiv> 9"

definition NGX_MAX_INT32_VALUE :: "64 word" where
  "NGX_MAX_INT32_VALUE = 0x7fffffff"

text \<open>
  The switch on the unit: the new step and the scale, when the step may follow; \<open>max\<close> is
  \<open>NGX_MAX_INT32_VALUE / scale\<close> in each case. The second argument tells whether an \<open>s\<close> comes next.
\<close>

definition time_unit :: "bool \<Rightarrow> nat \<Rightarrow> u_char \<Rightarrow> bool \<Rightarrow> (nat \<times> ngx_int) option" where
  "time_unit is_sec step c s_next =
    (if c = of_char CHR ''y'' then (if step > st_start then None else Some (st_year, 60 * 60 * 24 * 365))
     else if c = of_char CHR ''M'' then (if step \<ge> st_month then None else Some (st_month, 60 * 60 * 24 * 30))
     else if c = of_char CHR ''w'' then (if step \<ge> st_week then None else Some (st_week, 60 * 60 * 24 * 7))
     else if c = of_char CHR ''d'' then (if step \<ge> st_day then None else Some (st_day, 60 * 60 * 24))
     else if c = of_char CHR ''h'' then (if step \<ge> st_hour then None else Some (st_hour, 60 * 60))
     else if c = of_char CHR ''m'' then
       (if s_next then (if is_sec \<or> step \<ge> st_msec then None else Some (st_msec, 1))
        else if step \<ge> st_min then None else Some (st_min, 60))
     else if c = of_char CHR ''s'' then (if step \<ge> st_sec then None else Some (st_sec, 1))
     else if c = c_space then (if step \<ge> st_sec then None else Some (st_last, 1))
     else None)"

text \<open>
  What is done after the switch; \<open>None\<close> is \<open>return NGX_ERROR\<close>. The comparisons are unsigned, the
  arithmetic wraps around.
\<close>

definition time_add :: "bool \<Rightarrow> nat \<Rightarrow> ngx_int \<Rightarrow> ngx_int \<Rightarrow> ngx_int \<Rightarrow> ngx_int option" where
  "time_add is_sec step scale value tot =
    (let max_value = NGX_MAX_INT32_VALUE div scale;
         (scale, max_value) = (if step \<noteq> st_msec \<and> \<not> is_sec then (scale * 1000, max_value div 1000) else (scale, max_value))
     in if value > max_value then None
        else
          (let tot = tot + value * scale
           in if tot > NGX_MAX_INT32_VALUE then None else Some tot))"

text \<open>
  The outer loop. The string is followed by a byte, \<open>after\<close>, which the test for \<open>ms\<close> may read;
  in a configuration it is a null byte. \<open>None\<close> is \<open>NGX_ERROR\<close>.
\<close>

fun time_loop :: "bool \<Rightarrow> u_char \<Rightarrow> nat \<Rightarrow> ngx_int \<Rightarrow> ngx_int \<Rightarrow> bool \<Rightarrow> bool \<Rightarrow> bytes \<Rightarrow> (ngx_int \<times> ngx_int \<times> bool) option" where
  "time_loop is_sec after step value tot valid spaces [] = Some (value, tot, valid)"
| "time_loop is_sec after step value tot valid spaces (c # p) =
    (if spaces \<and> c = c_space then time_loop is_sec after step value tot valid True p
     else if is_digit c then time_loop is_sec after step (value * 10 + (ucast c - 48)) tot True False p
     else
       (case time_unit is_sec step c ((case p of [] \<Rightarrow> after | d # _ \<Rightarrow> d) = of_char CHR ''s'') of
          None \<Rightarrow> None
        | Some (step, scale) \<Rightarrow>
            (case time_add is_sec step scale value tot of
               None \<Rightarrow> None
             | Some tot \<Rightarrow> time_loop is_sec after step 0 tot valid True (if step = st_msec then tl p else p))))"

definition ngx_parse_time :: "bool \<Rightarrow> u_char \<Rightarrow> bytes \<Rightarrow> int" where
  "ngx_parse_time is_sec after line =
    (case time_loop is_sec after (if is_sec then st_start else st_month) 0 0 False False line of
       None \<Rightarrow> NGX_ERROR
     | Some (value, tot, valid) \<Rightarrow>
         if valid then sint (tot + value * (if is_sec then 1 else 1000)) else NGX_ERROR)"

end
