(* ===== verification/Ngx_Sprintf.thy ===== *)
theory Ngx_Sprintf
  imports Nginx_Prelude
begin

text \<open>
Formatted output (\<open>core/ngx_string.c\<close>): \<open>ngx_vslprintf\<close>, its three callers and
  \<open>ngx_sprintf_num\<close>. The result is what is written at \<open>buf\<close>; the room up to \<open>last\<close> is an argument.
\<close>

section \<open>Numbers\<close>

text \<open>The digits \<open>do ... while (ui64 /= 10)\<close> and \<open>do ... while (ui64 >>= 4)\<close> store from the right.\<close>

function dec_digits :: "nat \<Rightarrow> bytes \<Rightarrow> bytes" where
  "dec_digits n acc =
    (let acc = (of_nat (n mod 10) + c_0) # acc in if n div 10 = 0 then acc else dec_digits (n div 10) acc)"
  by pat_completeness auto
termination
  by (relation "measure fst") auto

function hex_digits :: "bytes \<Rightarrow> nat \<Rightarrow> bytes \<Rightarrow> bytes" where
  "hex_digits digits n acc =
    (let acc = digits ! (n mod 16) # acc in if n div 16 = 0 then acc else hex_digits digits (n div 16) acc)"
  by pat_completeness auto
termination
  by (relation "measure (\<lambda>(digits, n, acc). n)") auto

declare dec_digits.simps [simp del] hex_digits.simps [simp del]

definition HEX_chars :: bytes where
  "HEX_chars = ascii ''0123456789ABCDEF''"

text \<open>
  The room \<open>last - buf\<close>; \<open>None\<close> stands for the last address \<open>(void *) -1\<close>, which no buffer reaches.
\<close>

definition clip :: "nat option \<Rightarrow> bytes \<Rightarrow> bytes" where
  "clip room b = (case room of None \<Rightarrow> b | Some r \<Rightarrow> take r b)"

definition room_left :: "nat option \<Rightarrow> nat \<Rightarrow> nat option" where
  "room_left room n = map_option (\<lambda>r. r - n) room"

text \<open>
  \<open>ngx_sprintf_num\<close>: the result is what is written. The division of a number below \<open>2 ^ 32\<close> in 32
  bits gives the same digits.
\<close>

definition ngx_sprintf_num :: "nat option \<Rightarrow> 64 word \<Rightarrow> u_char \<Rightarrow> nat \<Rightarrow> 64 word \<Rightarrow> bytes" where
  "ngx_sprintf_num room ui64 zero hexadecimal width =
    (let temp = (if hexadecimal = 0 then dec_digits (unat ui64) []
                 else if hexadecimal = 1 then hex_digits hex_chars (unat ui64) []
                 else hex_digits HEX_chars (unat ui64) []);
         pad = clip room (replicate (unat width - length temp) zero)
     in pad @ clip (room_left room (length pad)) temp)"

section \<open>Formats\<close>

text \<open>
  The arguments of a call: an integer by its width, a string \<open>ngx_str_t\<close> (also for
  \<open>ngx_variable_value_t\<close>), a pointer to bytes, and a double, which is not modelled.
\<close>

datatype sp_arg = A_int "32 word" | A_long "64 word" | A_str bytes | A_ptr bytes | A_double

text \<open>The variables a conversion sets; \<open>sp_slen\<close> is \<open>None\<close> for \<open>(size_t) -1\<close>.\<close>

record sp_spec =
  sp_zero :: u_char
  sp_width :: "64 word"
  sp_sign :: bool
  sp_hex :: nat
  sp_max_width :: bool
  sp_frac_width :: "64 word"
  sp_slen :: "nat option"

text \<open>\<open>while (*fmt >= '0' && *fmt <= '9')\<close>\<close>

fun sp_number :: "64 word \<Rightarrow> bytes \<Rightarrow> 64 word \<times> bytes" where
  "sp_number w [] = (w, [])"
| "sp_number w (c # fmt) = (if is_digit c then sp_number (w * 10 + ucast c - 48) fmt else (w, c # fmt))"

text \<open>The loop over the flags; \<open>None\<close> is an argument of another type.\<close>

fun sp_flags :: "bytes \<Rightarrow> sp_arg list \<Rightarrow> sp_spec \<Rightarrow> (bytes \<times> sp_arg list \<times> sp_spec) option" where
  "sp_flags [] args s = Some ([], args, s)"
| "sp_flags (c # fmt) args s =
    (if c = of_char CHR ''u'' then sp_flags fmt args (s\<lparr>sp_sign := False\<rparr>)
     else if c = of_char CHR ''m'' then sp_flags fmt args (s\<lparr>sp_max_width := True\<rparr>)
     else if c = of_char CHR ''X'' then sp_flags fmt args (s\<lparr>sp_hex := 2, sp_sign := False\<rparr>)
     else if c = of_char CHR ''x'' then sp_flags fmt args (s\<lparr>sp_hex := 1, sp_sign := False\<rparr>)
     else if c = c_dot then
       (let (w, fmt) = sp_number (sp_frac_width s) fmt in Some (fmt, args, s\<lparr>sp_frac_width := w\<rparr>))
     else if c = of_char CHR ''*'' then
       (case args of
          A_long n # args \<Rightarrow> sp_flags fmt args (s\<lparr>sp_slen := (if n = -1 then None else Some (unat n))\<rparr>)
        | _ \<Rightarrow> None)
     else Some (c # fmt, args, s))"

text \<open>
  What a conversion writes: bytes, or a number, signed or not, that \<open>ngx_sprintf_num\<close> prints.
\<close>

datatype sp_out = SP_bytes bytes | SP_num "64 word" sp_spec

text \<open>Conversions that take an integer: 64 bits wide, signed always or by the flag, or an \<open>int\<close>.\<close>

definition sp_int64 :: "sp_spec \<Rightarrow> sp_arg list \<Rightarrow> (sp_out \<times> sp_arg list) option" where
  "sp_int64 s args = (case args of A_long n # args \<Rightarrow> Some (SP_num n s, args) | _ \<Rightarrow> None)"

definition sp_int32 :: "sp_spec \<Rightarrow> sp_arg list \<Rightarrow> (sp_out \<times> sp_arg list) option" where
  "sp_int32 s args =
    (case args of
       A_int n # args \<Rightarrow> Some (SP_num (if sp_sign s then scast n else ucast n) s, args)
     | _ \<Rightarrow> None)"

text \<open>The switch on the conversion; a null-terminated string is read up to its end or to \<open>last\<close>.\<close>

fun sp_cstr :: "nat option \<Rightarrow> bytes \<Rightarrow> bytes option" where
  "sp_cstr room [] = None"
| "sp_cstr room (c # p) =
    (if c = c_NUL \<or> room = Some 0 then Some [] else map_option (Cons c) (sp_cstr (room_left room 1) p))"

definition sp_conv :: "nat option \<Rightarrow> u_char \<Rightarrow> sp_arg list \<Rightarrow> sp_spec \<Rightarrow> (sp_out \<times> sp_arg list) option" where
  "sp_conv room c args s =
    (if c = of_char CHR ''V'' \<or> c = of_char CHR ''v'' then
       (case args of A_str v # args \<Rightarrow> Some (SP_bytes (clip room v), args) | _ \<Rightarrow> None)
     else if c = of_char CHR ''s'' then
       (case args of
          A_ptr p # args \<Rightarrow>
            (case sp_slen s of
               None \<Rightarrow> map_option (\<lambda>b. (SP_bytes b, args)) (sp_cstr room p)
             | Some slen \<Rightarrow>
                 (let len = (case room of None \<Rightarrow> slen | Some r \<Rightarrow> min r slen)
                  in if len \<le> length p then Some (SP_bytes (take len p), args) else None))
        | _ \<Rightarrow> None)
     else if c = of_char CHR ''O'' \<or> c = of_char CHR ''T'' \<or> c = of_char CHR ''r'' then
       sp_int64 (s\<lparr>sp_sign := True\<rparr>) args
     else if c = of_char CHR ''P'' then sp_int32 (s\<lparr>sp_sign := True\<rparr>) args
     else if c = of_char CHR ''M'' then
       (case args of
          A_long ms # args \<Rightarrow> Some (SP_num ms (s\<lparr>sp_sign := (ms = -1)\<rparr>), args)
        | _ \<Rightarrow> None)
     else if c = of_char CHR ''z'' \<or> c = of_char CHR ''l'' \<or> c = of_char CHR ''L'' then sp_int64 s args
     else if c = of_char CHR ''i'' \<or> c = of_char CHR ''A'' then
       sp_int64 (if sp_max_width s then s\<lparr>sp_width := 20\<rparr> else s) args
     else if c = of_char CHR ''d'' \<or> c = of_char CHR ''D'' then sp_int32 s args
     else if c = of_char CHR ''f'' then None
     else if c = of_char CHR ''p'' then
       sp_int64 (s\<lparr>sp_hex := 2, sp_sign := False, sp_zero := c_0, sp_width := 16\<rparr>) args
     else if c = of_char CHR ''c'' then
       (case args of A_int d # args \<Rightarrow> Some (SP_bytes [ucast (d AND 0xff)], args) | _ \<Rightarrow> None)
     else if c = of_char CHR ''Z'' then Some (SP_bytes [c_NUL], args)
     else if c = of_char CHR ''N'' then Some (SP_bytes [c_LF], args)
     else Some (SP_bytes [c], args))"

definition sp_print :: "nat option \<Rightarrow> sp_out \<Rightarrow> bytes" where
  "sp_print room out =
    (case out of
       SP_bytes b \<Rightarrow> b
     | SP_num n s \<Rightarrow>
         (if sp_sign s \<and> sint n < 0 then c_minus # ngx_sprintf_num (room_left room 1) (- n) (sp_zero s) (sp_hex s) (sp_width s)
          else ngx_sprintf_num room n (sp_zero s) (sp_hex s) (sp_width s)))"

lemma sp_number_length: "length (snd (sp_number w fmt)) \<le> length fmt"
  by (induction w fmt rule: sp_number.induct) auto

lemma sp_flags_length: "sp_flags fmt args s = Some (fmt', args', s') \<Longrightarrow> length fmt' \<le> length fmt"
proof (induction fmt args s rule: sp_flags.induct)
  case (2 c fmt args s)
  have "length f \<le> length fmt" if "sp_number w fmt = (w', f)" for w w' f using sp_number_length [of w fmt] that by simp
  then show ?case using 2 by (auto split: if_splits list.splits sp_arg.splits prod.splits intro: le_SucI)
qed simp

section \<open>The loop\<close>

text \<open>
  \<open>ngx_vslprintf\<close>: \<open>fmt\<close> is the format without the null byte at its end, \<open>room\<close> is \<open>last - buf\<close>,
  the result what is written. \<open>None\<close> is undefined behaviour: an argument missing or of another
  type, a string not terminated, a format that ends within a conversion; and \<open>%f\<close>, not modelled.
\<close>

function ngx_vslprintf :: "nat option \<Rightarrow> bytes \<Rightarrow> sp_arg list \<Rightarrow> bytes option" where
  "ngx_vslprintf room [] args = Some []"
| "ngx_vslprintf room (c # fmt) args =
    (if room = Some 0 then Some []
     else if c = c_percent then
       (let zero = (case fmt of d # _ \<Rightarrow> if d = c_0 then c_0 else c_space | [] \<Rightarrow> c_space);
            (width, fmt1) = sp_number 0 fmt
        in case sp_flags fmt1 args
                  \<lparr>sp_zero = zero, sp_width = width, sp_sign = True, sp_hex = 0, sp_max_width = False,
                   sp_frac_width = 0, sp_slen = None\<rparr> of
             Some (d # fmt2, args1, s) \<Rightarrow>
               (case sp_conv room d args1 s of
                  None \<Rightarrow> None
                | Some (out, args2) \<Rightarrow>
                    (let b = sp_print room out
                     in map_option (\<lambda>r. b @ r) (ngx_vslprintf (room_left room (length b)) fmt2 args2)))
           | _ \<Rightarrow> None)
     else map_option (Cons c) (ngx_vslprintf (room_left room 1) fmt args))"
  by pat_completeness auto
termination
proof (relation "measure (\<lambda>(room, fmt, args). length fmt)")
  fix room :: "nat option" and c and fmt fmt1 fmt2 :: bytes and args args1 args2 z zero width f1 f1' f2 d f3 s f4 out b
  assume n: "z = sp_number 0 fmt" "(width, fmt1) = z"
    and fl: "sp_flags fmt1 args \<lparr>sp_zero = zero, sp_width = width, sp_sign = True, sp_hex = 0, sp_max_width = False,
                   sp_frac_width = 0, sp_slen = None\<rparr> = Some f1" "(f1', f2) = f1" "f1' = d # fmt2" "(args1, s) = f2"
  have "fmt1 = snd (sp_number 0 fmt)" using n by (metis snd_conv)
  then show "((room_left room (length b), fmt2, args2), room, c # fmt, args) \<in> measure (\<lambda>(room, fmt, args). length fmt)"
    using sp_number_length [of 0 fmt] sp_flags_length [of fmt1 args _ "d # fmt2" args1 s] fl by force
qed auto

declare ngx_vslprintf.simps(2) [simp del]

text \<open>The three callers.\<close>

definition ngx_sprintf :: "bytes \<Rightarrow> sp_arg list \<Rightarrow> bytes option" where
  "ngx_sprintf fmt args = ngx_vslprintf None fmt args"

definition ngx_snprintf :: "nat \<Rightarrow> bytes \<Rightarrow> sp_arg list \<Rightarrow> bytes option" where
  "ngx_snprintf max_len fmt args = ngx_vslprintf (Some max_len) fmt args"

definition ngx_slprintf :: "nat \<Rightarrow> nat \<Rightarrow> bytes \<Rightarrow> sp_arg list \<Rightarrow> bytes option" where
  "ngx_slprintf buf lim fmt args = ngx_vslprintf (Some (lim - buf)) fmt args"

end
