(* ===== verification/Numbers_Correct.thy ===== *)
theory Numbers_Correct
  imports Ngx_Numbers Ngx_Sprintf
begin

text \<open>
What the number functions compute: the decimal value modulo \<open>2 ^ 64\<close>, the round trip from
  \<open>ngx_sprintf\<close> back to \<open>ngx_atoof\<close>, the bounds of formatted output and of configuration times.
\<close>

section \<open>Decimal numbers\<close>

definition decimal :: "bytes \<Rightarrow> nat" where
  "decimal line = fold (\<lambda>c v. 10 * v + (unat c - 48)) line 0"

lemma fold_decimal: "fold (\<lambda>c v. 10 * v + (unat c - 48)) line (v :: nat) = v * 10 ^ length line + decimal line"
proof (induction line arbitrary: v)
  case (Cons c line)
  show ?case using Cons [of "10 * v + (unat c - 48)"] Cons [of "unat c - 48"] by (simp add: decimal_def algebra_simps)
qed (simp add: decimal_def)

lemma decimal_Cons: "decimal (c # line) = (unat c - 48) * 10 ^ length line + decimal line"
  using fold_decimal [of line "unat c - 48"] by (simp add: decimal_def)

lemma digit_value: "is_digit c \<Longrightarrow> (ucast c - 48 :: ngx_int) = of_nat (unat c - 48)" for c :: u_char
proof -
  assume "is_digit c"
  then have "48 \<le> unat c" by (simp add: is_digit_def word_le_nat_alt)
  then show ?thesis by (simp add: of_nat_diff)
qed

lemma not_digit: "(c < c_0 \<or> c > c_9) \<longleftrightarrow> \<not> is_digit c"
  by (auto simp: is_digit_def)

lemma atoi_loop_value:
  "atoi_loop v line = (if list_all is_digit line then Some (v * 10 ^ length line + of_nat (decimal line)) else None)"
proof (induction line arbitrary: v)
  case (Cons c line)
  show ?case
  proof (cases "is_digit c")
    case True
    then have "atoi_loop v (c # line) = atoi_loop (v * 10 + of_nat (unat c - 48)) line"
      using not_digit [of c] digit_value [of c] by (simp del: of_nat_diff)
    moreover obtain k where "unat c - 48 = k" by blast
    ultimately show ?thesis using Cons True by (simp add: decimal_Cons algebra_simps)
  next
    case False
    then show ?thesis using not_digit [of c] by simp
  qed
qed (simp add: decimal_def)

lemma dec_digits_append: "dec_digits n acc = dec_digits n [] @ acc"
proof (induction n arbitrary: acc rule: less_induct)
  case (less n)
  show ?case
  proof (cases "n div 10 = 0")
    case True
    then show ?thesis by (simp add: dec_digits.simps [of n])
  next
    case False
    then have "n div 10 < n" by auto
    note step = less [OF this]
    have "dec_digits n acc = dec_digits (n div 10) ((of_nat (n mod 10) + c_0) # acc)" for acc
      using False by (simp add: dec_digits.simps [of n] Let_def del: div_eq_0_iff)
    then show ?thesis by (metis step append_Cons append_Nil append_assoc)
  qed
qed

lemma digit_char:
  assumes "k < 10"
  shows "is_digit (of_nat k + c_0)" "unat (of_nat k + c_0 :: u_char) = k + 48"
proof -
  have "k \<in> {0, 1, 2, 3, 4, 5, 6, 7, 8, 9}" using assms by auto
  then show "is_digit (of_nat k + c_0)" "unat (of_nat k + c_0 :: u_char) = k + 48" by (auto simp: is_digit_def)
qed

lemma decimal_append: "decimal (a @ b) = decimal a * 10 ^ length b + decimal b"
  using fold_decimal [of b "decimal a"] by (simp add: decimal_def)

lemma dec_digits_value: "list_all is_digit (dec_digits n [])" "decimal (dec_digits n []) = n" "dec_digits n [] \<noteq> []"
proof (induction n rule: less_induct)
  case (less n)
  have d: "dec_digits n [] = (if n div 10 = 0 then [] else dec_digits (n div 10) []) @ [of_nat (n mod 10) + c_0]"
    by (simp add: dec_digits.simps [of n] dec_digits_append [of "n div 10" "[x]" for x])
  have "list_all is_digit (if n div 10 = 0 then [] else dec_digits (n div 10) [])"
    and "decimal (if n div 10 = 0 then [] else dec_digits (n div 10) []) = n div 10"
    using less [of "n div 10"] by (auto simp: decimal_def)
  moreover have "n mod 10 < 10" by simp
  note digit_char [OF this]
  ultimately show "list_all is_digit (dec_digits n [])" "decimal (dec_digits n []) = n" "dec_digits n [] \<noteq> []"
    unfolding d by (simp_all add: decimal_append decimal_Cons del: if_split) (simp_all add: decimal_def)
qed

section \<open>Properties\<close>

text \<open>
  Claim C39: \<open>ngx_atoof\<close>, and the three functions with the same body, give the number the digits write
  in decimal when it is below \<open>2 ^ 63\<close>; otherwise it is taken modulo \<open>2 ^ 64\<close>, and only a result that
  is then negative is an error. Anything but digits is an error.
\<close>
theorem atoof_value:
  "ngx_atoof line =
    (if line \<noteq> [] \<and> list_all is_digit line
     then let v = sint (of_nat (decimal line) :: ngx_int) in if v < 0 then NGX_ERROR else v
     else NGX_ERROR) \<and>
   ngx_atoi line = ngx_atoof line \<and> ngx_atosz line = ngx_atoof line \<and> ngx_atotm line = ngx_atoof line"
  by (simp add: ngx_atoof_def ngx_atoi_def ngx_atosz_def ngx_atotm_def atoi_result_def atoi_loop_value)

lemma sint_small: "n < 2 ^ 63 \<Longrightarrow> sint (of_nat n :: 64 word) = int n"
  by (simp add: signed_of_nat signed_take_bit_int_eq_self)

lemma atoof_small:
  assumes "line \<noteq> []" "list_all is_digit line" "decimal line < 2 ^ 63"
  shows "ngx_atoof line = int (decimal line)"
proof -
  have "sint (of_nat (decimal line) :: ngx_int) = int (decimal line)" using sint_small [OF assms(3)] .
  then show ?thesis using assms by (simp add: ngx_atoof_def atoi_result_def atoi_loop_value)
qed

text \<open>
  A file offset that \<open>ngx_sprintf\<close> prints with \<open>%O\<close> is read back by \<open>ngx_atoof\<close>.
\<close>
lemma offset_roundtrip:
  assumes "n < 2 ^ 63"
  shows "\<exists>v. ngx_sprintf (ascii ''%O'') [A_long (of_nat n)] = Some v \<and> ngx_atoof v = int n"
proof -
  have n: "unat (of_nat n :: 64 word) = n" using assms by (simp add: unat_of_nat take_bit_nat_eq_self)
  then have "\<not> sint (of_nat n :: 64 word) < 0" using sint_small [OF assms] by simp
  then have "ngx_sprintf (ascii ''%O'') [A_long (of_nat n)] = Some (dec_digits n [])"
    by (simp add: ngx_sprintf_def ngx_vslprintf.simps(2) sp_int64_def sp_conv_def sp_print_def ngx_sprintf_num_def clip_def room_left_def is_digit_def n Let_def)
  then show ?thesis using atoof_small [of "dec_digits n []"] dec_digits_value [of n] assms by simp
qed

section \<open>Bounds\<close>

definition fits :: "nat option \<Rightarrow> bytes \<Rightarrow> bool" where
  "fits room b = (\<forall>r. room = Some r \<longrightarrow> length b \<le> r)"

lemma fits_clip: "fits room (clip room b)"
  by (auto simp: fits_def clip_def)

lemma fits_Nil: "fits room []"
  by (simp add: fits_def)

lemma fits_append: "fits room a \<Longrightarrow> fits (room_left room (length a)) b \<Longrightarrow> fits room (a @ b)"
  by (cases room) (auto simp: fits_def room_left_def)

lemma fits_Cons: "room \<noteq> Some 0 \<Longrightarrow> fits (room_left room (Suc 0)) b \<Longrightarrow> fits room (c # b)"
  by (cases room) (auto simp: fits_def room_left_def)

lemma fits_num: "fits room (ngx_sprintf_num room n zero hex width)"
  unfolding ngx_sprintf_num_def Let_def by (intro fits_append fits_clip)

lemma fits_cstr: "sp_cstr room p = Some b \<Longrightarrow> fits room b"
proof (induction room p arbitrary: b rule: sp_cstr.induct)
  case (2 room c p)
  then show ?case by (auto split: if_splits intro: fits_Nil fits_Cons)
qed simp

lemma fits_conv:
  assumes "sp_conv room c args s = Some (out, args')" "room \<noteq> Some 0"
  shows "fits room (sp_print room out)"
proof (cases out)
  case (SP_num n s')
  then show ?thesis using assms(2) fits_num by (auto simp: sp_print_def intro: fits_Cons)
next
  case (SP_bytes b)
  have "fits room b"
    using assms unfolding SP_bytes sp_conv_def sp_int64_def sp_int32_def
    by (auto simp: clip_def fits_def Let_def split: if_splits list.splits sp_arg.splits option.splits dest: fits_cstr)
  then show ?thesis by (simp add: SP_bytes sp_print_def)
qed



lemma time_add_bound: "time_add is_sec step scale value tot = Some t \<Longrightarrow> t \<le> 0x7fffffff"
  by (auto simp: time_add_def NGX_MAX_INT32_VALUE_def Let_def split: if_splits)

lemma time_loop_bound:
  assumes "time_loop is_sec after step value tot valid spaces line = Some (value', tot', valid')"
    and "tot \<le> 0x7fffffff" "line = [] \<or> spaces \<Longrightarrow> value = 0" "line \<noteq> [] \<Longrightarrow> \<not> is_digit (List.last line)"
  shows "value' = 0 \<and> tot' \<le> 0x7fffffff"
  using assms
proof (induction is_sec after step "value" tot valid spaces line rule: time_loop.induct)
  case (2 is_sec after step "value" tot valid spaces c p)
  show ?case
  proof (cases "spaces \<and> c = c_space")
    case True
    then show ?thesis using 2 by (auto split: if_splits)
  next
    case n: False
    show ?thesis
    proof (cases "is_digit c")
      case True
      then have "p \<noteq> []" using 2(7) by auto
      then show ?thesis using 2(2) [OF n True] 2(4-7) n True by auto
    next
      case False
      then obtain step' scale t where u: "time_unit is_sec step c ((case p of [] \<Rightarrow> after | d # _ \<Rightarrow> d) = of_char CHR ''s'') = Some (step', scale)"
        and t: "time_add is_sec step' scale value tot = Some t"
        and r: "time_loop is_sec after step' 0 t valid True (if step' = st_msec then tl p else p) = Some (value', tot', valid')"
        using 2(4) n by (auto split: option.splits)
      have "(if step' = st_msec then tl p else p) \<noteq> [] \<Longrightarrow> \<not> is_digit (List.last (if step' = st_msec then tl p else p))"
        using 2(7) by (cases p) (auto split: if_splits)
      with 2(3) [OF n False u refl t r time_add_bound [OF t]] show ?thesis by simp
    qed
  qed
qed simp

text \<open>
  A time whose text does not end with a digit is an error or a number up to \<open>2 ^ 31 - 1\<close>:
  the sum of its parts is checked at every unit. (A last number without a unit is added unchecked.)
\<close>
lemma parse_time_bounded:
  assumes "line \<noteq> []" "\<not> is_digit (List.last line)"
  shows "ngx_parse_time is_sec after line = NGX_ERROR \<or> ngx_parse_time is_sec after line \<in> {0 .. 2 ^ 31 - 1}"
proof (cases "time_loop is_sec after (if is_sec then st_start else st_month) 0 0 False False line")
  case (Some x)
  obtain v t d where x: "x = (v, t, d)" by (cases x)
  have "v = 0" "t \<le> 0x7fffffff" using time_loop_bound [OF Some [unfolded x]] assms by auto
  then have k: "unat t \<le> 2147483647" by (simp add: word_le_nat_alt)
  then have "sint t = uint t" using sint_small [of "unat t"] by simp
  moreover have "uint t \<le> 2147483647" using \<open>t \<le> 0x7fffffff\<close> by (simp add: word_le_def)
  ultimately have "0 \<le> sint t" "sint t \<le> 2147483647" by simp_all
  then have "sint t \<in> {0 .. 2 ^ 31 - 1}" by (simp only: atLeastAtMost_iff) simp
  then show ?thesis using Some x \<open>v = 0\<close> by (cases d) (simp_all only: ngx_parse_time_def option.case prod.case if_True if_False mult_zero_left add_0_right simp_thms)
qed (simp add: ngx_parse_time_def)

end
