(* ===== verification/Ngx_Time.thy ===== *)
theory Ngx_Time
  imports Ngx_Sprintf "HOL-Library.Signed_Division"
begin

text \<open>
Dates: \<open>ngx_gmtime\<close>, \<open>ngx_http_time\<close> and \<open>ngx_http_cookie_time\<close> (\<open>core/ngx_times.c\<close>) and
  \<open>ngx_http_parse_time\<close> (\<open>http/ngx_http_parse_time.c\<close>), on words of the width the code computes with.
\<close>

section \<open>Calendar\<close>

text \<open>The division of signed integers, which truncates.\<close>

definition int_div :: "ngx_int \<Rightarrow> ngx_int \<Rightarrow> ngx_int" where
  "int_div a b = word_of_int (sint a sdiv sint b)"

text \<open>\<open>ngx_tm_t\<close>, a \<open>struct tm\<close>, whose fields are \<open>int\<close>.\<close>

record ngx_tm =
  tm_sec :: "32 word"
  tm_min :: "32 word"
  tm_hour :: "32 word"
  tm_mday :: "32 word"
  tm_mon :: "32 word"
  tm_year :: "32 word"
  tm_wday :: "32 word"

text \<open>The days before March 1 of a year, counted from March 1, 1 BC: Gauss' formula.\<close>

definition gauss_days :: "64 word \<Rightarrow> 64 word" where
  "gauss_days year = 365 * year + year div 4 - year div 100 + year div 400"

text \<open>A day before March 1 belongs to the year before.\<close>

definition gmtime_adjust :: "ngx_int \<Rightarrow> 64 word \<Rightarrow> ngx_int \<times> 64 word" where
  "gmtime_adjust yday year =
    (if sint yday < 0
     then
       (let leap = (if year mod 4 = 0 \<and> (year mod 100 \<noteq> 0 \<or> year mod 400 = 0) then 1 else 0)
        in (365 + leap + yday, year - 1))
     else (yday, year))"

text \<open>The date of a day since March 1, 1 BC: \<open>mday\<close>, \<open>mon\<close> and \<open>year\<close>.\<close>

definition gmtime_date :: "64 word \<Rightarrow> 64 word \<times> 64 word \<times> 64 word" where
  "gmtime_date days =
    (let year = (days + 2) * 400 div (365 * 400 + 100 - 4 + 1);
         (yday, year) = gmtime_adjust (days - gauss_days year) year;
         mon = int_div ((yday + 31) * 10) 306;
         mday = yday - (367 * mon div 12 - 30) + 1
     in if sint yday \<ge> 306 then (mday, mon - 10, year + 1) else (mday, mon + 2, year))"

definition ngx_gmtime :: "64 word \<Rightarrow> ngx_tm" where
  "ngx_gmtime t =
    (let n = t;
         days = n div 86400;
         wday = (4 + days) mod 7;
         n = n mod 86400;
         hour = n div 3600;
         n = n mod 3600;
         minute = n div 60;
         sec = n mod 60;
         days = days - (31 + 28) + 719527;
         (mday, mon, year) = gmtime_date days
     in \<lparr>tm_sec = ucast sec, tm_min = ucast minute, tm_hour = ucast hour, tm_mday = ucast mday, tm_mon = ucast mon,
         tm_year = ucast year, tm_wday = ucast wday\<rparr>)"

section \<open>Printing\<close>

definition week :: "bytes list" where
  "week = map ascii [''Sun'', ''Mon'', ''Tue'', ''Wed'', ''Thu'', ''Fri'', ''Sat'']"

definition months :: "bytes list" where
  "months = map ascii [''Jan'', ''Feb'', ''Mar'', ''Apr'', ''May'', ''Jun'', ''Jul'', ''Aug'', ''Sep'', ''Oct'', ''Nov'', ''Dec'']"

text \<open>A pointer to a C string.\<close>

abbreviation A_cstr :: "bytes \<Rightarrow> sp_arg" where
  "A_cstr s \<equiv> A_ptr (s @ [c_NUL])"

definition ngx_http_time :: "64 word \<Rightarrow> bytes option" where
  "ngx_http_time t =
    (let tm = ngx_gmtime t in
     ngx_sprintf (ascii ''%s, %02d %s %4d %02d:%02d:%02d GMT'')
       [A_cstr (week ! unat (tm_wday tm)), A_int (tm_mday tm), A_cstr (months ! unat (tm_mon tm - 1)), A_int (tm_year tm),
        A_int (tm_hour tm), A_int (tm_min tm), A_int (tm_sec tm)])"

definition ngx_http_cookie_time :: "64 word \<Rightarrow> bytes option" where
  "ngx_http_cookie_time t =
    (let tm = ngx_gmtime t in
     ngx_sprintf
       (if sint (tm_year tm) > 2037 then ascii ''%s, %02d-%s-%d %02d:%02d:%02d GMT'' else ascii ''%s, %02d-%s-%02d %02d:%02d:%02d GMT'')
       [A_cstr (week ! unat (tm_wday tm)), A_int (tm_mday tm), A_cstr (months ! unat (tm_mon tm - 1)),
        A_int (if sint (tm_year tm) > 2037 then tm_year tm else word_of_int (sint (tm_year tm) smod 100)),
        A_int (tm_hour tm), A_int (tm_min tm), A_int (tm_sec tm)])"

section \<open>Parsing\<close>

text \<open>\<open>PT_error\<close> is \<open>return NGX_ERROR\<close>, \<open>PT_fault\<close> a read past the end of the string.\<close>

datatype 'a pt = PT_fault | PT_error | PT_ok 'a

definition pt_bind :: "'a pt \<Rightarrow> ('a \<Rightarrow> 'b pt) \<Rightarrow> 'b pt" where
  "pt_bind x f = (case x of PT_fault \<Rightarrow> PT_fault | PT_error \<Rightarrow> PT_error | PT_ok a \<Rightarrow> f a)"

definition pt_check :: "bool \<Rightarrow> 'a pt \<Rightarrow> 'a pt" where
  "pt_check b x = (if b then x else PT_error)"

definition rd :: "bytes \<Rightarrow> nat \<Rightarrow> u_char pt" where
  "rd v p = (if p < length v then PT_ok (v ! p) else PT_fault)"

definition pt_digit :: "bytes \<Rightarrow> nat \<Rightarrow> nat pt" where
  "pt_digit v p = pt_bind (rd v p) (\<lambda>c. if c < c_0 \<or> c > c_9 then PT_error else PT_ok (unat c - 48))"

definition pt_two :: "bytes \<Rightarrow> nat \<Rightarrow> nat pt" where
  "pt_two v p = pt_bind (pt_digit v p) (\<lambda>a. pt_bind (pt_digit v (p + 1)) (\<lambda>b. PT_ok (a * 10 + b)))"

definition pt_four :: "bytes \<Rightarrow> nat \<Rightarrow> nat pt" where
  "pt_four v p =
    pt_bind (pt_digit v p) (\<lambda>a. pt_bind (pt_digit v (p + 1)) (\<lambda>b. pt_bind (pt_digit v (p + 2)) (\<lambda>c.
      pt_bind (pt_digit v (p + 3)) (\<lambda>d. PT_ok (a * 1000 + b * 100 + c * 10 + d)))))"

definition pt_is :: "bytes \<Rightarrow> nat \<Rightarrow> u_char \<Rightarrow> bool pt" where
  "pt_is v p c = pt_bind (rd v p) (\<lambda>d. PT_ok (d = c))"

definition pt_expect :: "bytes \<Rightarrow> nat \<Rightarrow> u_char \<Rightarrow> unit pt" where
  "pt_expect v p c = pt_bind (pt_is v p c) (\<lambda>b. pt_check b (PT_ok ()))"

datatype time_fmt = F_no | F_rfc822 | F_rfc850 | F_isoc

text \<open>The first two loops: the format as far as it is known, and the position after the day of the week.\<close>

definition pt_week :: "bytes \<Rightarrow> time_fmt \<times> nat" where
  "pt_week v =
    (let k = length (takeWhile (\<lambda>c. c \<noteq> c_comma \<and> c \<noteq> c_space) v);
         p = k + 1
     in (if k < length v \<and> v ! k = c_space then F_isoc else F_no,
         p + length (takeWhile (\<lambda>c. c = c_space) (drop p v))))"

definition pt_month :: "bytes \<Rightarrow> nat \<Rightarrow> nat pt" where
  "pt_month v p =
    pt_bind (rd v p) (\<lambda>c.
      if c = of_char CHR ''J'' then
        pt_bind (pt_is v (p + 1) (of_char CHR ''a'')) (\<lambda>a.
          if a then PT_ok 0 else pt_bind (pt_is v (p + 2) (of_char CHR ''n'')) (\<lambda>n. PT_ok (if n then 5 else 6)))
      else if c = of_char CHR ''F'' then PT_ok 1
      else if c = of_char CHR ''M'' then pt_bind (pt_is v (p + 2) (of_char CHR ''r'')) (\<lambda>r. PT_ok (if r then 2 else 4))
      else if c = of_char CHR ''A'' then pt_bind (pt_is v (p + 1) (of_char CHR ''p'')) (\<lambda>q. PT_ok (if q then 3 else 7))
      else if c = of_char CHR ''S'' then PT_ok 8
      else if c = of_char CHR ''O'' then PT_ok 9
      else if c = of_char CHR ''N'' then PT_ok 10
      else if c = of_char CHR ''D'' then PT_ok 11
      else PT_error)"

definition mday :: "nat list" where
  "mday = [31, 28, 31, 30, 31, 30, 31, 31, 30, 31, 30, 31]"

text \<open>The checks and the formula at the end; the result is a \<open>time_t\<close>.\<close>

definition time_value :: "nat \<Rightarrow> nat \<Rightarrow> nat \<Rightarrow> nat \<Rightarrow> nat \<Rightarrow> nat \<Rightarrow> int pt" where
  "time_value day month year hour minute sec =
    pt_check (\<not> (hour > 23 \<or> minute > 59 \<or> sec > 59))
      (pt_check
        (if day = 29 \<and> month = 1 then \<not> (year mod 4 \<noteq> 0 \<or> year mod 100 = 0 \<and> year mod 400 \<noteq> 0) else \<not> day > mday ! month)
        (let m = of_nat month - 1 :: ngx_int;
             (m, y) = (if sint m \<le> 0 then (m + 12, of_nat year - 1) else (m, of_nat year));
             time = (gauss_days y + int_div (367 * m) 12 - 30 + of_nat day - 1 - 719527 + 31 + 28) * 86400
                    + of_nat hour * 3600 + of_nat minute * 60 + of_nat sec
         in PT_ok (sint time)))"

text \<open>From the blank before the hour on; the year of an \<open>isoc\<close> date comes last.\<close>

definition pt_clock :: "bytes \<Rightarrow> nat \<Rightarrow> time_fmt \<Rightarrow> nat \<Rightarrow> nat \<Rightarrow> nat \<Rightarrow> int pt" where
  "pt_clock v p fmt day month year =
    pt_bind (pt_expect v p c_space) (\<lambda>_. pt_bind (pt_two v (p + 1)) (\<lambda>hour.
      pt_bind (pt_expect v (p + 3) c_colon) (\<lambda>_. pt_bind (pt_two v (p + 4)) (\<lambda>minute.
        pt_bind (pt_expect v (p + 6) c_colon) (\<lambda>_. pt_bind (pt_two v (p + 7)) (\<lambda>sec.
          if fmt = F_isoc then
            pt_bind (pt_expect v (p + 9) c_space) (\<lambda>_. pt_bind (pt_four v (p + 10)) (\<lambda>year.
              time_value day month year hour minute sec))
          else time_value day month year hour minute sec))))))"

text \<open>From the month on.\<close>

definition pt_date :: "bytes \<Rightarrow> nat \<Rightarrow> time_fmt \<Rightarrow> nat \<Rightarrow> int pt" where
  "pt_date v p fmt day =
    pt_bind (pt_month v p) (\<lambda>month.
      let p = p + 3 in
      if fmt = F_rfc822 then
        pt_bind (pt_expect v p c_space) (\<lambda>_. pt_bind (pt_four v (p + 1)) (\<lambda>year. pt_clock v (p + 5) fmt day month year))
      else if fmt = F_rfc850 then
        pt_bind (pt_expect v p c_minus) (\<lambda>_. pt_bind (pt_two v (p + 1)) (\<lambda>year.
          pt_clock v (p + 3) fmt day month (year + (if year < 70 then 2000 else 1900))))
      else
        pt_bind (pt_is v (p + 1) c_space) (\<lambda>b.
          let p = (if b then p + 2 else p + 1) in
          pt_bind (pt_digit v p) (\<lambda>d1. pt_bind (pt_is v (p + 1) c_space) (\<lambda>b.
            if b then pt_check (\<not> int (length v) - int (p + 1) < 14) (pt_clock v (p + 1) fmt d1 month 0)
            else pt_bind (pt_digit v (p + 1)) (\<lambda>d2.
              pt_check (\<not> int (length v) - int (p + 2) < 14) (pt_clock v (p + 2) fmt (d1 * 10 + d2) month 0))))))"

definition ngx_http_parse_time :: "bytes \<Rightarrow> int pt" where
  "ngx_http_parse_time v =
    (let (fmt, p) = pt_week v in
     pt_check (\<not> int (length v) - int p < 18)
       (if fmt = F_isoc then pt_date v p fmt 0
        else
          pt_bind (pt_two v p) (\<lambda>day.
            pt_bind (pt_is v (p + 2) c_space) (\<lambda>b.
              if b then pt_check (\<not> int (length v) - int (p + 2) < 18) (pt_date v (p + 3) F_rfc822 day)
              else
                pt_bind (pt_is v (p + 2) c_minus) (\<lambda>b.
                  pt_check b (pt_date v (p + 3) F_rfc850 day))))))"

end
