(* ===== verification/Calendar_Correct.thy ===== *)
theory Calendar_Correct
  imports Ngx_Time
begin

text \<open>
The Gregorian calendar as a reference: one day after the other from January 1, 1970 on, and the
  number of a day by Gauss' formula, which agrees with it and determines the date.
\<close>

section \<open>The Gregorian calendar\<close>

text \<open>A date is a year, a month and a day; the days are counted from January 1, 1970.\<close>

type_synonym date = "nat \<times> nat \<times> nat"

definition leap_year :: "nat \<Rightarrow> bool" where
  "leap_year y \<longleftrightarrow> y mod 4 = 0 \<and> (y mod 100 \<noteq> 0 \<or> y mod 400 = 0)"

definition month_days :: "nat \<Rightarrow> nat \<Rightarrow> nat" where
  "month_days y m = (if m = 2 then (if leap_year y then 29 else 28) else if m \<in> {4, 6, 9, 11} then 30 else 31)"

fun valid_date :: "date \<Rightarrow> bool" where
  "valid_date (y, m, d) \<longleftrightarrow> 1 \<le> y \<and> 1 \<le> m \<and> m \<le> 12 \<and> 1 \<le> d \<and> d \<le> month_days y m"

fun next_day :: "date \<Rightarrow> date" where
  "next_day (y, m, d) = (if d < month_days y m then (y, m, d + 1) else if m < 12 then (y, m + 1, 1) else (y + 1, 1, 1))"

definition date_of :: "nat \<Rightarrow> date" where
  "date_of n = (next_day ^^ n) (1970, 1, 1)"

section \<open>Gauss' formula\<close>

definition gauss :: "nat \<Rightarrow> nat" where
  "gauss y = 365 * y + y div 4 - y div 100 + y div 400"

definition gauss_month :: "nat \<Rightarrow> nat" where
  "gauss_month m = 367 * m div 12 - 30"

lemma gauss_int: "int (gauss y) = 365 * int y + int (y div 4) - int (y div 100) + int (y div 400)"
proof -
  have "y div 100 \<le> y div 4" by (rule div_le_mono2) simp_all
  then show ?thesis by (simp add: gauss_def)
qed

lemma leap_step:
  "int ((y + 1) div 4) = int (y div 4) + (if (y + 1) mod 4 = 0 then 1 else 0)"
  "int ((y + 1) div 100) = int (y div 100) + (if (y + 1) mod 100 = 0 then 1 else 0)"
  "int ((y + 1) div 400) = int (y div 400) + (if (y + 1) mod 400 = 0 then 1 else 0)"
  by (simp_all add: div_Suc)

lemma gauss_Suc: "gauss (y + 1) = gauss y + 365 + (if leap_year (y + 1) then 1 else 0)"
proof -
  have m: "(y + 1) mod 400 = 0 \<Longrightarrow> (y + 1) mod 100 = 0" "(y + 1) mod 100 = 0 \<Longrightarrow> (y + 1) mod 4 = 0" by presburger+
  have "int (gauss (y + 1)) = int (gauss y) + 365 + (if leap_year (y + 1) then 1 else 0)"
    unfolding gauss_int leap_step leap_year_def using m by simp
  then show ?thesis by (simp split: if_splits)
qed

lemma gauss_mono: "y < z \<Longrightarrow> gauss (y + 1) \<le> gauss z"
proof -
  have "gauss y \<le> gauss (Suc y)" for y using gauss_Suc [of y] by simp
  then have "mono gauss" by (simp add: mono_iff_le_Suc)
  then show "y < z \<Longrightarrow> gauss (y + 1) \<le> gauss z" by (simp add: monoD)
qed

lemma quotient: "0 < k \<Longrightarrow> k * (n div k) \<le> n" "0 < k \<Longrightarrow> n < k * (n div k + 1)" for k n :: nat
  by (simp, simp add: dividend_less_times_div)

lemma gauss_bounds: "146097 * int y - 699 \<le> 400 * int (gauss y)" "400 * int (gauss y) \<le> 146097 * int y + 396"
proof -
  have q: "int k * int (y div k) \<le> int y \<and> int y < int k * (int (y div k) + 1)" if "0 < k" for k
  proof -
    have "int (k * (y div k)) \<le> int y" "int y < int (k * (y div k + 1))" using quotient [OF that, of y] by (simp_all only: of_nat_le_iff of_nat_less_iff)
    then show ?thesis by (simp only: of_nat_mult of_nat_add of_nat_1)
  qed
  have "4 * int (y div 4) \<le> int y" "int y < 4 * (int (y div 4) + 1)" "100 * int (y div 100) \<le> int y" "int y < 100 * (int (y div 100) + 1)"
    "400 * int (y div 400) \<le> int y" "int y < 400 * (int (y div 400) + 1)"
    using q [of 4] q [of 100] q [of 400] by simp_all
  note b = this
  have "146097 * n - 699 \<le> 400 * (365 * n + i - j + k)" "400 * (365 * n + i - j + k) \<le> 146097 * n + 396"
    if "4 * i \<le> n" "n < 4 * (i + 1)" "100 * j \<le> n" "n < 100 * (j + 1)" "400 * k \<le> n" "n < 400 * (k + 1)" for n i j k :: int
    using that by simp_all
  from this [OF b] show "146097 * int y - 699 \<le> 400 * int (gauss y)" "400 * int (gauss y) \<le> 146097 * int y + 396"
    unfolding gauss_int .
qed

text \<open>The estimate of the year is right or one too large, and in the second case by two days at most.\<close>

lemma gauss_year:
  defines "y \<equiv> \<lambda>D. (D + 2) * 400 div 146097"
  shows "gauss (y D) \<le> D + 2" and "D < gauss (y D + 1)"
proof -
  have "146097 * int (y D) \<le> 400 * (int D + 2)" "400 * (int D + 2) < 146097 * (int (y D) + 1)"
  proof -
    have "146097 * y D \<le> (D + 2) * 400" "(D + 2) * 400 < 146097 * (y D + 1)"
      using quotient [of 146097 "(D + 2) * 400"] by (simp_all add: y_def)
    then have "int (146097 * y D) \<le> int ((D + 2) * 400)" "int ((D + 2) * 400) < int (146097 * (y D + 1))"
      by (simp_all only: of_nat_le_iff of_nat_less_iff)
    then show "146097 * int (y D) \<le> 400 * (int D + 2)" "400 * (int D + 2) < 146097 * (int (y D) + 1)" by simp_all
  qed
  note b = this
  show "gauss (y D) \<le> D + 2" using gauss_bounds(2) [of "y D"] b(1) by simp
  show "D < gauss (y D + 1)" using gauss_bounds(1) [of "y D + 1"] b(2) by simp
qed

text \<open>The month and the day in a year that starts with March.\<close>

lemma twelve: "1 \<le> m \<Longrightarrow> m \<le> 12 \<Longrightarrow> m \<in> {1, 2, 3, 4, 5, 6, 7, 8, 9, 10, 11, 12 :: nat}"
  unfolding insert_iff empty_iff by presburger

lemma gauss_month_values:
  "gauss_month 1 = 0" "gauss_month 2 = 31" "gauss_month 3 = 61" "gauss_month 4 = 92" "gauss_month 5 = 122" "gauss_month 6 = 153"
  "gauss_month 7 = 184" "gauss_month 8 = 214" "gauss_month 9 = 245" "gauss_month 10 = 275" "gauss_month 11 = 306" "gauss_month 12 = 337"
  "gauss_month (Suc 0) = 0" "gauss_month (Suc (Suc 0)) = 31"
  by (simp_all add: gauss_month_def)

lemma gauss_month_of:
  assumes "r \<le> 365"
  defines "m \<equiv> (r + 31) * 10 div 306"
  shows "1 \<le> m" "m \<le> 12" "gauss_month m \<le> r" "m < 12 \<Longrightarrow> r < gauss_month (m + 1)"
proof -
  have b: "306 * m \<le> (r + 31) * 10" "(r + 31) * 10 < 306 * (m + 1)" using quotient [of 306 "(r + 31) * 10"] unfolding m_def by simp_all
  show m: "1 \<le> m" "m \<le> 12" using b assms(1) by simp_all
  from twelve [OF m] b assms(1) show "gauss_month m \<le> r" "m < 12 \<Longrightarrow> r < gauss_month (m + 1)"
    by (auto simp: gauss_month_values)
qed

section \<open>Dates and day numbers\<close>

text \<open>The year and the month of a date in the calendar that starts with March.\<close>

definition march_year :: "nat \<Rightarrow> nat \<Rightarrow> nat" where
  "march_year y m = (if m \<le> 2 then y - 1 else y)"

definition march_month :: "nat \<Rightarrow> nat" where
  "march_month m = (if m \<le> 2 then m + 10 else m - 2)"

fun day_number :: "date \<Rightarrow> nat" where
  "day_number (y, m, d) = gauss (march_year y m) + gauss_month (march_month m) + d - 1"

lemma month_length:
  assumes "1 \<le> m" "m \<le> 12" "1 \<le> y"
  shows "m \<noteq> 2 \<Longrightarrow> gauss_month (march_month m) + month_days y m = gauss_month (march_month m + 1)"
    and "m = 2 \<Longrightarrow> gauss (march_year y m) + gauss_month 12 + month_days y m = gauss y"
proof -
  show "m \<noteq> 2 \<Longrightarrow> gauss_month (march_month m) + month_days y m = gauss_month (march_month m + 1)"
    using twelve [OF assms(1,2)] by (auto simp: march_month_def month_days_def gauss_month_values)
  show "m = 2 \<Longrightarrow> gauss (march_year y m) + gauss_month 12 + month_days y m = gauss y"
    using gauss_Suc [of "y - 1"] assms(3) by (simp add: march_year_def month_days_def gauss_month_values)
qed

lemma next_day_valid: "valid_date x \<Longrightarrow> valid_date (next_day x)"
  by (cases x) (auto simp: month_days_def)

lemma next_day_number:
  assumes "valid_date x"
  shows "day_number (next_day x) = day_number x + 1"
proof -
  obtain y m d where x: "x = (y, m, d)" by (cases x) auto
  have v: "1 \<le> y" "1 \<le> m" "m \<le> 12" "1 \<le> d" "d \<le> month_days y m" using assms by (auto simp: x)
  show ?thesis
  proof (cases "d < month_days y m")
    case True
    then show ?thesis using v by (simp add: x)
  next
    case False
    then have d: "d = month_days y m" using v by simp
    consider "m = 2" | "m = 12" | "m \<noteq> 2" "m < 12" using v by linarith
    then show ?thesis
    proof cases
      case 1
      then show ?thesis using month_length(2) [OF v(2,3,1)] d v by (simp add: x march_year_def march_month_def gauss_month_values)
    next
      case 2
      then show ?thesis using month_length(1) [OF v(2,3,1)] d v by (simp add: x march_year_def march_month_def gauss_month_values)
    next
      case 3
      have "march_month (m + 1) = march_month m + 1" "march_year y (m + 1) = march_year y m"
        using 3 v(2) by (auto simp: march_month_def march_year_def)
      then show ?thesis using month_length(1) [OF v(2,3,1) 3(1)] d v 3 by (simp add: x)
    qed
  qed
qed

lemma date_of_valid: "valid_date (date_of n)"
  by (induction n) (auto simp: date_of_def month_days_def intro: next_day_valid)

lemma date_of_number: "day_number (date_of n) = 719468 + n"
proof (induction n)
  case 0
  show ?case by (simp add: date_of_def march_year_def march_month_def gauss_month_values gauss_def)
next
  case (Suc n)
  have "date_of (Suc n) = next_day (date_of n)" by (simp add: date_of_def)
  then show ?case using next_day_number [OF date_of_valid [of n]] Suc by simp
qed

text \<open>A day number has one date: its year and month are those whose intervals it lies in.\<close>

lemma day_number_range:
  assumes "valid_date (y, m, d)"
  defines "r \<equiv> gauss_month (march_month m) + d - 1"
  shows "day_number (y, m, d) = gauss (march_year y m) + r" "day_number (y, m, d) < gauss (march_year y m + 1)"
    "march_month m < 12 \<Longrightarrow> r < gauss_month (march_month m + 1)"
proof -
  have v: "1 \<le> y" "1 \<le> m" "m \<le> 12" "1 \<le> d" "d \<le> month_days y m" using assms by auto
  show e: "day_number (y, m, d) = gauss (march_year y m) + r" using v by (simp add: r_def)
  show "march_month m < 12 \<Longrightarrow> r < gauss_month (march_month m + 1)"
    using month_length(1) [OF v(2,3,1)] v by (cases "m = 2") (auto simp: r_def march_month_def)
  show "day_number (y, m, d) < gauss (march_year y m + 1)"
  proof (cases "m = 2")
    case True
    have "march_year y m + 1 = y" using True v(1) by (simp add: march_year_def)
    then show ?thesis using month_length(2) [OF v(2,3,1) True] True v by (simp add: march_month_def)
  next
    case False
    have "gauss_month (march_month m) + month_days y m \<le> 365"
      using twelve [OF v(2,3)] False by (auto simp: march_month_def month_days_def gauss_month_values)
    then show ?thesis using gauss_Suc [of "march_year y m"] v e by (simp add: r_def)
  qed
qed

lemma gauss_month_mono: "m < k \<Longrightarrow> k \<le> 12 \<Longrightarrow> gauss_month (m + 1) \<le> gauss_month k"
proof -
  assume "m < k" "k \<le> 12"
  have "367 * (m + 1) div 12 \<le> 367 * k div 12" using \<open>m < k\<close> by (intro div_le_mono) simp
  then show ?thesis by (simp add: gauss_month_def)
qed

lemma day_number_inj:
  assumes "valid_date (y, m, d)" "valid_date (y', m', d')" "day_number (y, m, d) = day_number (y', m', d')"
  shows "(y, m, d) = (y', m', d')"
proof -
  note r = day_number_range [OF assms(1)] and r' = day_number_range [OF assms(2)]
  have v: "1 \<le> m" "m \<le> 12" "1 \<le> y" "1 \<le> d" "1 \<le> m'" "m' \<le> 12" "1 \<le> y'" "1 \<le> d'" using assms(1,2) by auto
  have my: "march_year y m = march_year y' m'"
  proof (rule ccontr)
    assume "march_year y m \<noteq> march_year y' m'"
    then consider "march_year y m < march_year y' m'" | "march_year y' m' < march_year y m" by linarith
    then show False
      by cases (use gauss_mono [of "march_year y m" "march_year y' m'"] gauss_mono [of "march_year y' m'" "march_year y m"] r r' assms(3) in linarith)+
  qed
  have bnd: "1 \<le> march_month m" "march_month m \<le> 12" "1 \<le> march_month m'" "march_month m' \<le> 12"
    using v by (auto simp: march_month_def)
  have eq: "gauss_month (march_month m) + d = gauss_month (march_month m') + d'" using r(1) r'(1) my assms(3) v by simp
  have mm: "march_month m = march_month m'"
  proof (rule ccontr)
    assume "march_month m \<noteq> march_month m'"
    then consider "march_month m < march_month m'" | "march_month m' < march_month m" by linarith
    then show False
    proof cases
      case 1
      then show False using gauss_month_mono [OF 1 bnd(4)] r(3) bnd(4) eq v by linarith
    next
      case 2
      then show False using gauss_month_mono [OF 2 bnd(2)] r'(3) bnd(2) eq v by linarith
    qed
  qed
  have "m = m'" using mm v by (auto simp: march_month_def split: if_splits)
  moreover have "y = y'" using my v calculation by (auto simp: march_year_def split: if_splits)
  moreover have "d = d'" using eq mm by simp
  ultimately show ?thesis by simp
qed

end
