(* ===== verification/Gmtime_Correct.thy ===== *)
theory Gmtime_Correct
  imports Calendar_Correct
begin

text \<open>
\<open>ngx_gmtime\<close> on words computes the date of the calendar; the texts the format strings of dates give.
\<close>

section \<open>The code on machine words\<close>

lemma of_nat_div_word: "n < 2 ^ 64 \<Longrightarrow> k < 2 ^ 64 \<Longrightarrow> (of_nat n :: 64 word) div of_nat k = of_nat (n div k)"
  by (simp add: word_unat_eq_iff unat_div unat_of_nat take_bit_nat_eq_self less_le_trans [OF le_less_trans [OF div_le_dividend]])

lemma of_nat_mod_word: "n < 2 ^ 64 \<Longrightarrow> k < 2 ^ 64 \<Longrightarrow> (of_nat n :: 64 word) mod of_nat k = of_nat (n mod k)"
  by (simp add: word_unat_eq_iff unat_mod_distrib unat_of_nat take_bit_nat_eq_self le_less_trans [OF mod_less_eq_dividend])

lemma of_nat_0_word: "n < 2 ^ 64 \<Longrightarrow> (of_nat n :: 64 word) = 0 \<longleftrightarrow> n = 0"
  by (simp add: word_unat_eq_iff unat_of_nat take_bit_nat_eq_self)

lemma div_numeral_word: "n < 2 ^ 64 \<Longrightarrow> numeral k < (2 ^ 64 :: nat) \<Longrightarrow> (of_nat n :: 64 word) div numeral k = of_nat (n div numeral k)"
  using of_nat_div_word [of n "numeral k"] by simp

lemma mod_numeral_word: "n < 2 ^ 64 \<Longrightarrow> numeral k < (2 ^ 64 :: nat) \<Longrightarrow> (of_nat n :: 64 word) mod numeral k = of_nat (n mod numeral k)"
  using of_nat_mod_word [of n "numeral k"] by simp

lemma gauss_days_word: "y < 2 ^ 50 \<Longrightarrow> gauss_days (of_nat y) = of_nat (gauss y)"
proof -
  assume y: "y < 2 ^ 50"
  have "y div 100 \<le> 365 * y + y div 4" by (rule order_trans [OF div_le_dividend]) simp
  then show ?thesis using y by (simp add: gauss_days_def gauss_def div_numeral_word of_nat_diff)
qed

lemma int_div_word: "n < 2 ^ 62 \<Longrightarrow> int_div (of_nat n) (numeral k) = of_nat (n div numeral k)" if "numeral k < (2 ^ 62 :: nat)"
proof -
  assume n: "n < 2 ^ 62"
  have "sint (of_nat n :: ngx_int) = int n" using n by (intro sint_of_nat) simp
  moreover have "sint (numeral k :: ngx_int) = int (numeral k)"
  proof -
    have "numeral k < (2 ^ 63 :: nat)" using that by (rule less_trans) simp
    from sint_of_nat [OF this] show ?thesis unfolding of_nat_numeral .
  qed
  moreover have "int n sdiv int (numeral k) = int (n div numeral k)" by (cases "n = 0") (simp_all add: signed_divide_int_def zdiv_int)
  ultimately show ?thesis unfolding int_div_def by (simp only: of_int_of_nat_eq)
qed

lemma sint_diff_word:
  assumes "a < 2 ^ 62" "b < 2 ^ 62"
  shows "sint (of_nat a - of_nat b :: ngx_int) = int a - int b"
proof -
  have "a < 2 ^ 63" "b < 2 ^ 63" using assms by simp_all
  note s = this [THEN sint_of_nat]
  have "- (2 ^ 63) \<le> int a - int b" "int a - int b < 2 ^ 63" using assms by simp_all
  then show ?thesis using sint_sub_eq [of "of_nat a" "of_nat b"] unfolding s by blast
qed

lemma leap_word: "y < 2 ^ 62 \<Longrightarrow> (of_nat y mod 4 = (0 :: 64 word) \<and> (of_nat y mod 100 \<noteq> (0 :: 64 word) \<or> of_nat y mod 400 = (0 :: 64 word))) \<longleftrightarrow> leap_year y"
  by (simp add: mod_numeral_word of_nat_0_word leap_year_def le_less_trans [OF mod_less_eq_dividend])

text \<open>The year that starts with March, and the day in it.\<close>

lemma gmtime_year:
  assumes "306 \<le> D" "D < 2 ^ 50"
  defines "y0 \<equiv> (D + 2) * 400 div 146097"
  shows "\<exists>y r. D = gauss y + r \<and> D < gauss (y + 1) \<and>
     gmtime_adjust (of_nat D - gauss_days (of_nat y0)) (of_nat y0) = (of_nat r, of_nat y)"
proof -
  have y0: "y0 < 2 ^ 50"
  proof -
    have "y0 \<le> (D + 2) * 400 div 400" unfolding y0_def by (rule div_le_mono2) simp_all
    moreover have "y0 \<le> D"
    proof -
      have "146097 * y0 \<le> (D + 2) * 400" using quotient(1) [of 146097 "(D + 2) * 400"] by (simp add: y0_def)
      then show ?thesis using assms(1) by simp
    qed
    ultimately show ?thesis using assms(2) by simp
  qed
  note g = gauss_year [of D, folded y0_def]
  have gb: "gauss y0 < 2 ^ 62" using g(1) assms(2) by simp
  have yday: "sint (of_nat D - of_nat (gauss y0) :: ngx_int) = int D - int (gauss y0)"
    using assms(2) gb by (intro sint_diff_word) simp_all
  show ?thesis
  proof (cases "D < gauss y0")
    case False
    then have "gmtime_adjust (of_nat D - gauss_days (of_nat y0)) (of_nat y0) = (of_nat (D - gauss y0), of_nat y0)"
      using yday by (simp add: gmtime_adjust_def gauss_days_word [OF y0] of_nat_diff)
    moreover have "D = gauss y0 + (D - gauss y0)" using False by simp
    ultimately show ?thesis using g(2) by blast
  next
    case True
    have "y0 \<noteq> 0" using True by (intro notI) (simp add: gauss_def)
    then obtain y where y: "y0 = y + 1" by (metis Suc_eq_plus1 not0_implies_Suc)
    let ?l = "if leap_year (y + 1) then 1 else 0 :: nat"
    have Y: "gauss y0 = gauss y + 365 + ?l" using gauss_Suc [of y] by (simp add: y)
    have r: "D = gauss y + (D - gauss y)" using g(1) Y by simp
    have l: "(if (of_nat y0 :: 64 word) mod 4 = 0 \<and> ((of_nat y0 :: 64 word) mod 100 \<noteq> 0 \<or> (of_nat y0 :: 64 word) mod 400 = 0) then 1 else 0) = (of_nat ?l :: 64 word)"
      using leap_word [of y0] y0 unfolding y by simp
    have neg: "sint (of_nat D - of_nat (gauss y0) :: ngx_int) < 0" using yday True by simp
    have "365 + of_nat ?l + (of_nat D - of_nat (gauss y0)) = (of_nat (D - gauss y) :: 64 word)"
      using r unfolding Y by (simp add: of_nat_diff del: of_nat_eq_iff)
    moreover have "of_nat y0 - 1 = (of_nat y :: 64 word)" by (simp add: y)
    ultimately have "gmtime_adjust (of_nat D - gauss_days (of_nat y0)) (of_nat y0) = (of_nat (D - gauss y), of_nat y)"
      unfolding gmtime_adjust_def gauss_days_word [OF y0] l Let_def using neg by (simp only: if_True)
    then show ?thesis using r True unfolding y by blast
  qed
qed

lemma gmtime_date_valid:
  assumes "306 \<le> D" "D < 2 ^ 50"
  obtains y m d where "gmtime_date (of_nat D) = (of_nat d, of_nat m, of_nat y)" "valid_date (y, m, d)" "day_number (y, m, d) = D"
proof -
  let ?y0 = "(D + 2) * 400 div 146097"
  have est: "(of_nat D + 2) * 400 div (365 * 400 + 100 - 4 + 1) = (of_nat ?y0 :: 64 word)"
  proof -
    have "(D + 2) * 400 < 2 ^ 64" using assms(2) by simp
    from of_nat_div_word [OF this, of 146097] show ?thesis by (simp add: add.commute)
  qed
  obtain y r where yr: "D = gauss y + r" "D < gauss (y + 1)"
     "gmtime_adjust (of_nat D - gauss_days (of_nat ?y0)) (of_nat ?y0) = (of_nat r, of_nat y)"
    using gmtime_year [OF assms] by blast
  have r: "r \<le> 365" using yr(1,2) gauss_Suc [of y] by (simp split: if_splits)
  define m where "m = (r + 31) * 10 div 306"
  note mo = gauss_month_of [OF r, folded m_def]
  have mon: "int_div ((of_nat r + 31) * 10) 306 = (of_nat m :: ngx_int)"
  proof -
    have "(r + 31) * 10 < 2 ^ 62" using r by simp
    from int_div_word [OF _ this, of "num.Bit0 (num.Bit1 (num.Bit0 (num.Bit0 (num.Bit1 (num.Bit1 (num.Bit0 (num.Bit0 num.One)))))))"]
    show ?thesis by (simp add: m_def)
  qed
  have md: "of_nat r - (367 * of_nat m div 12 - 30) + 1 = (of_nat (r - gauss_month m + 1) :: 64 word)"
  proof -
    have "30 \<le> 367 * m div 12" using mo(1) div_le_mono [of 367 "367 * m" 12] by simp
    moreover have "367 * of_nat m div 12 = (of_nat (367 * m div 12) :: 64 word)" using div_numeral_word [of "367 * m"] mo(2) by simp
    ultimately have "367 * of_nat m div 12 - 30 = (of_nat (gauss_month m) :: 64 word)" by (simp add: gauss_month_def of_nat_diff)
    then show ?thesis using mo(3) by (simp add: of_nat_diff)
  qed
  have s: "306 \<le> sint (of_nat r :: ngx_int) \<longleftrightarrow> 306 \<le> r" using sint_of_nat [of r] r by simp
  have date: "gmtime_date (of_nat D) =
      (if 306 \<le> r then (of_nat (r - gauss_month m + 1), of_nat m - 10, of_nat y + 1) else (of_nat (r - gauss_month m + 1), of_nat m + 2, of_nat y))"
    unfolding gmtime_date_def Let_def est yr(3) prod.case mon md s by simp
  have big: "306 \<le> r \<longleftrightarrow> 11 \<le> m"
  proof
    show "306 \<le> r \<Longrightarrow> 11 \<le> m" using mo(4) gauss_month_mono [of m 11] gauss_month_values(11) by (cases "m < 11") auto
    show "11 \<le> m \<Longrightarrow> 306 \<le> r" using mo(2,3) gauss_month_mono [of 10 m] gauss_month_values(11) by auto
  qed
  define y' where "y' = (if 306 \<le> r then y + 1 else y)"
  define m' where "m' = (if 306 \<le> r then m - 10 else m + 2)"
  define d where "d = r - gauss_month m + 1"
  have "gmtime_date (of_nat D) = (of_nat d, of_nat m', of_nat y')"
    unfolding date using big by (simp add: d_def m'_def y'_def of_nat_diff)
  moreover have march: "march_year y' m' = y" "march_month m' = m" "1 \<le> m'" "m' \<le> 12"
    using big mo(1,2) by (auto simp: march_year_def march_month_def y'_def m'_def)
  moreover have y1: "1 \<le> y'"
  proof (rule ccontr)
    assume "\<not> 1 \<le> y'"
    then have "y = 0" "r < 306" by (auto simp: y'_def split: if_splits)
    then show False using yr(1) assms(1) by (simp add: gauss_def)
  qed
  moreover have "d \<le> month_days y' m'"
  proof (cases "m' = 2")
    case False
    have "m < 12" using False march(2,4) mo(2) by (auto simp: march_month_def split: if_splits)
    then show ?thesis using month_length(1) [OF march(3,4) y1 False] mo(3,4) march(2) by (simp add: d_def)
  next
    case True
    have "m = 12" "y' = y + 1" using True march y1 by (auto simp: march_month_def march_year_def)
    then show ?thesis using month_length(2) [OF march(3,4) y1 True] march(1) yr(1,2) mo(3) by (simp add: d_def)
  qed
  moreover have "day_number (y', m', d) = D" using march(1,2) mo(3) yr(1) by (simp add: d_def)
  ultimately show ?thesis by (intro that [of d m' y']) (simp_all add: d_def)
qed

section \<open>ngx_gmtime\<close>

lemma gauss_ge: "365 * y \<le> gauss y"
proof (induction y)
  case (Suc y)
  then show ?case using gauss_Suc [of y] by simp
qed simp

lemma valid_date_year: "valid_date (y, m, d) \<Longrightarrow> 365 * y \<le> day_number (y, m, d) + 365"
  using gauss_ge [of "march_year y m"] by (auto simp: march_year_def split: if_splits)

lemma unat_mod_numeral: "unat ((w :: 64 word) mod numeral k) = unat w mod unat (numeral k :: 64 word)"
  by (simp add: unat_mod_distrib)

lemma ucast_of_nat: "(ucast (of_nat n :: 64 word) :: 32 word) = of_nat n"
  by transfer (simp add: take_bit_take_bit)

lemma split_seconds: "n mod 86400 div 3600 * 3600 + n mod 86400 mod 3600 div 60 * 60 + n mod 86400 mod 3600 mod 60 = n mod 86400" for n :: nat
  by (metis (no_types, lifting) add.assoc div_mult_mod_eq)

lemma gmtime_spec:
  assumes "unat t < 2 ^ 55"
  obtains y m d where "ngx_gmtime t =
      \<lparr>tm_sec = of_nat (unat t mod 86400 mod 3600 mod 60), tm_min = of_nat (unat t mod 86400 mod 3600 div 60),
       tm_hour = of_nat (unat t mod 86400 div 3600), tm_mday = of_nat d, tm_mon = of_nat m, tm_year = of_nat y,
       tm_wday = of_nat ((4 + unat t div 86400) mod 7)\<rparr>"
    "(y, m, d) = date_of (unat t div 86400)" "valid_date (y, m, d)" "day_number (y, m, d) = 719468 + unat t div 86400" "y < 2 ^ 31"
proof -
  define n where "n = unat t"
  have t: "t = of_nat n" by (simp add: n_def)
  have n: "n < 2 ^ 55" using assms by (simp add: n_def)
  define D where "D = 719468 + n div 86400"
  have days: "n div 86400 < 2 ^ 39"
  proof -
    have "86400 * (n div 86400) \<le> n" by (rule quotient(1)) simp
    then show ?thesis using n by simp
  qed
  have D: "306 \<le> D" "D < 2 ^ 50" using days by (simp_all add: D_def)
  obtain y m d where g: "gmtime_date (of_nat D) = (of_nat d, of_nat m, of_nat y)" "valid_date (y, m, d)" "day_number (y, m, d) = D"
    using gmtime_date_valid [OF D] .
  have w: "(of_nat n :: 64 word) div 86400 = of_nat (n div 86400)" "(of_nat n :: 64 word) mod 86400 = of_nat (n mod 86400)"
    using n by (simp_all add: div_numeral_word mod_numeral_word)
  have s: "n mod 86400 < 86400" "n mod 86400 mod 3600 < 3600" by simp_all
  have w2: "(of_nat (n mod 86400) :: 64 word) div 3600 = of_nat (n mod 86400 div 3600)"
    "(of_nat (n mod 86400) :: 64 word) mod 3600 = of_nat (n mod 86400 mod 3600)"
    using s by (simp_all add: div_numeral_word mod_numeral_word)
  have w3: "(of_nat (n mod 86400 mod 3600) :: 64 word) div 60 = of_nat (n mod 86400 mod 3600 div 60)"
    "(of_nat (n mod 86400 mod 3600) :: 64 word) mod 60 = of_nat (n mod 86400 mod 3600 mod 60)"
    using s by (simp_all add: div_numeral_word mod_numeral_word)
  have wd: "(4 + of_nat (n div 86400) :: 64 word) mod 7 = of_nat ((4 + n div 86400) mod 7)"
    using mod_numeral_word [of "4 + n div 86400"] days by simp
  have dd: "of_nat (n div 86400) - (31 + 28) + 719527 = (of_nat D :: 64 word)" by (simp add: D_def)
  have "ngx_gmtime t =
      \<lparr>tm_sec = of_nat (n mod 86400 mod 3600 mod 60), tm_min = of_nat (n mod 86400 mod 3600 div 60),
       tm_hour = of_nat (n mod 86400 div 3600), tm_mday = of_nat d, tm_mon = of_nat m, tm_year = of_nat y,
       tm_wday = of_nat ((4 + n div 86400) mod 7)\<rparr>"
    unfolding ngx_gmtime_def t Let_def w w2 w3 wd dd g(1) prod.case ucast_of_nat ..
  moreover have "(y, m, d) = date_of (n div 86400)"
  proof -
    obtain y' m' d' where e: "date_of (n div 86400) = (y', m', d')" by (cases "date_of (n div 86400)") auto
    have "valid_date (y', m', d')" "day_number (y', m', d') = D" using date_of_valid date_of_number unfolding e [symmetric] D_def by auto
    then show ?thesis using day_number_inj g(2,3) unfolding e by auto
  qed
  moreover have "y < 2 ^ 31" using valid_date_year [OF g(2)] days unfolding g(3) D_def by simp
  ultimately show ?thesis using that g(2,3) unfolding n_def D_def by blast
qed

section \<open>Printed dates\<close>

definition two_digits :: "nat \<Rightarrow> bytes" where
  "two_digits n = [of_nat (n div 10) + c_0, of_nat (n mod 10) + c_0]"

definition four_digits :: "nat \<Rightarrow> bytes" where
  "four_digits n = two_digits (n div 100) @ two_digits (n mod 100)"

lemma dec_digits_small:
  "n < 10 \<Longrightarrow> dec_digits n acc = (of_nat n + c_0) # acc"
  "10 \<le> n \<Longrightarrow> n < 100 \<Longrightarrow> dec_digits n acc = two_digits n @ acc"
  "1000 \<le> n \<Longrightarrow> n < 10000 \<Longrightarrow> dec_digits n acc = four_digits n @ acc"
proof -
  show one: "dec_digits n acc = (of_nat n + c_0) # acc" if "n < 10" for n acc using that by (simp add: dec_digits.simps [of n])
  show two: "dec_digits n acc = two_digits n @ acc" if "10 \<le> n" "n < 100" for n acc
    using that one [of "n div 10"] by (subst dec_digits.simps) (simp add: two_digits_def Let_def)
  have split: "dec_digits n acc = dec_digits (n div 100) (two_digits (n mod 100) @ acc)" if "1000 \<le> n" for n acc
  proof -
    have q: "n div 10 \<noteq> 0" "n div 10 div 10 \<noteq> 0" "n div 10 div 10 = n div 100" "n mod 100 div 10 = n div 10 mod 10" "n mod 100 mod 10 = n mod 10"
      using that by (simp_all add: div_mult2_eq [symmetric] mod_mod_cancel) (simp add: mod_mult2_eq [of n 10 10, simplified])
    show ?thesis using q by (subst dec_digits.simps, subst dec_digits.simps) (simp add: two_digits_def Let_def)
  qed
  show "dec_digits n acc = four_digits n @ acc" if "1000 \<le> n" "n < 10000" for n acc
  proof -
    have "10 \<le> n div 100" "n div 100 < 100" using that by auto
    then show ?thesis using split [OF that(1)] two by (simp add: four_digits_def)
  qed
qed

lemma print_plain: "c \<noteq> c_percent \<Longrightarrow> ngx_vslprintf None (c # fmt) args = map_option (Cons c) (ngx_vslprintf None fmt args)"
  by (simp add: ngx_vslprintf.simps(2) room_left_def)

lemma cstr_all: "c_NUL \<notin> set s \<Longrightarrow> sp_cstr None (s @ [c_NUL]) = Some s"
  by (induction s) (auto simp: room_left_def)

lemma print_s:
  "c_NUL \<notin> set s \<Longrightarrow> ngx_vslprintf None (c_percent # of_char CHR ''s'' # fmt) (A_cstr s # args) = map_option ((@) s) (ngx_vslprintf None fmt args)"
  by (simp add: ngx_vslprintf.simps(2) is_digit_def word_le_nat_alt sp_conv_def cstr_all sp_print_def room_left_def)

lemma sint_of_nat_32: "n < 2 ^ 31 \<Longrightarrow> sint (of_nat n :: 32 word) = int n"
  by (simp add: signed_of_nat signed_take_bit_int_eq_self)

lemma int_arg: "n < 2 ^ 31 \<Longrightarrow> (scast (of_nat n :: 32 word) :: 64 word) = of_nat n"
  by (simp add: scast_eq sint_of_nat_32)

lemma print_02d:
  assumes "n < 100"
  shows "ngx_vslprintf None (c_percent # c_0 # of_char CHR ''2'' # of_char CHR ''d'' # fmt) (A_int (of_nat n) # args) =
    map_option ((@) (two_digits n)) (ngx_vslprintf None fmt args)"
proof -
  have u: "unat (of_nat n :: 64 word) = n" "sint (of_nat n :: 64 word) = int n" using assms by (simp_all add: unat_of_nat take_bit_nat_eq_self sint_of_nat)
  have "ngx_sprintf_num None (of_nat n) c_0 0 2 = two_digits n"
    using assms dec_digits_small(1,2) [of n "[]"] u by (cases "n < 10") (auto simp: ngx_sprintf_num_def clip_def room_left_def two_digits_def Let_def)
  then show ?thesis
    using assms u by (simp add: ngx_vslprintf.simps(2) is_digit_def word_le_nat_alt sp_conv_def sp_int32_def int_arg sp_print_def room_left_def)
qed

lemma print_4d:
  assumes "1000 \<le> n" "n < 10000"
  shows "ngx_vslprintf None (c_percent # of_char CHR ''4'' # of_char CHR ''d'' # fmt) (A_int (of_nat n) # args) =
    map_option ((@) (four_digits n)) (ngx_vslprintf None fmt args)"
proof -
  have u: "unat (of_nat n :: 64 word) = n" "sint (of_nat n :: 64 word) = int n" using assms by (simp_all add: unat_of_nat take_bit_nat_eq_self sint_of_nat)
  have "ngx_sprintf_num None (of_nat n) c_space 0 4 = four_digits n"
    using dec_digits_small(3) [OF assms, of "[]"] u by (simp add: ngx_sprintf_num_def clip_def room_left_def four_digits_def two_digits_def)
  then show ?thesis
    using assms u by (simp add: ngx_vslprintf.simps(2) is_digit_def word_le_nat_alt sp_conv_def sp_int32_def int_arg sp_print_def room_left_def)
qed

end
