(* ===== verification/Http_Time_Correct.thy ===== *)
theory Http_Time_Correct
  imports Gmtime_Correct
begin

text \<open>
HTTP dates: what \<open>ngx_http_time\<close> and \<open>ngx_http_cookie_time\<close> print, \<open>ngx_http_parse_time\<close> reads back.
\<close>

section \<open>Reading a date back\<close>

lemma digit_word: "k < 10 \<Longrightarrow> \<not> (of_nat k + c_0 < c_0 \<or> c_9 < of_nat k + c_0) \<and> unat (of_nat k + c_0) - 48 = k"
proof -
  assume k: "k < 10"
  then have "unat (of_nat k + c_0 :: u_char) = k + 48" by (simp add: unat_word_ariths unat_of_nat take_bit_eq_mod)
  then show ?thesis using k by (simp add: word_less_nat_alt)
qed

lemma pt_digit_at: "p < length v \<Longrightarrow> v ! p = of_nat k + c_0 \<Longrightarrow> k < 10 \<Longrightarrow> pt_digit v p = PT_ok k"
  using digit_word [of k] by (simp add: pt_digit_def rd_def pt_bind_def)

lemma pt_two_at: "p + 1 < length v \<Longrightarrow> [v ! p, v ! (p + 1)] = two_digits n \<Longrightarrow> n < 100 \<Longrightarrow> pt_two v p = PT_ok n"
  using pt_digit_at [of p v "n div 10"] pt_digit_at [of "p + 1" v "n mod 10"] by (simp add: pt_two_def pt_bind_def two_digits_def)

lemma pt_four_at:
  assumes "p + 3 < length v" "[v ! p, v ! (p + 1), v ! (p + 2), v ! (p + 3)] = four_digits n" "n < 10000"
  shows "pt_four v p = PT_ok n"
proof -
  have b: "n div 100 < 100" "n mod 100 < 100" using assms(3) by auto
  have d: "pt_digit v p = PT_ok (n div 100 div 10)" "pt_digit v (p + 1) = PT_ok (n div 100 mod 10)"
    "pt_digit v (p + 2) = PT_ok (n mod 100 div 10)" "pt_digit v (p + 3) = PT_ok (n mod 100 mod 10)"
    using assms(1,2) b by (auto simp: four_digits_def two_digits_def intro!: pt_digit_at)
  have "n div 100 div 10 * 1000 + n div 100 mod 10 * 100 = n div 100 * 100" "n mod 100 div 10 * 10 + n mod 100 mod 10 = n mod 100"
  proof -
    have "a * 10 + b = c \<Longrightarrow> a * 1000 + b * 100 = c * 100" for a b c :: nat by simp
    from this [OF div_mult_mod_eq] show "n div 100 div 10 * 1000 + n div 100 mod 10 * 100 = n div 100 * 100" .
  qed (rule div_mult_mod_eq)
  then show ?thesis using d div_mult_mod_eq [of n 100] by (simp add: pt_four_def pt_bind_def)
qed

lemma pt_expect_at: "p < length v \<Longrightarrow> v ! p = c \<Longrightarrow> pt_expect v p c = PT_ok ()"
  by (simp add: pt_expect_def pt_is_def rd_def pt_bind_def pt_check_def)

lemma pt_is_at: "p < length v \<Longrightarrow> pt_is v p c = PT_ok (v ! p = c)"
  by (simp add: pt_is_def rd_def pt_bind_def)

lemma pt_bind_ok [simp]: "pt_bind (PT_ok a) f = f a"
  by (simp add: pt_bind_def)

lemma pt_month_at: "p + 2 < length v \<Longrightarrow> k < 12 \<Longrightarrow> [v ! p, v ! (p + 1), v ! (p + 2)] = months ! k \<Longrightarrow> pt_month v p = PT_ok k"
proof -
  assume p: "p + 2 < length v" and k: "k < 12" and v: "[v ! p, v ! (p + 1), v ! (p + 2)] = months ! k"
  have r: "rd v p = PT_ok (v ! p)" "pt_is v (Suc p) c = PT_ok (v ! Suc p = c)" "pt_is v (Suc (Suc p)) c = PT_ok (v ! Suc (Suc p) = c)"
    "pt_is v (p + 2) c = PT_ok (v ! Suc (Suc p) = c)" for c
    using p by (simp_all add: rd_def pt_is_at)
  have "k \<in> {0, 1, 2, 3, 4, 5, 6, 7, 8, 9, 10, 11}" using k unfolding insert_iff empty_iff by presburger
  then show ?thesis using v by (elim insertE emptyE) (simp_all add: pt_month_def r months_def)
qed

text \<open>The time of a date by the reference.\<close>

definition civil_time :: "date \<Rightarrow> nat \<Rightarrow> nat \<Rightarrow> nat \<Rightarrow> int" where
  "civil_time x h mi s = (int (day_number x) - 719468) * 86400 + int h * 3600 + int mi * 60 + int s"

lemma gauss_month_int: "1 \<le> m \<Longrightarrow> int_div (367 * of_nat m) 12 - 30 = of_nat (gauss_month m)" if "m < 13"
proof -
  assume m: "1 \<le> m"
  have "int_div (367 * of_nat m) 12 = (of_nat (367 * m div 12) :: ngx_int)"
    using int_div_word [of "num.Bit0 (num.Bit0 (num.Bit1 num.One))" "367 * m"] that by simp
  moreover have "30 \<le> 367 * m div 12" using m div_le_mono [of 367 "367 * m" 12] by simp
  ultimately show ?thesis by (simp add: gauss_month_def of_nat_diff)
qed

lemma mday_bound: "valid_date (y, m, d) \<Longrightarrow> \<not> (d = 29 \<and> m = 2) \<Longrightarrow> d \<le> mday ! (m - 1)"
  using twelve [of m] by (auto simp: month_days_def mday_def split: if_splits)

lemma time_value_date:
  assumes "valid_date (y, m, d)" "y < 2 ^ 20" "h < 24" "mi < 60" "s < 60"
  shows "time_value d (m - 1) y h mi s = PT_ok (civil_time (y, m, d) h mi s)"
proof -
  have v: "1 \<le> y" "1 \<le> m" "m \<le> 12" "1 \<le> d" "d \<le> month_days y m" using assms(1) by auto
  have c: "(if d = 29 \<and> m - 1 = 1 then \<not> (y mod 4 \<noteq> 0 \<or> y mod 100 = 0 \<and> y mod 400 \<noteq> 0) else \<not> d > mday ! (m - 1))"
    using mday_bound [OF assms(1)] v by (auto simp: month_days_def leap_year_def split: if_splits)
  have si: "sint (of_nat (m - 1) - 1 :: ngx_int) = int (m - 1) - 1" using sint_diff_word [of "m - 1" 1] v by simp
  have my: "(if sint (of_nat (m - 1) - 1 :: ngx_int) \<le> 0 then (of_nat (m - 1) - 1 + 12, of_nat y - 1) else (of_nat (m - 1) - 1, of_nat y)) =
      (of_nat (march_month m) :: ngx_int, of_nat (march_year y m) :: 64 word)"
    unfolding si using v by (auto simp: march_month_def march_year_def of_nat_diff)
  define g where "g = day_number (y, m, d)"
  have mm: "1 \<le> march_month m" "march_month m < 13" using v by (auto simp: march_month_def)
  have yb: "march_year y m < 2 ^ 20" using assms(2) by (auto simp: march_year_def)
  have gl: "gauss (march_year y m) \<le> 366 * march_year y m"
    using gauss_bounds(2) [of "march_year y m"] by (cases "march_year y m = 0") (simp_all add: gauss_def)
  have mb: "gauss_month (march_month m) \<le> 337" using twelve [of "march_month m"] mm by (auto simp: gauss_month_values)
  have "d \<le> 31" using v(5) by (simp add: month_days_def split: if_splits)
  then have g: "int g < 2 ^ 30" using gl mb yb by (simp add: g_def)
  have "gauss_days (of_nat (march_year y m)) + int_div (367 * of_nat (march_month m)) 12 - 30 + of_nat d - 1 = (of_nat g :: 64 word)"
  proof -
    have "gauss_days (of_nat (march_year y m)) + int_div (367 * of_nat (march_month m)) 12 - 30 + of_nat d - 1 =
        of_nat (gauss (march_year y m)) + (int_div (367 * of_nat (march_month m)) 12 - 30) + of_nat d - (1 :: 64 word)"
      using yb by (simp add: gauss_days_word)
    also have "\<dots> = of_nat g" unfolding gauss_month_int [OF mm(2,1)] g_def using v by (simp add: of_nat_diff)
    finally show ?thesis .
  qed
  then have t: "(gauss_days (of_nat (march_year y m)) + int_div (367 * of_nat (march_month m)) 12 - 30 + of_nat d - 1 - 719527 + 31 + 28) * 86400
       + of_nat h * 3600 + of_nat mi * 60 + of_nat s = (word_of_int (civil_time (y, m, d) h mi s) :: 64 word)"
    by (simp add: civil_time_def g_def [symmetric] del: day_number.simps)
  have "sint (word_of_int (civil_time (y, m, d) h mi s) :: 64 word) = civil_time (y, m, d) h mi s"
  proof -
    have "- (2 ^ 63) \<le> civil_time (y, m, d) h mi s" "civil_time (y, m, d) h mi s < 2 ^ 63"
      using g assms(3-5) unfolding civil_time_def g_def [symmetric] by simp_all
    then show ?thesis by (simp add: signed_of_int signed_take_bit_int_eq_self)
  qed
  then show ?thesis
    unfolding time_value_def Let_def my prod.case t using c assms(3-5) by (simp add: pt_check_def)
qed

section \<open>The texts\<close>

lemma digit_not_space:
  assumes "k < 10"
  shows "of_nat k + c_0 \<noteq> c_space"
proof
  assume e: "of_nat k + c_0 = c_space"
  have "\<not> of_nat k + c_0 < c_0" using digit_word [OF assms] by blast
  then show False unfolding e by simp
qed

lemma week_names:
  assumes "k < 7"
  obtains a b c where "week ! k = [a, b, c]" "a \<notin> {c_comma, c_space, c_NUL}" "b \<notin> {c_comma, c_space, c_NUL}" "c \<notin> {c_comma, c_space, c_NUL}"
proof -
  have "list_all (\<lambda>s. length s = 3 \<and> list_all (\<lambda>a. a \<notin> {c_comma, c_space, c_NUL}) s) week" by (simp add: week_def)
  moreover have "length week = 7" by (simp add: week_def)
  ultimately have w: "length (week ! k) = 3" "list_all (\<lambda>a. a \<notin> {c_comma, c_space, c_NUL}) (week ! k)" using assms by (simp_all add: list_all_length)
  then obtain a b c where "week ! k = [a, b, c]" by (auto simp: numeral_eq_Suc length_Suc_conv)
  then show ?thesis using that w(2) by simp
qed

lemma month_names:
  assumes "k < 12"
  obtains x y z where "months ! k = [x, y, z]" "c_NUL \<notin> {x, y, z}"
proof -
  have "list_all (\<lambda>s. length s = 3 \<and> list_all (\<lambda>a. a \<noteq> c_NUL) s) months" by (simp add: months_def)
  moreover have "length months = 12" by (simp add: months_def)
  ultimately have w: "length (months ! k) = 3" "list_all (\<lambda>a. a \<noteq> c_NUL) (months ! k)" using assms by (simp_all add: list_all_length)
  then obtain x y z where "months ! k = [x, y, z]" by (auto simp: numeral_eq_Suc length_Suc_conv)
  then show ?thesis using that w(2) by auto
qed

definition rfc822_text :: "nat \<Rightarrow> date \<Rightarrow> nat \<Rightarrow> nat \<Rightarrow> nat \<Rightarrow> bytes" where
  "rfc822_text wd x h mi s =
    (case x of (y, m, d) \<Rightarrow>
       week ! wd @ [c_comma, c_space] @ two_digits d @ [c_space] @ months ! (m - 1) @ [c_space] @ four_digits y @ [c_space] @
       two_digits h @ [c_colon] @ two_digits mi @ [c_colon] @ two_digits s @ ascii '' GMT'')"

definition rfc850_text :: "nat \<Rightarrow> date \<Rightarrow> nat \<Rightarrow> nat \<Rightarrow> nat \<Rightarrow> bytes" where
  "rfc850_text wd x h mi s =
    (case x of (y, m, d) \<Rightarrow>
       week ! wd @ [c_comma, c_space] @ two_digits d @ [c_minus] @ months ! (m - 1) @ [c_minus] @ two_digits (y mod 100) @ [c_space] @
       two_digits h @ [c_colon] @ two_digits mi @ [c_colon] @ two_digits s @ ascii '' GMT'')"

lemma parse_rfc822:
  assumes "wd < 7" "valid_date (y, m, d)" "y < 10000" "h < 24" "mi < 60" "s < 60"
  shows "ngx_http_parse_time (rfc822_text wd (y, m, d) h mi s) = PT_ok (civil_time (y, m, d) h mi s)"
proof -
  have v: "1 \<le> m" "m \<le> 12" "d \<le> 31" using assms(2) by (auto simp: month_days_def split: if_splits)
  obtain a b c where w: "week ! wd = [a, b, c]" "a \<notin> {c_comma, c_space, c_NUL}" "b \<notin> {c_comma, c_space, c_NUL}" "c \<notin> {c_comma, c_space, c_NUL}"
    using week_names [OF assms(1)] .
  have "m - 1 < 12" using v by simp
  then obtain e f g where mn: "months ! (m - 1) = [e, f, g]" "c_NUL \<notin> {e, f, g}" using month_names [of "m - 1"] by metis
  define v where "v = rfc822_text wd (y, m, d) h mi s"
  note V = v_def rfc822_text_def w(1) mn(1) mn(1) [unfolded One_nat_def] two_digits_def four_digits_def
  have len: "length v = 29" by (simp add: V)
  have wk: "pt_week v = (F_no, 5)"
  proof -
    have "of_nat (d div 10) + c_0 \<noteq> c_space"
      using v(3) by (intro digit_not_space) auto
    then show ?thesis using w by (simp add: pt_week_def V)
  qed
  have p: "pt_two v 5 = PT_ok d" using v(3) by (intro pt_two_at) (simp_all add: V)
  have sp: "pt_is v 7 c_space = PT_ok True" by (simp add: pt_is_def rd_def V)
  have mo: "pt_month v 8 = PT_ok (m - 1)" using v by (intro pt_month_at) (simp_all add: V)
  have e1: "pt_expect v 11 c_space = PT_ok ()" "pt_expect v 16 c_space = PT_ok ()" "pt_expect v 19 c_colon = PT_ok ()" "pt_expect v 22 c_colon = PT_ok ()"
    by (intro pt_expect_at; simp add: V)+
  have yr: "pt_four v 12 = PT_ok y" using assms(3) by (intro pt_four_at) (simp_all add: V)
  have hms: "pt_two v 17 = PT_ok h" "pt_two v 20 = PT_ok mi" "pt_two v 23 = PT_ok s"
    using assms(4-6) by (intro pt_two_at; simp add: V)+
  have tv: "time_value d (m - 1) y h mi s = PT_ok (civil_time (y, m, d) h mi s)" using assms by (intro time_value_date) simp_all
  have "ngx_http_parse_time v = PT_ok (civil_time (y, m, d) h mi s)"
    using wk p sp mo e1 yr hms tv by (simp add: ngx_http_parse_time_def pt_date_def pt_clock_def pt_check_def len)
  then show ?thesis by (simp add: v_def)
qed

lemma parse_rfc850:
  assumes "wd < 7" "valid_date (y, m, d)" "1970 \<le> y" "y < 2070" "h < 24" "mi < 60" "s < 60"
  shows "ngx_http_parse_time (rfc850_text wd (y, m, d) h mi s) = PT_ok (civil_time (y, m, d) h mi s)"
proof -
  have v: "1 \<le> m" "m \<le> 12" "d \<le> 31" using assms(2) by (auto simp: month_days_def split: if_splits)
  obtain a b c where w: "week ! wd = [a, b, c]" "a \<notin> {c_comma, c_space, c_NUL}" "b \<notin> {c_comma, c_space, c_NUL}" "c \<notin> {c_comma, c_space, c_NUL}"
    using week_names [OF assms(1)] .
  have "m - 1 < 12" using v by simp
  then obtain e f g where mn: "months ! (m - 1) = [e, f, g]" "c_NUL \<notin> {e, f, g}" using month_names [of "m - 1"] by metis
  define v where "v = rfc850_text wd (y, m, d) h mi s"
  note V = v_def rfc850_text_def w(1) mn(1) mn(1) [unfolded One_nat_def] two_digits_def
  have len: "length v = 27" by (simp add: V)
  have wk: "pt_week v = (F_no, 5)"
  proof -
    have "of_nat (d div 10) + c_0 \<noteq> c_space"
      using v(3) by (intro digit_not_space) auto
    then show ?thesis using w by (simp add: pt_week_def V)
  qed
  have p: "pt_two v 5 = PT_ok d" using v(3) by (intro pt_two_at) (simp_all add: V)
  have sp: "pt_is v 7 c_space = PT_ok False" "pt_is v 7 c_minus = PT_ok True" by (simp_all add: pt_is_def rd_def V)
  have mo: "pt_month v 8 = PT_ok (m - 1)" using v by (intro pt_month_at) (simp_all add: V)
  have e1: "pt_expect v 11 c_minus = PT_ok ()" "pt_expect v 14 c_space = PT_ok ()" "pt_expect v 17 c_colon = PT_ok ()" "pt_expect v 20 c_colon = PT_ok ()"
    by (intro pt_expect_at; simp add: V)+
  have yr: "pt_two v 12 = PT_ok (y mod 100)" by (intro pt_two_at) (simp_all add: V)
  have hms: "pt_two v 15 = PT_ok h" "pt_two v 18 = PT_ok mi" "pt_two v 21 = PT_ok s"
    using assms(5-7) by (intro pt_two_at; simp add: V)+
  have yy: "y mod 100 + (if y mod 100 < 70 then 2000 else 1900) = y"
  proof (cases "y < 2000")
    case True
    then obtain k where k: "y = 1900 + k" "70 \<le> k" "k < 100" using assms(3) le_Suc_ex [of 1970 y] by force
    have "(1900 + k) mod 100 = k" using k(3) by (subst mod_add_left_eq [symmetric]) simp
    then show ?thesis using k by simp
  next
    case False
    then obtain k where k: "y = 2000 + k" "k < 70" using assms(4) le_Suc_ex [of 2000 y] by force
    have "(2000 + k) mod 100 = k" using k(2) by (subst mod_add_left_eq [symmetric]) simp
    then show ?thesis using k by simp
  qed
  have tv: "time_value d (m - 1) y h mi s = PT_ok (civil_time (y, m, d) h mi s)" using assms by (intro time_value_date) simp_all
  have "ngx_http_parse_time v = PT_ok (civil_time (y, m, d) h mi s)"
    using wk p sp mo e1 yr hms tv yy by (simp add: ngx_http_parse_time_def pt_date_def pt_clock_def pt_check_def len)
  then show ?thesis by (simp add: v_def)
qed

section \<open>The year of a day\<close>

lemma year_range:
  assumes "valid_date (y, m, d)"
  shows "gauss (y - 1) + 306 \<le> day_number (y, m, d)" "day_number (y, m, d) < gauss y + 306"
proof -
  have v: "1 \<le> y" "1 \<le> m" "m \<le> 12" "1 \<le> d" using assms by auto
  have y: "gauss (y - 1) + 365 \<le> gauss y" using gauss_Suc [of "y - 1"] v(1) by simp
  note r = day_number_range [OF assms]
  show "gauss (y - 1) + 306 \<le> day_number (y, m, d)"
  proof (cases "m \<le> 2")
    case True
    then have "306 \<le> gauss_month (march_month m)" using twelve [OF v(2,3)] by (auto simp: march_month_def gauss_month_values)
    then show ?thesis using r(1) True v(4) by (simp add: march_year_def)
  next
    case False
    then show ?thesis using r(1) y by (simp add: march_year_def)
  qed
  show "day_number (y, m, d) < gauss y + 306"
  proof (cases "m \<le> 2")
    case True
    then show ?thesis using r(2) v(1) by (simp add: march_year_def)
  next
    case False
    then have "march_month m < 11" using v by (simp add: march_month_def)
    then have "gauss_month (march_month m + 1) \<le> 306" using gauss_month_mono [of "march_month m" 11] gauss_month_values(11) by simp
    then show ?thesis using r(1,3) False \<open>march_month m < 11\<close> by (simp add: march_year_def)
  qed
qed

lemma year_bounds:
  assumes "valid_date (y, m, d)"
  shows "gauss (k - 1) + 306 \<le> day_number (y, m, d) \<Longrightarrow> 1 \<le> k \<Longrightarrow> k \<le> y"
    and "day_number (y, m, d) < gauss (k - 1) + 306 \<Longrightarrow> y < k"
proof -
  note r = year_range [OF assms]
  have mono: "gauss a \<le> gauss b" if "a \<le> b" for a b
    using gauss_mono [of a b] gauss_Suc [of a] that by (cases "a = b") auto
  show "k \<le> y" if "gauss (k - 1) + 306 \<le> day_number (y, m, d)" "1 \<le> k"
    using r(2) that mono [of y "k - 1"] by linarith
  show "y < k" if "day_number (y, m, d) < gauss (k - 1) + 306"
    using r(1) that mono [of "k - 1" "y - 1"] by linarith
qed

section \<open>Printing\<close>

lemma week_nul: "k < 7 \<Longrightarrow> c_NUL \<notin> set (week ! k)"
  using week_names [of k] by (metis empty_iff insert_iff list.set(1) list.simps(15))

lemma month_nul: "k < 12 \<Longrightarrow> c_NUL \<notin> set (months ! k)"
  using month_names [of k] by (metis empty_iff insert_iff list.set(1) list.simps(15))

lemma unat_of_nat_32: "n < 2 ^ 32 \<Longrightarrow> unat (of_nat n :: 32 word) = n"
  by (simp add: unat_of_nat take_bit_nat_eq_self)

lemmas print_simps = print_s [simplified] print_02d [simplified] print_4d [simplified] print_plain

lemma sprintf_rfc822:
  assumes "wd < 7" "m < 12" "d < 100" "1000 \<le> y" "y < 10000" "h < 100" "mi < 100" "s < 100"
  shows "ngx_sprintf (ascii ''%s, %02d %s %4d %02d:%02d:%02d GMT'')
     [A_cstr (week ! wd), A_int (of_nat d), A_cstr (months ! m), A_int (of_nat y), A_int (of_nat h), A_int (of_nat mi), A_int (of_nat s)] =
     Some (week ! wd @ [c_comma, c_space] @ two_digits d @ [c_space] @ months ! m @ [c_space] @ four_digits y @ [c_space] @
       two_digits h @ [c_colon] @ two_digits mi @ [c_colon] @ two_digits s @ ascii '' GMT'')"
  using assms week_nul [OF assms(1)] month_nul [OF assms(2)] by (simp add: ngx_sprintf_def print_simps)

lemma sprintf_rfc850:
  assumes "wd < 7" "m < 12" "d < 100" "y < 100" "h < 100" "mi < 100" "s < 100"
  shows "ngx_sprintf (ascii ''%s, %02d-%s-%02d %02d:%02d:%02d GMT'')
     [A_cstr (week ! wd), A_int (of_nat d), A_cstr (months ! m), A_int (of_nat y), A_int (of_nat h), A_int (of_nat mi), A_int (of_nat s)] =
     Some (week ! wd @ [c_comma, c_space] @ two_digits d @ [c_minus] @ months ! m @ [c_minus] @ two_digits y @ [c_space] @
       two_digits h @ [c_colon] @ two_digits mi @ [c_colon] @ two_digits s @ ascii '' GMT'')"
  using assms week_nul [OF assms(1)] month_nul [OF assms(2)] by (simp add: ngx_sprintf_def print_simps)

lemma time_parts:
  assumes "unat t < 2 ^ 55"
  obtains y m d h mi s wd where
    "ngx_gmtime t = \<lparr>tm_sec = of_nat s, tm_min = of_nat mi, tm_hour = of_nat h, tm_mday = of_nat d, tm_mon = of_nat m, tm_year = of_nat y, tm_wday = of_nat wd\<rparr>"
    "(y, m, d) = date_of (unat t div 86400)" "valid_date (y, m, d)" "day_number (y, m, d) = 719468 + unat t div 86400" "y < 2 ^ 31"
    "h < 24" "mi < 60" "s < 60" "h * 3600 + mi * 60 + s = unat t mod 86400" "wd = (4 + unat t div 86400) mod 7"
    "civil_time (y, m, d) h mi s = int (unat t)"
proof -
  let ?n = "unat t"
  have b: "?n mod 86400 div 3600 < 24" "?n mod 86400 mod 3600 div 60 < 60" "?n mod 86400 mod 3600 mod 60 < 60"
    by (simp_all add: less_mult_imp_div_less)
  obtain y m d where g: "ngx_gmtime t =
      \<lparr>tm_sec = of_nat (?n mod 86400 mod 3600 mod 60), tm_min = of_nat (?n mod 86400 mod 3600 div 60),
       tm_hour = of_nat (?n mod 86400 div 3600), tm_mday = of_nat d, tm_mon = of_nat m, tm_year = of_nat y,
       tm_wday = of_nat ((4 + ?n div 86400) mod 7)\<rparr>"
    "(y, m, d) = date_of (?n div 86400)" "valid_date (y, m, d)" "day_number (y, m, d) = 719468 + ?n div 86400" "y < 2 ^ 31"
    by (rule gmtime_spec [OF assms])
  have c: "civil_time (y, m, d) (?n mod 86400 div 3600) (?n mod 86400 mod 3600 div 60) (?n mod 86400 mod 3600 mod 60) = int ?n"
  proof -
    have "int (?n mod 86400 div 3600) * 3600 + int (?n mod 86400 mod 3600 div 60) * 60 + int (?n mod 86400 mod 3600 mod 60) = int (?n mod 86400)"
      using arg_cong [OF split_seconds [of ?n], of int] by (simp only: of_nat_add of_nat_mult of_nat_numeral)
    moreover have "int (?n div 86400) * 86400 + int (?n mod 86400) = int ?n"
      using arg_cong [OF div_mult_mod_eq [of ?n 86400], of int] by (simp only: of_nat_add of_nat_mult of_nat_numeral)
    moreover have "(int (719468 + k) - 719468) * 86400 + a + b + c = n" if "a + b + c = r" "int k * 86400 + r = n" for a b c r n :: int and k
      using that by simp
    ultimately show ?thesis unfolding civil_time_def g(4) by blast
  qed
  show ?thesis by (rule that [OF g(1-5) b split_seconds refl c])
qed

section \<open>Properties\<close>

lemma gauss_values: "gauss 1969 = 719162" "gauss 2037 = 743999" "gauss 9999 = 3652059"
  by (simp_all add: gauss_def)

lemma month_day_bounds: "valid_date (y, m, d) \<Longrightarrow> 1 \<le> m \<and> m \<le> 12 \<and> 1 \<le> d \<and> d \<le> 31"
  by (auto simp: month_days_def split: if_splits)

lemma date_1970: "valid_date (y, m, d) \<Longrightarrow> day_number (y, m, d) = 719468 + k \<Longrightarrow> 1970 \<le> y"
  using year_bounds(1) [of y m d 1970] by (simp add: gauss_values)

lemma tm_mon_word: "1 \<le> m \<Longrightarrow> m \<le> 12 \<Longrightarrow> unat (of_nat m - 1 :: 32 word) = m - 1"
  using unat_of_nat_32 [of "m - 1"] by (simp add: of_nat_diff)

text \<open>
  Claim C20: For every time up to \<open>2 ^ 55\<close> seconds the date \<open>ngx_gmtime\<close> computes by Gauss' formula is
  that of the Gregorian calendar, in which one day follows the other from January 1, 1970 on; the
  clock gives the seconds of the day, and the day of the week goes round from a Thursday.
\<close>
theorem gmtime_calendar:
  assumes "unat t < 2 ^ 55"
  shows "let tm = ngx_gmtime t in
     (unat (tm_year tm), unat (tm_mon tm), unat (tm_mday tm)) = date_of (unat t div 86400) \<and>
     unat (tm_hour tm) < 24 \<and> unat (tm_min tm) < 60 \<and> unat (tm_sec tm) < 60 \<and>
     unat (tm_hour tm) * 3600 + unat (tm_min tm) * 60 + unat (tm_sec tm) = unat t mod 86400 \<and>
     unat (tm_wday tm) = (4 + unat t div 86400) mod 7"
proof -
  obtain y m d h mi s wd where p:
    "ngx_gmtime t = \<lparr>tm_sec = of_nat s, tm_min = of_nat mi, tm_hour = of_nat h, tm_mday = of_nat d, tm_mon = of_nat m, tm_year = of_nat y, tm_wday = of_nat wd\<rparr>"
    "(y, m, d) = date_of (unat t div 86400)" "valid_date (y, m, d)" "day_number (y, m, d) = 719468 + unat t div 86400" "y < 2 ^ 31"
    "h < 24" "mi < 60" "s < 60" "h * 3600 + mi * 60 + s = unat t mod 86400" "wd = (4 + unat t div 86400) mod 7"
    "civil_time (y, m, d) h mi s = int (unat t)"
    by (rule time_parts [OF assms])
  have wd: "wd < 7" unfolding p(10) by simp
  have "unat (of_nat y :: 32 word) = y" "unat (of_nat m :: 32 word) = m" "unat (of_nat d :: 32 word) = d" "unat (of_nat h :: 32 word) = h"
    "unat (of_nat mi :: 32 word) = mi" "unat (of_nat s :: 32 word) = s" "unat (of_nat wd :: 32 word) = wd"
    using p(5-8) wd month_day_bounds [OF p(3)] by (simp_all add: unat_of_nat_32)
  then show ?thesis unfolding p(1) Let_def ngx_tm.simps using p(2,6-10) by simp
qed

lemma http_time_text:
  assumes "unat t < 253402300800"
  obtains y m d h mi s wd where "ngx_http_time t = Some (rfc822_text wd (y, m, d) h mi s)" "wd < 7" "valid_date (y, m, d)" "y < 10000"
    "h < 24" "mi < 60" "s < 60" "civil_time (y, m, d) h mi s = int (unat t)"
proof -
  have "unat t < 2 ^ 55" using assms by simp
  then obtain y m d h mi s wd where p:
    "ngx_gmtime t = \<lparr>tm_sec = of_nat s, tm_min = of_nat mi, tm_hour = of_nat h, tm_mday = of_nat d, tm_mon = of_nat m, tm_year = of_nat y, tm_wday = of_nat wd\<rparr>"
    "(y, m, d) = date_of (unat t div 86400)" "valid_date (y, m, d)" "day_number (y, m, d) = 719468 + unat t div 86400" "y < 2 ^ 31"
    "h < 24" "mi < 60" "s < 60" "h * 3600 + mi * 60 + s = unat t mod 86400" "wd = (4 + unat t div 86400) mod 7"
    "civil_time (y, m, d) h mi s = int (unat t)"
    by (rule time_parts)
  have md: "1 \<le> m" "m \<le> 12" "m - 1 < 12" "m - Suc 0 < 12" "1 \<le> d" "d \<le> 31" using month_day_bounds [OF p(3)] by auto
  have wd: "wd < 7" unfolding p(10) by simp
  have "unat t div 86400 < 2932897" using assms by (simp add: less_mult_imp_div_less)
  then have y: "1970 \<le> y" "y < 10000" using date_1970 [OF p(3,4)] year_bounds(2) [OF p(3), of 10000] unfolding p(4) by (simp_all add: gauss_values)
  have u: "unat (of_nat wd :: 32 word) = wd" "unat (of_nat m - 1 :: 32 word) = m - 1" using wd md by (simp_all add: unat_of_nat_32 tm_mon_word del: One_nat_def)
  have "ngx_http_time t = Some (rfc822_text wd (y, m, d) h mi s)"
    unfolding ngx_http_time_def p(1) Let_def ngx_tm.simps u rfc822_text_def prod.case
    by (rule sprintf_rfc822) (use wd y md p(6-8) in simp_all)
  then show ?thesis using wd p(3) y(2) p(6-8,11) by (rule that)
qed

text \<open>
  Claim C23: Up to the year 9999, \<open>ngx_http_time\<close> prints every time as a date of 29 bytes that
  \<open>ngx_http_parse_time\<close> reads back as the same time.
\<close>
theorem http_time_roundtrip:
  assumes "unat t < 253402300800"
  shows "\<exists>v. ngx_http_time t = Some v \<and> length v = 29 \<and> ngx_http_parse_time v = PT_ok (int (unat t))"
proof -
  obtain y m d h mi s wd where t: "ngx_http_time t = Some (rfc822_text wd (y, m, d) h mi s)" "wd < 7" "valid_date (y, m, d)" "y < 10000"
    "h < 24" "mi < 60" "s < 60" "civil_time (y, m, d) h mi s = int (unat t)"
    by (rule http_time_text [OF assms])
  have "length (week ! wd) = 3" using week_names [OF t(2)] by (metis length_Cons list.size(3) numeral_3_eq_3)
  moreover have "m - 1 < 12" using month_day_bounds [OF t(3)] by auto
  then have "length (months ! (m - 1)) = 3" using month_names [of "m - 1"] by (metis length_Cons list.size(3) numeral_3_eq_3)
  ultimately have "length (rfc822_text wd (y, m, d) h mi s) = 29" by (simp add: rfc822_text_def two_digits_def four_digits_def)
  with t(1) parse_rfc822 [OF t(2-7)] t(8) show ?thesis by simp
qed

text \<open>
  Up to the year 2037 a cookie time, which has two digits for the year, is read back as
  the same time as well.
\<close>
lemma cookie_time_roundtrip:
  assumes "unat t < 2145916800"
  shows "\<exists>v. ngx_http_cookie_time t = Some v \<and> ngx_http_parse_time v = PT_ok (int (unat t))"
proof -
  have "unat t < 2 ^ 55" using assms by simp
  then obtain y m d h mi s wd where p:
    "ngx_gmtime t = \<lparr>tm_sec = of_nat s, tm_min = of_nat mi, tm_hour = of_nat h, tm_mday = of_nat d, tm_mon = of_nat m, tm_year = of_nat y, tm_wday = of_nat wd\<rparr>"
    "(y, m, d) = date_of (unat t div 86400)" "valid_date (y, m, d)" "day_number (y, m, d) = 719468 + unat t div 86400" "y < 2 ^ 31"
    "h < 24" "mi < 60" "s < 60" "h * 3600 + mi * 60 + s = unat t mod 86400" "wd = (4 + unat t div 86400) mod 7"
    "civil_time (y, m, d) h mi s = int (unat t)"
    by (rule time_parts)
  have md: "1 \<le> m" "m \<le> 12" "m - 1 < 12" "m - Suc 0 < 12" "1 \<le> d" "d \<le> 31" using month_day_bounds [OF p(3)] by auto
  have wd: "wd < 7" unfolding p(10) by simp
  have "unat t div 86400 < 24837" using assms by (simp add: less_mult_imp_div_less)
  then have y: "1970 \<le> y" "y < 2038" using date_1970 [OF p(3,4)] year_bounds(2) [OF p(3), of 2038] unfolding p(4) by (simp_all add: gauss_values)
  have sy: "sint (of_nat y :: 32 word) = int y" using y by (intro sint_of_nat_32) simp
  have "int y smod 100 = int (y mod 100)" using y(1) by (simp add: signed_modulo_int_def zmod_int)
  then have arg: "(word_of_int (sint (of_nat y :: 32 word) smod 100) :: 32 word) = of_nat (y mod 100)"
    unfolding sy by (simp only: of_int_of_nat_eq)
  have ny: "\<not> 2037 < sint (of_nat y :: 32 word)" using y by (simp add: sy)
  have u: "unat (of_nat wd :: 32 word) = wd" "unat (of_nat m - 1 :: 32 word) = m - 1" using wd md by (simp_all add: unat_of_nat_32 tm_mon_word del: One_nat_def)
  have "ngx_http_cookie_time t = Some (rfc850_text wd (y, m, d) h mi s)"
    unfolding ngx_http_cookie_time_def p(1) Let_def ngx_tm.simps if_not_P [OF ny] arg u rfc850_text_def prod.case
    by (rule sprintf_rfc850) (use wd md p(6-8) in simp_all)
  then show ?thesis using parse_rfc850 [OF wd p(3) y(1) _ p(6-8)] y(2) p(11) by simp
qed

theorem gmtime_calendar_witness: "(unat (tm_year (ngx_gmtime 0)), unat (tm_mon (ngx_gmtime 0)), unat (tm_mday (ngx_gmtime 0))) = (1970, 1, 1)"
  using gmtime_calendar [of 0] by (simp add: Let_def date_of_def)

theorem http_time_roundtrip_witness: "\<exists>v. ngx_http_time 1036972213 = Some v \<and> length v = 29 \<and> ngx_http_parse_time v = PT_ok 1036972213"
  using http_time_roundtrip [of 1036972213] by simp

end
