(* ===== verification/Upstream_Round_Robin.thy ===== *)
theory Upstream_Round_Robin
  imports Nginx_Prelude
begin

text \<open>
The round robin balancer (\<open>http/ngx_http_upstream_round_robin.c\<close>): the groups of peers made from
  the configuration, the choice of a peer with its smooth weights, the fall-back to the backup group
  and the release of a peer. Weights, counters and times are 64-bit words; the groups linked by \<open>next\<close>
  are a list; \<open>None\<close> is an access out of bounds.
\<close>

section \<open>Servers, peers and groups\<close>

text \<open>\<open>ngx_http_upstream_server_t\<close>: an address is its \<open>sockaddr\<close> and its name, as bytes.\<close>

record us_server =
  us_addrs :: "(bytes \<times> bytes) list"
  us_weight :: "64 word"
  us_max_fails :: "64 word"
  us_fail_timeout :: "64 word"
  us_down :: bool
  us_backup :: bool

text \<open>\<open>ngx_http_upstream_rr_peer_t\<close> without the SSL session; \<open>socklen\<close> is the length of \<open>sockaddr\<close>.\<close>

record rr_peer =
  rr_sockaddr :: bytes
  rr_name :: bytes
  current_weight :: "64 word"
  effective_weight :: "64 word"
  weight :: "64 word"
  fails :: "64 word"
  accessed :: "64 word"
  checked :: "64 word"
  max_fails :: "64 word"
  fail_timeout :: "64 word"
  down :: bool

text \<open>
  \<open>ngx_http_upstream_rr_peers_t\<close>: \<open>number\<close> is the length of \<open>peer\<close>. The groups linked by \<open>next\<close>, the
  primary servers and the backup ones, are the list of them.
\<close>

record rr_peers =
  total_weight :: "64 word"
  single :: bool
  weighted :: bool
  group_name :: bytes
  peer :: "rr_peer list"

abbreviation group_number :: "rr_peers \<Rightarrow> nat" where
  "group_number g \<equiv> length (peer g)"

text \<open>
  \<open>ngx_http_upstream_rr_peer_data_t\<close>, the state of a request: \<open>rrp_peers\<close> is the position of the group
  in the list, \<open>tried\<close> the array of the bitmap (also when it is the field \<open>data\<close>).
\<close>

record rr_peer_data =
  rrp_peers :: nat
  current :: nat
  tried :: "64 word list"

text \<open>What the balancers use of \<open>ngx_peer_connection_t\<close>; the pointers are \<open>None\<close> for \<open>NULL\<close>.\<close>

record peer_connection =
  pc_sockaddr :: "bytes option"
  pc_name :: "bytes option"
  pc_tries :: "64 word"
  pc_cached :: bool

abbreviation (input) NGX_PEER_FAILED :: "64 word" where "NGX_PEER_FAILED \<equiv> 4"

section \<open>Configuration\<close>

definition rr_new_peer :: "us_server \<Rightarrow> bytes \<times> bytes \<Rightarrow> rr_peer" where
  "rr_new_peer s a =
    \<lparr>rr_sockaddr = fst a, rr_name = snd a, current_weight = 0, effective_weight = us_weight s, weight = us_weight s, fails = 0,
     accessed = 0, checked = 0, max_fails = us_max_fails s, fail_timeout = us_fail_timeout s, down = us_down s\<rparr>"

text \<open>The two loops over the servers of a kind.\<close>

definition rr_group :: "bytes \<Rightarrow> us_server list \<Rightarrow> rr_peers" where
  "rr_group host servers =
    (let w = sum_list (map (\<lambda>s. of_nat (length (us_addrs s)) * us_weight s) servers);
         ps = concat (map (\<lambda>s. map (rr_new_peer s) (us_addrs s)) servers)
     in \<lparr>total_weight = w, single = (length ps = 1), weighted = (w \<noteq> of_nat (length ps)), group_name = host, peer = ps\<rparr>)"

text \<open>
  \<open>ngx_http_upstream_init_round_robin\<close>; \<open>resolved\<close> is the answer for the host of an upstream that has
  no \<open>server\<close> directives, and \<open>None\<close> is \<open>NGX_ERROR\<close>.
\<close>

definition ngx_http_upstream_init_round_robin ::
  "bytes \<Rightarrow> 16 word \<Rightarrow> us_server list option \<Rightarrow> (bytes \<times> bytes) list option \<Rightarrow> rr_peers list option" where
  "ngx_http_upstream_init_round_robin host port servers resolved =
    (case servers of
       Some servers \<Rightarrow>
         (let peers = rr_group host (filter (\<lambda>s. \<not> us_backup s) servers);
              backup = rr_group host (filter us_backup servers)
          in if group_number peers = 0 then None
             else if group_number backup = 0 then Some [peers]
             else Some [peers\<lparr>single := False\<rparr>, backup\<lparr>single := False\<rparr>])
     | None \<Rightarrow>
         (if port = 0 then None
          else
            (case resolved of
               None \<Rightarrow> None
             | Some addrs \<Rightarrow>
                 Some [\<lparr>total_weight = of_nat (length addrs), single = (length addrs = 1), weighted = False, group_name = host,
                        peer = map (rr_new_peer
                          \<lparr>us_addrs = addrs, us_weight = 1, us_max_fails = 1, us_fail_timeout = 10, us_down = False, us_backup = False\<rparr>)
                          addrs\<rparr>])))"

section \<open>A request\<close>

definition ngx_http_upstream_init_round_robin_peer :: "rr_peers list \<Rightarrow> peer_connection \<Rightarrow> rr_peer_data \<times> peer_connection" where
  "ngx_http_upstream_init_round_robin_peer groups pc =
    (let n = (case groups of
                g # h # _ \<Rightarrow> if group_number h > group_number g then group_number h else group_number g
              | [g] \<Rightarrow> group_number g
              | [] \<Rightarrow> 0);
         t = (if n \<le> 64 then [0] else replicate ((n + 63) div 64) 0)
     in (\<lparr>rrp_peers = 0, current = 0, tried = t\<rparr>,
         pc\<lparr>pc_tries := (case groups of g # _ \<Rightarrow> of_nat (group_number g) | [] \<Rightarrow> 0)\<rparr>))"

text \<open>The bit of a peer in the bitmap.\<close>

definition rr_tried :: "64 word list \<Rightarrow> nat \<Rightarrow> bool" where
  "rr_tried t i \<longleftrightarrow> t ! (i div 64) AND push_bit (i mod 64) 1 \<noteq> 0"

definition rr_mark :: "64 word list \<Rightarrow> nat \<Rightarrow> 64 word list" where
  "rr_mark t i = t[i div 64 := t ! (i div 64) OR push_bit (i mod 64) 1]"

text \<open>The tests that skip a peer.\<close>

definition rr_failed :: "64 word \<Rightarrow> rr_peer \<Rightarrow> bool" where
  "rr_failed now p \<longleftrightarrow> max_fails p \<noteq> 0 \<and> fails p \<ge> max_fails p \<and> sint (now - checked p) \<le> sint (fail_timeout p)"

definition rr_skip :: "64 word \<Rightarrow> 64 word list \<Rightarrow> nat \<Rightarrow> rr_peer \<Rightarrow> bool" where
  "rr_skip now t i p \<longleftrightarrow> rr_tried t i \<or> down p \<or> rr_failed now p"

text \<open>The weights of a peer that is not skipped.\<close>

definition rr_weigh :: "rr_peer \<Rightarrow> rr_peer" where
  "rr_weigh p =
    p\<lparr>current_weight := current_weight p + effective_weight p,
      effective_weight := (if sint (effective_weight p) < sint (weight p) then effective_weight p + 1 else effective_weight p)\<rparr>"

text \<open>One turn of the loop over the peers: the array, \<open>total\<close> and the index of \<open>best\<close>.\<close>

definition rr_visit :: "64 word \<Rightarrow> 64 word list \<Rightarrow> nat \<Rightarrow> rr_peer list \<times> 64 word \<times> nat option \<Rightarrow> rr_peer list \<times> 64 word \<times> nat option" where
  "rr_visit now t i s =
    (case s of (ps, tot, best) \<Rightarrow>
       if rr_skip now t i (ps ! i) then s
       else
         (let p = rr_weigh (ps ! i);
              ps' = ps[i := p];
              better = (case best of None \<Rightarrow> True | Some b \<Rightarrow> sint (current_weight p) > sint (current_weight (ps' ! b)))
          in (ps', tot + effective_weight (ps ! i), if better then Some i else best)))"

text \<open>The end of the choice: the peer pays the total, and a check of it may begin.\<close>

definition rr_pay :: "64 word \<Rightarrow> 64 word \<Rightarrow> rr_peer \<Rightarrow> rr_peer" where
  "rr_pay now tot p =
    p\<lparr>current_weight := current_weight p - tot,
      checked := (if sint (now - checked p) > sint (fail_timeout p) then now else checked p)\<rparr>"

text \<open>
  \<open>ngx_http_upstream_get_peer\<close>: the outer \<open>None\<close> is a read past the end of \<open>tried\<close>, which the loop
  reads for every peer; the inner one is \<open>NULL\<close>.
\<close>

definition ngx_http_upstream_get_peer ::
  "64 word \<Rightarrow> rr_peers \<Rightarrow> rr_peer_data \<Rightarrow> (nat option \<times> rr_peers \<times> rr_peer_data) option" where
  "ngx_http_upstream_get_peer now g rrp =
    (if 64 * length (tried rrp) < group_number g then None
     else
       (case fold (rr_visit now (tried rrp)) [0..<group_number g] (peer g, 0, None) of
          (ps, tot, None) \<Rightarrow> Some (None, g\<lparr>peer := ps\<rparr>, rrp)
        | (ps, tot, Some i) \<Rightarrow>
            Some (Some i, g\<lparr>peer := ps[i := rr_pay now tot (ps ! i)]\<rparr>, rrp\<lparr>current := i, tried := rr_mark (tried rrp) i\<rparr>)))"

text \<open>The choice of a peer from the current group, up to the label \<open>failed\<close>.\<close>

definition rr_pick :: "64 word \<Rightarrow> rr_peers \<Rightarrow> rr_peer_data \<Rightarrow> (nat option \<times> rr_peers \<times> rr_peer_data) option" where
  "rr_pick now g rrp =
    (if single g then
       (case peer g of
          [] \<Rightarrow> None
        | p # _ \<Rightarrow> Some (if down p then None else Some 0, g, rrp))
     else ngx_http_upstream_get_peer now g rrp)"

text \<open>The loop that clears the bitmap for the backup group; \<open>None\<close> is a write past its end.\<close>

definition rr_clear :: "nat \<Rightarrow> 64 word list \<Rightarrow> 64 word list option" where
  "rr_clear number t =
    (let n = (number + 63) div 64 in if length t < n then None else Some (replicate n 0 @ drop n t))"

text \<open>
  \<open>ngx_http_upstream_get_round_robin_peer\<close>: the list begins with the current group; the result is the
  return code and what the call leaves in the groups, the connection and the state of the request.
\<close>

fun ngx_http_upstream_get_round_robin_peer ::
  "64 word \<Rightarrow> rr_peers list \<Rightarrow> peer_connection \<Rightarrow> rr_peer_data \<Rightarrow> (int \<times> rr_peers list \<times> peer_connection \<times> rr_peer_data) option" where
  "ngx_http_upstream_get_round_robin_peer now [] pc rrp = None"
| "ngx_http_upstream_get_round_robin_peer now (g # rest) pc rrp =
    (let pc = pc\<lparr>pc_cached := False\<rparr>;
         busy = (\<lambda>g rest pc rrp.
           Some (NGX_BUSY, g\<lparr>peer := map (fails_update (\<lambda>_. 0)) (peer g)\<rparr> # rest, pc\<lparr>pc_name := Some (group_name g)\<rparr>, rrp))
     in case rr_pick now g rrp of
          None \<Rightarrow> None
        | Some (Some i, g, rrp) \<Rightarrow>
            Some (NGX_OK, g # rest,
              pc\<lparr>pc_sockaddr := Some (rr_sockaddr (peer g ! i)), pc_name := Some (rr_name (peer g ! i)),
                 pc_tries := (if pc_tries pc = 1 \<and> rest \<noteq> [] then pc_tries pc + of_nat (group_number (hd rest)) else pc_tries pc)\<rparr>,
              rrp)
        | Some (None, g, rrp) \<Rightarrow>
            (if rest = [] then busy g rest pc rrp
             else
               (case rr_clear (group_number (hd rest)) (tried rrp) of
                  None \<Rightarrow> None
                | Some t \<Rightarrow>
                    (case ngx_http_upstream_get_round_robin_peer now rest (pc\<lparr>pc_tries := of_nat (group_number (hd rest))\<rparr>)
                            (rrp\<lparr>rrp_peers := rrp_peers rrp + 1, tried := t\<rparr>) of
                       None \<Rightarrow> None
                     | Some (rc, rest, pc, rrp) \<Rightarrow>
                         if rc \<noteq> NGX_BUSY then Some (rc, g # rest, pc, rrp) else busy g rest pc rrp))))"

text \<open>\<open>ngx_http_upstream_free_round_robin_peer\<close>; \<open>None\<close> is an access past the end of the group.\<close>

definition rr_free :: "64 word \<Rightarrow> 64 word \<Rightarrow> rr_peer \<Rightarrow> rr_peer" where
  "rr_free now state p =
    (if state AND NGX_PEER_FAILED \<noteq> 0 then
       (let e = (if max_fails p \<noteq> 0 then effective_weight p - weight p div max_fails p else effective_weight p)
        in p\<lparr>fails := fails p + 1, accessed := now, checked := now, effective_weight := (if sint e < 0 then 0 else e)\<rparr>)
     else if sint (accessed p) < sint (checked p) then p\<lparr>fails := 0\<rparr>
     else p)"

definition ngx_http_upstream_free_round_robin_peer ::
  "64 word \<Rightarrow> 64 word \<Rightarrow> rr_peers list \<Rightarrow> peer_connection \<Rightarrow> rr_peer_data \<Rightarrow> (rr_peers list \<times> peer_connection) option" where
  "ngx_http_upstream_free_round_robin_peer now state groups pc rrp =
    (if \<not> rrp_peers rrp < length groups then None
     else
       (let g = groups ! rrp_peers rrp in
        if single g then Some (groups, pc\<lparr>pc_tries := 0\<rparr>)
        else if \<not> current rrp < group_number g then None
        else
          (let g = g\<lparr>peer := (peer g)[current rrp := rr_free now state (peer g ! current rrp)]\<rparr>
           in Some (groups[rrp_peers rrp := g],
                if pc_tries pc \<noteq> 0 then pc\<lparr>pc_tries := pc_tries pc - 1\<rparr> else pc))))"

end
