(* ===== verification/Upstream_Balancers.thy ===== *)
theory Upstream_Balancers
  imports Upstream_Round_Robin
begin

text \<open>
The balancers built on the round robin: \<open>ip_hash\<close>
  (\<open>http/modules/ngx_http_upstream_ip_hash_module.c\<close>) and \<open>least_conn\<close>
  (\<open>http/modules/ngx_http_upstream_least_conn_module.c\<close>).
\<close>

section \<open>ip_hash\<close>

text \<open>\<open>ngx_http_upstream_ip_hash_peer_data_t\<close>; \<open>addrlen\<close> is the length of the address.\<close>

record ip_hash_data =
  ih_rrp :: rr_peer_data
  ih_hash :: "64 word"
  ih_addr :: bytes
  ih_tries :: nat

text \<open>The address of the client by its family: the bytes of \<open>s_addr\<close> or \<open>s6_addr\<close>.\<close>

datatype client_addr = AF_INET bytes | AF_INET6 bytes | AF_other

definition ngx_http_upstream_init_ip_hash_peer ::
  "rr_peers list \<Rightarrow> client_addr \<Rightarrow> peer_connection \<Rightarrow> ip_hash_data \<times> peer_connection" where
  "ngx_http_upstream_init_ip_hash_peer groups sa pc =
    (let (rrp, pc) = ngx_http_upstream_init_round_robin_peer groups pc;
         addr = (case sa of AF_INET a \<Rightarrow> take 3 a | AF_INET6 a \<Rightarrow> take 16 a | AF_other \<Rightarrow> replicate 3 0)
     in (\<lparr>ih_rrp = rrp, ih_hash = 89, ih_addr = addr, ih_tries = 0\<rparr>, pc))"

definition ih_next_hash :: "bytes \<Rightarrow> 64 word \<Rightarrow> 64 word" where
  "ih_next_hash addr hash = fold (\<lambda>a h. (h * 113 + ucast a) mod 6271) addr hash"

text \<open>The peer of a weight: \<open>w\<close> runs down until it is negative.\<close>

fun ih_by_weight :: "64 word \<Rightarrow> nat \<Rightarrow> rr_peer list \<Rightarrow> nat" where
  "ih_by_weight w i [] = i"
| "ih_by_weight w i (p # ps) = (let w = w - weight p in if sint w < 0 then i else ih_by_weight w (i + 1) ps)"

text \<open>\<open>None\<close> is a division by zero.\<close>

definition ih_index :: "rr_peers \<Rightarrow> 64 word \<Rightarrow> nat option" where
  "ih_index g hash =
    (if \<not> weighted g then if peer g = [] then None else Some (unat (hash mod of_nat (group_number g)))
     else if total_weight g = 0 then None
     else Some (ih_by_weight (hash mod total_weight g) 0 (peer g)))"

text \<open>
  The loop: the index of the peer it breaks with, or \<open>None\<close> when it gives up after 20 tries; then the
  bitmap, \<open>tries\<close>, the hash and \<open>pc->tries\<close>. The outer \<open>None\<close> is an access out of bounds.
\<close>

function ih_loop ::
  "64 word \<Rightarrow> rr_peers \<Rightarrow> bytes \<Rightarrow> 64 word list \<Rightarrow> nat \<Rightarrow> 64 word \<Rightarrow> 64 word \<Rightarrow>
   (nat option \<times> 64 word list \<times> nat \<times> 64 word \<times> 64 word) option" where
  "ih_loop now g addr t tries hash pct =
    (let hash = ih_next_hash addr hash in
     case ih_index g hash of
       None \<Rightarrow> None
     | Some p \<Rightarrow>
         if \<not> p div 64 < length t then None
         else if \<not> rr_tried t p \<and> \<not> p < group_number g then None
         else if \<not> rr_tried t p \<and> \<not> down (peer g ! p) \<and> \<not> rr_failed now (peer g ! p) then Some (Some p, t, tries, hash, pct)
         else
           (let (t, pct) = (if rr_tried t p then (t, pct) else (rr_mark t p, pct - 1))
            in if tries + 1 \<ge> 20 then Some (None, t, tries + 1, hash, pct)
               else ih_loop now g addr t (tries + 1) hash pct))"
  by pat_completeness auto
termination
  by (relation "measure (\<lambda>(now, g, addr, t, tries, hash, pct). 20 - tries)") auto

declare ih_loop.simps [simp del]

text \<open>\<open>ngx_http_upstream_get_ip_hash_peer\<close>; what is not chosen by the hash is left to the round robin.\<close>

definition ngx_http_upstream_get_ip_hash_peer ::
  "64 word \<Rightarrow> rr_peers list \<Rightarrow> peer_connection \<Rightarrow> ip_hash_data \<Rightarrow> (int \<times> rr_peers list \<times> peer_connection \<times> ip_hash_data) option" where
  "ngx_http_upstream_get_ip_hash_peer now groups pc ih =
    (let round_robin = (\<lambda>pc ih.
           map_option (\<lambda>(rc, groups, pc, rrp). (rc, groups, pc, ih\<lparr>ih_rrp := rrp\<rparr>))
             (ngx_http_upstream_get_round_robin_peer now groups pc (ih_rrp ih)))
     in case groups of
          [] \<Rightarrow> None
        | g # rest \<Rightarrow>
            if ih_tries ih > 20 \<or> single g then round_robin pc ih
            else
              (case ih_loop now g (ih_addr ih) (tried (ih_rrp ih)) (ih_tries ih) (ih_hash ih) (pc_tries pc) of
                 None \<Rightarrow> None
               | Some (None, t, tries, hash, pct) \<Rightarrow>
                   round_robin (pc\<lparr>pc_cached := False, pc_tries := pct\<rparr>) (ih\<lparr>ih_rrp := (ih_rrp ih)\<lparr>tried := t\<rparr>, ih_tries := tries\<rparr>)
               | Some (Some p, t, tries, hash, pct) \<Rightarrow>
                   (let q = peer g ! p;
                        q' = (if sint (now - checked q) > sint (fail_timeout q) then q\<lparr>checked := now\<rparr> else q)
                    in Some (NGX_OK, g\<lparr>peer := (peer g)[p := q']\<rparr> # rest,
                         pc\<lparr>pc_cached := False, pc_tries := pct, pc_sockaddr := Some (rr_sockaddr q), pc_name := Some (rr_name q)\<rparr>,
                         \<lparr>ih_rrp = (ih_rrp ih)\<lparr>current := p, tried := rr_mark t p\<rparr>, ih_hash = hash, ih_addr = ih_addr ih, ih_tries = tries\<rparr>))))"

section \<open>least_conn\<close>

text \<open>
  The array \<open>conns\<close> of the configuration counts the connections of the peers of both groups;
  \<open>lcp->conns\<close> is the offset of the current group in it.
\<close>

record least_conn_data =
  lc_rrp :: rr_peer_data
  lc_conns :: nat

definition ngx_http_upstream_init_least_conn :: "rr_peers list \<Rightarrow> 64 word list" where
  "ngx_http_upstream_init_least_conn groups =
    replicate (case groups of g # h # _ \<Rightarrow> group_number g + group_number h | [g] \<Rightarrow> group_number g | [] \<Rightarrow> 0) 0"

definition ngx_http_upstream_init_least_conn_peer :: "rr_peers list \<Rightarrow> peer_connection \<Rightarrow> least_conn_data \<times> peer_connection" where
  "ngx_http_upstream_init_least_conn_peer groups pc =
    (let (rrp, pc) = ngx_http_upstream_init_round_robin_peer groups pc in (\<lparr>lc_rrp = rrp, lc_conns = 0\<rparr>, pc))"

text \<open>One turn of the first loop: the best peer and whether there are \<open>many\<close>.\<close>

definition lc_visit ::
  "64 word \<Rightarrow> 64 word list \<Rightarrow> 64 word list \<Rightarrow> rr_peer list \<Rightarrow> nat \<Rightarrow> nat option \<times> bool \<Rightarrow> nat option \<times> bool" where
  "lc_visit now t conns ps i s =
    (if rr_skip now t i (ps ! i) then s
     else
       (case s of
          (None, many) \<Rightarrow> (Some i, False)
        | (Some p, many) \<Rightarrow>
            if conns ! i * weight (ps ! p) < conns ! p * weight (ps ! i) then (Some i, False)
            else if conns ! i * weight (ps ! p) = conns ! p * weight (ps ! i) then (Some p, True)
            else s))"

text \<open>One turn of the second loop, among the peers with as few connections as \<open>best\<close>.\<close>

definition lc_many ::
  "64 word \<Rightarrow> 64 word list \<Rightarrow> 64 word list \<Rightarrow> nat \<Rightarrow> rr_peer list \<times> 64 word \<times> nat \<Rightarrow> rr_peer list \<times> 64 word \<times> nat" where
  "lc_many now t conns i s =
    (case s of (ps, tot, p) \<Rightarrow>
       if rr_tried t i \<or> down (ps ! i) \<or> conns ! i * weight (ps ! p) \<noteq> conns ! p * weight (ps ! i) \<or> rr_failed now (ps ! i) then s
       else
         (let q = rr_weigh (ps ! i);
              ps' = ps[i := q]
          in (ps', tot + effective_weight (ps ! i), if sint (current_weight q) > sint (current_weight (ps' ! p)) then i else p)))"

text \<open>The choice of a peer of the current group, whose counts are given; \<open>None\<close> inside is the label \<open>failed\<close>.\<close>

definition lc_pick :: "64 word \<Rightarrow> rr_peers \<Rightarrow> 64 word list \<Rightarrow> rr_peer_data \<Rightarrow> (rr_peers \<times> nat) option" where
  "lc_pick now g conns rrp =
    (case fold (lc_visit now (tried rrp) conns (peer g)) [0..<group_number g] (None, False) of
       (None, many) \<Rightarrow> None
     | (Some p, many) \<Rightarrow>
         (let (ps, tot, p) = (if many then fold (lc_many now (tried rrp) conns) [p..<group_number g] (peer g, 0, p) else (peer g, 0, p))
          in Some (g\<lparr>peer := ps[p := rr_pay now tot (ps ! p)]\<rparr>, p)))"

fun ngx_http_upstream_get_least_conn_peer ::
  "64 word \<Rightarrow> rr_peers list \<Rightarrow> 64 word list \<Rightarrow> peer_connection \<Rightarrow> least_conn_data \<Rightarrow>
   (int \<times> rr_peers list \<times> 64 word list \<times> peer_connection \<times> least_conn_data) option" where
  "ngx_http_upstream_get_least_conn_peer now [] conns pc lc = None"
| "ngx_http_upstream_get_least_conn_peer now (g # rest) conns pc lc =
    (if single g then
       map_option (\<lambda>(rc, groups, pc, rrp). (rc, groups, conns, pc, lc\<lparr>lc_rrp := rrp\<rparr>))
         (ngx_http_upstream_get_round_robin_peer now (g # rest) pc (lc_rrp lc))
     else if 64 * length (tried (lc_rrp lc)) < group_number g \<or> length conns < lc_conns lc + group_number g then None
     else
       (let pc = pc\<lparr>pc_cached := False\<rparr>;
            busy = (\<lambda>rest conns pc lc.
              Some (NGX_BUSY, g\<lparr>peer := map (fails_update (\<lambda>_. 0)) (peer g)\<rparr> # rest, conns, pc\<lparr>pc_name := Some (group_name g)\<rparr>, lc))
        in case lc_pick now g (drop (lc_conns lc) conns) (lc_rrp lc) of
             Some (g, p) \<Rightarrow>
               Some (NGX_OK, g # rest, conns[lc_conns lc + p := conns ! (lc_conns lc + p) + 1],
                 pc\<lparr>pc_sockaddr := Some (rr_sockaddr (peer g ! p)), pc_name := Some (rr_name (peer g ! p)),
                    pc_tries := (if pc_tries pc = 1 \<and> rest \<noteq> [] then pc_tries pc + of_nat (group_number (hd rest)) else pc_tries pc)\<rparr>,
                 lc\<lparr>lc_rrp := (lc_rrp lc)\<lparr>current := p, tried := rr_mark (tried (lc_rrp lc)) p\<rparr>\<rparr>)
           | None \<Rightarrow>
               (if rest = [] then busy rest conns pc lc
                else
                  (case rr_clear (group_number (hd rest)) (tried (lc_rrp lc)) of
                     None \<Rightarrow> None
                   | Some t \<Rightarrow>
                       (case ngx_http_upstream_get_least_conn_peer now rest conns (pc\<lparr>pc_tries := of_nat (group_number (hd rest))\<rparr>)
                               \<lparr>lc_rrp = (lc_rrp lc)\<lparr>rrp_peers := rrp_peers (lc_rrp lc) + 1, tried := t\<rparr>,
                                lc_conns = lc_conns lc + group_number g\<rparr> of
                          None \<Rightarrow> None
                        | Some (rc, rest, conns, pc, lc) \<Rightarrow>
                            if rc \<noteq> NGX_BUSY then Some (rc, g # rest, conns, pc, lc) else busy rest conns pc lc)))))"

definition ngx_http_upstream_free_least_conn_peer ::
  "64 word \<Rightarrow> 64 word \<Rightarrow> rr_peers list \<Rightarrow> 64 word list \<Rightarrow> peer_connection \<Rightarrow> least_conn_data \<Rightarrow>
   (rr_peers list \<times> 64 word list \<times> peer_connection) option" where
  "ngx_http_upstream_free_least_conn_peer now state groups conns pc lc =
    (if \<not> rrp_peers (lc_rrp lc) < length groups then None
     else
       (let i = lc_conns lc + current (lc_rrp lc);
            conns' = (if single (groups ! rrp_peers (lc_rrp lc)) then Some conns
                      else if i < length conns then Some (conns[i := conns ! i - 1]) else None)
        in case conns' of
             None \<Rightarrow> None
           | Some conns \<Rightarrow>
               map_option (\<lambda>(groups, pc). (groups, conns, pc))
                 (ngx_http_upstream_free_round_robin_peer now state groups pc (lc_rrp lc))))"

end
