(* ===== verification/Round_Robin_Correct.thy ===== *)
theory Round_Robin_Correct
  imports Upstream_Balancers
begin

text \<open>
The round robin keeps its weights in order under any interleaving of requests, and in every full
  turn serves each live peer exactly as often as its weight says.
\<close>

section \<open>Weights\<close>

text \<open>
  The effective weight of a peer lies between zero and its weight; the current weights of a group
  sum up to zero.
\<close>

definition peer_ok :: "rr_peer \<Rightarrow> bool" where
  "peer_ok p \<longleftrightarrow> 0 \<le> sint (effective_weight p) \<and> sint (effective_weight p) \<le> sint (weight p)"

definition weight_sum :: "rr_peer list \<Rightarrow> 64 word" where
  "weight_sum ps = sum_list (map current_weight ps)"

lemma weight_sum_update: "i < length ps \<Longrightarrow> weight_sum (ps[i := p]) = weight_sum ps - current_weight (ps ! i) + current_weight p"
  by (induction ps arbitrary: i) (auto simp: weight_sum_def split: nat.splits)

lemma weigh_ok: "peer_ok p \<Longrightarrow> peer_ok (rr_weigh p)"
proof -
  assume p: "peer_ok p"
  show ?thesis
  proof (cases "sint (effective_weight p) < sint (weight p)")
    case True
    then have "sint (effective_weight p + 1) = sint (effective_weight p) + 1"
      using p sint_bounds(1) [of "weight p"] by (subst sint_add_64) (auto simp: peer_ok_def)
    then show ?thesis using True p by (simp add: rr_weigh_def peer_ok_def)
  next
    case False
    then show ?thesis using p by (simp add: rr_weigh_def peer_ok_def)
  qed
qed

lemma div_nonneg: "0 \<le> sint x \<Longrightarrow> 0 \<le> sint (x div y) \<and> sint (x div y) \<le> sint x" for x y :: "64 word"
proof -
  assume x: "0 \<le> sint x"
  have "uint (word_of_int (sint x) :: 64 word) = sint x" unfolding uint_word_of_int using x sint_bounds(1) [of x] by simp
  then have u: "sint x = uint x" by simp
  have "unat (x div y) \<le> unat x" by (simp add: unat_div div_le_dividend)
  then have le: "uint (x div y) \<le> uint x" by (simp only: uint_nat of_nat_le_iff)
  have "uint x < 2 ^ 63" using sint_bounds(1) [of x] u by simp
  then have "sint (x div y) = uint (x div y)"
    using le sint_in_range [of "uint (x div y)"] uint_ge_0 [of "x div y"] by (simp del: uint_ge_0)
  with le u show ?thesis by simp
qed

lemma free_ok: "peer_ok p \<Longrightarrow> peer_ok (rr_free now state p)"
proof -
  assume p: "peer_ok p"
  then have w: "0 \<le> sint (weight p)" by (simp add: peer_ok_def)
  have "sint (effective_weight p - weight p div max_fails p) = sint (effective_weight p) - sint (weight p div max_fails p)"
    using p div_nonneg [OF w, of "max_fails p"] sint_bounds(1) [of "weight p"] by (intro sint_diff_64) (auto simp: peer_ok_def)
  then show ?thesis using p div_nonneg [OF w, of "max_fails p"] w by (auto simp: rr_free_def peer_ok_def Let_def)
qed

lemma free_weight: "current_weight (rr_free now state p) = current_weight p"
  by (simp add: rr_free_def Let_def)

lemma pay_ok: "peer_ok (rr_pay now tot p) = peer_ok p"
  by (simp add: rr_pay_def peer_ok_def)

section \<open>The loop\<close>

text \<open>What the loop keeps: the weights taken from the peers are in \<open>total\<close>, and \<open>best\<close> is one of them.\<close>

definition visit_inv :: "nat \<Rightarrow> 64 word \<Rightarrow> rr_peer list \<times> 64 word \<times> nat option \<Rightarrow> bool" where
  "visit_inv n w s \<longleftrightarrow>
    (case s of (ps, tot, best) \<Rightarrow>
       length ps = n \<and> weight_sum ps = w + tot \<and> (\<forall>p \<in> set ps. peer_ok p) \<and> (\<forall>b. best = Some b \<longrightarrow> b < n) \<and>
       (best = None \<longrightarrow> tot = 0))"

lemma visit_keeps: "visit_inv n w s \<Longrightarrow> i < n \<Longrightarrow> visit_inv n w (rr_visit now t i s)"
proof -
  assume s: "visit_inv n w s" and i: "i < n"
  obtain ps tot best where e: "s = (ps, tot, best)" by (cases s)
  have len: "i < length ps" and ok: "peer_ok (ps ! i)" using s i e by (auto simp: visit_inv_def)
  have "\<forall>p \<in> set (ps[i := rr_weigh (ps ! i)]). peer_ok p"
    using s e weigh_ok [OF ok] set_update_subset_insert [of ps i "rr_weigh (ps ! i)"] by (auto simp: visit_inv_def)
  moreover have "weight_sum (ps[i := rr_weigh (ps ! i)]) = weight_sum ps + effective_weight (ps ! i)"
    using weight_sum_update [OF len] by (simp add: rr_weigh_def)
  ultimately show ?thesis using s i e by (auto simp: rr_visit_def visit_inv_def Let_def)
qed

lemma visit_fold: "visit_inv n w s \<Longrightarrow> set is \<subseteq> {..<n} \<Longrightarrow> visit_inv n w (fold (rr_visit now t) is s)"
  by (induction "is" arbitrary: s) (simp_all add: visit_keeps)

text \<open>A group whose weights are in order and that has a peer if it is marked as \<open>single\<close>.\<close>

definition group_ok :: "rr_peers \<Rightarrow> bool" where
  "group_ok g \<longleftrightarrow> (\<forall>p \<in> set (peer g). peer_ok p) \<and> weight_sum (peer g) = 0 \<and> (single g \<longrightarrow> peer g \<noteq> [])"

lemma get_peer_ok:
  assumes "group_ok g" "group_number g \<le> 64 * length (tried rrp)"
  shows "\<exists>r ps rrp'. ngx_http_upstream_get_peer now g rrp = Some (r, g\<lparr>peer := ps\<rparr>, rrp') \<and> group_ok (g\<lparr>peer := ps\<rparr>) \<and>
    length ps = group_number g \<and> length (tried rrp') = length (tried rrp) \<and> rrp_peers rrp' = rrp_peers rrp \<and>
    (\<forall>i. r = Some i \<longrightarrow> i < group_number g \<and> current rrp' = i)"
proof -
  obtain ps tot best where f: "fold (rr_visit now (tried rrp)) [0..<group_number g] (peer g, 0, None) = (ps, tot, best)"
    by (metis prod_cases3)
  have "visit_inv (group_number g) 0 (peer g, 0, None)" using assms(1) by (auto simp: visit_inv_def group_ok_def)
  then have v: "visit_inv (group_number g) 0 (ps, tot, best)" using visit_fold [of _ _ _ "[0..<group_number g]"] f by (metis atLeast_upt order_refl)
  have ne: "single g \<longrightarrow> ps \<noteq> []" using v assms(1) by (auto simp: visit_inv_def group_ok_def)
  show ?thesis
  proof (cases best)
    case None
    then show ?thesis using v f assms(2) ne by (auto simp: ngx_http_upstream_get_peer_def visit_inv_def group_ok_def)
  next
    case (Some b)
    have b: "b < length ps" using v Some by (simp add: visit_inv_def)
    have "\<forall>p \<in> set (ps[b := rr_pay now tot (ps ! b)]). peer_ok p"
      using v b set_update_subset_insert [of ps b "rr_pay now tot (ps ! b)"] by (auto simp: visit_inv_def pay_ok)
    moreover have "weight_sum (ps[b := rr_pay now tot (ps ! b)]) = 0"
      using v weight_sum_update [OF b] by (simp add: visit_inv_def rr_pay_def)
    ultimately show ?thesis using v f assms(2) ne Some b
      by (auto simp: ngx_http_upstream_get_peer_def visit_inv_def group_ok_def rr_mark_def)
  qed
qed

section \<open>Requests\<close>

lemma pick_ok:
  assumes "group_ok g" "group_number g \<le> 64 * length (tried rrp)"
  shows "\<exists>r ps rrp'. rr_pick now g rrp = Some (r, g\<lparr>peer := ps\<rparr>, rrp') \<and> group_ok (g\<lparr>peer := ps\<rparr>) \<and>
    length ps = group_number g \<and> length (tried rrp') = length (tried rrp) \<and> rrp_peers rrp' = rrp_peers rrp \<and>
    (\<forall>i. r = Some i \<longrightarrow> i < group_number g \<and> (single g \<or> current rrp' = i)) \<and> (single g \<longrightarrow> current rrp' = current rrp)"
proof (cases "single g")
  case True
  obtain p qs where "peer g = p # qs" using True assms(1) by (cases "peer g") (auto simp: group_ok_def)
  moreover have "g\<lparr>peer := peer g\<rparr> = g" by simp
  ultimately show ?thesis using True assms(1) by (intro exI [of _ "if down p then None else Some 0"] exI [of _ "peer g"]) (auto simp: rr_pick_def group_ok_def)
next
  case False
  then show ?thesis using get_peer_ok [OF assms, of now] by (auto simp: rr_pick_def)
qed

lemma fails_ok: "group_ok g \<Longrightarrow> group_ok (g\<lparr>peer := map (fails_update (\<lambda>_. 0)) (peer g)\<rparr>)"
  by (auto simp: group_ok_def weight_sum_def peer_ok_def comp_def)

lemma clear_ok: "n \<le> 64 * length t \<Longrightarrow> \<exists>t'. rr_clear n t = Some t' \<and> length t' = length t"
  by (auto simp: rr_clear_def Let_def)

text \<open>The current peer of a request is always in range, also that of a \<open>single\<close> group.\<close>

lemma get_round_robin_ok:
  assumes "\<forall>g \<in> set gs. group_ok g \<and> group_number g \<le> 64 * length (tried rrp)" "gs \<noteq> []" "current rrp = 0 \<or> \<not> single (hd gs)"
    and "\<forall>g \<in> set (tl gs). \<not> single g"
  shows "\<exists>rc gs' pc' rrp'. ngx_http_upstream_get_round_robin_peer now gs pc rrp = Some (rc, gs', pc', rrp') \<and>
    (\<forall>g \<in> set gs'. group_ok g) \<and> map (\<lambda>g. (group_number g, single g)) gs' = map (\<lambda>g. (group_number g, single g)) gs \<and>
    length (tried rrp') = length (tried rrp) \<and> rrp_peers rrp \<le> rrp_peers rrp' \<and> rrp_peers rrp' < rrp_peers rrp + length gs \<and>
    (single (gs ! (rrp_peers rrp' - rrp_peers rrp)) \<longrightarrow> current rrp' = 0) \<and>
    (rc = NGX_OK \<and> pc_sockaddr pc' \<noteq> None \<and> current rrp' < group_number (gs ! (rrp_peers rrp' - rrp_peers rrp)) \<or>
     rc = NGX_BUSY \<and> pc_sockaddr pc' = pc_sockaddr pc)"
  using assms
proof (induction gs arbitrary: pc rrp)
  case (Cons g rest)
  have g: "group_ok g" "group_number g \<le> 64 * length (tried rrp)" using Cons.prems(1) by auto
  obtain r ps rrp1 where p: "rr_pick now g rrp = Some (r, g\<lparr>peer := ps\<rparr>, rrp1)" and g': "group_ok (g\<lparr>peer := ps\<rparr>)"
    and r: "length ps = group_number g" "length (tried rrp1) = length (tried rrp)" "rrp_peers rrp1 = rrp_peers rrp"
    and i: "\<forall>i. r = Some i \<longrightarrow> i < group_number g \<and> (single g \<or> current rrp1 = i)" and s: "single g \<longrightarrow> current rrp1 = current rrp"
    using pick_ok [OF g, of now] by blast
  have s0: "single g \<longrightarrow> current rrp1 = 0" using s Cons.prems(3) by auto
  show ?case
  proof (cases r)
    case (Some i)
    then show ?thesis using p g' r i s0 Cons.prems(1) by (auto simp: Let_def)
  next
    case None
    show ?thesis
    proof (cases "rest = []")
      case True
      then show ?thesis using p None g' r s0 fails_ok [OF g'] by (auto simp: Let_def)
    next
      case False
      let ?h = "hd rest"
      have h: "?h \<in> set rest" using False by simp
      then have "group_number ?h \<le> 64 * length (tried rrp1)" using Cons.prems(1) r(2) by simp
      then obtain t where t: "rr_clear (group_number ?h) (tried rrp1) = Some t" "length t = length (tried rrp1)" using clear_ok by blast
      let ?rrp = "rrp1\<lparr>rrp_peers := rrp_peers rrp1 + 1, tried := t\<rparr>"
      let ?pc = "pc\<lparr>pc_cached := False, pc_tries := of_nat (group_number ?h)\<rparr>"
      have "\<forall>g \<in> set rest. group_ok g \<and> group_number g \<le> 64 * length (tried ?rrp)" "current ?rrp = 0 \<or> \<not> single (hd rest)" "\<forall>g \<in> set (tl rest). \<not> single g"
        using Cons.prems(1,4) t(2) r(2) h False by (auto dest: list.set_sel(2))
      from Cons.IH [OF this(1) False this(2,3), of ?pc] obtain rc gs' pc' rrp' where
        e: "ngx_http_upstream_get_round_robin_peer now rest ?pc ?rrp = Some (rc, gs', pc', rrp')"
        and k: "\<forall>g \<in> set gs'. group_ok g" "map (\<lambda>g. (group_number g, single g)) gs' = map (\<lambda>g. (group_number g, single g)) rest"
          "length (tried rrp') = length t" "rrp_peers rrp1 + 1 \<le> rrp_peers rrp'" "rrp_peers rrp' < rrp_peers rrp1 + 1 + length rest"
          "single (rest ! (rrp_peers rrp' - (rrp_peers rrp1 + 1))) \<longrightarrow> current rrp' = 0"
        and c: "rc = NGX_OK \<and> pc_sockaddr pc' \<noteq> None \<and> current rrp' < group_number (rest ! (rrp_peers rrp' - (rrp_peers rrp1 + 1))) \<or>
          rc = NGX_BUSY \<and> pc_sockaddr pc' = pc_sockaddr ?pc"
        by auto
      have n: "(g # rest) ! (rrp_peers rrp' - rrp_peers rrp) = rest ! (rrp_peers rrp' - (rrp_peers rrp1 + 1))"
        using k(4) r(3) by (simp add: nth_Cons')
      have "ngx_http_upstream_get_round_robin_peer now (g # rest) pc rrp =
          (if rc \<noteq> NGX_BUSY then Some (rc, g\<lparr>peer := ps\<rparr> # gs', pc', rrp')
           else Some (NGX_BUSY, g\<lparr>peer := map (fails_update (\<lambda>_. 0)) ps\<rparr> # gs', pc'\<lparr>pc_name := Some (group_name g)\<rparr>, rrp'))"
        using p None False t(1) e by (simp add: Let_def)
      then show ?thesis using k c t(2) r n g' fails_ok [OF g'] by (auto simp: NGX_BUSY_def)
    qed
  qed
qed simp

section \<open>An upstream with its requests\<close>

text \<open>
  The requests in progress share the groups of peers; each has its own state. A step is one call by
  one of them: the requests interleave in any order. \<open>get\<close> is called for a connection without an
  address, \<open>free\<close> for one that has it, and then takes it away, as \<open>ngx_http_upstream_next\<close> and
  \<open>ngx_http_upstream_finalize_request\<close> do.
\<close>

record rr_system =
  sys_groups :: "rr_peers list"
  sys_requests :: "(rr_peer_data \<times> peer_connection) list"

inductive rr_step :: "rr_system \<Rightarrow> rr_system \<Rightarrow> bool" where
  rr_start:
    "pc_sockaddr pc = None \<Longrightarrow>
     rr_step s (s\<lparr>sys_requests := sys_requests s @ [ngx_http_upstream_init_round_robin_peer (sys_groups s) pc]\<rparr>)"
| rr_get:
    "i < length (sys_requests s) \<Longrightarrow> sys_requests s ! i = (rrp, pc) \<Longrightarrow> pc_sockaddr pc = None \<Longrightarrow>
     ngx_http_upstream_get_round_robin_peer now (drop (rrp_peers rrp) (sys_groups s)) pc rrp = Some (rc, gs, pc', rrp') \<Longrightarrow>
     rr_step s (s\<lparr>sys_groups := take (rrp_peers rrp) (sys_groups s) @ gs, sys_requests := (sys_requests s)[i := (rrp', pc')]\<rparr>)"
| rr_free:
    "i < length (sys_requests s) \<Longrightarrow> sys_requests s ! i = (rrp, pc) \<Longrightarrow> pc_sockaddr pc \<noteq> None \<Longrightarrow>
     ngx_http_upstream_free_round_robin_peer now state (sys_groups s) pc rrp = Some (gs, pc') \<Longrightarrow>
     rr_step s (s\<lparr>sys_groups := gs, sys_requests := (sys_requests s)[i := (rrp, pc'\<lparr>pc_sockaddr := None\<rparr>)]\<rparr>)"

definition groups_ok :: "rr_peers list \<Rightarrow> bool" where
  "groups_ok gs \<longleftrightarrow> (\<forall>g \<in> set gs. group_ok g) \<and> (\<forall>g \<in> set (tl gs). \<not> single g) \<and> gs \<noteq> []"

definition request_ok :: "rr_peers list \<Rightarrow> rr_peer_data \<times> peer_connection \<Rightarrow> bool" where
  "request_ok gs x \<longleftrightarrow>
    (case x of (rrp, pc) \<Rightarrow>
       rrp_peers rrp < length gs \<and> (\<forall>g \<in> set gs. group_number g \<le> 64 * length (tried rrp)) \<and>
       (single (gs ! rrp_peers rrp) \<longrightarrow> current rrp = 0) \<and>
       (pc_sockaddr pc \<noteq> None \<longrightarrow> current rrp < group_number (gs ! rrp_peers rrp)))"

definition system_ok :: "rr_system \<Rightarrow> bool" where
  "system_ok s \<longleftrightarrow> groups_ok (sys_groups s) \<and> (\<forall>x \<in> set (sys_requests s). request_ok (sys_groups s) x)"

text \<open>Of the groups a request only relies on the sizes and on which of them are \<open>single\<close>.\<close>

abbreviation shape :: "rr_peers list \<Rightarrow> (nat \<times> bool) list" where
  "shape gs \<equiv> map (\<lambda>g. (group_number g, single g)) gs"

lemma shape_nth: "shape gs' = shape gs \<Longrightarrow> k < length gs \<Longrightarrow> group_number (gs' ! k) = group_number (gs ! k) \<and> single (gs' ! k) = single (gs ! k)"
  by (metis (no_types, lifting) length_map nth_map prod.inject)

lemma shape_set: "shape gs' = shape gs \<Longrightarrow> g \<in> set gs' \<Longrightarrow> \<exists>h \<in> set gs. group_number h = group_number g \<and> single h = single g"
proof -
  assume s: "shape gs' = shape gs" and "g \<in> set gs'"
  then have "(group_number g, single g) \<in> set (shape gs)" by (metis (no_types, lifting) image_eqI list.set_map)
  then show ?thesis by auto
qed

lemma shape_request: "shape gs' = shape gs \<Longrightarrow> request_ok gs x \<Longrightarrow> request_ok gs' x"
proof -
  assume s: "shape gs' = shape gs" and r: "request_ok gs x"
  have len: "length gs' = length gs" using s by (rule map_eq_imp_length_eq)
  obtain rrp pc where x: "x = (rrp, pc)" by (cases x)
  have "rrp_peers rrp < length gs" using r x by (simp add: request_ok_def)
  note n = shape_nth [OF s this]
  have "group_number g \<le> 64 * length (tried rrp)" if "g \<in> set gs'" for g
    using shape_set [OF s that] r x by (force simp: request_ok_def)
  then show ?thesis using r x n len by (auto simp: request_ok_def)
qed

lemma shape_groups:
  assumes "shape gs' = shape gs" "groups_ok gs" "\<forall>g \<in> set gs'. group_ok g"
  shows "groups_ok gs'"
proof -
  have "shape (tl gs') = shape (tl gs)" using assms(1) by (simp add: map_tl)
  then have "\<forall>g \<in> set (tl gs'). \<not> single g" using shape_set [of "tl gs'" "tl gs"] assms(2) by (fastforce simp: groups_ok_def)
  moreover have "gs' \<noteq> []" using assms(1,2) by (auto simp: groups_ok_def)
  ultimately show ?thesis using assms(3) by (simp add: groups_ok_def)
qed

lemma get_request:
  assumes "groups_ok gs" "request_ok gs (rrp, pc)"
  shows "\<exists>rc gs' pc' rrp'. ngx_http_upstream_get_round_robin_peer now (drop (rrp_peers rrp) gs) pc rrp = Some (rc, gs', pc', rrp') \<and>
    shape (take (rrp_peers rrp) gs @ gs') = shape gs \<and> groups_ok (take (rrp_peers rrp) gs @ gs') \<and>
    (pc_sockaddr pc = None \<longrightarrow> request_ok (take (rrp_peers rrp) gs @ gs') (rrp', pc'))"
proof -
  let ?k = "rrp_peers rrp"
  have k: "?k < length gs" using assms(2) by (simp add: request_ok_def)
  then have "drop ?k gs \<noteq> []" "hd (drop ?k gs) = gs ! ?k" by (simp_all add: hd_drop_conv_nth)
  moreover have "set (tl (drop ?k gs)) \<subseteq> set (tl gs)" by (simp add: set_drop_subset tl_drop)
  moreover have "\<forall>g \<in> set (drop ?k gs). group_ok g \<and> group_number g \<le> 64 * length (tried rrp)"
    using assms by (auto simp: groups_ok_def request_ok_def dest: in_set_dropD)
  ultimately obtain rc gs' pc' rrp' where e: "ngx_http_upstream_get_round_robin_peer now (drop ?k gs) pc rrp = Some (rc, gs', pc', rrp')"
    and r: "\<forall>g \<in> set gs'. group_ok g" "shape gs' = shape (drop ?k gs)" "length (tried rrp') = length (tried rrp)"
      "?k \<le> rrp_peers rrp'" "rrp_peers rrp' < ?k + length (drop ?k gs)"
      "single (drop ?k gs ! (rrp_peers rrp' - ?k)) \<longrightarrow> current rrp' = 0"
    and c: "rc = NGX_OK \<and> pc_sockaddr pc' \<noteq> None \<and> current rrp' < group_number (drop ?k gs ! (rrp_peers rrp' - ?k)) \<or>
      rc = NGX_BUSY \<and> pc_sockaddr pc' = pc_sockaddr pc"
    using get_round_robin_ok [of "drop ?k gs" rrp now pc] assms by (fastforce simp: groups_ok_def request_ok_def)
  let ?gs = "take ?k gs @ gs'"
  have s: "shape ?gs = shape gs" unfolding map_append r(2) by (simp only: map_append [symmetric] append_take_drop_id)
  have "\<forall>g \<in> set ?gs. group_ok g" using r(1) assms(1) by (auto simp: groups_ok_def dest: in_set_takeD)
  then have g: "groups_ok ?gs" by (rule shape_groups [OF s assms(1)])
  have k': "rrp_peers rrp' < length gs" "drop ?k gs ! (rrp_peers rrp' - ?k) = gs ! rrp_peers rrp'" using r(4,5) k by simp_all
  have "request_ok gs (rrp', pc')" if "pc_sockaddr pc = None"
    using assms(2) that r(3,6) k' c by (auto simp: request_ok_def)
  then have "pc_sockaddr pc = None \<longrightarrow> request_ok ?gs (rrp', pc')" using shape_request [OF s] by simp
  with e s g show ?thesis by (intro exI conjI)
qed


lemma free_request:
  assumes "groups_ok gs" "request_ok gs (rrp, pc)" "pc_sockaddr pc \<noteq> None"
  shows "\<exists>gs' pc'. ngx_http_upstream_free_round_robin_peer now state gs pc rrp = Some (gs', pc') \<and> shape gs' = shape gs \<and> groups_ok gs'"
proof -
  let ?g = "gs ! rrp_peers rrp"
  have k: "rrp_peers rrp < length gs" "current rrp < group_number ?g" using assms by (auto simp: request_ok_def)
  show ?thesis
  proof (cases "single ?g")
    case True
    then show ?thesis using k assms(1) by (simp add: ngx_http_upstream_free_round_robin_peer_def)
  next
    case False
    let ?ps = "(peer ?g)[current rrp := rr_free now state (peer ?g ! current rrp)]"
    let ?gs = "gs[rrp_peers rrp := ?g\<lparr>peer := ?ps\<rparr>]"
    have g: "group_ok ?g" using k(1) assms(1) by (auto simp: groups_ok_def)
    then have "peer_ok (peer ?g ! current rrp)" using k(2) by (auto simp: group_ok_def)
    note f = free_ok [OF this, of now state]
    have "\<forall>p \<in> set ?ps. peer_ok p"
      using g f set_update_subset_insert [of "peer ?g" "current rrp" "rr_free now state (peer ?g ! current rrp)"] by (auto simp: group_ok_def)
    moreover have "weight_sum ?ps = 0" using weight_sum_update [OF k(2)] g by (simp add: free_weight group_ok_def)
    ultimately have "group_ok (?g\<lparr>peer := ?ps\<rparr>)" using False by (simp add: group_ok_def)
    then have "\<forall>g \<in> set ?gs. group_ok g"
      using assms(1) set_update_subset_insert [of gs "rrp_peers rrp" "?g\<lparr>peer := ?ps\<rparr>"] by (auto simp: groups_ok_def)
    moreover have s: "shape ?gs = shape gs" using k(1) by (simp add: map_update list_update_same_conv)
    ultimately have "groups_ok ?gs" using shape_groups [OF s assms(1)] by blast
    with s False k show ?thesis by (auto simp: ngx_http_upstream_free_round_robin_peer_def Let_def)
  qed
qed

lemma init_request: "groups_ok gs \<Longrightarrow> length gs \<le> 2 \<Longrightarrow> pc_sockaddr pc = None \<Longrightarrow> request_ok gs (ngx_http_upstream_init_round_robin_peer gs pc)"
proof -
  assume g: "groups_ok gs" and l: "length gs \<le> 2" and p: "pc_sockaddr pc = None"
  have b: "n \<le> 64 * ((n + 63) div 64)" for n :: nat by presburger
  have m: "n \<le> k \<Longrightarrow> n \<le> 64 * ((k + 63) div 64)" for n k :: nat using b [of k] by simp
  consider h where "gs = [h]" | h i where "gs = [h, i]"
  proof (cases gs)
    case Nil
    then show ?thesis using g by (simp add: groups_ok_def)
  next
    case (Cons h hs)
    then show ?thesis using l that by (cases hs) auto
  qed
  then show ?thesis
  proof cases
    case 1
    then show ?thesis using p m [of "group_number h" "group_number h"] by (simp add: ngx_http_upstream_init_round_robin_peer_def request_ok_def Let_def)
  next
    case 2
    then show ?thesis using p m [of "group_number h" "group_number h"] m [of "group_number i" "group_number i"]
        m [of "group_number i" "group_number h"] m [of "group_number h" "group_number i"]
      by (simp add: ngx_http_upstream_init_round_robin_peer_def request_ok_def Let_def)
  qed
qed

lemma step_ok:
  assumes "rr_step s s'" "system_ok s" "length (sys_groups s) \<le> 2"
  shows "system_ok s' \<and> shape (sys_groups s') = shape (sys_groups s)"
  using assms
proof (cases rule: rr_step.cases)
  case (rr_start pc)
  then show ?thesis using assms init_request [of "sys_groups s" pc] by (auto simp: system_ok_def)
next
  case (rr_get i rrp pc now rc gs pc' rrp')
  have r: "request_ok (sys_groups s) (rrp, pc)" using assms(2) rr_get(2,3) by (force simp: system_ok_def in_set_conv_nth)
  let ?gs = "take (rrp_peers rrp) (sys_groups s) @ gs"
  have k: "shape ?gs = shape (sys_groups s)" "groups_ok ?gs" "request_ok ?gs (rrp', pc')"
    using get_request [OF _ r, of now] assms(2) rr_get(4,5) by (auto simp: system_ok_def)
  have "\<forall>x \<in> set ((sys_requests s)[i := (rrp', pc')]). request_ok ?gs x"
    using set_update_subset_insert [of "sys_requests s" i "(rrp', pc')"] k(3) shape_request [OF k(1)] assms(2) by (auto simp: system_ok_def)
  then show ?thesis using rr_get(1) k(1,2) by (simp add: system_ok_def)
next
  case (rr_free i rrp pc now state gs pc')
  have r: "request_ok (sys_groups s) (rrp, pc)" using assms(2) rr_free(2,3) by (force simp: system_ok_def in_set_conv_nth)
  have k: "shape gs = shape (sys_groups s)" "groups_ok gs"
    using free_request [OF _ r rr_free(4), of now state] assms(2) rr_free(5) by (auto simp: system_ok_def)
  have "request_ok (sys_groups s) (rrp, pc'\<lparr>pc_sockaddr := None\<rparr>)" using r by (simp add: request_ok_def)
  then have "\<forall>x \<in> set ((sys_requests s)[i := (rrp, pc'\<lparr>pc_sockaddr := None\<rparr>)]). request_ok gs x"
    using set_update_subset_insert [of "sys_requests s" i] shape_request [OF k(1)] assms(2) by (fastforce simp: system_ok_def)
  then show ?thesis using rr_free(1) k by (simp add: system_ok_def)
qed

lemma steps_ok:
  assumes "rr_step\<^sup>*\<^sup>* s s'" "system_ok s" "length (sys_groups s) \<le> 2"
  shows "system_ok s' \<and> shape (sys_groups s') = shape (sys_groups s)"
  using assms(1)
proof induction
  case base
  then show ?case using assms by simp
next
  case (step t u)
  have "length (sys_groups t) = length (sys_groups s)" using step.IH by (metis map_eq_imp_length_eq)
  then show ?case using step_ok [OF step.hyps(2)] step.IH assms(3) by simp
qed

section \<open>From the configuration on\<close>

lemma new_peer_ok: "0 \<le> sint (us_weight s) \<Longrightarrow> peer_ok (rr_new_peer s a) \<and> current_weight (rr_new_peer s a) = 0"
  by (simp add: rr_new_peer_def peer_ok_def)

lemma new_peers_ok:
  assumes "\<forall>p \<in> set ps. peer_ok p \<and> current_weight p = 0"
  shows "(\<forall>p \<in> set ps. peer_ok p) \<and> weight_sum ps = 0"
  using assms by (induction ps) (simp_all add: weight_sum_def)

lemma group_peers_ok:
  assumes "\<forall>s \<in> set servers. 0 \<le> sint (us_weight s)"
  shows "(\<forall>p \<in> set (peer (rr_group host servers)). peer_ok p) \<and> weight_sum (peer (rr_group host servers)) = 0"
  using assms new_peer_ok by (intro new_peers_ok) (auto simp: rr_group_def Let_def)

lemma init_ok:
  assumes "ngx_http_upstream_init_round_robin host port servers resolved = Some gs"
    and "\<forall>ss. servers = Some ss \<longrightarrow> (\<forall>s \<in> set ss. 0 \<le> sint (us_weight s))"
  shows "groups_ok gs \<and> length gs \<le> 2"
proof (cases servers)
  case (Some ss)
  have p: "(\<forall>p \<in> set (peer (rr_group host (filter f ss))). peer_ok p) \<and> weight_sum (peer (rr_group host (filter f ss))) = 0" for f
    using assms(2) Some by (intro group_peers_ok) auto
  have "single (rr_group host (filter f ss)) \<longrightarrow> peer (rr_group host (filter f ss)) \<noteq> []" for f
    by (simp add: rr_group_def Let_def del: concat_eq_Nil_conv) (metis list.size(3) nat.distinct(1))
  then show ?thesis using assms(1) Some p by (auto simp: ngx_http_upstream_init_round_robin_def Let_def groups_ok_def group_ok_def split: if_splits)
next
  case None
  then obtain addrs where a: "gs = [\<lparr>total_weight = of_nat (length addrs), single = (length addrs = 1), weighted = False, group_name = host,
      peer = map (rr_new_peer
        \<lparr>us_addrs = addrs, us_weight = 1, us_max_fails = 1, us_fail_timeout = 10, us_down = False, us_backup = False\<rparr>) addrs\<rparr>]"
    using assms(1) by (auto simp: ngx_http_upstream_init_round_robin_def split: if_splits option.splits)
  have "(\<forall>p \<in> set (peer (hd gs)). peer_ok p) \<and> weight_sum (peer (hd gs)) = 0"
    unfolding a by (intro new_peers_ok) (auto simp: rr_new_peer_def peer_ok_def)
  then show ?thesis using a by (auto simp: groups_ok_def group_ok_def)
qed

section \<open>A full turn\<close>

text \<open>
  A request that is served: a fresh state, a choice, and success, which is reported without a
  failure. The list is that of the chosen peers.
\<close>

fun rr_serve :: "64 word list \<Rightarrow> rr_peers list \<Rightarrow> (nat list \<times> rr_peers list) option" where
  "rr_serve [] groups = Some ([], groups)"
| "rr_serve (now # nows) groups =
    (let (rrp, pc) = ngx_http_upstream_init_round_robin_peer groups \<lparr>pc_sockaddr = None, pc_name = None, pc_tries = 0, pc_cached = False\<rparr>
     in case ngx_http_upstream_get_round_robin_peer now groups pc rrp of
          None \<Rightarrow> None
        | Some (rc, groups, pc, rrp) \<Rightarrow>
            if rc \<noteq> NGX_OK \<or> rrp_peers rrp \<noteq> 0 then None
            else
              (case ngx_http_upstream_free_round_robin_peer now 0 groups pc rrp of
                 None \<Rightarrow> None
               | Some (groups, pc) \<Rightarrow> map_option (\<lambda>(picks, groups). (current rrp # picks, groups)) (rr_serve nows groups)))"

definition live_peer :: "rr_peer \<Rightarrow> bool" where
  "live_peer p \<longleftrightarrow> \<not> down p \<and> (max_fails p = 0 \<or> fails p < max_fails p) \<and> effective_weight p = weight p \<and> 0 < sint (weight p)"

lemma live_weigh: "live_peer p \<Longrightarrow> rr_weigh p = p\<lparr>current_weight := current_weight p + weight p\<rparr>"
  by (simp add: rr_weigh_def live_peer_def)

lemma live_keeps:
  "live_peer p \<Longrightarrow> live_peer (rr_weigh p)" "live_peer p \<Longrightarrow> live_peer (rr_pay now tot p)" "live_peer p \<Longrightarrow> live_peer (rr_free now 0 p)"
  by (auto simp: live_weigh) (auto simp: live_peer_def rr_pay_def rr_free_def word_gt_0)

lemma live_skip: "live_peer p \<Longrightarrow> \<not> rr_tried t i \<Longrightarrow> \<not> rr_skip now t i p"
  by (auto simp: live_peer_def rr_skip_def rr_failed_def)

definition best_of :: "rr_peer list \<Rightarrow> nat \<Rightarrow> nat option \<Rightarrow> bool" where
  "best_of ps m best \<longleftrightarrow>
    (case best of None \<Rightarrow> m = 0 | Some b \<Rightarrow> b < m \<and> (\<forall>j < m. sint (current_weight (rr_weigh (ps ! j))) \<le> sint (current_weight (rr_weigh (ps ! b)))))"

lemma scan_live:
  assumes "\<forall>i < length ps. live_peer (ps ! i) \<and> \<not> rr_tried t i" "m \<le> length ps"
  shows "\<exists>best. fold (rr_visit now t) [0..<m] (ps, 0, None) = (map rr_weigh (take m ps) @ drop m ps, sum_list (map weight (take m ps)), best) \<and>
    best_of ps m best"
  using assms(2)
proof (induction m)
  case 0
  then show ?case by (simp add: best_of_def)
next
  case (Suc m)
  then obtain best where f: "fold (rr_visit now t) [0..<m] (ps, 0, None) = (map rr_weigh (take m ps) @ drop m ps, sum_list (map weight (take m ps)), best)"
    and b: "best_of ps m best" by auto
  let ?qs = "map rr_weigh (take m ps) @ drop m ps"
  have m: "m < length ps" and at: "?qs ! m = ps ! m" using Suc.prems by (simp_all add: nth_append)
  have l: "live_peer (ps ! m)" "\<not> rr_tried t m" using assms(1) m by simp_all
  have u: "?qs[m := rr_weigh (ps ! m)] = map rr_weigh (take (Suc m) ps) @ drop (Suc m) ps"
    using m by (simp add: list_update_append take_Suc_conv_app_nth Cons_nth_drop_Suc [symmetric])
  have e: "effective_weight (ps ! m) = weight (ps ! m)" using l by (simp add: live_peer_def)
  have n: "?qs ! j = rr_weigh (ps ! j)" if "j < m" for j
    using that m by (simp add: nth_append)
  let ?better = "case best of None \<Rightarrow> True | Some b \<Rightarrow> sint (current_weight (rr_weigh (ps ! m))) > sint (current_weight (rr_weigh (ps ! b)))"
  have v: "rr_visit now t m (?qs, sum_list (map weight (take m ps)), best) =
      (?qs[m := rr_weigh (ps ! m)], sum_list (map weight (take m ps)) + weight (ps ! m), if ?better then Some m else best)"
    unfolding rr_visit_def prod.case at using live_skip [OF l] e n b
    by (auto simp: Let_def best_of_def split: option.splits)
  have "best_of ps (Suc m) (if ?better then Some m else best)"
    using b by (auto simp: best_of_def less_Suc_eq split: option.splits)
  moreover have "fold (rr_visit now t) [0..<Suc m] (ps, 0, None) = rr_visit now t m (fold (rr_visit now t) [0..<m] (ps, 0, None))" by simp
  ultimately show ?case unfolding f v u using m by (simp add: take_Suc_conv_app_nth)
qed

section \<open>The weights after a number of requests\<close>

text \<open>
  With \<open>W\<close> the total weight: after \<open>t\<close> requests, \<open>n\<close> of them served by a peer of weight \<open>w\<close>, its
  current weight is \<open>t w - n W\<close>, and it is above \<open>- W\<close>.
\<close>

definition fair_inv :: "int list \<Rightarrow> nat list \<Rightarrow> rr_peer list \<Rightarrow> bool" where
  "fair_inv ws picks ps \<longleftrightarrow>
    length ps = length ws \<and> set picks \<subseteq> {..<length ws} \<and>
    (\<forall>i < length ws. live_peer (ps ! i) \<and> sint (weight (ps ! i)) = ws ! i \<and> - sum_list ws < sint (current_weight (ps ! i)) \<and>
       sint (current_weight (ps ! i)) = int (length picks) * ws ! i - int (count_list picks i) * sum_list ws)"

lemma sum_ws: "sum_list ws = (\<Sum>i < length ws. ws ! i)" for ws :: "int list"
  by (simp add: sum_list_sum_nth atLeast0LessThan)

lemma fair_sum:
  assumes "fair_inv ws picks ps"
  shows "(\<Sum>i < length ws. sint (current_weight (ps ! i))) = 0"
proof -
  have "(\<Sum>i < length ws. sint (current_weight (ps ! i))) = (\<Sum>i < length ws. int (length picks) * ws ! i - int (count_list picks i) * sum_list ws)"
    using assms by (intro sum.cong) (auto simp: fair_inv_def)
  also have "\<dots> = int (length picks) * sum_list ws - int (\<Sum>i < length ws. count_list picks i) * sum_list ws"
    by (simp add: sum_subtractf sum_distrib_left [symmetric] sum_distrib_right [symmetric] sum_ws [symmetric])
  also have "(\<Sum>i < length ws. count_list picks i) = length picks" using assms by (intro sum_count_set) (auto simp: fair_inv_def)
  finally show ?thesis by simp
qed

lemma count_le_sum: "(\<forall>i < length ws. (0 :: int) < ws ! i) \<Longrightarrow> int (length ws) \<le> sum_list ws"
proof (induction ws)
  case (Cons w ws)
  have "0 < w" using Cons.prems by force
  moreover have "\<forall>i < length ws. 0 < ws ! i" using Cons.prems by force
  ultimately show ?case using Cons.IH by simp
qed simp

lemma fair_upper:
  assumes "fair_inv ws picks ps" "i < length ws" "sum_list ws < 2 ^ 31"
  shows "sint (current_weight (ps ! i)) < 2 ^ 62"
proof -
  let ?c = "\<lambda>j. sint (current_weight (ps ! j))"
  have "(\<Sum>j < length ws. ?c j) = ?c i + (\<Sum>j \<in> {..<length ws} - {i}. ?c j)" using assms(2) by (simp add: sum.remove)
  moreover have "(\<Sum>j \<in> {..<length ws} - {i}. - sum_list ws) \<le> (\<Sum>j \<in> {..<length ws} - {i}. ?c j)"
    using assms(1) by (intro sum_mono) (force simp: fair_inv_def)
  moreover have "(\<Sum>j \<in> {..<length ws} - {i}. - sum_list ws) = - ((int (length ws) - 1) * sum_list ws)"
    using assms(2) by (simp add: of_nat_diff Suc_leI)
  ultimately have u: "?c i \<le> (int (length ws) - 1) * sum_list ws" using fair_sum [OF assms(1)] by linarith
  have "\<forall>i < length ws. 0 < ws ! i" using assms(1) by (auto simp: fair_inv_def live_peer_def)
  note n = count_le_sum [OF this]
  have p: "0 < sum_list ws" using n assms(2) by simp
  have "(int (length ws) - 1) * sum_list ws < sum_list ws * sum_list ws" using n p by (intro mult_strict_right_mono) simp_all
  also have "\<dots> \<le> 2 ^ 31 * 2 ^ 31" using p assms(3) by (intro mult_mono) simp_all
  finally show ?thesis using u by simp
qed

lemma word_of_sum: "word_of_int (sum_list (map sint ws)) = (sum_list ws :: 64 word)"
  by (induction ws) simp_all

lemma pay_static: "weight (rr_pay now tot p) = weight p"
  by (simp add: rr_pay_def)

text \<open>One choice: the peer that the weights favour pays the total.\<close>

lemma fair_choice:
  assumes f: "fair_inv ws picks ps" and W: "sum_list ws < 2 ^ 31" and ne: "ws \<noteq> []"
    and t: "\<forall>i < length ws. \<not> rr_tried t i"
  shows "\<exists>qs b. fold (rr_visit now t) [0..<length ps] (ps, 0, None) = (qs, sum_list (map weight ps), Some b) \<and> b < length ws \<and>
    fair_inv ws (picks @ [b]) (qs[b := rr_pay now (sum_list (map weight ps)) (qs ! b)])"
proof -
  have len: "length ps = length ws" and live: "\<forall>i < length ps. live_peer (ps ! i) \<and> \<not> rr_tried t i"
    and pw: "\<And>i. i < length ws \<Longrightarrow> sint (weight (ps ! i)) = ws ! i \<and> 0 < ws ! i" using f t by (auto simp: fair_inv_def live_peer_def)
  let ?W = "sum_list ws"
  let ?tot = "sum_list (map weight ps)"
  obtain best where s: "fold (rr_visit now t) [0..<length ps] (ps, 0, None) = (map rr_weigh ps, ?tot, best)" and b: "best_of ps (length ps) best"
    using scan_live [OF live, of "length ps" now] by auto
  obtain b where b: "best = Some b" "b < length ws" and bmax: "\<And>j. j < length ws \<Longrightarrow> sint (current_weight (rr_weigh (ps ! j))) \<le> sint (current_weight (rr_weigh (ps ! b)))"
    using b ne len by (auto simp: best_of_def split: option.splits)
  have "\<forall>i < length ws. 0 < ws ! i" using pw by simp
  note n = count_le_sum [OF this]
  have "0 < length ws" using ne by simp
  with n have W0: "0 < ?W" by linarith
  have wle: "ws ! i \<le> ?W" if "i < length ws" for i
  proof -
    have "ws ! i \<le> (\<Sum>j < length ws. ws ! j)" using that pw by (intro member_le_sum) (auto simp: less_imp_le)
    then show ?thesis by (simp add: sum_ws)
  qed
  have c: "sint (current_weight (rr_weigh (ps ! i))) = sint (current_weight (ps ! i)) + ws ! i" if i: "i < length ws" for i
  proof -
    have "sint (current_weight (ps ! i)) < 2 ^ 62" "- ?W < sint (current_weight (ps ! i))" using fair_upper [OF f i W] f i by (auto simp: fair_inv_def)
    then show ?thesis using pw [OF i] wle [OF i] W W0 live i len by (subst live_weigh) (auto intro!: sint_add_64 [THEN trans])
  qed
  have tot: "sint ?tot = ?W"
  proof -
    have "map sint (map weight ps) = ws" using len pw by (intro nth_equalityI) auto
    then have "?tot = word_of_int ?W" using word_of_sum [of "map weight ps"] by simp
    then show ?thesis using sint_in_range [of ?W] W W0 by simp
  qed
  have pos: "0 < sint (current_weight (rr_weigh (ps ! b)))"
  proof (rule ccontr)
    assume "\<not> ?thesis"
    then have "(\<Sum>j < length ws. sint (current_weight (rr_weigh (ps ! j)))) \<le> 0" using bmax by (intro sum_nonpos) force
    moreover have "(\<Sum>j < length ws. sint (current_weight (rr_weigh (ps ! j)))) = (\<Sum>j < length ws. sint (current_weight (ps ! j))) + ?W"
      using c by (simp add: sum_ws sum.distrib)
    ultimately show False using fair_sum [OF f] W0 by simp
  qed
  let ?qs = "(map rr_weigh ps)[b := rr_pay now ?tot (rr_weigh (ps ! b))]"
  have pay: "sint (current_weight (rr_pay now ?tot (rr_weigh (ps ! b)))) = sint (current_weight (ps ! b)) + ws ! b - ?W"
    using c [OF b(2)] pos tot W W0 sint_bounds(1) [of "current_weight (rr_weigh (ps ! b))"] by (simp add: rr_pay_def) (subst sint_diff_64, auto)
  have "fair_inv ws (picks @ [b]) ?qs"
    unfolding fair_inv_def
  proof (intro conjI allI impI)
    show "length ?qs = length ws" "set (picks @ [b]) \<subseteq> {..<length ws}" using f b by (auto simp: fair_inv_def)
  next
    fix i assume i: "i < length ws"
    have q: "?qs ! i = (if i = b then rr_pay now ?tot (rr_weigh (ps ! b)) else rr_weigh (ps ! i))" using i len by (simp add: nth_list_update)
    have l: "live_peer (rr_weigh (ps ! i))" "weight (rr_weigh (ps ! i)) = weight (ps ! i)" using live_keeps(1) live i len by (simp_all add: rr_weigh_def)
    show "live_peer (?qs ! i)" "sint (weight (?qs ! i)) = ws ! i" unfolding q using l pw [OF i] by (auto simp: pay_static live_keeps(2))
    have old: "- ?W < sint (current_weight (ps ! i))"
      "sint (current_weight (ps ! i)) = int (length picks) * ws ! i - int (count_list picks i) * ?W" using f i by (auto simp: fair_inv_def)
    show "- ?W < sint (current_weight (?qs ! i))"
      unfolding q using pay pos c [OF b(2)] c [OF i] old(1) pw [OF i] by auto
    show "sint (current_weight (?qs ! i)) = int (length (picks @ [b])) * ws ! i - int (count_list (picks @ [b]) i) * ?W"
      unfolding q using pay c [OF i] old(2) by (auto simp: algebra_simps)
  qed
  then show ?thesis using s b len by auto
qed

lemma free_static: "weight (rr_free now state p) = weight p"
  by (simp add: rr_free_def Let_def)

lemma fair_free:
  assumes "fair_inv ws picks ps" "b < length ws"
  shows "fair_inv ws picks (ps[b := rr_free now 0 (ps ! b)])"
  using assms by (auto simp: fair_inv_def nth_list_update free_weight free_static live_keeps(3))

text \<open>A group with its peers; the bitmap of a fresh request is empty.\<close>

lemma init_tried:
  assumes "ngx_http_upstream_init_round_robin_peer (g # rest) pc = (rrp, pc')" "i < group_number g"
  shows "\<not> rr_tried (tried rrp) i"
proof -
  obtain k where k: "tried rrp = replicate k 0" "i div 64 < k"
  proof (cases rest)
    case Nil
    then show ?thesis using assms that [of 1] that [of "(group_number g + 63) div 64"]
      by (auto simp: ngx_http_upstream_init_round_robin_peer_def Let_def split: if_splits)
  next
    case (Cons h hs)
    then show ?thesis using assms that [of 1] that [of "(group_number g + 63) div 64"] that [of "(group_number h + 63) div 64"]
      by (auto simp: ngx_http_upstream_init_round_robin_peer_def Let_def split: if_splits)
  qed
  then show ?thesis by (simp add: rr_tried_def)
qed

lemma serve_step:
  assumes f: "fair_inv ws picks (peer g)" and W: "sum_list ws < 2 ^ 31" and ne: "ws \<noteq> []" and s: "\<not> single g"
  shows "\<exists>b ps. rr_serve (now # nows) (g # rest) = map_option (\<lambda>(picks, groups). (b # picks, groups)) (rr_serve nows (g\<lparr>peer := ps\<rparr> # rest)) \<and>
    b < length ws \<and> fair_inv ws (picks @ [b]) ps"
proof -
  let ?pc = "\<lparr>pc_sockaddr = None, pc_name = None, pc_tries = 0, pc_cached = False\<rparr>"
  obtain rrp pc where i: "ngx_http_upstream_init_round_robin_peer (g # rest) ?pc = (rrp, pc)" by fastforce
  have len: "group_number g = length ws" using f by (simp add: fair_inv_def)
  have t: "\<forall>i < length ws. \<not> rr_tried (tried rrp) i" using init_tried [OF i] len by simp
  obtain qs b where q: "fold (rr_visit now (tried rrp)) [0..<length (peer g)] (peer g, 0, None) = (qs, sum_list (map weight (peer g)), Some b)"
    "b < length ws" "fair_inv ws (picks @ [b]) (qs[b := rr_pay now (sum_list (map weight (peer g))) (qs ! b)])"
    using fair_choice [OF f W ne t] by blast
  let ?ps = "qs[b := rr_pay now (sum_list (map weight (peer g))) (qs ! b)]"
  have room: "group_number g \<le> 64 * length (tried rrp)" and k: "rrp_peers rrp = 0"
    using i by (auto simp: ngx_http_upstream_init_round_robin_peer_def Let_def split: if_splits list.splits)
  have l: "length qs = length ws" using q(3) by (simp add: fair_inv_def)
  have "rr_serve (now # nows) (g # rest) = map_option (\<lambda>(picks, groups). (b # picks, groups))
      (rr_serve nows (g\<lparr>peer := ?ps[b := rr_free now 0 (?ps ! b)]\<rparr> # rest))"
    using i room k s q(1,2) l
    by (simp add: rr_pick_def ngx_http_upstream_get_peer_def ngx_http_upstream_free_round_robin_peer_def Let_def split: prod.splits)
  then show ?thesis using q(2) fair_free [OF q(3,2), of now] by blast
qed

lemma serve_fair:
  assumes "fair_inv ws picks (peer g)" "sum_list ws < 2 ^ 31" "ws \<noteq> []" "\<not> single g"
  shows "\<exists>ps more. rr_serve nows (g # rest) = Some (more, g\<lparr>peer := ps\<rparr> # rest) \<and> length more = length nows \<and> fair_inv ws (picks @ more) ps"
  using assms
proof (induction nows arbitrary: picks g)
  case Nil
  then show ?case by (intro exI [of _ "peer g"] exI [of _ "[]"]) simp
next
  case (Cons now nows)
  obtain b ps where s: "rr_serve (now # nows) (g # rest) = map_option (\<lambda>(picks, groups). (b # picks, groups)) (rr_serve nows (g\<lparr>peer := ps\<rparr> # rest))"
    and f: "fair_inv ws (picks @ [b]) ps" using serve_step [OF Cons.prems] by blast
  from Cons.IH [of "picks @ [b]" "g\<lparr>peer := ps\<rparr>"] f Cons.prems obtain ps' more where
    "rr_serve nows (g\<lparr>peer := ps\<rparr> # rest) = Some (more, g\<lparr>peer := ps'\<rparr> # rest)" "length more = length nows" "fair_inv ws ((picks @ [b]) @ more) ps'"
    by auto
  then show ?case using s by (intro exI [of _ ps'] exI [of _ "b # more"]) simp
qed

section \<open>Properties\<close>

text \<open>
  Claim C4: However the requests to an upstream interleave, and whether their peers fail or not, the
  current weights of a group sum up to zero, every effective weight stays between zero and the weight
  of its peer, and no choice or release of a peer accesses the peers or the bitmap out of bounds.
\<close>
theorem round_robin_invariant:
  assumes "ngx_http_upstream_init_round_robin host port servers resolved = Some gs"
    and "\<forall>ss. servers = Some ss \<longrightarrow> (\<forall>s \<in> set ss. 0 \<le> sint (us_weight s))"
    and "rr_step\<^sup>*\<^sup>* \<lparr>sys_groups = gs, sys_requests = []\<rparr> s"
  shows "(\<forall>g \<in> set (sys_groups s).
       sum_list (map current_weight (peer g)) = 0 \<and>
       (\<forall>p \<in> set (peer g). 0 \<le> sint (effective_weight p) \<and> sint (effective_weight p) \<le> sint (weight p))) \<and>
     (\<forall>(rrp, pc) \<in> set (sys_requests s). \<forall>now.
       ngx_http_upstream_get_round_robin_peer now (drop (rrp_peers rrp) (sys_groups s)) pc rrp \<noteq> None \<and>
       (pc_sockaddr pc \<noteq> None \<longrightarrow> (\<forall>state. ngx_http_upstream_free_round_robin_peer now state (sys_groups s) pc rrp \<noteq> None)))"
proof -
  have "system_ok s"
    using steps_ok [OF assms(3)] init_ok [OF assms(1,2)] by (simp add: system_ok_def)
  then have g: "groups_ok (sys_groups s)" and r: "\<And>rrp pc. (rrp, pc) \<in> set (sys_requests s) \<Longrightarrow> request_ok (sys_groups s) (rrp, pc)"
    by (auto simp: system_ok_def)
  have "sum_list (map current_weight (peer h)) = 0 \<and> (\<forall>p \<in> set (peer h). 0 \<le> sint (effective_weight p) \<and> sint (effective_weight p) \<le> sint (weight p))"
    if "h \<in> set (sys_groups s)" for h
    using g that by (auto simp: groups_ok_def group_ok_def weight_sum_def peer_ok_def)
  moreover have "ngx_http_upstream_get_round_robin_peer now (drop (rrp_peers rrp) (sys_groups s)) pc rrp \<noteq> None"
    "pc_sockaddr pc \<noteq> None \<longrightarrow> ngx_http_upstream_free_round_robin_peer now state (sys_groups s) pc rrp \<noteq> None"
    if "(rrp, pc) \<in> set (sys_requests s)" for rrp pc now state
    using get_request [OF g r [OF that], of now] free_request [OF g r [OF that], of now state] by auto
  ultimately show ?thesis by blast
qed

text \<open>
  Claim C2: When the peers of an upstream are up, requests that succeed are spread by weight without
  exception: in every run of as many turns as the weights sum up to, each peer, whatever its weight,
  serves as many requests as its weight says.
\<close>
theorem round_robin_fair:
  assumes "\<not> single g" "\<forall>p \<in> set (peer g). live_peer p \<and> current_weight p = 0"
    and "(\<Sum>p \<leftarrow> peer g. sint (weight p)) < 2 ^ 31" "int (length nows) = int k * (\<Sum>p \<leftarrow> peer g. sint (weight p))"
  shows "\<exists>picks g'. rr_serve nows (g # rest) = Some (picks, g' # rest) \<and> length picks = length nows \<and>
     (\<forall>i < length (peer g). int (count_list picks i) = int k * sint (weight (peer g ! i)))"
proof (cases "peer g = []")
  case True
  then show ?thesis using assms(4) by simp
next
  case False
  let ?ws = "map (\<lambda>p. sint (weight p)) (peer g)"
  let ?W = "sum_list ?ws"
  have pos: "\<forall>i < length ?ws. 0 < ?ws ! i" using assms(2) by (auto simp: live_peer_def)
  have "0 < length ?ws" using False by simp
  with count_le_sum [OF pos] have W: "0 < ?W" by linarith
  have "fair_inv ?ws [] (peer g)" using assms(2) W by (auto simp: fair_inv_def)
  then obtain ps more where s: "rr_serve nows (g # rest) = Some (more, g\<lparr>peer := ps\<rparr> # rest)" "length more = length nows" "fair_inv ?ws more ps"
    using serve_fair [of ?ws "[]" g nows rest] assms(1,3) False by auto
  let ?n = "length ?ws"
  have le: "int (count_list more i) \<le> int k * ?ws ! i" if i: "i < ?n" for i
  proof (rule ccontr)
    assume "\<not> ?thesis"
    then have "(int k * ?ws ! i + 1) * ?W \<le> int (count_list more i) * ?W" using W by (intro mult_right_mono) simp_all
    moreover have "- ?W < int (length more) * ?ws ! i - int (count_list more i) * ?W" using s(3) i by (auto simp: fair_inv_def)
    moreover have "int (length more) * ?ws ! i = int k * ?ws ! i * ?W" using s(2) assms(4) by simp
    ultimately show False by (simp add: algebra_simps)
  qed
  have "(\<Sum>i < ?n. count_list more i) = length more" using s(3) by (intro sum_count_set) (auto simp: fair_inv_def)
  then have "(\<Sum>i < ?n. int (count_list more i)) = int k * ?W" using s(2) assms(4) by (metis of_nat_sum)
  also have "\<dots> = (\<Sum>i < ?n. int k * ?ws ! i)" by (simp add: sum_ws sum_distrib_left)
  finally have "int (count_list more i) = int k * ?ws ! i" if "i < ?n" for i
    using sum_mono_inv [of "\<lambda>i. int (count_list more i)" "{..<?n}" "\<lambda>i. int k * ?ws ! i" i] le that by auto
  then show ?thesis using s(1,2) by simp
qed

definition ex_server :: us_server where
  "ex_server = \<lparr>us_addrs = [(ascii ''a'', ascii ''A''), (ascii ''b'', ascii ''B'')], us_weight = 2, us_max_fails = 1, us_fail_timeout = 10,
     us_down = False, us_backup = False\<rparr>"

theorem round_robin_invariant_witness:
  "\<exists>gs x. ngx_http_upstream_init_round_robin (ascii ''h'') 0 (Some [ex_server]) None = Some gs \<and>
     rr_step\<^sup>*\<^sup>* \<lparr>sys_groups = gs, sys_requests = []\<rparr> \<lparr>sys_groups = gs, sys_requests = [x]\<rparr> \<and>
     sum_list (map current_weight (peer (hd gs))) = 0"
proof -
  define gs where "gs = [rr_group (ascii ''h'') [ex_server]]"
  define x where "x = ngx_http_upstream_init_round_robin_peer gs \<lparr>pc_sockaddr = None, pc_name = None, pc_tries = 0, pc_cached = False\<rparr>"
  have i: "ngx_http_upstream_init_round_robin (ascii ''h'') 0 (Some [ex_server]) None = Some gs"
    by (simp add: ngx_http_upstream_init_round_robin_def gs_def ex_server_def rr_group_def)
  have "rr_step \<lparr>sys_groups = gs, sys_requests = []\<rparr> \<lparr>sys_groups = gs, sys_requests = [x]\<rparr>"
    using rr_start [of "\<lparr>pc_sockaddr = None, pc_name = None, pc_tries = 0, pc_cached = False\<rparr>" "\<lparr>sys_groups = gs, sys_requests = []\<rparr>"]
    by (simp add: x_def)
  then have s: "rr_step\<^sup>*\<^sup>* \<lparr>sys_groups = gs, sys_requests = []\<rparr> \<lparr>sys_groups = gs, sys_requests = [x]\<rparr>" by simp
  have "sum_list (map current_weight (peer (hd gs))) = 0"
    using round_robin_invariant [OF i _ s] by (simp add: ex_server_def gs_def)
  with i s show ?thesis by blast
qed

definition ex_group :: rr_peers where
  "ex_group = rr_group (ascii ''h'') [ex_server, ex_server\<lparr>us_addrs := [(ascii ''c'', ascii ''C'')], us_weight := 1\<rparr>]"

theorem round_robin_fair_witness:
  "\<exists>picks g'. rr_serve [0, 0, 1, 1, 2] [ex_group] = Some (picks, [g']) \<and> count_list picks 0 = 2 \<and> count_list picks 2 = 1"
proof -
  have "\<forall>p \<in> set (peer ex_group). live_peer p \<and> current_weight p = 0" "\<not> single ex_group" "map (\<lambda>p. sint (weight p)) (peer ex_group) = [2, 2, 1]"
    by (simp_all add: ex_group_def rr_group_def ex_server_def rr_new_peer_def live_peer_def)
  note w = this
  then have "length (peer ex_group) = 3" by (metis length_map list.size(3,4) numeral_3_eq_3 One_nat_def plus_1_eq_Suc add.commute)
  moreover from w obtain picks g' where "rr_serve [0, 0, 1, 1, 2] [ex_group] = Some (picks, [g'])"
    "\<forall>i < length (peer ex_group). int (count_list picks i) = int 1 * sint (weight (peer ex_group ! i))"
    using round_robin_fair [of ex_group "[0, 0, 1, 1, 2]" 1 "[]"] by auto
  moreover have "sint (weight (peer ex_group ! 0)) = 2" "sint (weight (peer ex_group ! 2)) = 1"
    by (simp_all add: ex_group_def rr_group_def ex_server_def rr_new_peer_def)
  ultimately have "rr_serve [0, 0, 1, 1, 2] [ex_group] = Some (picks, [g'])" "int (count_list picks 0) = 2" "int (count_list picks 2) = 1" by fastforce+
  then show ?thesis by auto
qed

end
