(* ===== verification/Least_Conn_Correct.thy ===== *)
theory Least_Conn_Correct
  imports Round_Robin_Correct
begin

text \<open>
The choice of \<open>least_conn\<close> has the least number of connections for its weight.
\<close>

section \<open>The least number of connections\<close>

lemma ratio_trans:
  fixes a b c u v w :: nat
  assumes "a * v \<le> b * u" "b * w \<le> c * v" "0 < v"
  shows "a * w \<le> c * u"
proof -
  have "v * (a * w) \<le> w * (b * u)" using mult_le_mono1 [OF assms(1), of w] by (simp add: ac_simps)
  also have "\<dots> \<le> u * (c * v)" using mult_le_mono1 [OF assms(2), of u] by (simp add: ac_simps)
  finally show ?thesis using assms(3) by (simp add: ac_simps)
qed

text \<open>
  The connections of each peer relative to its weight; the products are compared as they are when
  they do not wrap around.
\<close>

definition no_wrap :: "64 word list \<Rightarrow> rr_peer list \<Rightarrow> bool" where
  "no_wrap conns ps \<longleftrightarrow> (\<forall>i < length ps. \<forall>j < length ps. unat (conns ! i) * unat (weight (ps ! j)) < 2 ^ 64) \<and> (\<forall>p \<in> set ps. 0 < weight p)"

definition least :: "64 word \<Rightarrow> 64 word list \<Rightarrow> 64 word list \<Rightarrow> rr_peer list \<Rightarrow> nat \<Rightarrow> nat \<Rightarrow> bool" where
  "least now t conns ps m p \<longleftrightarrow>
    p < length ps \<and> \<not> rr_skip now t p (ps ! p) \<and>
    (\<forall>i < m. \<not> rr_skip now t i (ps ! i) \<longrightarrow> unat (conns ! p) * unat (weight (ps ! i)) \<le> unat (conns ! i) * unat (weight (ps ! p)))"

lemma unat_product: "no_wrap conns ps \<Longrightarrow> i < length ps \<Longrightarrow> j < length ps \<Longrightarrow> unat (conns ! i * weight (ps ! j)) = unat (conns ! i) * unat (weight (ps ! j))"
  by (simp add: no_wrap_def unat_mult_lem [THEN iffD1])

lemma weight_pos: "no_wrap conns ps \<Longrightarrow> i < length ps \<Longrightarrow> 0 < unat (weight (ps ! i))"
  by (simp add: no_wrap_def unat_gt_0 word_gt_0)

lemma least_change:
  assumes "least now t conns ps m p" "no_wrap conns ps" "i < length ps" "\<not> rr_skip now t i (ps ! i)"
    and "unat (conns ! i) * unat (weight (ps ! p)) \<le> unat (conns ! p) * unat (weight (ps ! i))"
  shows "least now t conns ps m i"
  using assms ratio_trans [OF assms(5)] weight_pos [OF assms(2)] by (auto simp: least_def)

lemma lc_first:
  assumes "no_wrap conns ps" "m \<le> length ps"
  shows "case fold (lc_visit now t conns ps) [0..<m] (None, False) of
      (None, many) \<Rightarrow> (\<forall>i < m. rr_skip now t i (ps ! i))
    | (Some p, many) \<Rightarrow> least now t conns ps m p"
  using assms(2)
proof (induction m)
  case (Suc m)
  obtain best many where f: "fold (lc_visit now t conns ps) [0..<m] (None, False) = (best, many)" by (cases "fold (lc_visit now t conns ps) [0..<m] (None, False)")
  have step: "fold (lc_visit now t conns ps) [0..<Suc m] (None, False) = lc_visit now t conns ps m (best, many)" using f by simp
  have m: "m < length ps" using Suc.prems by simp
  have ih: "case best of None \<Rightarrow> (\<forall>i < m. rr_skip now t i (ps ! i)) | Some p \<Rightarrow> least now t conns ps m p"
    using Suc.IH m f by simp
  show ?case
  proof (cases "rr_skip now t m (ps ! m)")
    case True
    then have "lc_visit now t conns ps m (best, many) = (best, many)" by (simp add: lc_visit_def)
    then show ?thesis using ih True unfolding step by (auto simp: least_def less_Suc_eq split: option.splits)
  next
    case False
    show ?thesis
    proof (cases best)
      case None
      then have "lc_visit now t conns ps m (best, many) = (Some m, False)" using False by (simp add: lc_visit_def)
      then show ?thesis using ih False m None unfolding step by (auto simp: least_def less_Suc_eq)
    next
      case (Some p)
      then have l: "least now t conns ps m p" using ih by simp
      then have p: "p < length ps" by (simp add: least_def)
      note u = unat_product [OF assms(1) m p] unat_product [OF assms(1) p m]
      show ?thesis
      proof (cases "conns ! m * weight (ps ! p) < conns ! p * weight (ps ! m)")
        case True
        then have "least now t conns ps m m" using least_change [OF l assms(1) m False] u by (simp add: word_less_nat_alt)
        moreover have "lc_visit now t conns ps m (best, many) = (Some m, False)" using True False Some by (simp add: lc_visit_def)
        ultimately show ?thesis unfolding step by (auto simp: least_def less_Suc_eq)
      next
        case le: False
        then have "unat (conns ! p) * unat (weight (ps ! m)) \<le> unat (conns ! m) * unat (weight (ps ! p))" using u by (simp add: word_less_nat_alt)
        moreover have "\<exists>many'. lc_visit now t conns ps m (best, many) = (Some p, many')" using le False Some by (auto simp: lc_visit_def)
        ultimately show ?thesis using l unfolding step by (auto simp: least_def less_Suc_eq)
      qed
    qed
  qed
qed simp

text \<open>The second loop changes the weights the round robin uses, and nothing the comparison reads.\<close>

definition same_peer :: "rr_peer \<Rightarrow> rr_peer \<Rightarrow> bool" where
  "same_peer p q \<longleftrightarrow> (\<exists>c e. q = p\<lparr>current_weight := c, effective_weight := e\<rparr>)"

lemma same_skip: "same_peer p q \<Longrightarrow> rr_skip now t i q = rr_skip now t i p \<and> weight q = weight p \<and> down q = down p \<and> rr_failed now q = rr_failed now p"
  by (auto simp: same_peer_def rr_skip_def rr_failed_def)

lemma same_weigh: "same_peer p q \<Longrightarrow> same_peer p (rr_weigh q)"
  unfolding same_peer_def rr_weigh_def by (elim exE) (simp, blast)

lemma lc_second:
  assumes "no_wrap conns ps" "set is \<subseteq> {..<length ps}" "list_all2 same_peer ps qs" "least now t conns ps (length ps) p"
    and "fold (lc_many now t conns) is (qs, tot, p) = (qs', tot', p')"
  shows "list_all2 same_peer ps qs' \<and> least now t conns ps (length ps) p'"
  using assms(2-5)
proof (induction "is" arbitrary: qs tot p)
  case (Cons i "is")
  have i: "i < length ps" and p: "p < length ps" and len: "length qs = length ps"
    using Cons.prems by (auto simp: least_def dest: list_all2_lengthD)
  have same: "same_peer (ps ! i) (qs ! i)" "same_peer (ps ! p) (qs ! p)" using Cons.prems(2) i p by (auto dest: list_all2_nthD)
  note k = same_skip [OF same(1), of now t i] same_skip [OF same(2), of now t p]
  show ?case
  proof (cases "rr_tried t i \<or> down (qs ! i) \<or> conns ! i * weight (qs ! p) \<noteq> conns ! p * weight (qs ! i) \<or> rr_failed now (qs ! i)")
    case True
    then have "lc_many now t conns i (qs, tot, p) = (qs, tot, p)" by (simp add: lc_many_def)
    then show ?thesis using Cons by simp
  next
    case False
    obtain tot1 p1 where e: "lc_many now t conns i (qs, tot, p) = (qs[i := rr_weigh (qs ! i)], tot1, p1)" "p1 = i \<or> p1 = p"
      using False by (auto simp: lc_many_def Let_def)
    have s: "list_all2 same_peer ps (qs[i := rr_weigh (qs ! i)])"
      using Cons.prems(2) same_weigh [OF same(1)] by (simp add: list_all2_update_cong [where i = i and xs = ps and x = "ps ! i", simplified])
    have "\<not> rr_skip now t i (ps ! i)" using False k(1) by (auto simp: rr_skip_def)
    moreover have "unat (conns ! i) * unat (weight (ps ! p)) = unat (conns ! p) * unat (weight (ps ! i))"
      using False k unat_product [OF assms(1) i p] unat_product [OF assms(1) p i] by simp
    ultimately have "least now t conns ps (length ps) i" using least_change [OF Cons.prems(3) assms(1) i] by simp
    then have "least now t conns ps (length ps) p1" using e(2) Cons.prems(3) by auto
    then show ?thesis using Cons.IH [OF _ s] Cons.prems(1,4) e(1) by simp
  qed
qed simp

text \<open>
  Claim C29: The peer \<open>ngx_http_upstream_get_least_conn_peer\<close> chooses in a group may serve, and no
  other that may has fewer connections for its weight; \<open>many\<close> peers with as few go by round robin.
\<close>
theorem least_conn_least:
  assumes "lc_pick now g conns rrp = Some (g', p)" "no_wrap conns (peer g)"
  shows "p < length (peer g) \<and> \<not> rr_skip now (tried rrp) p (peer g ! p) \<and>
    (\<forall>i < length (peer g). \<not> rr_skip now (tried rrp) i (peer g ! i) \<longrightarrow>
       unat (conns ! p) * unat (weight (peer g ! i)) \<le> unat (conns ! i) * unat (weight (peer g ! p)))"
proof -
  obtain p0 many where f: "fold (lc_visit now (tried rrp) conns (peer g)) [0..<length (peer g)] (None, False) = (Some p0, many)"
    and r: "p = (if many then snd (snd (fold (lc_many now (tried rrp) conns) [p0..<length (peer g)] (peer g, 0, p0))) else p0)"
    using assms(1) by (auto simp: lc_pick_def split: prod.splits option.splits if_splits)
  have l: "least now (tried rrp) conns (peer g) (length (peer g)) p0" using lc_first [OF assms(2) order_refl, of now "tried rrp"] f by simp
  obtain qs tot q where s: "fold (lc_many now (tried rrp) conns) [p0..<length (peer g)] (peer g, 0, p0) = (qs, tot, q)" by (metis prod_cases3)
  have "same_peer x x" for x unfolding same_peer_def by (intro exI [of _ "current_weight x"] exI [of _ "effective_weight x"]) simp
  then have "list_all2 same_peer (peer g) (peer g)" by (simp add: list_all2_same)
  then have "least now (tried rrp) conns (peer g) (length (peer g)) q" using lc_second [OF assms(2) _ _ l s] by (simp add: subset_eq)
  then have "least now (tried rrp) conns (peer g) (length (peer g)) p" using l r s by auto
  then show ?thesis by (simp add: least_def)
qed

theorem least_conn_least_witness:
  "\<exists>g'. lc_pick 0 ex_group [1, 0, 0] \<lparr>rrp_peers = 0, current = 0, tried = [0]\<rparr> = Some (g', 1) \<and>
    \<not> rr_skip 0 [0] 1 (peer ex_group ! 1)"
proof -
  have p: "\<exists>g'. lc_pick 0 ex_group [1, 0, 0] \<lparr>rrp_peers = 0, current = 0, tried = [0]\<rparr> = Some (g', 1)"
    by (simp add: ex_group_def ex_server_def rr_group_def rr_new_peer_def lc_pick_def lc_visit_def lc_many_def rr_skip_def rr_tried_def
        rr_failed_def rr_weigh_def upt_rec)
  have "map weight (peer ex_group) = [2, 2, 1]" "length (peer ex_group) = 3"
    by (simp_all add: ex_group_def ex_server_def rr_group_def rr_new_peer_def)
  then have w: "weight (peer ex_group ! j) = [2, 2, 1] ! j" if "j < 3" for j using that by (metis nth_map)
  have "no_wrap [1, 0, 0] (peer ex_group)"
    using w \<open>length (peer ex_group) = 3\<close> by (auto simp: no_wrap_def in_set_conv_nth numeral_3_eq_3 less_Suc_eq)
  then show ?thesis using p least_conn_least [of 0 ex_group "[1, 0, 0]" "\<lparr>rrp_peers = 0, current = 0, tried = [0]\<rparr>"] by fastforce
qed

end
