(* ===== verification/Ngx_Rbtree.thy ===== *)
theory Ngx_Rbtree
  imports Nginx_Prelude
begin

text \<open>
Red-black trees (\<open>core/ngx_rbtree.c\<close>). Nodes with \<open>left\<close>, \<open>right\<close> and \<open>parent\<close> pointers are a
  subtree and its path to the root; each rotation and recoloring of the loops is that of the code.
\<close>

section \<open>Trees and places in them\<close>

text \<open>
  A node has its color, its children and its contents (the key and what the node is embedded in);
  the sentinel is black. The pointer to a node, with the \<open>parent\<close> pointers that lead from it to the
  root, is the subtree and the path: for each ancestor, which child the path comes from, the color
  and contents of the ancestor and its other child.
\<close>

datatype rb_color = RB_black | RB_red

datatype 'a rb_tree = Sentinel | RB rb_color "'a rb_tree" 'a "'a rb_tree"

datatype rb_side = From_left | From_right

type_synonym 'a rb_path = "(rb_side \<times> rb_color \<times> 'a \<times> 'a rb_tree) list"

fun rb_color_of :: "'a rb_tree \<Rightarrow> rb_color" where
  "rb_color_of Sentinel = RB_black"
| "rb_color_of (RB c l x r) = c"

abbreviation rb_is_red :: "'a rb_tree \<Rightarrow> bool" where
  "rb_is_red t \<equiv> rb_color_of t = RB_red"

fun rb_paint :: "rb_color \<Rightarrow> 'a rb_tree \<Rightarrow> 'a rb_tree" where
  "rb_paint c Sentinel = Sentinel"
| "rb_paint c (RB c' l x r) = RB c l x r"

text \<open>The tree around a place.\<close>

fun rb_up :: "rb_side \<times> rb_color \<times> 'a \<times> 'a rb_tree \<Rightarrow> 'a rb_tree \<Rightarrow> 'a rb_tree" where
  "rb_up (From_left, c, x, s) t = RB c t x s"
| "rb_up (From_right, c, x, s) t = RB c s x t"

fun rb_plug :: "'a rb_tree \<Rightarrow> 'a rb_path \<Rightarrow> 'a rb_tree" where
  "rb_plug t [] = t"
| "rb_plug t (e # p) = rb_plug (rb_up e t) p"

section \<open>Rotations\<close>

text \<open>\<open>None\<close> is an access to the fields of the sentinel, which are not set.\<close>

fun ngx_rbtree_left_rotate :: "'a rb_tree \<Rightarrow> 'a rb_tree option" where
  "ngx_rbtree_left_rotate (RB c a x (RB d b y t)) = Some (RB d (RB c a x b) y t)"
| "ngx_rbtree_left_rotate t = None"

fun ngx_rbtree_right_rotate :: "'a rb_tree \<Rightarrow> 'a rb_tree option" where
  "ngx_rbtree_right_rotate (RB c (RB d a x b) y t) = Some (RB d a x (RB c b y t))"
| "ngx_rbtree_right_rotate t = None"

text \<open>The rotations of the two mirrored branches: towards a side, and away from it.\<close>

definition rb_rotate :: "rb_side \<Rightarrow> 'a rb_tree \<Rightarrow> 'a rb_tree option" where
  "rb_rotate side t = (case side of From_left \<Rightarrow> ngx_rbtree_left_rotate t | From_right \<Rightarrow> ngx_rbtree_right_rotate t)"

fun rb_other :: "rb_side \<Rightarrow> rb_side" where
  "rb_other From_left = From_right"
| "rb_other From_right = From_left"

section \<open>Insertion\<close>

text \<open>
  The descent of \<open>ngx_rbtree_insert_value\<close> and its variants to the place of a new leaf; the test
  whether the new node goes to the left of a node is a parameter.
\<close>

fun rb_descend :: "('a \<Rightarrow> bool) \<Rightarrow> 'a rb_tree \<Rightarrow> 'a rb_path \<Rightarrow> 'a rb_path" where
  "rb_descend left Sentinel p = p"
| "rb_descend left (RB c l x r) p =
    (if left x then rb_descend left l ((From_left, c, x, r) # p) else rb_descend left r ((From_right, c, x, l) # p))"

text \<open>
  The loop \<open>re-balance tree\<close>: the node, which is red, and its path. \<open>None\<close> is an access to the parent of
  the root.
\<close>

fun rb_insert_fix :: "'a rb_tree \<Rightarrow> 'a rb_path \<Rightarrow> 'a rb_tree option" where
  "rb_insert_fix node [] = Some (rb_paint RB_black node)"
| "rb_insert_fix node ((side, RB_black, x, s) # p) = Some (rb_paint RB_black (rb_plug node ((side, RB_black, x, s) # p)))"
| "rb_insert_fix node [(side, RB_red, x, s)] = None"
| "rb_insert_fix node ((side, RB_red, x, s) # (gside, gc, y, temp) # p) =
    (if rb_is_red temp
     then rb_insert_fix (rb_up (gside, RB_red, y, rb_paint RB_black temp) (rb_up (side, RB_black, x, s) node)) p
     else
       Option.bind (if side = gside then Some (rb_up (side, RB_red, x, s) node) else rb_rotate gside (rb_up (side, RB_red, x, s) node)) (\<lambda>parent.
         Option.bind (rb_rotate (rb_other gside) (rb_up (gside, RB_red, y, temp) (rb_paint RB_black parent))) (\<lambda>top.
           Some (rb_paint RB_black (rb_plug top p)))))"

definition ngx_rbtree_insert :: "('a \<Rightarrow> bool) \<Rightarrow> 'a \<Rightarrow> 'a rb_tree \<Rightarrow> 'a rb_tree option" where
  "ngx_rbtree_insert left x t =
    (if t = Sentinel then Some (RB RB_black Sentinel x Sentinel)
     else rb_insert_fix (RB RB_red Sentinel x Sentinel) (rb_descend left t []))"

text \<open>The order of \<open>ngx_rbtree_insert_value\<close> and that of timers, whose keys may wrap around.\<close>

definition ngx_rbtree_insert_value :: "('a \<Rightarrow> 64 word) \<Rightarrow> 'a \<Rightarrow> 'a \<Rightarrow> bool" where
  "ngx_rbtree_insert_value key x y \<longleftrightarrow> key x < key y"

definition ngx_rbtree_insert_timer_value :: "('a \<Rightarrow> 64 word) \<Rightarrow> 'a \<Rightarrow> 'a \<Rightarrow> bool" where
  "ngx_rbtree_insert_timer_value key x y \<longleftrightarrow> sint (key x - key y) < 0"

section \<open>Deletion\<close>

text \<open>\<open>ngx_rbtree_min\<close>: the leftmost node: its color, contents and right child, and its path.\<close>

fun ngx_rbtree_min :: "'a rb_tree \<Rightarrow> 'a rb_path \<Rightarrow> (rb_color \<times> 'a \<times> 'a rb_tree \<times> 'a rb_path) option" where
  "ngx_rbtree_min Sentinel p = None"
| "ngx_rbtree_min (RB c Sentinel x r) p = Some (c, x, r, p)"
| "ngx_rbtree_min (RB c l x r) p = ngx_rbtree_min l ((From_left, c, x, r) # p)"

text \<open>
  The children of a node on the side the path comes from and on the other one, and a node made of
  them.
\<close>

fun rb_near :: "rb_side \<Rightarrow> 'a rb_tree \<Rightarrow> 'a rb_tree option" where
  "rb_near side Sentinel = None"
| "rb_near From_left (RB c l x r) = Some l"
| "rb_near From_right (RB c l x r) = Some r"

fun rb_set_near :: "rb_side \<Rightarrow> 'a rb_tree \<Rightarrow> 'a rb_tree \<Rightarrow> 'a rb_tree" where
  "rb_set_near side s Sentinel = Sentinel"
| "rb_set_near From_left s (RB c l x r) = RB c s x r"
| "rb_set_near From_right s (RB c l x r) = RB c l x s"

text \<open>
  The first case of the loop: a red sibling \<open>w\<close> is rotated above the parent, whose new sibling it
  leaves; the path has one entry more then.
\<close>

fun rb_red_sibling :: "rb_side \<times> rb_color \<times> 'a \<times> 'a rb_tree \<Rightarrow> 'a rb_path \<Rightarrow> ((rb_side \<times> rb_color \<times> 'a \<times> 'a rb_tree) \<times> 'a rb_path) option" where
  "rb_red_sibling (side, c, x, w) p =
    (case w of
       RB RB_red l y r \<Rightarrow>
         (case side of
            From_left \<Rightarrow> Some ((From_left, RB_red, x, l), (From_left, RB_black, y, r) # p)
          | From_right \<Rightarrow> Some ((From_right, RB_red, x, r), (From_right, RB_black, y, l) # p))
     | _ \<Rightarrow> Some ((side, c, x, w), p))"

text \<open>
  The last cases: a black sibling with a red child. \<open>c\<close> is the color of the parent; the subtree that
  takes the place of the parent is the result.
\<close>

definition rb_black_sibling :: "'a rb_tree \<Rightarrow> rb_side \<Rightarrow> rb_color \<Rightarrow> 'a \<Rightarrow> 'a rb_tree \<Rightarrow> 'a rb_tree option" where
  "rb_black_sibling temp side c x w =
    Option.bind (rb_near (rb_other side) w) (\<lambda>far.
      Option.bind
        (if rb_is_red far then Some w
         else Option.bind (rb_near side w) (\<lambda>near.
           rb_rotate (rb_other side) (rb_paint RB_red (rb_set_near side (rb_paint RB_black near) w)))) (\<lambda>w.
        Option.bind (rb_near (rb_other side) w) (\<lambda>far.
          rb_rotate side (rb_up (side, RB_black, x, rb_paint c (rb_set_near (rb_other side) (rb_paint RB_black far) w)) temp))))"

lemma rb_red_sibling_path: "rb_red_sibling e p = Some ((side, c, x, w), p') \<Longrightarrow> p' = p \<or> c = RB_red \<and> length p' = Suc (length p)"
  by (cases e) (auto split: rb_tree.splits rb_color.splits rb_side.splits)

lemma rb_color_up: "rb_color_of (rb_up (side, c, x, w) t) = c"
  by (cases side) simp_all

text \<open>
  The loop \<open>a delete fixup\<close>. When a red sibling was rotated up the parent is red, and the next turn is
  the last one.
\<close>

function rb_delete_fix :: "'a rb_tree \<Rightarrow> 'a rb_path \<Rightarrow> 'a rb_tree option" where
  "rb_delete_fix temp [] = Some (rb_paint RB_black temp)"
| "rb_delete_fix temp (e # p) =
    (if rb_is_red temp then Some (rb_plug (rb_paint RB_black temp) (e # p))
     else
       (case rb_red_sibling e p of
          None \<Rightarrow> None
        | Some ((side, c, x, w), p') \<Rightarrow>
            (case w of
               Sentinel \<Rightarrow> None
             | RB d l y r \<Rightarrow>
                 if \<not> rb_is_red l \<and> \<not> rb_is_red r
                 then
                   rb_delete_fix (rb_up (side, c, x, RB RB_red l y r) temp) p'
                 else Option.bind (rb_black_sibling temp side c x w) (\<lambda>t. Some (rb_paint RB_black (rb_plug t p'))))))"
  by pat_completeness auto
termination
proof (relation "measure (\<lambda>(temp, p). 2 * length p + (if rb_is_red temp then 0 else 1))")
  fix temp l r :: "'a rb_tree" and x y :: 'a and e p z z1 p' side z2 c z3 w d
  assume "\<not> rb_is_red temp" "rb_red_sibling e p = Some z" "(z1, p') = z" "(side, z2) = z1" "(c, z3) = z2" "(x, w) = z3"
  then have "rb_red_sibling e p = Some ((side, c, x, w), p')" by simp
  from rb_red_sibling_path [OF this] \<open>\<not> rb_is_red temp\<close>
  show "((rb_up (side, c, x, RB RB_red l y r) temp, p'), temp, e # p) \<in> measure (\<lambda>(temp, p). 2 * length p + (if rb_is_red temp then 0 else 1))"
    by (auto simp: rb_color_up)
qed auto

text \<open>
  \<open>ngx_rbtree_delete\<close> on a node and its path: the node, or the minimum of its right subtree, which then
  takes its place and color, is replaced by the child \<open>temp\<close>.
\<close>

definition rb_remove :: "rb_color \<Rightarrow> 'a rb_tree \<Rightarrow> 'a rb_path \<Rightarrow> 'a rb_tree option" where
  "rb_remove c temp p =
    (if p = [] then Some (rb_paint RB_black temp)
     else if c = RB_red then Some (rb_plug temp p)
     else rb_delete_fix temp p)"

fun ngx_rbtree_delete :: "'a rb_tree \<Rightarrow> 'a rb_path \<Rightarrow> 'a rb_tree option" where
  "ngx_rbtree_delete Sentinel p = None"
| "ngx_rbtree_delete (RB c l x r) p =
    (if l = Sentinel then rb_remove c r p
     else if r = Sentinel then rb_remove c l p
     else Option.bind (ngx_rbtree_min r []) (\<lambda>(d, y, temp, q). rb_remove d temp (q @ (From_right, c, y, l) # p)))"

text \<open>The place of a node with the given contents, which a pointer to it denotes.\<close>

fun rb_place :: "'a \<Rightarrow> 'a rb_tree \<Rightarrow> 'a rb_path \<Rightarrow> ('a rb_tree \<times> 'a rb_path) option" where
  "rb_place z Sentinel p = None"
| "rb_place z (RB c l x r) p =
    (if x = z then Some (RB c l x r, p)
     else
       (case rb_place z l ((From_left, c, x, r) # p) of
          Some q \<Rightarrow> Some q
        | None \<Rightarrow> rb_place z r ((From_right, c, x, l) # p)))"

definition rb_delete_node :: "'a \<Rightarrow> 'a rb_tree \<Rightarrow> 'a rb_tree option" where
  "rb_delete_node z t = Option.bind (rb_place z t []) (\<lambda>(u, p). ngx_rbtree_delete u p)"

end
