(* ===== verification/Ngx_Event_Timer.thy ===== *)
theory Ngx_Event_Timer
  imports Ngx_Rbtree
begin

text \<open>
The timers of events (\<open>event/ngx_event_timer.c\<close>, \<open>event/ngx_event_timer.h\<close>), in a red-black tree by
  the time they expire, whose milliseconds wrap around.
\<close>

section \<open>Timers\<close>

text \<open>
  The fields of an \<open>ngx_event_t\<close> that timers use. Events are numbered; the tree holds their numbers, and
  their keys are read from the events, in which the nodes of the tree are embedded.
\<close>

record timer_event =
  timer_key :: "64 word"
  timer_set :: bool
  timedout :: bool

record timers =
  timer_rbtree :: "nat rb_tree"
  timer_events :: "nat \<Rightarrow> timer_event"

abbreviation (input) NGX_TIMER_INFINITE :: "64 word" where "NGX_TIMER_INFINITE \<equiv> -1"
abbreviation (input) NGX_TIMER_LAZY_DELAY :: int where "NGX_TIMER_LAZY_DELAY \<equiv> 300"

definition ngx_event_timer_init :: "(nat \<Rightarrow> timer_event) \<Rightarrow> timers" where
  "ngx_event_timer_init events = \<lparr>timer_rbtree = Sentinel, timer_events = events\<rparr>"

text \<open>\<open>ngx_event_find_timer\<close>; \<open>None\<close> cannot happen, as the tree is not empty when its minimum is taken.\<close>

definition ngx_event_find_timer :: "64 word \<Rightarrow> timers \<Rightarrow> 64 word option" where
  "ngx_event_find_timer now s =
    (if timer_rbtree s = Sentinel then Some NGX_TIMER_INFINITE
     else
       (case ngx_rbtree_min (timer_rbtree s) [] of
          None \<Rightarrow> None
        | Some (c, ev, r, p) \<Rightarrow>
            (let timer = timer_key (timer_events s ev) - now in Some (if sint timer > 0 then timer else 0))))"

text \<open>
  \<open>ngx_event_del_timer\<close>; \<open>ngx_rbtree_delete\<close> clears the key of the node. \<open>None\<close> is the deletion of a
  node that is not in the tree.
\<close>

definition ngx_event_del_timer :: "nat \<Rightarrow> timers \<Rightarrow> timers option" where
  "ngx_event_del_timer ev s =
    map_option (\<lambda>t. s\<lparr>timer_rbtree := t, timer_events := (timer_events s)(ev := (timer_events s ev)\<lparr>timer_key := 0, timer_set := False\<rparr>)\<rparr>)
      (rb_delete_node ev (timer_rbtree s))"

text \<open>The insertion at the end of \<open>ngx_event_add_timer\<close>.\<close>

definition timer_insert :: "nat \<Rightarrow> 64 word \<Rightarrow> timers \<Rightarrow> timers option" where
  "timer_insert ev key s =
    (let events = (timer_events s)(ev := (timer_events s ev)\<lparr>timer_key := key\<rparr>)
     in map_option (\<lambda>t. s\<lparr>timer_rbtree := t, timer_events := events(ev := (events ev)\<lparr>timer_set := True\<rparr>)\<rparr>)
          (ngx_rbtree_insert (ngx_rbtree_insert_timer_value (\<lambda>e. timer_key (events e)) ev) ev (timer_rbtree s)))"

definition ngx_event_add_timer :: "64 word \<Rightarrow> nat \<Rightarrow> 64 word \<Rightarrow> timers \<Rightarrow> timers option" where
  "ngx_event_add_timer now ev timer s =
    (let key = now + timer in
     if timer_set (timer_events s ev)
     then
       (if \<bar>sint (key - timer_key (timer_events s ev))\<bar> < NGX_TIMER_LAZY_DELAY then Some s
        else Option.bind (ngx_event_del_timer ev s) (timer_insert ev key))
     else timer_insert ev key s)"

text \<open>
  \<open>ngx_event_expire_timers\<close>, without threads. The handler of an event is a parameter: it may set and
  delete timers, and so the loop need not end.
\<close>

partial_function (option) ngx_event_expire_timers :: "64 word \<Rightarrow> (nat \<Rightarrow> timers \<Rightarrow> timers option) \<Rightarrow> timers \<Rightarrow> timers option" where
  "ngx_event_expire_timers now handler s =
    (if timer_rbtree s = Sentinel then Some s
     else
       Option.bind (ngx_rbtree_min (timer_rbtree s) []) (\<lambda>(c, ev, r, p).
         if sint (timer_key (timer_events s ev) - now) \<le> 0
         then
           Option.bind (ngx_event_del_timer ev s) (\<lambda>s.
             Option.bind (handler ev (s\<lparr>timer_events := (timer_events s)(ev := (timer_events s ev)\<lparr>timedout := True\<rparr>)\<rparr>)) (\<lambda>s.
               ngx_event_expire_timers now handler s))
         else Some s))"

end
