(* ===== verification/Rbtree_Correct.thy ===== *)
theory Rbtree_Correct
  imports Ngx_Rbtree "HOL-Library.Multiset"
begin

text \<open>
Insertion and deletion keep the tree red-black, its nodes in order and its height logarithmic. The
  locale \<open>ordered_nodes\<close> is the interface the users of the tree rely on.
\<close>

section \<open>Red-black trees\<close>

fun rb_nodes :: "'a rb_tree \<Rightarrow> 'a list" where
  "rb_nodes Sentinel = []"
| "rb_nodes (RB c l x r) = rb_nodes l @ x # rb_nodes r"

fun rb_blacks :: "'a rb_tree \<Rightarrow> nat" where
  "rb_blacks Sentinel = 0"
| "rb_blacks (RB c l x r) = rb_blacks l + (if c = RB_black then 1 else 0)"

text \<open>No red node has a red child, and every way down meets as many black nodes.\<close>

fun rb_valid :: "'a rb_tree \<Rightarrow> bool" where
  "rb_valid Sentinel = True"
| "rb_valid (RB c l x r) \<longleftrightarrow>
    rb_valid l \<and> rb_valid r \<and> rb_blacks l = rb_blacks r \<and> (c = RB_red \<longrightarrow> \<not> rb_is_red l \<and> \<not> rb_is_red r)"

definition red_black :: "'a rb_tree \<Rightarrow> bool" where
  "red_black t \<longleftrightarrow> rb_valid t \<and> \<not> rb_is_red t"

text \<open>A path whose hole may be filled with a tree of a number of blacks; its top is black.\<close>

definition path_red :: "'a rb_path \<Rightarrow> bool" where
  "path_red p \<longleftrightarrow> (case p of [] \<Rightarrow> False | (side, c, x, s) # q \<Rightarrow> c = RB_red)"

fun path_valid :: "'a rb_path \<Rightarrow> nat \<Rightarrow> bool" where
  "path_valid [] n = True"
| "path_valid ((side, c, x, s) # p) n \<longleftrightarrow>
    rb_valid s \<and> rb_blacks s = n \<and> (c = RB_red \<longrightarrow> \<not> rb_is_red s \<and> p \<noteq> [] \<and> \<not> path_red p) \<and>
    path_valid p (n + (if c = RB_black then 1 else 0))"

lemma color_cases: "c \<noteq> RB_black \<longleftrightarrow> c = RB_red" "c \<noteq> RB_red \<longleftrightarrow> c = RB_black"
  by (cases c, simp_all)+

lemma up_nodes: "rb_nodes (rb_up (side, c, x, s) t) = (case side of From_left \<Rightarrow> rb_nodes t @ x # rb_nodes s | From_right \<Rightarrow> rb_nodes s @ x # rb_nodes t)"
  by (cases side) simp_all

lemma paint_simps [simp]: "rb_nodes (rb_paint c t) = rb_nodes t" "rb_color_of (rb_paint RB_black t) = RB_black"
  "rb_valid t \<Longrightarrow> rb_valid (rb_paint RB_black t)" "\<not> rb_is_red t \<Longrightarrow> rb_paint RB_black t = t"
  by (cases t; auto simp: color_cases)+

lemma paint_blacks: "rb_blacks (rb_paint RB_black t) = (if rb_is_red t then Suc (rb_blacks t) else rb_blacks t)"
  by (cases t) (auto simp: color_cases)

lemma up_blacks: "rb_blacks s = rb_blacks t \<Longrightarrow> rb_blacks (rb_up (side, c, x, s) t) = rb_blacks t + (if c = RB_black then 1 else 0)"
  by (cases side) simp_all

lemma up_valid:
  "rb_valid (rb_up (side, c, x, s) t) \<longleftrightarrow> rb_valid s \<and> rb_valid t \<and> rb_blacks s = rb_blacks t \<and> (c = RB_red \<longrightarrow> \<not> rb_is_red s \<and> \<not> rb_is_red t)"
  by (cases side) auto

lemma plug_valid:
  "path_valid p (rb_blacks t) \<Longrightarrow> rb_valid t \<Longrightarrow> path_red p \<longrightarrow> \<not> rb_is_red t \<Longrightarrow> rb_valid (rb_plug t p) \<and> (p \<noteq> [] \<longrightarrow> \<not> rb_is_red (rb_plug t p))"
proof (induction p arbitrary: t)
  case (Cons e p)
  obtain side c x s where e: "e = (side, c, x, s)" by (cases e)
  have "path_valid p (rb_blacks (rb_up e t))" "rb_valid (rb_up e t)" "path_red p \<longrightarrow> \<not> rb_is_red (rb_up e t)"
    using Cons.prems e by (auto simp: up_blacks up_valid rb_color_up path_red_def)
  from Cons.IH [OF this] show ?case using Cons.prems(1) e by (cases "p = []") (auto simp: rb_color_up)
qed simp

lemma plug_black: "path_valid p (rb_blacks t) \<Longrightarrow> rb_valid t \<Longrightarrow> path_red p \<longrightarrow> \<not> rb_is_red t \<Longrightarrow> red_black (rb_paint RB_black (rb_plug t p))"
  using plug_valid [of p t] by (simp add: red_black_def)

text \<open>What stands around the hole of a path.\<close>

fun path_before :: "'a rb_path \<Rightarrow> 'a list" where
  "path_before [] = []"
| "path_before ((From_left, c, x, s) # p) = path_before p"
| "path_before ((From_right, c, x, s) # p) = path_before p @ rb_nodes s @ [x]"

fun path_after :: "'a rb_path \<Rightarrow> 'a list" where
  "path_after [] = []"
| "path_after ((From_left, c, x, s) # p) = x # rb_nodes s @ path_after p"
| "path_after ((From_right, c, x, s) # p) = path_after p"

lemma plug_nodes: "rb_nodes (rb_plug t p) = path_before p @ rb_nodes t @ path_after p"
proof (induction p arbitrary: t)
  case (Cons e p)
  obtain side c x s where "e = (side, c, x, s)" by (cases e)
  then show ?case using Cons [of "rb_up e t"] by (cases side) simp_all
qed simp

lemma plug_append: "rb_plug t (q @ p) = rb_plug (rb_plug t q) p"
  by (induction q arbitrary: t) simp_all

lemma plug_up_nodes: "rb_nodes t = rb_nodes u \<Longrightarrow> rb_nodes (rb_plug t p) = rb_nodes (rb_plug u p)"
  by (simp add: plug_nodes)

section \<open>Insertion\<close>

lemma insert_fix_ok:
  assumes "rb_is_red node" "rb_valid node" "path_valid p (rb_blacks node)"
  shows "\<exists>t. rb_insert_fix node p = Some t \<and> red_black t \<and> rb_nodes t = rb_nodes (rb_plug node p)"
  using assms
proof (induction node p rule: rb_insert_fix.induct)
  case (1 node)
  then show ?case by (simp add: red_black_def)
next
  case (2 node side x s p)
  then show ?case using plug_black [of "(side, RB_black, x, s) # p" node] by (simp add: path_red_def)
next
  case (3 node side x s)
  then show ?case by simp
next
  case (4 node side x s gside gc y temp p)
  have g: "gc = RB_black" "rb_valid s" "rb_blacks s = rb_blacks node" "\<not> rb_is_red s" "rb_valid temp" "rb_blacks temp = rb_blacks node"
    "path_valid p (Suc (rb_blacks node))" using 4(4) by (auto simp: path_red_def color_cases)
  show ?case
  proof (cases "rb_is_red temp")
    case True
    let ?n = "rb_up (gside, RB_red, y, rb_paint RB_black temp) (rb_up (side, RB_black, x, s) node)"
    have "rb_is_red ?n" "rb_valid ?n" "path_valid p (rb_blacks ?n)"
      using g True 4(3) by (simp_all add: rb_color_up up_valid up_blacks paint_blacks)
    from 4(1) [OF True this] True show ?thesis using g(1)
      by (auto intro!: plug_up_nodes simp: up_nodes split: rb_side.splits)
  next
    case False
    obtain l z r where n: "node = RB RB_red l z r" using 4(2) by (cases node) auto
    have v: "rb_valid l" "rb_valid r" "rb_blacks l = rb_blacks r" "\<not> rb_is_red l" "\<not> rb_is_red r" using 4(3) n by auto
    let ?rotated = "Option.bind (if side = gside then Some (rb_up (side, RB_red, x, s) node) else rb_rotate gside (rb_up (side, RB_red, x, s) node))
      (\<lambda>parent. rb_rotate (rb_other gside) (rb_up (gside, RB_red, y, temp) (rb_paint RB_black parent)))"
    have "\<exists>top. ?rotated = Some top \<and> rb_valid top \<and> \<not> rb_is_red top \<and> rb_blacks top = Suc (rb_blacks node) \<and>
      rb_nodes top = rb_nodes (rb_up (gside, gc, y, temp) (rb_up (side, RB_red, x, s) node))"
      using False g v n by (cases side; cases gside) (simp_all add: rb_rotate_def)
    moreover have "rb_insert_fix node ((side, RB_red, x, s) # (gside, gc, y, temp) # p) =
        Option.bind ?rotated (\<lambda>top. Some (rb_paint RB_black (rb_plug top p)))"
      using False by (simp add: bind_assoc)
    ultimately
    obtain top where t: "rb_insert_fix node ((side, RB_red, x, s) # (gside, gc, y, temp) # p) = Some (rb_paint RB_black (rb_plug top p))"
      "rb_valid top" "\<not> rb_is_red top" "rb_blacks top = Suc (rb_blacks node)"
      "rb_nodes top = rb_nodes (rb_up (gside, gc, y, temp) (rb_up (side, RB_red, x, s) node))" by fastforce
    have "red_black (rb_paint RB_black (rb_plug top p))" using plug_black [of p top] t g(7) by simp
    then show ?thesis using t(1) plug_up_nodes [OF t(5)] by simp
  qed
qed

lemma descend_valid: "path_valid p (rb_blacks t) \<Longrightarrow> rb_valid t \<Longrightarrow> path_red p \<longrightarrow> \<not> rb_is_red t \<Longrightarrow> rb_is_red t \<longrightarrow> p \<noteq> [] \<Longrightarrow>
   path_valid (rb_descend left t p) 0"
  by (induction left t p rule: rb_descend.induct) (auto simp: path_red_def color_cases)

lemma descend_plug: "rb_plug Sentinel (rb_descend left t p) = rb_plug t p"
  by (induction left t p rule: rb_descend.induct) simp_all

lemma insert_ok:
  assumes "red_black t"
  shows "\<exists>t'. ngx_rbtree_insert left x t = Some t' \<and> red_black t' \<and>
     rb_nodes t' = path_before (rb_descend left t []) @ x # path_after (rb_descend left t [])"
proof (cases "t = Sentinel")
  case True
  then show ?thesis by (simp add: ngx_rbtree_insert_def red_black_def)
next
  case False
  have "path_valid (rb_descend left t []) 0" using descend_valid [of "[]" t left] assms by (auto simp: red_black_def path_red_def)
  then show ?thesis using insert_fix_ok [of "RB RB_red Sentinel x Sentinel" "rb_descend left t []"] False
    by (simp add: ngx_rbtree_insert_def plug_nodes)
qed

section \<open>Deletion\<close>

lemma red_sibling_ok:
  assumes "path_valid ((side, c, x, w) # p) (Suc n)" "rb_blacks temp = n" "rb_valid temp" "\<not> rb_is_red temp"
  shows "\<exists>c' w' p'. rb_red_sibling (side, c, x, w) p = Some ((side, c', x, w'), p') \<and> path_valid ((side, c', x, w') # p') (Suc n) \<and>
    \<not> rb_is_red w' \<and> rb_nodes (rb_plug temp ((side, c', x, w') # p')) = rb_nodes (rb_plug temp ((side, c, x, w) # p))"
proof (cases "rb_is_red w")
  case True
  then obtain l y r where w: "w = RB RB_red l y r" by (cases w) auto
  have c: "c = RB_black" using assms(1) True by (auto simp: color_cases)
  show ?thesis using assms(1) w c by (cases side) (auto simp: path_red_def plug_nodes)
next
  case False
  then have "rb_red_sibling (side, c, x, w) p = Some ((side, c, x, w), p)" by (auto split: rb_tree.splits rb_color.splits)
  then show ?thesis using assms(1) False by blast
qed

lemma black_sibling_ok:
  assumes "w = RB RB_black l y r" "rb_valid w" "rb_blacks w = Suc (rb_blacks temp)" "rb_valid temp" "\<not> rb_is_red temp" "rb_is_red l \<or> rb_is_red r"
  shows "\<exists>t. rb_black_sibling temp side c x w = Some t \<and> rb_valid t \<and> rb_color_of t = c \<and>
    rb_blacks t = Suc (rb_blacks temp) + (if c = RB_black then 1 else 0) \<and> rb_nodes t = rb_nodes (rb_up (side, c, x, w) temp)"
proof -
  have b: "rb_valid l" "rb_valid r" "rb_blacks l = rb_blacks temp" "rb_blacks r = rb_blacks temp" using assms(1-3) by auto
  show ?thesis
  proof (cases side)
    case From_left
    show ?thesis
    proof (cases "rb_is_red r")
      case True
      then obtain r1 z r2 where "r = RB RB_red r1 z r2" by (cases r) auto
      then show ?thesis using From_left assms b by (auto simp: rb_black_sibling_def rb_rotate_def color_cases)
    next
      case False
      then obtain l1 z l2 where "l = RB RB_red l1 z l2" using assms(6) by (cases l) auto
      then show ?thesis using From_left False assms b by (auto simp: rb_black_sibling_def rb_rotate_def color_cases)
    qed
  next
    case From_right
    show ?thesis
    proof (cases "rb_is_red l")
      case True
      then obtain l1 z l2 where "l = RB RB_red l1 z l2" by (cases l) auto
      then show ?thesis using From_right assms b by (auto simp: rb_black_sibling_def rb_rotate_def color_cases)
    next
      case False
      then obtain r1 z r2 where "r = RB RB_red r1 z r2" using assms(6) by (cases r) auto
      then show ?thesis using From_right False assms b by (auto simp: rb_black_sibling_def rb_rotate_def color_cases)
    qed
  qed
qed

lemma delete_fix_ok:
  assumes "rb_valid (rb_paint RB_black temp)" "path_valid p (Suc (rb_blacks temp))" "rb_is_red temp \<longrightarrow> p \<noteq> []"
  shows "\<exists>t. rb_delete_fix temp p = Some t \<and> red_black t \<and> rb_nodes t = rb_nodes (rb_plug temp p)"
  using assms
proof (induction temp p rule: rb_delete_fix.induct)
  case (1 temp)
  then show ?case by (simp add: red_black_def)
next
  case (2 temp e p)
  show ?case
  proof (cases "rb_is_red temp")
    case True
    have "path_valid (e # p) (rb_blacks (rb_paint RB_black temp))" using 2(3) True by (simp add: paint_blacks)
    then have "red_black (rb_plug (rb_paint RB_black temp) (e # p))" using plug_valid [of "e # p" "rb_paint RB_black temp"] 2(2) by (simp add: red_black_def)
    then show ?thesis using True by (simp add: plug_nodes del: rb_plug.simps)
  next
    case black: False
    then have tv: "rb_valid temp" using 2(2) by simp
    obtain side c0 x w0 where e: "e = (side, c0, x, w0)" by (cases e)
    obtain c w p' where s: "rb_red_sibling e p = Some ((side, c, x, w), p')" and v: "path_valid ((side, c, x, w) # p') (Suc (rb_blacks temp))"
      and w: "\<not> rb_is_red w" and n: "rb_nodes (rb_plug temp ((side, c, x, w) # p')) = rb_nodes (rb_plug temp (e # p))"
      using red_sibling_ok [of side c0 x w0 p "rb_blacks temp" temp] 2(3) tv black e by blast
    obtain l y r where wt: "w = RB RB_black l y r" using v w by (cases w) (auto simp: color_cases)
    have wv: "rb_valid w" "rb_blacks w = Suc (rb_blacks temp)" using v by simp_all
    show ?thesis
    proof (cases "\<not> rb_is_red l \<and> \<not> rb_is_red r")
      case True
      let ?t = "rb_up (side, c, x, RB RB_red l y r) temp"
      have "rb_blacks l = rb_blacks temp" "rb_valid (RB RB_red l y r)" using wv wt True by simp_all
      then have t: "rb_valid (rb_paint RB_black ?t)" "rb_blacks ?t = rb_blacks temp + (if c = RB_black then 1 else 0)" "rb_is_red ?t \<longleftrightarrow> c = RB_red"
        using tv black v by (cases side; auto simp: up_valid up_blacks rb_color_up)+
      show ?thesis
      proof (cases c)
        case RB_black
        then have "\<exists>u. rb_delete_fix ?t p' = Some u \<and> red_black u \<and> rb_nodes u = rb_nodes (rb_plug ?t p')"
          using 2(1) [OF black s refl refl refl refl wt True] t v by simp
        then show ?thesis using black s wt True n plug_up_nodes [of ?t "rb_up (side, c, x, w) temp" p'] by (simp add: up_nodes split: rb_side.splits)
      next
        case RB_red
        then have "p' \<noteq> []" using v by simp
        then have "\<exists>u. rb_delete_fix ?t p' = Some u \<and> red_black u \<and> rb_nodes u = rb_nodes (rb_plug ?t p')"
          using 2(1) [OF black s refl refl refl refl wt True] t v RB_red by simp
        then show ?thesis using black s wt True n plug_up_nodes [of ?t "rb_up (side, c, x, w) temp" p'] by (simp add: up_nodes split: rb_side.splits)
      qed
    next
      case False
      then obtain t where t: "rb_black_sibling temp side c x w = Some t" "rb_valid t" "rb_color_of t = c"
        "rb_blacks t = Suc (rb_blacks temp) + (if c = RB_black then 1 else 0)" "rb_nodes t = rb_nodes (rb_up (side, c, x, w) temp)"
        using black_sibling_ok [OF wt wv tv black, of side c x] by blast
      have "path_valid p' (rb_blacks t)" "path_red p' \<longrightarrow> \<not> rb_is_red t" using v t by (auto simp: path_red_def color_cases)
      from plug_black [OF this(1) t(2) this(2)] show ?thesis using black s wt False t(1) n plug_up_nodes [OF t(5), of p'] by auto
    qed
  qed
qed

lemma remove_ok:
  assumes "path_valid p (rb_blacks temp + (if c = RB_black then 1 else 0))" "rb_valid temp" "c = RB_red \<longrightarrow> p \<noteq> [] \<and> \<not> rb_is_red temp"
  shows "\<exists>t. rb_remove c temp p = Some t \<and> red_black t \<and> rb_nodes t = path_before p @ rb_nodes temp @ path_after p"
proof (cases "p = [] \<or> c = RB_red")
  case True
  then show ?thesis using assms plug_valid [of p temp] by (auto simp: rb_remove_def red_black_def plug_nodes)
next
  case False
  then show ?thesis using assms delete_fix_ok [of temp p] by (auto simp: rb_remove_def color_cases plug_nodes)
qed

lemma min_ok:
  assumes "t \<noteq> Sentinel" "rb_valid t" "path_valid q (rb_blacks t)" "q \<noteq> []" "path_red q \<longrightarrow> \<not> rb_is_red t"
  shows "\<exists>c y temp p. ngx_rbtree_min t p0 = Some (c, y, temp, p @ p0) \<and> path_valid (p @ q) (rb_blacks temp + (if c = RB_black then 1 else 0)) \<and>
    rb_valid temp \<and> \<not> (c = RB_red \<and> rb_is_red temp) \<and>
    rb_nodes t = y # rb_nodes temp @ path_after p \<and> path_before p = []"
  using assms
proof (induction t p0 arbitrary: q rule: ngx_rbtree_min.induct)
  case (2 c x r p)
  then show ?case by (auto intro!: exI [of _ "[]"] simp: color_cases)
next
  case (3 c d l1 y l2 x r p0)
  let ?l = "RB d l1 y l2"
  have "path_valid ((From_left, c, x, r) # q) (rb_blacks ?l)" "path_red ((From_left, c, x, r) # q) \<longrightarrow> \<not> rb_is_red ?l"
    using 3(3-6) by (auto simp: path_red_def color_cases)
  from 3(1) [OF _ _ this(1) _ this(2)] 3(3) obtain e z temp p where
    k: "ngx_rbtree_min ?l ((From_left, c, x, r) # p0) = Some (e, z, temp, p @ (From_left, c, x, r) # p0)"
      "path_valid (p @ (From_left, c, x, r) # q) (rb_blacks temp + (if e = RB_black then 1 else 0))" "rb_valid temp"
      "\<not> (e = RB_red \<and> rb_is_red temp)"
      "rb_nodes ?l = z # rb_nodes temp @ path_after p" "path_before p = []" by auto
  have "path_after (p @ [(From_left, c, x, r)]) = path_after p @ x # rb_nodes r" "path_before (p @ [(From_left, c, x, r)]) = path_before p"
    by (induction p rule: path_after.induct) simp_all
  then show ?case using k by (intro exI [of _ e] exI [of _ z] exI [of _ temp] exI [of _ "p @ [(From_left, c, x, r)]"]) auto
qed simp

lemma path_append:
  "path_before (q @ p) = path_before p @ path_before q" "path_after (q @ p) = path_after q @ path_after p"
  by (induction q rule: path_before.induct) simp_all

text \<open>A path into a red-black tree is valid, and so is the subtree it leads to.\<close>

lemma plug_inverse:
  assumes "rb_valid (rb_plug t p)" "p \<noteq> [] \<longrightarrow> \<not> rb_is_red (rb_plug t p)"
  shows "path_valid p (rb_blacks t) \<and> rb_valid t \<and> (path_red p \<longrightarrow> \<not> rb_is_red t)"
  using assms
proof (induction p arbitrary: t)
  case (Cons e p)
  obtain side c x s where e: "e = (side, c, x, s)" by (cases e)
  have "path_valid p (rb_blacks (rb_up e t)) \<and> rb_valid (rb_up e t) \<and> (path_red p \<longrightarrow> \<not> rb_is_red (rb_up e t))"
    using Cons by simp
  then show ?case using Cons.prems e by (cases "p = []") (auto simp: up_valid up_blacks rb_color_up path_red_def)
qed (simp add: path_red_def)

lemma path_valid_contents: "path_valid (q @ (side, c, y, s) # p) n = path_valid (q @ (side, c, x, s) # p) n"
proof (induction q arbitrary: n)
  case (Cons e q)
  have "path_red (q @ (side, c, y, s) # p) = path_red (q @ (side, c, x, s) # p)" by (cases q) (simp_all add: path_red_def)
  then show ?case using Cons by (cases e) simp
qed simp

lemma delete_ok:
  assumes "red_black (rb_plug (RB c l x r) p)"
  shows "\<exists>t. ngx_rbtree_delete (RB c l x r) p = Some t \<and> red_black t \<and> rb_nodes t = path_before p @ rb_nodes l @ rb_nodes r @ path_after p"
proof -
  have v: "path_valid p (rb_blacks (RB c l x r))" "rb_valid (RB c l x r)" "path_red p \<longrightarrow> c \<noteq> RB_red"
    using plug_inverse [of "RB c l x r" p] assms by (auto simp: red_black_def)
  have red: "c = RB_red \<longrightarrow> p \<noteq> [] \<and> \<not> rb_is_red l \<and> \<not> rb_is_red r" using assms v(2) by (auto simp: red_black_def)
  consider "l = Sentinel" | "l \<noteq> Sentinel" "r = Sentinel" | "l \<noteq> Sentinel" "r \<noteq> Sentinel" by blast
  then show ?thesis
  proof cases
    case 1
    then show ?thesis using remove_ok [of p r c] v red by simp
  next
    case 2
    then show ?thesis using remove_ok [of p l c] v red by simp
  next
    case 3
    have "path_valid ((From_right, c, y, l) # p) (rb_blacks r)" "path_red ((From_right, c, y, l) # p) \<longrightarrow> \<not> rb_is_red r" for y
      using v red by (auto simp: path_red_def)
    then obtain d y temp q where m: "ngx_rbtree_min r [] = Some (d, y, temp, q @ [])"
      "path_valid (q @ (From_right, c, x, l) # p) (rb_blacks temp + (if d = RB_black then 1 else 0))"
      "rb_valid temp" "\<not> (d = RB_red \<and> rb_is_red temp)" "rb_nodes r = y # rb_nodes temp @ path_after q" "path_before q = []"
      using min_ok [OF 3(2), of "(From_right, c, x, l) # p" "[]"] v by auto
    have "\<exists>t. rb_remove d temp (q @ (From_right, c, y, l) # p) = Some t \<and> red_black t \<and>
        rb_nodes t = path_before (q @ (From_right, c, y, l) # p) @ rb_nodes temp @ path_after (q @ (From_right, c, y, l) # p)"
      using m by (intro remove_ok) (auto simp: path_valid_contents [of q From_right c y l p _ x])
    then show ?thesis using 3 m by (auto simp: path_append)
  qed
qed

lemma place_ok: "rb_place z t p = Some (u, q) \<Longrightarrow> rb_plug u q = rb_plug t p \<and> (\<exists>c l r. u = RB c l z r)"
  by (induction z t p arbitrary: u q rule: rb_place.induct) (auto split: if_splits option.splits)

lemma place_found: "z \<in> set (rb_nodes t) \<Longrightarrow> rb_place z t p \<noteq> None"
  by (induction z t p rule: rb_place.induct) (auto split: option.splits)

lemma delete_node_ok:
  assumes "red_black t" "z \<in> set (rb_nodes t)" "distinct (rb_nodes t)"
  shows "\<exists>t'. rb_delete_node z t = Some t' \<and> red_black t' \<and> rb_nodes t' = remove1 z (rb_nodes t)"
proof -
  obtain u p where "rb_place z t [] = Some (u, p)" using place_found [OF assms(2), of "[]"] by auto
  moreover from place_ok [OF this] obtain c l r where u: "u = RB c l z r" "rb_plug u p = t" by auto
  moreover have "rb_nodes t = path_before p @ (rb_nodes l @ z # rb_nodes r) @ path_after p" using plug_nodes [of u p] u by simp
  ultimately show ?thesis using delete_ok [of c l z r p] assms by (auto simp: rb_delete_node_def remove1_append)
qed

section \<open>The interface of the tree\<close>

text \<open>
  What the users of the tree rely on: an insertion never fails and puts the node behind those that
  it does not go to the left of; a deletion takes exactly the given node out. The nodes are in an
  order the test \<open>left\<close> respects.
\<close>

locale ordered_nodes =
  fixes ok :: "'t \<Rightarrow> bool"
    and nodes :: "'t \<Rightarrow> 'n list"
    and ins :: "('n \<Rightarrow> bool) \<Rightarrow> 'n \<Rightarrow> 't \<Rightarrow> 't option"
    and del :: "'n \<Rightarrow> 't \<Rightarrow> 't option"
  assumes ins_law: "ok t \<Longrightarrow> sorted_wrt (\<lambda>a b. left a \<longrightarrow> left b) (nodes t) \<Longrightarrow>
      \<exists>t'. ins left x t = Some t' \<and> ok t' \<and> nodes t' = filter (\<lambda>y. \<not> left y) (nodes t) @ x # filter left (nodes t)"
    and del_law: "ok t \<Longrightarrow> distinct (nodes t) \<Longrightarrow> z \<in> set (nodes t) \<Longrightarrow>
      \<exists>t'. del z t = Some t' \<and> ok t' \<and> nodes t' = remove1 z (nodes t)"
begin

lemma sorted_left:
  fixes f :: "'n \<Rightarrow> 'k :: linorder"
  assumes "sorted (map f ns)"
  shows "sorted_wrt (\<lambda>a b. f x < f a \<longrightarrow> f x < f b) ns"
  using assms by (auto simp: sorted_map intro: sorted_wrt_mono_rel [rotated])

text \<open>Inserting by a key, whatever the test is that compares it.\<close>

lemma ins_sorted:
  fixes f :: "'n \<Rightarrow> 'k :: linorder"
  assumes "ok t" "sorted (map f (nodes t))" "\<And>y. y \<in> set (nodes t) \<Longrightarrow> left y \<longleftrightarrow> f x < f y"
  shows "\<exists>t'. ins left x t = Some t' \<and> ok t' \<and> sorted (map f (nodes t')) \<and> mset (nodes t') = add_mset x (mset (nodes t))"
proof -
  have "sorted_wrt (\<lambda>a b. left a \<longrightarrow> left b) (nodes t)"
    by (rule sorted_wrt_mono_rel [OF _ sorted_left [OF assms(2), of x]]) (use assms(3) in auto)
  from ins_law [OF assms(1) this, of x] obtain t' where t: "ins left x t = Some t'" "ok t'"
    "nodes t' = filter (\<lambda>y. \<not> left y) (nodes t) @ x # filter left (nodes t)" by blast
  have "sorted (map f (filter P (nodes t)))" for P using assms(2) by (simp add: sorted_filter)
  then have "sorted (map f (nodes t'))" unfolding t(3) using assms(3) by (force simp: sorted_append)
  moreover have "mset (nodes t') = add_mset x (mset (nodes t))" unfolding t(3) by simp
  ultimately show ?thesis using t by blast
qed

lemma del_sorted:
  fixes f :: "'n \<Rightarrow> 'k :: linorder"
  assumes "ok t" "sorted (map f (nodes t))" "distinct (nodes t)" "z \<in> set (nodes t)"
  shows "\<exists>t'. del z t = Some t' \<and> ok t' \<and> sorted (map f (nodes t')) \<and> nodes t' = remove1 z (nodes t)"
proof -
  from del_law [OF assms(1,3,4)] obtain t' where "del z t = Some t'" "ok t'" "nodes t' = remove1 z (nodes t)" by blast
  moreover have "sorted (map f (remove1 z (nodes t)))" using assms(2) by (simp add: sorted_map_remove1)
  ultimately show ?thesis by auto
qed

end

lemma descend_split:
  assumes "sorted_wrt (\<lambda>a b. left a \<longrightarrow> left b) (rb_nodes t)"
  shows "path_before (rb_descend left t p) = path_before p @ filter (\<lambda>y. \<not> left y) (rb_nodes t) \<and>
    path_after (rb_descend left t p) = filter left (rb_nodes t) @ path_after p"
  using assms
proof (induction left t p rule: rb_descend.induct)
  case (2 left c l x r p)
  show ?case
  proof (cases "left x")
    case True
    then have "filter (\<lambda>y. \<not> left y) (rb_nodes r) = []" "filter left (rb_nodes r) = rb_nodes r"
      using 2(3) by (auto simp: sorted_wrt_append filter_empty_conv filter_id_conv)
    then show ?thesis using 2(1) [OF True] 2(3) True by (simp add: sorted_wrt_append)
  next
    case False
    then have "filter (\<lambda>y. \<not> left y) (rb_nodes l) = rb_nodes l" "filter left (rb_nodes l) = []"
      using 2(3) by (auto simp: sorted_wrt_append filter_empty_conv filter_id_conv)
    then show ?thesis using 2(2) [OF False] 2(3) False by (simp add: sorted_wrt_append)
  qed
qed simp

interpretation rbq: ordered_nodes red_black rb_nodes ngx_rbtree_insert rb_delete_node
proof
  fix t :: "'a rb_tree" and left x
  assume "red_black t" "sorted_wrt (\<lambda>a b. left a \<longrightarrow> left b) (rb_nodes t)"
  then show "\<exists>t'. ngx_rbtree_insert left x t = Some t' \<and> red_black t' \<and> rb_nodes t' = filter (\<lambda>y. \<not> left y) (rb_nodes t) @ x # filter left (rb_nodes t)"
    using insert_ok [of t left x] descend_split [of left t "[]"] by simp
next
  fix t :: "'a rb_tree" and z
  assume "red_black t" "distinct (rb_nodes t)" "z \<in> set (rb_nodes t)"
  then show "\<exists>t'. rb_delete_node z t = Some t' \<and> red_black t' \<and> rb_nodes t' = remove1 z (rb_nodes t)" by (intro delete_node_ok)
qed

section \<open>Height\<close>

fun rb_height :: "'a rb_tree \<Rightarrow> nat" where
  "rb_height Sentinel = 0"
| "rb_height (RB c l x r) = Suc (max (rb_height l) (rb_height r))"

lemma height_blacks: "rb_valid t \<Longrightarrow> rb_height t \<le> 2 * rb_blacks t + (if rb_is_red t then 1 else 0)"
  by (induction t) (auto simp: color_cases split: if_splits)

lemma size_blacks: "rb_valid t \<Longrightarrow> 2 ^ rb_blacks t \<le> Suc (length (rb_nodes t))"
proof (induction t)
  case (RB c l x r)
  then have "2 ^ rb_blacks l \<le> Suc (length (rb_nodes l))" "2 ^ rb_blacks l \<le> Suc (length (rb_nodes r))" by auto
  then show ?case by simp
qed simp

lemma height_bound: "red_black t \<Longrightarrow> 2 ^ rb_height t \<le> (Suc (length (rb_nodes t)))\<^sup>2"
proof -
  assume t: "red_black t"
  then have "rb_height t \<le> 2 * rb_blacks t" using height_blacks [of t] by (simp add: red_black_def)
  then have "(2 :: nat) ^ rb_height t \<le> 2 ^ (2 * rb_blacks t)" by (rule power_increasing) simp
  also have "\<dots> = (2 ^ rb_blacks t)\<^sup>2" by (simp add: power_mult [symmetric] mult.commute)
  also have "\<dots> \<le> (Suc (length (rb_nodes t)))\<^sup>2" using size_blacks [of t] t by (intro power_mono) (simp_all add: red_black_def)
  finally show ?thesis .
qed

section \<open>Properties\<close>

text \<open>The trees a program gets by inserting with \<open>ngx_rbtree_insert_value\<close> and deleting nodes by their place.\<close>

inductive rb_reachable :: "('a \<Rightarrow> 64 word) \<Rightarrow> 'a rb_tree \<Rightarrow> bool" for key where
  rb_empty: "rb_reachable key Sentinel"
| rb_insert: "rb_reachable key t \<Longrightarrow> ngx_rbtree_insert (ngx_rbtree_insert_value key x) x t = Some t' \<Longrightarrow> rb_reachable key t'"
| rb_delete: "rb_reachable key (rb_plug (RB c l x r) p) \<Longrightarrow> ngx_rbtree_delete (RB c l x r) p = Some t' \<Longrightarrow> rb_reachable key t'"

text \<open>
  Claim C13: Every tree built by insertions and deletions is a red-black tree with its keys in order,
  and so no higher than twice the logarithm of its size. No operation on it fails, that is, uses
  fields of the sentinel or the parent of the root; an insertion adds exactly the new node and a
  deletion removes exactly the given one.
\<close>
theorem rbtree_invariant:
  assumes "rb_reachable key t"
  shows "red_black t \<and> sorted (map key (rb_nodes t)) \<and> 2 ^ rb_height t \<le> (Suc (length (rb_nodes t)))\<^sup>2 \<and>
    (\<forall>x. \<exists>t'. ngx_rbtree_insert (ngx_rbtree_insert_value key x) x t = Some t' \<and> mset (rb_nodes t') = add_mset x (mset (rb_nodes t))) \<and>
    (\<forall>c l x r p. rb_plug (RB c l x r) p = t \<longrightarrow>
       (\<exists>t'. ngx_rbtree_delete (RB c l x r) p = Some t' \<and> add_mset x (mset (rb_nodes t')) = mset (rb_nodes t)))"
proof -
  have ins: "\<exists>t'. ngx_rbtree_insert (ngx_rbtree_insert_value key x) x t = Some t' \<and> red_black t' \<and> sorted (map key (rb_nodes t')) \<and>
      mset (rb_nodes t') = add_mset x (mset (rb_nodes t))" if "red_black t" "sorted (map key (rb_nodes t))" for t x
    using rbq.ins_sorted [OF that, of "ngx_rbtree_insert_value key x" x] by (simp add: ngx_rbtree_insert_value_def)
  have del: "\<exists>t'. ngx_rbtree_delete (RB c l x r) p = Some t' \<and> red_black t' \<and> sorted (map key (rb_nodes t')) \<and>
      add_mset x (mset (rb_nodes t')) = mset (rb_nodes (rb_plug (RB c l x r) p))"
    if "red_black (rb_plug (RB c l x r) p)" "sorted (map key (rb_nodes (rb_plug (RB c l x r) p)))" for c l x r p
    using delete_ok [OF that(1)] that(2) by (auto simp: plug_nodes sorted_append)
  have "red_black t \<and> sorted (map key (rb_nodes t))" using assms
  proof induction
    case rb_empty
    then show ?case by (simp add: red_black_def)
  next
    case (rb_insert t x t')
    then show ?case using ins [of t x] by auto
  next
    case (rb_delete c l x r p t')
    then show ?case using del [of c l x r p] by auto
  qed
  then show ?thesis using ins [of t] del height_bound [of t] by metis
qed

theorem rbtree_invariant_witness:
  "\<exists>t. ngx_rbtree_insert (ngx_rbtree_insert_value id 3) 3 (RB RB_black Sentinel 5 Sentinel) = Some t \<and> red_black t \<and> rb_nodes t = [3, 5]"
proof -
  have "ngx_rbtree_insert (ngx_rbtree_insert_value id 5) 5 Sentinel = Some (RB RB_black Sentinel (5 :: 64 word) Sentinel)" by (simp add: ngx_rbtree_insert_def)
  then have r: "rb_reachable id (RB RB_black Sentinel (5 :: 64 word) Sentinel)" by (rule rb_reachable.rb_insert [OF rb_empty])
  have e: "ngx_rbtree_insert (ngx_rbtree_insert_value id 3) 3 (RB RB_black Sentinel 5 Sentinel) = Some (RB RB_black (RB RB_red Sentinel (3 :: 64 word) Sentinel) 5 Sentinel)"
    by (simp add: ngx_rbtree_insert_def ngx_rbtree_insert_value_def)
  from rbtree_invariant [OF rb_reachable.rb_insert [OF r e]] e show ?thesis by simp
qed

end
