(* ===== verification/Event_Timer_Correct.thy ===== *)
theory Event_Timer_Correct
  imports Ngx_Event_Timer Rbtree_Correct
begin

text \<open>
Timers stay in the order of the time left, and expiring them leaves none that is due.
\<close>

section \<open>Timers in order\<close>

text \<open>
  The time left of an event. Keys wrap around, so what is asked of the timers is that at the current
  time none lies half the range of keys away, and that the nodes are in the order of the time left.
\<close>

definition time_left :: "64 word \<Rightarrow> timers \<Rightarrow> nat \<Rightarrow> int" where
  "time_left now s ev = sint (timer_key (timer_events s ev) - now)"

definition timer_window :: "int \<Rightarrow> bool" where
  "timer_window d \<longleftrightarrow> - (2 ^ 62) \<le> d \<and> d < 2 ^ 62"

definition timers_ok :: "64 word \<Rightarrow> timers \<Rightarrow> bool" where
  "timers_ok now s \<longleftrightarrow>
    red_black (timer_rbtree s) \<and> distinct (rb_nodes (timer_rbtree s)) \<and>
    sorted (map (time_left now s) (rb_nodes (timer_rbtree s))) \<and>
    (\<forall>ev. timer_set (timer_events s ev) \<longleftrightarrow> ev \<in> set (rb_nodes (timer_rbtree s))) \<and>
    (\<forall>ev \<in> set (rb_nodes (timer_rbtree s)). timer_window (time_left now s ev))"

definition due :: "64 word \<Rightarrow> timers \<Rightarrow> nat set" where
  "due now s = {ev \<in> set (rb_nodes (timer_rbtree s)). time_left now s ev \<le> 0}"

lemma min_first: "(t :: 'a rb_tree) \<noteq> Sentinel \<Longrightarrow> \<exists>c y r q ns. ngx_rbtree_min t p = Some (c, y, r, q) \<and> rb_nodes t = y # ns"
proof -
  have "\<exists>c y r q. ngx_rbtree_min t p = Some (c, y, r, q) \<and> rb_nodes t \<noteq> [] \<and> hd (rb_nodes t) = y" if "t \<noteq> Sentinel" for t :: "'a rb_tree" and p
    using that by (induction t p rule: ngx_rbtree_min.induct) (auto simp: hd_append)
  moreover assume "t \<noteq> Sentinel"
  ultimately show ?thesis by (metis list.collapse)
qed

lemma key_order:
  fixes a b now :: "64 word"
  assumes "timer_window (sint (a - now))" "timer_window (sint (b - now))"
  shows "sint (a - b) < 0 \<longleftrightarrow> sint (a - now) < sint (b - now)"
proof -
  have "sint ((a - now) - (b - now)) = sint (a - now) - sint (b - now)"
    using assms by (intro sint_diff_64) (auto simp: timer_window_def)
  then show ?thesis by simp
qed

lemma set_timer_ok:
  assumes s: "timers_ok now s" and ev: "ev \<notin> set (rb_nodes (timer_rbtree s))" and w: "timer_window (sint (key - now))"
  shows "\<exists>s'. timer_insert ev key s = Some s' \<and> timers_ok now s' \<and>
    (0 < sint (key - now) \<longrightarrow> due now s' \<subseteq> due now s)"
proof -
  let ?e = "(timer_events s)(ev := (timer_events s ev)\<lparr>timer_key := key\<rparr>)"
  let ?f = "(time_left now s)(ev := sint (key - now))"
  let ?t = "timer_rbtree s"
  have "map ?f (rb_nodes ?t) = map (time_left now s) (rb_nodes ?t)" using ev by simp
  then have "sorted (map ?f (rb_nodes ?t))" using s by (simp only: timers_ok_def)
  moreover have "ngx_rbtree_insert_timer_value (\<lambda>e. timer_key (?e e)) ev y \<longleftrightarrow> ?f ev < ?f y" if "y \<in> set (rb_nodes ?t)" for y
    using that s w ev key_order [of key now "timer_key (timer_events s y)"]
    by (auto simp: ngx_rbtree_insert_timer_value_def timers_ok_def time_left_def)
  ultimately obtain t' where t: "ngx_rbtree_insert (ngx_rbtree_insert_timer_value (\<lambda>e. timer_key (?e e)) ev) ev ?t = Some t'" "red_black t'"
    "sorted (map ?f (rb_nodes t'))" "mset (rb_nodes t') = add_mset ev (mset (rb_nodes ?t))"
    using rbq.ins_sorted [of ?t ?f "ngx_rbtree_insert_timer_value (\<lambda>e. timer_key (?e e)) ev" ev] s by (auto simp: timers_ok_def)
  let ?s = "s\<lparr>timer_rbtree := t', timer_events := ?e(ev := (?e ev)\<lparr>timer_set := True\<rparr>)\<rparr>"
  have n: "set (rb_nodes t') = insert ev (set (rb_nodes ?t))" using t(4) by (metis set_mset_add_mset_insert set_mset_mset)
  have "distinct (rb_nodes t')" using t(4) s ev by (metis distinct.simps(2) mset.simps(2) mset_eq_imp_distinct_iff timers_ok_def)
  moreover have f: "time_left now ?s = ?f" by (auto simp: time_left_def)
  ultimately have "timers_ok now ?s" using t(2,3) n s w by (auto simp: timers_ok_def)
  moreover have "0 < sint (key - now) \<longrightarrow> due now ?s \<subseteq> due now s" using n unfolding due_def f by auto
  ultimately show ?thesis using t(1) by (simp add: timer_insert_def Let_def)
qed

lemma del_timer_ok:
  assumes s: "timers_ok now s" and ev: "ev \<in> set (rb_nodes (timer_rbtree s))"
  shows "\<exists>s'. ngx_event_del_timer ev s = Some s' \<and> timers_ok now s' \<and>
    set (rb_nodes (timer_rbtree s')) = set (rb_nodes (timer_rbtree s)) - {ev} \<and>
    (\<forall>e. e \<noteq> ev \<longrightarrow> timer_events s' e = timer_events s e)"
proof -
  obtain t where t: "rb_delete_node ev (timer_rbtree s) = Some t" "red_black t" "sorted (map (time_left now s) (rb_nodes t))"
    "rb_nodes t = remove1 ev (rb_nodes (timer_rbtree s))"
    using rbq.del_sorted [of "timer_rbtree s" "time_left now s" ev] s ev by (auto simp: timers_ok_def)
  let ?s = "s\<lparr>timer_rbtree := t, timer_events := (timer_events s)(ev := (timer_events s ev)\<lparr>timer_key := 0, timer_set := False\<rparr>)\<rparr>"
  have d: "distinct (rb_nodes t)" "set (rb_nodes t) = set (rb_nodes (timer_rbtree s)) - {ev}"
    using s t(4) by (simp_all add: timers_ok_def)
  have f: "time_left now ?s e = time_left now s e" if "e \<noteq> ev" for e using that by (simp add: time_left_def)
  have "map (time_left now ?s) (rb_nodes t) = map (time_left now s) (rb_nodes t)" using d(2) f by (intro map_cong) auto
  then have m: "sorted (map (time_left now ?s) (rb_nodes t))" using t(3) by (simp only:)
  have "timers_ok now ?s" unfolding timers_ok_def using m t(2) d s f by (auto simp: timers_ok_def simp del: sorted_map)
  then show ?thesis using t(1) d(2) by (auto simp: ngx_event_del_timer_def)
qed

lemma add_timer_ok:
  assumes "timers_ok now s" "sint timer < 2 ^ 62" "0 \<le> sint timer"
  shows "\<exists>s'. ngx_event_add_timer now ev timer s = Some s' \<and> timers_ok now s' \<and>
    (0 < sint timer \<longrightarrow> due now s' \<subseteq> due now s)"
proof -
  have w: "timer_window (sint (now + timer - now))" using assms(2,3) by (simp add: timer_window_def)
  show ?thesis
  proof (cases "timer_set (timer_events s ev)")
    case True
    then have ev: "ev \<in> set (rb_nodes (timer_rbtree s))" using assms(1) by (simp add: timers_ok_def)
    obtain s1 where s1: "ngx_event_del_timer ev s = Some s1" "timers_ok now s1" "set (rb_nodes (timer_rbtree s1)) = set (rb_nodes (timer_rbtree s)) - {ev}"
      "\<forall>e. e \<noteq> ev \<longrightarrow> timer_events s1 e = timer_events s e"
      using del_timer_ok [OF assms(1) ev] by blast
    have "ev \<notin> set (rb_nodes (timer_rbtree s1))" "due now s1 \<subseteq> due now s" using s1(3,4) by (auto simp: due_def time_left_def)
    then show ?thesis using set_timer_ok [OF s1(2) _ w, of ev] s1(1) True assms(1) by (auto simp: ngx_event_add_timer_def Let_def)
  next
    case False
    then have "ev \<notin> set (rb_nodes (timer_rbtree s))" using assms(1) by (simp add: timers_ok_def)
    from set_timer_ok [OF assms(1) this w] False show ?thesis by (auto simp: ngx_event_add_timer_def Let_def)
  qed
qed

lemma find_timer_ok:
  assumes "timers_ok now s" "due now s = {}"
  shows "\<exists>t. ngx_event_find_timer now s = Some t \<and> t \<noteq> 0"
proof (cases "timer_rbtree s = Sentinel")
  case False
  then obtain c ev r p ns where m: "ngx_rbtree_min (timer_rbtree s) [] = Some (c, ev, r, p)" "rb_nodes (timer_rbtree s) = ev # ns"
    using min_first [of "timer_rbtree s" "[]"] by auto
  then have "0 < time_left now s ev" using assms(2) by (auto simp: due_def)
  then show ?thesis using False m by (auto simp: ngx_event_find_timer_def time_left_def Let_def)
qed (simp add: ngx_event_find_timer_def)




end
