(* ===== verification/Http_Limit_Req.thy ===== *)
theory Http_Limit_Req
  imports Ngx_Rbtree Ngx_Compare
begin

text \<open>
The limit of requests (\<open>http/modules/ngx_http_limit_req_module.c\<close>): a zone has a node for each value
  of a variable, in a tree by the checksum of the value (\<open>core/ngx_crc32.h\<close>) and in a queue by use;
  its excess is a leaky bucket.
\<close>

section \<open>Checksums\<close>

definition ngx_crc32_table16 :: "32 word list" where
  "ngx_crc32_table16 =
    [0x00000000, 0x1db71064, 0x3b6e20c8, 0x26d930ac, 0x76dc4190, 0x6b6b51f4, 0x4db26158, 0x5005713c,
     0xedb88320, 0xf00f9344, 0xd6d6a3e8, 0xcb61b38c, 0x9b64c2b0, 0x86d3d2d4, 0xa00ae278, 0xbdbdf21c]"

fun crc32_loop :: "32 word \<Rightarrow> bytes \<Rightarrow> 32 word" where
  "crc32_loop crc [] = crc"
| "crc32_loop crc (c # p) =
    (let crc = ngx_crc32_table16 ! unat ((crc XOR (ucast c AND 0xf)) AND 0xf) XOR drop_bit 4 crc;
         crc = ngx_crc32_table16 ! unat ((crc XOR drop_bit 4 (ucast c)) AND 0xf) XOR drop_bit 4 crc
     in crc32_loop crc p)"

definition ngx_crc32_short :: "bytes \<Rightarrow> 32 word" where
  "ngx_crc32_short p = crc32_loop 0xffffffff p XOR 0xffffffff"

section \<open>Zones\<close>

text \<open>
  \<open>ngx_http_limit_req_node_t\<close> with the key of the tree node it is embedded in: the node of a value of
  the variable. \<open>last\<close> is in milliseconds, \<open>excess\<close> in thousandths of a request.
\<close>

record lr_node =
  lr_key :: "64 word"
  lr_len :: "16 word"
  lr_last :: "64 word"
  lr_excess :: "64 word"
  lr_count :: "64 word"
  lr_data :: bytes

text \<open>
  \<open>ngx_http_limit_req_ctx_t\<close> with its shared part: nodes are addresses in the zone, whose contents are a
  store; the queue has the most recently used node first.
\<close>

record limit_req_ctx =
  lr_rbtree :: "nat rb_tree"
  lr_nodes :: "nat \<Rightarrow> lr_node"
  lr_queue :: "nat list"
  lr_rate :: "64 word"
  lr_cur :: "nat option"

text \<open>\<open>ngx_http_limit_req_limit_t\<close>; its zone is given beside it.\<close>

record limit_req_limit =
  lr_burst :: "64 word"
  lr_nodelay :: bool

text \<open>The order of \<open>ngx_http_limit_req_rbtree_insert_value\<close>; the data are no shorter than \<open>len\<close>.\<close>

definition ngx_http_limit_req_rbtree_insert_value :: "(nat \<Rightarrow> lr_node) \<Rightarrow> nat \<Rightarrow> nat \<Rightarrow> bool" where
  "ngx_http_limit_req_rbtree_insert_value ns node temp =
    (let lrn = ns node; lrnt = ns temp in
     if lr_key lrn < lr_key lrnt then True
     else if lr_key lrn > lr_key lrnt then False
     else (case ngx_memn2cmp (lr_data lrn) (lr_data lrnt) (unat (lr_len lrn)) (unat (lr_len lrnt)) of
             Some m \<Rightarrow> m < 0 | None \<Rightarrow> False))"

text \<open>
  What a request makes of the excess \<open>e\<close> after \<open>ms\<close> milliseconds, before it is compared: unsigned
  arithmetic, then read as signed.
\<close>

definition ngx_abs :: "64 word \<Rightarrow> 64 word" where
  "ngx_abs x = (if sint x \<ge> 0 then x else - x)"

definition lr_excess_after :: "64 word \<Rightarrow> 64 word \<Rightarrow> 64 word \<Rightarrow> 64 word" where
  "lr_excess_after rate e ms =
    (let excess = e - rate * ngx_abs ms div 1000 + 1000 in if sint excess < 0 then 0 else excess)"

text \<open>The search of \<open>ngx_http_limit_req_lookup\<close>; the outer \<open>None\<close> is a read past the end of a string.\<close>

fun lr_find :: "(nat \<Rightarrow> lr_node) \<Rightarrow> 64 word \<Rightarrow> bytes \<Rightarrow> nat rb_tree \<Rightarrow> nat option option" where
  "lr_find ns hash data Sentinel = Some None"
| "lr_find ns hash data (RB c l node r) =
    (if hash < lr_key (ns node) then lr_find ns hash data l
     else if hash > lr_key (ns node) then lr_find ns hash data r
     else
       (case ngx_memn2cmp data (lr_data (ns node)) (length data) (unat (lr_len (ns node))) of
          None \<Rightarrow> None
        | Some rc \<Rightarrow> if rc = 0 then Some (Some node) else lr_find ns hash data (if rc < 0 then l else r)))"

text \<open>
  \<open>ngx_http_limit_req_expire\<close>; \<open>None\<close> is the deletion of a node that is not in the tree.
\<close>

function ngx_http_limit_req_expire :: "64 word \<Rightarrow> limit_req_ctx \<Rightarrow> nat \<Rightarrow> limit_req_ctx option" where
  "ngx_http_limit_req_expire now ctx n =
    (if n \<ge> 3 \<or> lr_queue ctx = [] then Some ctx
     else
       (let q = last (lr_queue ctx);
            lr = lr_nodes ctx q;
            ms = ngx_abs (now - lr_last lr)
        in if lr_count lr \<noteq> 0 then Some ctx
           else if n \<noteq> 0 \<and> (sint ms < 60000 \<or> sint (lr_excess lr - lr_rate ctx * ms div 1000) > 0) then Some ctx
           else
             (case rb_delete_node q (lr_rbtree ctx) of
                None \<Rightarrow> None
              | Some t \<Rightarrow> ngx_http_limit_req_expire now (ctx\<lparr>lr_queue := butlast (lr_queue ctx), lr_rbtree := t\<rparr>) (n + 1))))"
  by pat_completeness auto
termination
  by (relation "measure (\<lambda>(now, ctx, n). 3 - n)") auto

declare ngx_http_limit_req_expire.simps [simp del]

text \<open>
  The allocation of a node: the slab allocator of the zone is a parameter, which gives an address for
  the nodes in use and a size, or \<open>None\<close> when there is no room; then it is tried again after the oldest
  node has been given up. The result is the address, or \<open>None\<close> again.
\<close>

definition lr_alloc :: "(nat list \<Rightarrow> nat \<Rightarrow> nat option) \<Rightarrow> 64 word \<Rightarrow> limit_req_ctx \<Rightarrow> nat \<Rightarrow> (limit_req_ctx \<times> nat option) option" where
  "lr_alloc slab now ctx sz =
    (case ngx_http_limit_req_expire now ctx 1 of
       None \<Rightarrow> None
     | Some ctx \<Rightarrow>
         (case slab (lr_queue ctx) sz of
            Some node \<Rightarrow> Some (ctx, Some node)
          | None \<Rightarrow>
              (case ngx_http_limit_req_expire now ctx 0 of
                 None \<Rightarrow> None
               | Some ctx \<Rightarrow> Some (ctx, slab (lr_queue ctx) sz))))"

text \<open>
  \<open>ngx_http_limit_req_lookup\<close>: the return code, the excess and the zone afterwards. The length of the
  value is stored in a \<open>u_short\<close> after a cast to \<open>u_char\<close>. A node and its value take 80 bytes and the
  length of the value.
\<close>

definition ngx_http_limit_req_lookup ::
  "(nat list \<Rightarrow> nat \<Rightarrow> nat option) \<Rightarrow> 64 word \<Rightarrow> limit_req_limit \<Rightarrow> 64 word \<Rightarrow> bytes \<Rightarrow> bool \<Rightarrow> limit_req_ctx \<Rightarrow>
   (int \<times> 64 word \<times> limit_req_ctx) option" where
  "ngx_http_limit_req_lookup slab now limit hash data account ctx =
    (case lr_find (lr_nodes ctx) hash data (lr_rbtree ctx) of
       None \<Rightarrow> None
     | Some (Some node) \<Rightarrow>
         (let lr = lr_nodes ctx node;
              ctx = ctx\<lparr>lr_queue := node # remove1 node (lr_queue ctx)\<rparr>;
              excess = lr_excess_after (lr_rate ctx) (lr_excess lr) (now - lr_last lr)
          in if excess > lr_burst limit then Some (NGX_BUSY, excess, ctx)
             else if account then
               Some (NGX_OK, excess, ctx\<lparr>lr_nodes := (lr_nodes ctx)(node := lr\<lparr>lr_excess := excess, lr_last := now\<rparr>)\<rparr>)
             else Some (NGX_AGAIN, excess, ctx\<lparr>lr_nodes := (lr_nodes ctx)(node := lr\<lparr>lr_count := lr_count lr + 1\<rparr>), lr_cur := Some node\<rparr>))
     | Some None \<Rightarrow>
         (case lr_alloc slab now ctx (80 + length data) of
            None \<Rightarrow> None
          | Some (ctx, None) \<Rightarrow> Some (NGX_ERROR, 0, ctx)
          | Some (ctx, Some node) \<Rightarrow>
              (let lr = \<lparr>lr_key = hash, lr_len = ucast (of_nat (length data) :: u_char), lr_last = (if account then now else 0), lr_excess = 0,
                         lr_count = (if account then 0 else 1), lr_data = data\<rparr>;
                   ns = (lr_nodes ctx)(node := lr)
               in case ngx_rbtree_insert (ngx_http_limit_req_rbtree_insert_value ns node) node (lr_rbtree ctx) of
                    None \<Rightarrow> None
                  | Some t \<Rightarrow>
                      (let ctx = ctx\<lparr>lr_nodes := ns, lr_rbtree := t, lr_queue := node # lr_queue ctx\<rparr>
                       in if account then Some (NGX_OK, 0, ctx) else Some (NGX_AGAIN, 0, ctx\<lparr>lr_cur := Some node\<rparr>)))))"

section \<open>The handler\<close>

text \<open>
  \<open>ngx_http_limit_req_account\<close>: the limits before the last one that was looked up, the last of them
  first. \<open>None\<close> is a division by a rate of zero.
\<close>

fun lr_account_loop ::
  "64 word \<Rightarrow> (limit_req_limit \<times> limit_req_ctx) list \<Rightarrow> 64 word \<Rightarrow> (64 word \<times> limit_req_ctx list) option" where
  "lr_account_loop now [] max_delay = Some (max_delay, [])"
| "lr_account_loop now ((limit, ctx) # limits) max_delay =
    (case lr_cur ctx of
       None \<Rightarrow> map_option (\<lambda>(d, ctxs). (d, ctx # ctxs)) (lr_account_loop now limits max_delay)
     | Some node \<Rightarrow>
         (let lr = lr_nodes ctx node;
              excess = lr_excess_after (lr_rate ctx) (lr_excess lr) (now - lr_last lr);
              ctx' = ctx\<lparr>lr_nodes := (lr_nodes ctx)(node := lr\<lparr>lr_last := now, lr_excess := excess, lr_count := lr_count lr - 1\<rparr>), lr_cur := None\<rparr>
          in if lr_nodelay limit then map_option (\<lambda>(d, ctxs). (d, ctx' # ctxs)) (lr_account_loop now limits max_delay)
             else if lr_rate ctx = 0 then None
             else
               (let delay = excess * 1000 div lr_rate ctx
                in map_option (\<lambda>(d, ctxs). (d, ctx' # ctxs)) (lr_account_loop now limits (if delay > max_delay then delay else max_delay)))))"

definition ngx_http_limit_req_account ::
  "64 word \<Rightarrow> (limit_req_limit \<times> limit_req_ctx) list \<Rightarrow> 64 word \<Rightarrow> limit_req_limit \<times> limit_req_ctx \<Rightarrow> (64 word \<times> limit_req_ctx list) option" where
  "ngx_http_limit_req_account now limits excess limit =
    (let start = (if excess = 0 \<or> lr_nodelay (fst limit) then Some 0
                  else if lr_rate (snd limit) = 0 then None else Some (excess * 1000 div lr_rate (snd limit)))
     in case start of
          None \<Rightarrow> None
        | Some max_delay \<Rightarrow> map_option (\<lambda>(d, ctxs). (d, rev ctxs)) (lr_account_loop now (rev limits) max_delay))"

text \<open>
  The loop of \<open>ngx_http_limit_req_handler\<close> over the limits: for each its zone and the value of its
  variable, \<open>None\<close> when there is none. The result is the last return code and excess, the zones, and how
  many limits were passed before the loop ended.
\<close>

fun lr_loop ::
  "(nat list \<Rightarrow> nat \<Rightarrow> nat option) \<Rightarrow> 64 word \<Rightarrow> (limit_req_limit \<times> limit_req_ctx \<times> bytes option) list \<Rightarrow> int \<Rightarrow> 64 word \<Rightarrow>
   (int \<times> 64 word \<times> limit_req_ctx list \<times> nat) option" where
  "lr_loop slab now [] rc excess = Some (rc, excess, [], 0)"
| "lr_loop slab now ((limit, ctx, vv) # limits) rc excess =
    (let continue = (\<lambda>ctx rc excess. map_option (\<lambda>(rc, excess, ctxs, n). (rc, excess, ctx # ctxs, n + 1)) (lr_loop slab now limits rc excess)) in
     case vv of
       None \<Rightarrow> continue ctx rc excess
     | Some v \<Rightarrow>
         if length v = 0 \<or> length v > 65535 then continue ctx rc excess
         else
           (case ngx_http_limit_req_lookup slab now limit (ucast (ngx_crc32_short v)) v (limits = []) ctx of
              None \<Rightarrow> None
            | Some (rc, excess, ctx) \<Rightarrow>
                if rc \<noteq> NGX_AGAIN then Some (rc, excess, ctx # map (fst \<circ> snd) limits, 0) else continue ctx rc excess))"

text \<open>
  \<open>ngx_http_limit_req_handler\<close>: what it returns, the delay it sets a timer for, the flag
  \<open>limit_req_set\<close> and the zones; \<open>read_ok\<close> tells whether the read event can be handled.
\<close>

definition ngx_http_limit_req_handler ::
  "(nat list \<Rightarrow> nat \<Rightarrow> nat option) \<Rightarrow> 64 word \<Rightarrow> int \<Rightarrow> bool \<Rightarrow> (limit_req_limit \<times> limit_req_ctx \<times> bytes option) list \<Rightarrow> bool \<Rightarrow>
   (int \<times> 64 word \<times> bool \<times> limit_req_ctx list) option" where
  "ngx_http_limit_req_handler slab now status_code read_ok limits limit_req_set =
    (if limit_req_set then Some (NGX_DECLINED, 0, True, map (fst \<circ> snd) limits)
     else
       (case lr_loop slab now limits NGX_DECLINED 0 of
          None \<Rightarrow> None
        | Some (rc, excess, ctxs, n) \<Rightarrow>
            if rc = NGX_DECLINED then Some (NGX_DECLINED, 0, False, ctxs)
            else if rc = NGX_BUSY \<or> rc = NGX_ERROR then
              Some (status_code, 0, True,
                map (\<lambda>ctx. case lr_cur ctx of
                       None \<Rightarrow> ctx
                     | Some node \<Rightarrow> ctx\<lparr>lr_nodes := (lr_nodes ctx)(node := (lr_nodes ctx node)\<lparr>lr_count := lr_count (lr_nodes ctx node) - 1\<rparr>),
                                        lr_cur := None\<rparr>) (take n ctxs) @ drop n ctxs)
            else
              (let excess = (if rc = NGX_AGAIN then 0 else excess);
                   pairs = zip (map fst limits) ctxs
               in case ngx_http_limit_req_account now (take n pairs) excess (pairs ! min n (length pairs - 1)) of
                    None \<Rightarrow> None
                  | Some (delay, done) \<Rightarrow>
                      (let ctxs = done @ drop n ctxs
                       in if delay = 0 then Some (NGX_DECLINED, 0, True, ctxs)
                          else if \<not> read_ok then Some (500, 0, True, ctxs)
                          else Some (NGX_AGAIN, delay, True, ctxs)))))"

end
