(* ===== verification/Limit_Req_Correct.thy ===== *)
theory Limit_Req_Correct
  imports Http_Limit_Req Rbtree_Correct "HOL-Library.List_Lexorder" "HOL-Library.Product_Lexorder"
begin

text \<open>
The zone stays in order, a value finds its node, and the requests that pass within a time are
  bounded by the rate and the burst.
\<close>

section \<open>The order of values\<close>

lemma byte_diff_order: "byte_diff x y < 0 \<longleftrightarrow> unat x < unat y" "byte_diff x y > 0 \<longleftrightarrow> unat y < unat x" "byte_diff x y = 0 \<longleftrightarrow> x = y"
proof -
  have "byte_diff x y = int (unat x) - int (unat y)" by (simp add: byte_diff_def)
  moreover have "unat x = unat y \<longleftrightarrow> x = y" by (rule word_unat_eq_iff [symmetric])
  ultimately show "byte_diff x y < 0 \<longleftrightarrow> unat x < unat y" "byte_diff x y > 0 \<longleftrightarrow> unat y < unat x" "byte_diff x y = 0 \<longleftrightarrow> x = y"
    by linarith+
qed

lemma memcmp_order:
  "n = min (length a) (length b) \<Longrightarrow> \<exists>m. ngx_memcmp a b n = Some m \<and>
     (m < 0 \<longrightarrow> map unat a < map unat b) \<and> (m > 0 \<longrightarrow> map unat b < map unat a) \<and> (m = 0 \<longleftrightarrow> take n a = take n b)"
proof (induction a b n rule: ngx_memcmp.induct)
  case (2 x a y b n)
  then show ?case by (cases "x = y") (auto simp: byte_diff_order)
qed auto

lemma prefix_order: "length a < length b \<Longrightarrow> take (length a) b = a \<Longrightarrow> map unat a < map unat b" for a b :: bytes
  by (induction a arbitrary: b) (auto simp: neq_Nil_conv length_Suc_conv less_Suc_eq_0_disj Suc_less_eq2)

lemma memn2cmp_order:
  "\<exists>m. ngx_memn2cmp a b (length a) (length b) = Some m \<and> (m < 0 \<longleftrightarrow> map unat a < map unat b) \<and> (m = 0 \<longleftrightarrow> a = b)"
proof -
  obtain m where m: "ngx_memcmp a b (min (length a) (length b)) = Some m" "m < 0 \<longrightarrow> map unat a < map unat b"
    "m > 0 \<longrightarrow> map unat b < map unat a" "m = 0 \<longleftrightarrow> take (min (length a) (length b)) a = take (min (length a) (length b)) b"
    using memcmp_order [of _ a b] by blast
  consider "length a < length b" | "length a = length b" | "length b < length a" by linarith
  then show ?thesis
  proof cases
    case 1
    then show ?thesis using m prefix_order [of a b] by (cases "m = 0") (auto simp: ngx_memn2cmp_def min_def)
  next
    case 2
    then show ?thesis using m by (cases "m = 0") (auto simp: ngx_memn2cmp_def min_def)
  next
    case 3
    then show ?thesis using m prefix_order [of b a] by (cases "m = 0") (auto simp: ngx_memn2cmp_def min_def)
  qed
qed

lemma map_unat_inject: "map unat a = map unat b \<longleftrightarrow> a = b" for a b :: bytes
  by (rule inj_map_eq_map, rule injI, erule word_unat_eq_iff [THEN iffD2])

text \<open>A node stands in the tree by its key and then by its value.\<close>

definition lr_order :: "(nat \<Rightarrow> lr_node) \<Rightarrow> nat \<Rightarrow> 64 word \<times> nat list" where
  "lr_order ns n = (lr_key (ns n), map unat (lr_data (ns n)))"

definition lr_fits :: "lr_node \<Rightarrow> bool" where
  "lr_fits lr \<longleftrightarrow> unat (lr_len lr) = length (lr_data lr)"

lemma insert_value_order:
  "lr_fits (ns n) \<Longrightarrow> lr_fits (ns m) \<Longrightarrow> ngx_http_limit_req_rbtree_insert_value ns n m \<longleftrightarrow> lr_order ns n < lr_order ns m"
  using memn2cmp_order [of "lr_data (ns n)" "lr_data (ns m)"]
  by (auto simp: ngx_http_limit_req_rbtree_insert_value_def lr_order_def less_prod_def' lr_fits_def Let_def)

lemma find_ok:
  assumes "sorted (map (lr_order ns) (rb_nodes t))" "distinct (map (lr_order ns) (rb_nodes t))" "\<forall>n \<in> set (rb_nodes t). lr_fits (ns n)"
  shows "\<exists>r. lr_find ns hash data t = Some r \<and>
    (case r of None \<Rightarrow> (hash, map unat data) \<notin> lr_order ns ` set (rb_nodes t)
     | Some n \<Rightarrow> n \<in> set (rb_nodes t) \<and> lr_order ns n = (hash, map unat data))"
  using assms
proof (induction t)
  case (RB c l n r)
  let ?x = "(hash, map unat data)"
  have "\<forall>m \<in> set (rb_nodes l). lr_order ns m \<le> lr_order ns n" "\<forall>m \<in> set (rb_nodes r). lr_order ns n \<le> lr_order ns m"
    using RB.prems(1) by (simp_all add: sorted_append)
  moreover have "lr_order ns n \<notin> lr_order ns ` set (rb_nodes l)" "lr_order ns n \<notin> lr_order ns ` set (rb_nodes r)" using RB.prems(2) by auto
  ultimately have l: "\<forall>m \<in> set (rb_nodes l). lr_order ns m < lr_order ns n" and r: "\<forall>m \<in> set (rb_nodes r). lr_order ns n < lr_order ns m"
    by (metis imageI order.not_eq_order_implies_strict)+
  have il: "\<exists>q. lr_find ns hash data l = Some q \<and> (case q of None \<Rightarrow> ?x \<notin> lr_order ns ` set (rb_nodes l)
     | Some n \<Rightarrow> n \<in> set (rb_nodes l) \<and> lr_order ns n = ?x)"
    and ir: "\<exists>q. lr_find ns hash data r = Some q \<and> (case q of None \<Rightarrow> ?x \<notin> lr_order ns ` set (rb_nodes r)
     | Some n \<Rightarrow> n \<in> set (rb_nodes r) \<and> lr_order ns n = ?x)"
    using RB.IH RB.prems by (simp_all add: sorted_append)
  have len: "length (lr_data (ns n)) = unat (lr_len (ns n))" using RB.prems(3) by (simp add: lr_fits_def)
  obtain m where m: "ngx_memn2cmp data (lr_data (ns n)) (length data) (unat (lr_len (ns n))) = Some m"
    "m < 0 \<longleftrightarrow> map unat data < map unat (lr_data (ns n))" "m = 0 \<longleftrightarrow> data = lr_data (ns n)"
    using memn2cmp_order [of data "lr_data (ns n)"] len by auto
  consider (less) "?x < lr_order ns n" | (eq) "?x = lr_order ns n" | (greater) "lr_order ns n < ?x" by (metis linorder_cases)
  then show ?case
  proof cases
    case less
    then have e: "lr_find ns hash data (RB c l n r) = lr_find ns hash data l"
      using m by (auto simp: lr_order_def less_prod_def')
    have "?x \<notin> lr_order ns ` set (rb_nodes r)" "?x \<noteq> lr_order ns n" using less r by auto
    moreover obtain q where "lr_find ns hash data l = Some q"
      "case q of None \<Rightarrow> ?x \<notin> lr_order ns ` set (rb_nodes l) | Some n \<Rightarrow> n \<in> set (rb_nodes l) \<and> lr_order ns n = ?x" using il by blast
    ultimately show ?thesis unfolding e by (cases q) (simp_all add: image_Un)
  next
    case eq
    then show ?thesis using m by (auto simp: lr_order_def map_unat_inject)
  next
    case greater
    then have e: "lr_find ns hash data (RB c l n r) = lr_find ns hash data r"
      using m by (auto simp: lr_order_def less_prod_def' map_unat_inject)
    have "?x \<notin> lr_order ns ` set (rb_nodes l)" "?x \<noteq> lr_order ns n" using greater l by auto
    moreover obtain q where "lr_find ns hash data r = Some q"
      "case q of None \<Rightarrow> ?x \<notin> lr_order ns ` set (rb_nodes r) | Some n \<Rightarrow> n \<in> set (rb_nodes r) \<and> lr_order ns n = ?x" using ir by blast
    ultimately show ?thesis unfolding e by (cases q) (simp_all add: image_Un)
  qed
qed simp

section \<open>Zones in order\<close>

text \<open>
  The tree and the queue of a zone hold the same nodes, the tree in the order of their values, which
  are different; a value takes no more than 255 bytes, as its length is cut to a byte.
\<close>

definition zone_ok :: "nat \<Rightarrow> limit_req_ctx \<Rightarrow> bool" where
  "zone_ok t ctx \<longleftrightarrow>
    red_black (lr_rbtree ctx) \<and> sorted (map (lr_order (lr_nodes ctx)) (rb_nodes (lr_rbtree ctx))) \<and>
    distinct (map (lr_order (lr_nodes ctx)) (rb_nodes (lr_rbtree ctx))) \<and>
    distinct (lr_queue ctx) \<and> set (lr_queue ctx) = set (rb_nodes (lr_rbtree ctx)) \<and>
    (\<forall>n \<in> set (lr_queue ctx). lr_fits (lr_nodes ctx n) \<and> unat (lr_last (lr_nodes ctx n)) \<le> t \<and> unat (lr_excess (lr_nodes ctx n)) < 2 ^ 62)"

lemma zone_mono: "zone_ok t ctx \<Longrightarrow> t \<le> u \<Longrightarrow> zone_ok u ctx"
  by (fastforce simp: zone_ok_def)

lemma word_diff:
  assumes "t = unat l + k" "t < 2 ^ 62"
  shows "(of_nat t :: 64 word) - l = of_nat k" "ngx_abs (of_nat t - l) = of_nat k" "sint (of_nat k :: 64 word) = int k"
proof -
  show d: "(of_nat t :: 64 word) - l = of_nat k" unfolding assms(1) by simp
  have "int k < 2 ^ 63" using assms by simp
  then show s: "sint (of_nat k :: 64 word) = int k" using sint_in_range [of "int k"] by simp
  show "ngx_abs (of_nat t - l) = of_nat k" unfolding d ngx_abs_def s by simp
qed

text \<open>One node out of the queue and the tree.\<close>

lemma drop_oldest:
  assumes "zone_ok t ctx" "lr_queue ctx \<noteq> []"
  shows "\<exists>u. rb_delete_node (last (lr_queue ctx)) (lr_rbtree ctx) = Some u \<and> zone_ok t (ctx\<lparr>lr_queue := butlast (lr_queue ctx), lr_rbtree := u\<rparr>)"
proof -
  let ?q = "last (lr_queue ctx)"
  have z: "red_black (lr_rbtree ctx)" "sorted (map (lr_order (lr_nodes ctx)) (rb_nodes (lr_rbtree ctx)))"
    "distinct (map (lr_order (lr_nodes ctx)) (rb_nodes (lr_rbtree ctx)))" "distinct (lr_queue ctx)" "set (lr_queue ctx) = set (rb_nodes (lr_rbtree ctx))"
    using assms(1) by (simp_all add: zone_ok_def)
  have d: "distinct (rb_nodes (lr_rbtree ctx))" using z(3) by (simp add: distinct_map)
  have m: "?q \<in> set (rb_nodes (lr_rbtree ctx))" using assms(2) z(5) last_in_set by blast
  obtain u where u: "rb_delete_node ?q (lr_rbtree ctx) = Some u" "red_black u" "sorted (map (lr_order (lr_nodes ctx)) (rb_nodes u))"
    "rb_nodes u = remove1 ?q (rb_nodes (lr_rbtree ctx))" using rbq.del_sorted [OF z(1,2) d m] by blast
  obtain qs q where q: "lr_queue ctx = qs @ [q]" using assms(2) by (cases "lr_queue ctx" rule: rev_cases) auto
  have "set (butlast (lr_queue ctx)) = set (lr_queue ctx) - {?q}" "distinct (butlast (lr_queue ctx))" using z(4) unfolding q by auto
  moreover have "set (rb_nodes u) = set (lr_queue ctx) - {?q}" using u(4) d z(5) by simp
  moreover have "distinct (map (lr_order (lr_nodes ctx)) (rb_nodes u))" using z(3) u(4) d by (auto simp: distinct_map inj_on_def dest: notin_set_remove1)
  ultimately show ?thesis using u assms(1) by (auto simp: zone_ok_def)
qed

text \<open>
  Expiring, at least one node by the rules, changes no node; those used within a minute stay.
\<close>

lemma expire_ok:
  assumes "zone_ok t ctx" "t < 2 ^ 62" "0 < n"
  shows "\<exists>ctx'. ngx_http_limit_req_expire (of_nat t) ctx n = Some ctx' \<and> zone_ok t ctx' \<and> lr_nodes ctx' = lr_nodes ctx \<and> lr_rate ctx' = lr_rate ctx \<and>
    set (lr_queue ctx') \<subseteq> set (lr_queue ctx) \<and>
    (\<forall>q \<in> set (lr_queue ctx). t < unat (lr_last (lr_nodes ctx q)) + 60000 \<longrightarrow> q \<in> set (lr_queue ctx'))"
  using assms
proof (induction "of_nat t :: 64 word" ctx n rule: ngx_http_limit_req_expire.induct)
  case (1 ctx n)
  let ?q = "last (lr_queue ctx)"
  let ?lr = "lr_nodes ctx ?q"
  let ?ms = "ngx_abs (of_nat t - lr_last ?lr)"
  show ?case
  proof (cases "n \<ge> 3 \<or> lr_queue ctx = [] \<or> lr_count ?lr \<noteq> 0 \<or> sint ?ms < 60000 \<or> sint (lr_excess ?lr - lr_rate ctx * ?ms div 1000) > 0")
    case True
    then have "ngx_http_limit_req_expire (of_nat t) ctx n = Some ctx" using 1(4) by (subst ngx_http_limit_req_expire.simps) (auto simp: Let_def)
    then show ?thesis using 1(2) by auto
  next
    case False
    obtain u where u: "rb_delete_node ?q (lr_rbtree ctx) = Some u" and z: "zone_ok t (ctx\<lparr>lr_queue := butlast (lr_queue ctx), lr_rbtree := u\<rparr>)"
      using drop_oldest [OF 1(2)] False by auto
    let ?ctx = "ctx\<lparr>lr_queue := butlast (lr_queue ctx), lr_rbtree := u\<rparr>"
    have e: "ngx_http_limit_req_expire (of_nat t) ctx n = ngx_http_limit_req_expire (of_nat t) ?ctx (n + 1)"
      using False u by (subst ngx_http_limit_req_expire.simps) (simp add: Let_def)
    obtain ctx' where c: "ngx_http_limit_req_expire (of_nat t) ?ctx (n + 1) = Some ctx'" "zone_ok t ctx'" "lr_nodes ctx' = lr_nodes ?ctx" "lr_rate ctx' = lr_rate ?ctx"
      "set (lr_queue ctx') \<subseteq> set (lr_queue ?ctx)" "\<forall>q \<in> set (lr_queue ?ctx). t < unat (lr_last (lr_nodes ?ctx q)) + 60000 \<longrightarrow> q \<in> set (lr_queue ctx')"
      using 1(1) [OF _ refl refl refl _ _ u z 1(3)] False by auto
    have ne: "lr_queue ctx \<noteq> []" and old: "\<not> sint ?ms < 60000" using False by auto
    have s: "set (lr_queue ctx) = insert ?q (set (butlast (lr_queue ctx)))" using ne by (cases "lr_queue ctx" rule: rev_cases) auto
    have "?q \<in> set (lr_queue ctx)" using ne by simp
    then have "unat (lr_last ?lr) \<le> t" using 1(2) unfolding zone_ok_def by blast
    then obtain k where k: "t = unat (lr_last ?lr) + k" by (metis le_Suc_ex)
    then have "\<not> t < unat (lr_last ?lr) + 60000" using old word_diff [OF k 1(3)] by simp
    then show ?thesis unfolding e using c s by auto
  qed
qed

section \<open>One request\<close>

lemma div_1000: "p < 2 ^ 62 \<Longrightarrow> (of_nat p :: 64 word) div 1000 = of_nat (p div 1000)"
proof (rule word_unat_eq_iff [THEN iffD2])
  assume p: "p < 2 ^ 62"
  then have "p div 1000 < 2 ^ 62" by (rule le_less_trans [rotated]) simp
  then show "unat ((of_nat p :: 64 word) div 1000) = unat (of_nat (p div 1000) :: 64 word)"
    using p by (simp add: unat_div unat_of_nat take_bit_nat_eq_self)
qed

lemma diff_range:
  fixes a b :: nat
  assumes "a < 2 ^ 62" "b < 2 ^ 62"
  shows "- (2 ^ 63) \<le> int a - int b + 1000" "int a - int b + 1000 < 2 ^ 63"
  using assms by simp_all

lemma diff_nat: "\<not> int a - int b + 1000 < 0 \<Longrightarrow> int a - int b + 1000 = int (a + 1000 - b)"
  by simp

lemma excess_nat:
  assumes "unat rate * k < 2 ^ 62" "unat e < 2 ^ 62" "ngx_abs ms = of_nat k" "k < 2 ^ 62"
  shows "unat (lr_excess_after rate e ms) = unat e + 1000 - unat rate * k div 1000"
proof -
  let ?d = "unat rate * k div 1000"
  have d: "?d < 2 ^ 62" using assms(1) by (rule le_less_trans [rotated]) simp
  have "rate * of_nat k = of_nat (unat rate * k)" by simp
  moreover have "(of_nat (unat rate * k) :: 64 word) div 1000 = of_nat ?d" by (rule div_1000) (rule assms(1))
  ultimately have w: "e - rate * ngx_abs ms div 1000 + 1000 = word_of_int (int (unat e) - int ?d + 1000)"
    by (simp add: assms(3))
  have s: "sint (word_of_int (int (unat e) - int ?d + 1000) :: 64 word) = int (unat e) - int ?d + 1000"
    using diff_range [OF assms(2) d] by (intro sint_in_range) simp_all
  show ?thesis
  proof (cases "int (unat e) - int ?d + 1000 < 0")
    case True
    have "lr_excess_after rate e ms = 0" unfolding lr_excess_after_def Let_def w s by (simp only: True if_True)
    moreover have "unat e + 1000 - ?d = 0" using True by linarith
    ultimately show ?thesis by simp
  next
    case False
    then have "int (unat e) - int ?d + 1000 = int (unat e + 1000 - ?d)" by (rule diff_nat)
    then have "lr_excess_after rate e ms = of_nat (unat e + 1000 - ?d)" using False s w by (simp only: lr_excess_after_def Let_def) simp
    moreover have "unat e + 1000 - ?d < 2 ^ 64" using assms(2) by simp
    ultimately show ?thesis by (simp add: unat_of_nat take_bit_nat_eq_self)
  qed
qed

definition slab_ok :: "(nat list \<Rightarrow> nat \<Rightarrow> nat option) \<Rightarrow> bool" where
  "slab_ok slab \<longleftrightarrow> (\<forall>ns sz. \<exists>n. slab ns sz = Some n \<and> n \<notin> set ns)"

text \<open>The node of a value is used: it moves to the front, and its times and excess may change.\<close>

lemma use_node:
  assumes "zone_ok t ctx" "n \<in> set (lr_queue ctx)" "lr_key lr = lr_key (lr_nodes ctx n)" "lr_data lr = lr_data (lr_nodes ctx n)"
    "lr_len lr = lr_len (lr_nodes ctx n)" "unat (lr_last lr) \<le> t" "unat (lr_excess lr) < 2 ^ 62"
  shows "zone_ok t (ctx\<lparr>lr_queue := n # remove1 n (lr_queue ctx), lr_nodes := (lr_nodes ctx)(n := lr)\<rparr>)"
proof -
  have o: "lr_order ((lr_nodes ctx)(n := lr)) = lr_order (lr_nodes ctx)" using assms(3,4) by (auto simp: lr_order_def)
  have "set (n # remove1 n (lr_queue ctx)) = set (lr_queue ctx)" "distinct (n # remove1 n (lr_queue ctx))"
    using assms(1,2) by (auto simp: zone_ok_def)
  then show ?thesis using assms o by (auto simp: zone_ok_def lr_fits_def)
qed

lemma new_node:
  assumes z: "zone_ok t ctx" and n: "n \<notin> set (lr_queue ctx)" and lr: "lr_fits lr" "unat (lr_last lr) \<le> t" "unat (lr_excess lr) < 2 ^ 62"
    and x: "(lr_key lr, map unat (lr_data lr)) \<notin> lr_order (lr_nodes ctx) ` set (lr_queue ctx)"
  shows "\<exists>u. ngx_rbtree_insert (ngx_http_limit_req_rbtree_insert_value ((lr_nodes ctx)(n := lr)) n) n (lr_rbtree ctx) = Some u \<and>
    zone_ok t (ctx\<lparr>lr_nodes := (lr_nodes ctx)(n := lr), lr_rbtree := u, lr_queue := n # lr_queue ctx\<rparr>)"
proof -
  let ?ns = "(lr_nodes ctx)(n := lr)"
  let ?t = "lr_rbtree ctx"
  have q: "set (lr_queue ctx) = set (rb_nodes ?t)" "distinct (lr_queue ctx)" "\<forall>m \<in> set (lr_queue ctx). lr_fits (lr_nodes ctx m)"
    and d: "distinct (map (lr_order (lr_nodes ctx)) (rb_nodes ?t))" and s: "sorted (map (lr_order (lr_nodes ctx)) (rb_nodes ?t))"
    and rb: "red_black ?t" using z by (auto simp: zone_ok_def)
  have o: "map (lr_order ?ns) (rb_nodes ?t) = map (lr_order (lr_nodes ctx)) (rb_nodes ?t)" using n q(1) by (auto simp: lr_order_def)
  have "ngx_http_limit_req_rbtree_insert_value ?ns n y \<longleftrightarrow> lr_order ?ns n < lr_order ?ns y" if "y \<in> set (rb_nodes ?t)" for y
    using that q n lr(1) by (intro insert_value_order) auto
  then obtain u where u: "ngx_rbtree_insert (ngx_http_limit_req_rbtree_insert_value ?ns n) n ?t = Some u" "red_black u" "sorted (map (lr_order ?ns) (rb_nodes u))"
    "mset (rb_nodes u) = add_mset n (mset (rb_nodes ?t))"
    using rbq.ins_sorted [OF rb, of "lr_order ?ns"] s unfolding o by blast
  have m: "set (rb_nodes u) = insert n (set (rb_nodes ?t))" using u(4) by (metis set_mset_add_mset_insert set_mset_mset)
  have "mset (map (lr_order ?ns) (rb_nodes u)) = mset (map (lr_order ?ns) (n # rb_nodes ?t))" using u(4) by (simp add: mset_map)
  moreover have "distinct (map (lr_order ?ns) (n # rb_nodes ?t))"
    unfolding list.map distinct.simps o using d x q(1) by (auto simp: lr_order_def)
  ultimately have "distinct (map (lr_order ?ns) (rb_nodes u))" using mset_eq_imp_distinct_iff by blast
  then show ?thesis using u m q n lr z by (auto simp: zone_ok_def)
qed

text \<open>
  A lookup that accounts: the value has its node then, with the excess it had, less what has run off,
  and one more request; otherwise nothing about any node changes. Nodes used within a minute stay.
\<close>

definition value_node :: "limit_req_ctx \<Rightarrow> 64 word \<Rightarrow> bytes \<Rightarrow> nat \<Rightarrow> bool" where
  "value_node ctx hash v n \<longleftrightarrow> n \<in> set (lr_queue ctx) \<and> lr_order (lr_nodes ctx) n = (hash, map unat v)"

lemma value_node_unique: "zone_ok t ctx \<Longrightarrow> value_node ctx hash v n \<Longrightarrow> value_node ctx hash v m \<Longrightarrow> n = m"
  by (auto simp: zone_ok_def value_node_def distinct_map inj_on_def)

lemma lookup_ok:
  assumes z: "zone_ok t ctx" and t: "t < 2 ^ 62" "unat (lr_rate ctx) * t < 2 ^ 62" and b: "unat (lr_burst limit) < 2 ^ 62"
    and v: "length v \<le> 255" and slab: "slab_ok slab"
  shows "\<exists>rc e ctx'. ngx_http_limit_req_lookup slab (of_nat t) limit hash v True ctx = Some (rc, e, ctx') \<and> zone_ok t ctx' \<and>
    lr_rate ctx' = lr_rate ctx \<and>
    (\<forall>q \<in> set (lr_queue ctx). t < unat (lr_last (lr_nodes ctx q)) + 60000 \<longrightarrow> q \<in> set (lr_queue ctx') \<and>
       (rc = NGX_OK \<and> value_node ctx hash v q \<or> lr_nodes ctx' q = lr_nodes ctx q)) \<and>
    (rc = NGX_OK \<and> (\<exists>n. value_node ctx' hash v n \<and> unat (lr_last (lr_nodes ctx' n)) = t \<and> lr_excess (lr_nodes ctx' n) \<le> lr_burst limit \<and>
        (\<forall>m. value_node ctx hash v m \<longrightarrow>
           1000 * unat (lr_excess (lr_nodes ctx m)) + 1000000 \<le>
           1000 * unat (lr_excess (lr_nodes ctx' n)) + unat (lr_rate ctx) * (t - unat (lr_last (lr_nodes ctx m))))) \<or>
     rc = NGX_BUSY)"
proof -
  have tw: "unat (of_nat t :: 64 word) = t" using t(1) by (simp add: unat_of_nat take_bit_nat_eq_self)
  obtain r where f: "lr_find (lr_nodes ctx) hash v (lr_rbtree ctx) = Some r"
    and r: "case r of None \<Rightarrow> (hash, map unat v) \<notin> lr_order (lr_nodes ctx) ` set (rb_nodes (lr_rbtree ctx))
      | Some n \<Rightarrow> n \<in> set (rb_nodes (lr_rbtree ctx)) \<and> lr_order (lr_nodes ctx) n = (hash, map unat v)"
    using find_ok [of "lr_nodes ctx" "lr_rbtree ctx" hash v] z by (auto simp: zone_ok_def)
  have qs: "set (lr_queue ctx) = set (rb_nodes (lr_rbtree ctx))" using z by (simp add: zone_ok_def)
  show ?thesis
  proof (cases r)
    case (Some n)
    let ?lr = "lr_nodes ctx n"
    have n: "value_node ctx hash v n" "n \<in> set (lr_queue ctx)" using r Some qs by (simp_all add: value_node_def)
    have lr: "unat (lr_last ?lr) \<le> t" "unat (lr_excess ?lr) < 2 ^ 62" using z n(2) unfolding zone_ok_def by blast+
    obtain k where k: "t = unat (lr_last ?lr) + k" using lr(1) by (metis le_Suc_ex)
    have "unat (lr_rate ctx) * k \<le> unat (lr_rate ctx) * t" using k by simp
    then have rk: "unat (lr_rate ctx) * k < 2 ^ 62" using t(2) by (rule le_less_trans)
    let ?e = "lr_excess_after (lr_rate ctx) (lr_excess ?lr) (of_nat t - lr_last ?lr)"
    have e: "unat ?e = unat (lr_excess ?lr) + 1000 - unat (lr_rate ctx) * k div 1000"
      using excess_nat [OF rk lr(2) word_diff(2) [OF k t(1)]] k t(1) by simp
    show ?thesis
    proof (cases "?e > lr_burst limit")
      case True
      have "zone_ok t (ctx\<lparr>lr_queue := n # remove1 n (lr_queue ctx)\<rparr>)"
        using use_node [OF z n(2) refl refl refl lr] by simp
      then show ?thesis using True f Some n(2) z by (auto simp: ngx_http_limit_req_lookup_def Let_def zone_ok_def)
    next
      case False
      let ?lr' = "?lr\<lparr>lr_excess := ?e, lr_last := of_nat t\<rparr>"
      let ?ctx = "ctx\<lparr>lr_queue := n # remove1 n (lr_queue ctx), lr_nodes := (lr_nodes ctx)(n := ?lr')\<rparr>"
      have "unat ?e \<le> unat (lr_burst limit)" using False by (simp add: word_less_nat_alt)
      then have z': "zone_ok t ?ctx" using use_node [OF z n(2), of ?lr'] b tw by simp
      have N: "value_node ?ctx hash v n" using n(1) by (simp add: value_node_def lr_order_def)
      have ineq: "1000 * unat (lr_excess ?lr) + 1000000 \<le> 1000 * unat ?e + unat (lr_rate ctx) * k"
      proof -
        have "1000 * (unat (lr_rate ctx) * k div 1000) \<le> unat (lr_rate ctx) * k" by simp
        then show ?thesis unfolding e by simp
      qed
      have L: "ngx_http_limit_req_lookup slab (of_nat t) limit hash v True ctx = Some (NGX_OK, ?e, ?ctx)"
        using False f Some by (simp add: ngx_http_limit_req_lookup_def Let_def)
      have A: "\<forall>q \<in> set (lr_queue ctx). t < unat (lr_last (lr_nodes ctx q)) + 60000 \<longrightarrow> q \<in> set (lr_queue ?ctx) \<and>
          (NGX_OK = NGX_OK \<and> value_node ctx hash v q \<or> lr_nodes ?ctx q = lr_nodes ctx q)" using n z by (auto simp: zone_ok_def)
      have U: "m = n" if "value_node ctx hash v m" for m using value_node_unique [OF z that n(1)] .
      have "t - unat (lr_last ?lr) = k" using k by simp
      then have B: "\<exists>n. value_node ?ctx hash v n \<and> unat (lr_last (lr_nodes ?ctx n)) = t \<and> lr_excess (lr_nodes ?ctx n) \<le> lr_burst limit \<and>
        (\<forall>m. value_node ctx hash v m \<longrightarrow>
           1000 * unat (lr_excess (lr_nodes ctx m)) + 1000000 \<le>
           1000 * unat (lr_excess (lr_nodes ?ctx n)) + unat (lr_rate ctx) * (t - unat (lr_last (lr_nodes ctx m))))"
        using N False ineq tw U by (intro exI [of _ n]) auto
      show ?thesis by (rule exI, rule exI, rule exI, intro conjI, rule L, rule z', simp, rule A, rule disjI1, rule conjI, rule refl, rule B)
    qed
  next
    case None
    obtain ctx1 where c1: "ngx_http_limit_req_expire (of_nat t) ctx 1 = Some ctx1" "zone_ok t ctx1" "lr_nodes ctx1 = lr_nodes ctx" "lr_rate ctx1 = lr_rate ctx"
      "set (lr_queue ctx1) \<subseteq> set (lr_queue ctx)"
      "\<forall>q \<in> set (lr_queue ctx). t < unat (lr_last (lr_nodes ctx q)) + 60000 \<longrightarrow> q \<in> set (lr_queue ctx1)"
      using expire_ok [OF z t(1), of 1] by auto
    obtain n where n: "slab (lr_queue ctx1) (80 + length v) = Some n" "n \<notin> set (lr_queue ctx1)" using slab unfolding slab_ok_def by blast
    let ?lr = "\<lparr>lr_key = hash, lr_len = ucast (of_nat (length v) :: u_char), lr_last = of_nat t, lr_excess = 0, lr_count = 0, lr_data = v\<rparr>"
    have "unat (ucast (of_nat (length v) :: u_char) :: 16 word) = length v" using v by (simp add: unsigned_ucast_eq unsigned_of_nat take_bit_nat_eq_self)
    then have fit: "lr_fits ?lr" by (simp add: lr_fits_def)
    have no: "(hash, map unat v) \<notin> lr_order (lr_nodes ctx) ` set (lr_queue ctx)" using r None qs by simp
    then have "(lr_key ?lr, map unat (lr_data ?lr)) \<notin> lr_order (lr_nodes ctx1) ` set (lr_queue ctx1)" using c1(3,5) by auto
    from new_node [OF c1(2) n(2) fit _ _ this] tw obtain u where
      u: "ngx_rbtree_insert (ngx_http_limit_req_rbtree_insert_value ((lr_nodes ctx1)(n := ?lr)) n) n (lr_rbtree ctx1) = Some u"
      "zone_ok t (ctx1\<lparr>lr_nodes := (lr_nodes ctx1)(n := ?lr), lr_rbtree := u, lr_queue := n # lr_queue ctx1\<rparr>)" by auto
    let ?ctx = "ctx1\<lparr>lr_nodes := (lr_nodes ctx1)(n := ?lr), lr_rbtree := u, lr_queue := n # lr_queue ctx1\<rparr>"
    have e: "ngx_http_limit_req_lookup slab (of_nat t) limit hash v True ctx = Some (NGX_OK, 0, ?ctx)"
      using f None c1(1) n(1) u(1) by (simp add: ngx_http_limit_req_lookup_def lr_alloc_def Let_def)
    have N: "value_node ?ctx hash v n" by (simp add: value_node_def lr_order_def)
    have U: "\<not> value_node ctx hash v m" for m using no by (metis imageI value_node_def)
    have A: "\<forall>q \<in> set (lr_queue ctx). t < unat (lr_last (lr_nodes ctx q)) + 60000 \<longrightarrow> q \<in> set (lr_queue ?ctx) \<and>
        (NGX_OK = NGX_OK \<and> value_node ctx hash v q \<or> lr_nodes ?ctx q = lr_nodes ctx q)" using c1(3,6) n(2) by auto
    have B: "\<exists>n. value_node ?ctx hash v n \<and> unat (lr_last (lr_nodes ?ctx n)) = t \<and> lr_excess (lr_nodes ?ctx n) \<le> lr_burst limit \<and>
      (\<forall>m. value_node ctx hash v m \<longrightarrow>
         1000 * unat (lr_excess (lr_nodes ctx m)) + 1000000 \<le>
         1000 * unat (lr_excess (lr_nodes ?ctx n)) + unat (lr_rate ctx) * (t - unat (lr_last (lr_nodes ctx m))))"
      using N U tw by (intro exI [of _ n]) auto
    have R: "lr_rate ?ctx = lr_rate ctx" using c1(4) by simp
    show ?thesis by (rule exI, rule exI, rule exI, intro conjI, rule e, rule u(2), rule R, rule A, rule disjI1, rule conjI, rule refl, rule B)
  qed
qed

section \<open>Many requests\<close>

lemma lookup_codes:
  assumes "ngx_http_limit_req_lookup slab now limit hash v True ctx = Some (rc, e, ctx')"
  shows "rc \<in> {NGX_OK, NGX_BUSY, NGX_ERROR}"
  using assms unfolding ngx_http_limit_req_lookup_def Let_def
  by (auto split: option.splits prod.splits if_splits)

text \<open>
  On a location with one limit a request is refused with the configured status unless its lookup
  accounts for it; then it passes, at once or after the delay.
\<close>

lemma handler_one:
  assumes l: "ngx_http_limit_req_lookup slab now limit (ucast (ngx_crc32_short v)) v True ctx = Some (rc, e, ctx')"
    and v: "v \<noteq> []" "length v \<le> 65535" and r: "lr_rate ctx' \<noteq> 0"
  shows "\<exists>res d. ngx_http_limit_req_handler slab now code True [(limit, ctx, Some v)] False = Some (res, d, True, [ctx']) \<and>
    (if rc = NGX_OK then res = (if d = 0 then NGX_DECLINED else NGX_AGAIN) else res = code)"
proof -
  have c: "rc \<in> {NGX_OK, NGX_BUSY, NGX_ERROR}" by (rule lookup_codes [OF l])
  have "lr_loop slab now [(limit, ctx, Some v)] NGX_DECLINED 0 = Some (rc, e, [ctx'], 0)"
    using l v c by (auto simp: NGX_BUSY_def)
  then show ?thesis using c r by (auto simp: ngx_http_limit_req_handler_def ngx_http_limit_req_account_def Let_def NGX_BUSY_def)
qed

text \<open>Requests, with their times and values, to a location with one limit; the list tells which of them pass.\<close>

fun lr_run :: "(nat list \<Rightarrow> nat \<Rightarrow> nat option) \<Rightarrow> int \<Rightarrow> limit_req_limit \<Rightarrow> limit_req_ctx \<Rightarrow> (nat \<times> bytes) list \<Rightarrow> (bool list \<times> limit_req_ctx) option" where
  "lr_run slab code limit ctx [] = Some ([], ctx)"
| "lr_run slab code limit ctx ((t, v) # reqs) =
    (case ngx_http_limit_req_handler slab (of_nat t) code True [(limit, ctx, Some v)] False of
       Some (res, d, done, [ctx]) \<Rightarrow> map_option (\<lambda>(passed, ctx). ((res \<noteq> code) # passed, ctx)) (lr_run slab code limit ctx reqs)
     | _ \<Rightarrow> None)"

definition passed_count :: "bytes \<Rightarrow> (nat \<times> bytes) list \<Rightarrow> bool list \<Rightarrow> nat" where
  "passed_count v reqs passed = length (filter (\<lambda>((t, w), b). w = v \<and> b) (zip reqs passed))"

text \<open>
  What is known of a value since a time \<open>t0\<close> after \<open>k\<close> of its requests have passed: they are paid for
  by its excess and by what has run off.
\<close>

definition paid :: "nat \<Rightarrow> limit_req_limit \<Rightarrow> bytes \<Rightarrow> nat \<Rightarrow> limit_req_ctx \<Rightarrow> bool" where
  "paid t0 limit v k ctx \<longleftrightarrow>
    k = 0 \<or> (\<exists>n. value_node ctx (ucast (ngx_crc32_short v)) v n \<and> t0 \<le> unat (lr_last (lr_nodes ctx n)) \<and> lr_excess (lr_nodes ctx n) \<le> lr_burst limit \<and>
       1000000 * (k - 1) \<le> 1000 * unat (lr_excess (lr_nodes ctx n)) + unat (lr_rate ctx) * (unat (lr_last (lr_nodes ctx n)) - t0))"

lemma paid_step:
  assumes z: "zone_ok t ctx" and p: "paid t0 limit v k ctx" and time: "t0 \<le> t" "t < t0 + 60000" "t < 2 ^ 62" "unat (lr_rate ctx) * t < 2 ^ 62"
    and b: "unat (lr_burst limit) < 2 ^ 62" and w: "length w \<le> 255" and slab: "slab_ok slab"
    and e: "ngx_http_limit_req_lookup slab (of_nat t) limit (ucast (ngx_crc32_short w)) w True ctx = Some (rc, e, ctx')"
  shows "paid t0 limit v (k + (if w = v \<and> rc = NGX_OK then 1 else 0)) ctx' \<and> zone_ok t ctx' \<and> lr_rate ctx' = lr_rate ctx"
proof -
  let ?h = "ucast (ngx_crc32_short w) :: 64 word"
  have l: "zone_ok t ctx'" "lr_rate ctx' = lr_rate ctx"
    and stay: "\<And>q. q \<in> set (lr_queue ctx) \<Longrightarrow> t < unat (lr_last (lr_nodes ctx q)) + 60000 \<Longrightarrow> q \<in> set (lr_queue ctx') \<and>
       (rc = NGX_OK \<and> value_node ctx ?h w q \<or> lr_nodes ctx' q = lr_nodes ctx q)"
    and rc: "rc = NGX_OK \<and> (\<exists>n. value_node ctx' ?h w n \<and> unat (lr_last (lr_nodes ctx' n)) = t \<and> lr_excess (lr_nodes ctx' n) \<le> lr_burst limit \<and>
        (\<forall>m. value_node ctx ?h w m \<longrightarrow>
           1000 * unat (lr_excess (lr_nodes ctx m)) + 1000000 \<le>
           1000 * unat (lr_excess (lr_nodes ctx' n)) + unat (lr_rate ctx) * (t - unat (lr_last (lr_nodes ctx m))))) \<or> rc = NGX_BUSY"
    using lookup_ok [OF z time(3,4) b w slab, of ?h] e by auto
  show ?thesis
  proof (cases "w = v \<and> rc = NGX_OK")
    case True
    then obtain n where n: "value_node ctx' ?h v n" "unat (lr_last (lr_nodes ctx' n)) = t" "lr_excess (lr_nodes ctx' n) \<le> lr_burst limit"
      "\<forall>m. value_node ctx ?h v m \<longrightarrow> 1000 * unat (lr_excess (lr_nodes ctx m)) + 1000000 \<le>
           1000 * unat (lr_excess (lr_nodes ctx' n)) + unat (lr_rate ctx) * (t - unat (lr_last (lr_nodes ctx m)))"
      using rc by (auto simp: NGX_BUSY_def)
    have "1000000 * k \<le> 1000 * unat (lr_excess (lr_nodes ctx' n)) + unat (lr_rate ctx) * (t - t0)"
    proof (cases "k = 0")
      case False
      then obtain m where m: "value_node ctx ?h v m" "t0 \<le> unat (lr_last (lr_nodes ctx m))"
        "1000000 * (k - 1) \<le> 1000 * unat (lr_excess (lr_nodes ctx m)) + unat (lr_rate ctx) * (unat (lr_last (lr_nodes ctx m)) - t0)"
        using p True by (auto simp: paid_def)
      have "m \<in> set (lr_queue ctx)" using m(1) by (simp add: value_node_def)
      then have "unat (lr_last (lr_nodes ctx m)) \<le> t" using z unfolding zone_ok_def by blast
      then have "t - t0 = (t - unat (lr_last (lr_nodes ctx m))) + (unat (lr_last (lr_nodes ctx m)) - t0)" using m(2) by simp
      then have "unat (lr_rate ctx) * (t - t0) = unat (lr_rate ctx) * (t - unat (lr_last (lr_nodes ctx m))) + unat (lr_rate ctx) * (unat (lr_last (lr_nodes ctx m)) - t0)"
        by (simp add: distrib_left)
      moreover have "1000000 * k = 1000000 * (k - 1) + 1000000" using False by simp
      ultimately show ?thesis using n(4) m(1,3) by fastforce
    qed simp
    then show ?thesis using True n l time(1) by (auto simp: paid_def)
  next
    case other: False
    have "paid t0 limit v k ctx'"
    proof (cases "k = 0")
      case False
      then obtain n where n: "value_node ctx (ucast (ngx_crc32_short v)) v n" "t0 \<le> unat (lr_last (lr_nodes ctx n))" "lr_excess (lr_nodes ctx n) \<le> lr_burst limit"
        "1000000 * (k - 1) \<le> 1000 * unat (lr_excess (lr_nodes ctx n)) + unat (lr_rate ctx) * (unat (lr_last (lr_nodes ctx n)) - t0)"
        using p by (auto simp: paid_def)
      have q: "n \<in> set (lr_queue ctx)" "t < unat (lr_last (lr_nodes ctx n)) + 60000" using n(1,2) time(2) by (auto simp: value_node_def)
      have "\<not> (rc = NGX_OK \<and> value_node ctx ?h w n)" using other n(1) by (auto simp: value_node_def map_unat_inject)
      then have "n \<in> set (lr_queue ctx')" "lr_nodes ctx' n = lr_nodes ctx n" using stay [OF q] by auto
      moreover from this have "value_node ctx' (ucast (ngx_crc32_short v)) v n" using n(1) by (simp add: value_node_def lr_order_def)
      ultimately show ?thesis using n(2-4) l(2) by (auto simp: paid_def)
    qed (simp add: paid_def)
    then show ?thesis using other l by auto
  qed
qed

lemma run_paid:
  assumes "zone_ok s ctx" "paid t0 limit v k ctx" "t0 \<le> s" "sorted (s # map fst reqs)" "\<forall>(t, w) \<in> set reqs. t \<le> e \<and> w \<noteq> [] \<and> length w \<le> 255"
    and "0 \<le> code" "lr_rate ctx \<noteq> 0"
    and "e < t0 + 60000" "e < 2 ^ 62" "unat (lr_rate ctx) * e < 2 ^ 62" "unat (lr_burst limit) < 2 ^ 62" "slab_ok slab" "s \<le> e"
  shows "\<exists>passed ctx'. lr_run slab code limit ctx reqs = Some (passed, ctx') \<and> length passed = length reqs \<and> zone_ok e ctx' \<and> lr_rate ctx' = lr_rate ctx \<and>
    paid t0 limit v (k + passed_count v reqs passed) ctx'"
  using assms(1-5,7,10,13)
proof (induction reqs arbitrary: s k ctx)
  case Nil
  then show ?case using zone_mono by (auto simp: passed_count_def)
next
  case (Cons x reqs)
  obtain t w where x: "x = (t, w)" by (cases x)
  have t: "s \<le> t" "t \<le> e" "length w \<le> 255" and w: "w \<noteq> []" using Cons.prems(4,5) x by auto
  have z: "zone_ok t ctx" using zone_mono [OF Cons.prems(1) t(1)] .
  have "unat (lr_rate ctx) * t \<le> unat (lr_rate ctx) * e" using t(2) by simp
  then have time: "t0 \<le> t" "t < t0 + 60000" "t < 2 ^ 62" "unat (lr_rate ctx) * t < 2 ^ 62"
    using Cons.prems(3,7) t assms(8,9) by linarith+
  obtain rc ex ctx1 where r: "ngx_http_limit_req_lookup slab (of_nat t) limit (ucast (ngx_crc32_short w)) w True ctx = Some (rc, ex, ctx1)"
    using lookup_ok [OF z time(3,4) assms(11) t(3) assms(12), of "ucast (ngx_crc32_short w)"] by blast
  let ?k = "k + (if w = v \<and> rc = NGX_OK then 1 else 0)"
  have s: "paid t0 limit v ?k ctx1" "zone_ok t ctx1" "lr_rate ctx1 = lr_rate ctx"
    using paid_step [OF z Cons.prems(2) time assms(11) t(3) assms(12) r] by auto
  have "sorted (t # map fst reqs)" "\<forall>(t, w) \<in> set reqs. t \<le> e \<and> w \<noteq> [] \<and> length w \<le> 255" "lr_rate ctx1 \<noteq> 0" "unat (lr_rate ctx1) * e < 2 ^ 62"
    using Cons.prems(4-7) x s(3) by auto
  from Cons.IH [OF s(2,1) time(1) this t(2)] obtain passed ctx' where
    "lr_run slab code limit ctx1 reqs = Some (passed, ctx')" "length passed = length reqs" "zone_ok e ctx'" "lr_rate ctx' = lr_rate ctx1"
    "paid t0 limit v (?k + passed_count v reqs passed) ctx'" by auto
  moreover obtain res d where h: "ngx_http_limit_req_handler slab (of_nat t) code True [(limit, ctx, Some w)] False = Some (res, d, True, [ctx1])"
    "res \<noteq> code \<longleftrightarrow> rc = NGX_OK"
    using handler_one [OF r w, of code] t(3) Cons.prems(6) s(3) assms(6) by (auto split: if_splits)
  moreover have "passed_count v (x # reqs) ((rc = NGX_OK) # passed) = (if w = v \<and> rc = NGX_OK then 1 else 0) + passed_count v reqs passed"
    by (simp add: passed_count_def x)
  ultimately show ?case using s(3) x by (auto simp: add.assoc)
qed

text \<open>
  A value of 256 bytes or more does not compare equal with its own node, whose length is cut to a
  byte: it is never found again, and its requests always pass.
\<close>

lemma memcmp_same: "n \<le> length v \<Longrightarrow> ngx_memcmp v v n = Some 0"
proof (induction n arbitrary: v)
  case (Suc n)
  then obtain c w where "v = c # w" by (cases v) auto
  then show ?case using Suc by simp
qed simp

lemma long_value_not_found:
  assumes "256 \<le> length v" "length v \<le> 65535"
  shows "ngx_memn2cmp v v (length v) (unat (ucast (of_nat (length v) :: u_char) :: 16 word)) = Some 1"
proof -
  have l: "unat (ucast (of_nat (length v) :: u_char) :: 16 word) = length v mod 256"
    by (simp add: unsigned_ucast_eq unsigned_of_nat take_bit_eq_mod)
  have "length v mod 256 < length v" using assms(1) by (meson less_le_trans mod_less_divisor zero_less_numeral)
  then show ?thesis unfolding l ngx_memn2cmp_def using memcmp_same [of "length v mod 256" v] by simp
qed


text \<open>An empty zone of one request per second, and an allocator for it.\<close>

definition ex_zone :: limit_req_ctx where
  "ex_zone = \<lparr>lr_rbtree = Sentinel, lr_nodes = (\<lambda>n. \<lparr>lr_key = 0, lr_len = 0, lr_last = 0, lr_excess = 0, lr_count = 0, lr_data = []\<rparr>),
     lr_queue = [], lr_rate = 1000, lr_cur = None\<rparr>"

definition ex_slab :: "nat list \<Rightarrow> nat \<Rightarrow> nat option" where
  "ex_slab ns sz = Some (Suc (sum_list ns))"


end
