(* ===== verification/Ngx_Inet.thy ===== *)
theory Ngx_Inet
  imports Ngx_Sprintf Ngx_Numbers Ngx_Compare
begin

text \<open>
Addresses as text and in memory (\<open>core/ngx_inet.c\<close>): the readers and the printers of IPv4 and IPv6
  addresses, and networks as an address and a mask.
\<close>

section \<open>Byte order\<close>

text \<open>
  A 32-bit word in memory on a little-endian machine, as its four bytes, and \<open>htonl\<close>, which is \<open>ntohl\<close>
  too: it swaps them.
\<close>

definition word_bytes :: "32 word \<Rightarrow> bytes" where
  "word_bytes w = [ucast w, ucast (drop_bit 8 w), ucast (drop_bit 16 w), ucast (drop_bit 24 w)]"

definition htonl :: "32 word \<Rightarrow> 32 word" where
  "htonl w = push_bit 24 (w AND 0xff) OR push_bit 8 (w AND 0xff00) OR drop_bit 8 (w AND 0xff0000) OR drop_bit 24 w"

section \<open>Text to addresses\<close>

abbreviation (input) INADDR_NONE :: "32 word" where "INADDR_NONE \<equiv> 0xffffffff"

text \<open>\<open>ngx_inet_addr\<close>; \<open>octet\<close> is an \<open>ngx_uint_t\<close>.\<close>

fun inet_addr_loop :: "bytes \<Rightarrow> 32 word \<Rightarrow> 64 word \<Rightarrow> 64 word \<Rightarrow> 32 word" where
  "inet_addr_loop [] addr octet n = (if n = 3 \<and> octet < 256 then htonl (push_bit 8 addr + ucast octet) else INADDR_NONE)"
| "inet_addr_loop (c # text) addr octet n =
    (if c_0 \<le> c \<and> c \<le> c_9 then inet_addr_loop text addr (octet * 10 + (ucast c - 48)) n
     else if c = c_dot \<and> octet < 256 then inet_addr_loop text (push_bit 8 addr + ucast octet) 0 (n + 1)
     else INADDR_NONE)"

definition ngx_inet_addr :: "bytes \<Rightarrow> 32 word" where
  "ngx_inet_addr text = inet_addr_loop text 0 0 0"

text \<open>
  The variables of \<open>ngx_inet6_addr\<close>: the bytes stored so far, where \<open>zero\<close> points among them, the text
  from \<open>digit\<close> on, the digits of the current group, its value and the groups still to come.
\<close>

record inet6_state =
  i6_addr :: bytes
  i6_zero :: "nat option"
  i6_digit :: "bytes option"
  i6_nibbles :: "64 word"
  i6_word :: "64 word"
  i6_n :: "64 word"

definition i6_store :: "inet6_state \<Rightarrow> inet6_state" where
  "i6_store s = s\<lparr>i6_addr := i6_addr s @ [ucast (drop_bit 8 (i6_word s)), ucast (i6_word s AND 0xff)]\<rparr>"

text \<open>The loop; \<open>None\<close> is \<open>return NGX_ERROR\<close>.\<close>

fun inet6_loop :: "bytes \<Rightarrow> inet6_state \<Rightarrow> inet6_state option" where
  "inet6_loop [] s = Some s"
| "inet6_loop (c # p) s =
    (if c = c_colon then
       (if i6_nibbles s \<noteq> 0 then
          (let s = i6_store (s\<lparr>i6_digit := Some p\<rparr>); s = s\<lparr>i6_n := i6_n s - 1\<rparr>
           in if i6_n s \<noteq> 0 then inet6_loop p (s\<lparr>i6_nibbles := 0, i6_word := 0\<rparr>) else None)
        else if i6_zero s = None then inet6_loop p (s\<lparr>i6_digit := Some p, i6_zero := Some (length (i6_addr s))\<rparr>)
        else None)
     else if c = c_dot \<and> i6_nibbles s \<noteq> 0 then
       (case i6_digit s of
          None \<Rightarrow> None
        | Some digit \<Rightarrow>
            if i6_n s < 2 then None
            else
              (let word = ngx_inet_addr digit in
               if word = INADDR_NONE then None
               else
                 (let word = htonl word in
                  Some (s\<lparr>i6_addr := i6_addr s @ [ucast (drop_bit 24 word AND 0xff), ucast (drop_bit 16 word AND 0xff)],
                          i6_word := ucast word, i6_n := i6_n s - 1\<rparr>))))
     else
       (let s = s\<lparr>i6_nibbles := i6_nibbles s + 1\<rparr> in
        if i6_nibbles s > 4 then None
        else if c_0 \<le> c \<and> c \<le> c_9 then inet6_loop p (s\<lparr>i6_word := i6_word s * 16 + (ucast c - 48)\<rparr>)
        else
          (let c = c OR 0x20 in
           if of_char CHR ''a'' \<le> c \<and> c \<le> of_char CHR ''f''
           then inet6_loop p (s\<lparr>i6_word := i6_word s * 16 + (ucast c - 97) + 10\<rparr>)
           else None)))"

text \<open>\<open>ngx_inet6_addr\<close>: the bytes it leaves at \<open>addr\<close>, or \<open>None\<close> for \<open>NGX_ERROR\<close>.\<close>

definition ngx_inet6_addr :: "bytes \<Rightarrow> bytes option" where
  "ngx_inet6_addr p =
    (if p = [] then None
     else
       (let p = (if hd p = c_colon then tl p else p)
        in case inet6_loop p \<lparr>i6_addr = [], i6_zero = None, i6_digit = None, i6_nibbles = 0, i6_word = 0, i6_n = 8\<rparr> of
             None \<Rightarrow> None
           | Some s \<Rightarrow>
               if i6_nibbles s = 0 \<and> i6_zero s = None then None
               else
                 (let s = i6_store s; s = s\<lparr>i6_n := i6_n s - 1\<rparr>
                  in if i6_n s \<noteq> 0 then
                       (case i6_zero s of
                          None \<Rightarrow> None
                        | Some zero \<Rightarrow> Some (take zero (i6_addr s) @ replicate (unat (i6_n s * 2)) 0 @ drop zero (i6_addr s)))
                     else (case i6_zero s of None \<Rightarrow> Some (i6_addr s) | Some zero \<Rightarrow> None))))"

section \<open>Addresses to text\<close>

text \<open>The arguments of the conversions \<open>%ud\<close> and \<open>%uxi\<close>.\<close>

abbreviation A_byte :: "u_char \<Rightarrow> sp_arg" where "A_byte c \<equiv> A_int (ucast c)"

text \<open>
  \<open>ngx_inet6_ntop\<close>: the first longest run of zero groups, as \<open>zero\<close> (\<open>None\<close> for -1) and \<open>max\<close>, from the
  groups at \<open>i\<close>, \<open>i + 2\<close> and so on.
\<close>

fun ntop_runs :: "bytes \<Rightarrow> nat list \<Rightarrow> nat option \<Rightarrow> nat option \<Rightarrow> nat \<Rightarrow> nat \<Rightarrow> nat option \<times> nat" where
  "ntop_runs p [] zero lst mx n = (if mx < n then (lst, n) else (zero, mx))"
| "ntop_runs p (i # is) zero lst mx n =
    (if p ! i \<noteq> 0 \<or> p ! (i + 1) \<noteq> 0
     then (if mx < n then ntop_runs p is lst lst n 0 else ntop_runs p is zero lst mx 0)
     else ntop_runs p is zero (if n = 0 then Some i else lst) mx (n + 1))"

function ntop_groups :: "bytes \<Rightarrow> nat option \<Rightarrow> nat \<Rightarrow> nat \<Rightarrow> nat \<Rightarrow> bytes option" where
  "ntop_groups p zero mx n i =
    (if n \<le> i then Some []
     else if zero = Some i then map_option (Cons c_colon) (ntop_groups p zero mx n (i + (mx - 1) * 2 + 2))
     else
       (case ngx_sprintf (ascii ''%uxi'') [A_long (ucast (p ! i) * 256 + ucast (p ! (i + 1)))] of
          None \<Rightarrow> None
        | Some t \<Rightarrow> map_option (\<lambda>r. t @ (if i < 14 then [c_colon] else []) @ r) (ntop_groups p zero mx n (i + 2))))"
  by pat_completeness auto
termination
  by (relation "measure (\<lambda>(p, zero, mx, n, i). n - i)") auto

declare ntop_groups.simps [simp del]

text \<open>\<open>None\<close> is a read past the address; an empty text stands for the length 0 of a buffer that is too small.\<close>

definition ngx_inet6_ntop :: "bytes \<Rightarrow> nat \<Rightarrow> bytes option" where
  "ngx_inet6_ntop p len =
    (if len < 45 then Some []
     else if length p < 16 then None
     else
       (let (zero, mx) = ntop_runs p [0, 2, 4, 6, 8, 10, 12, 14] None None 1 0;
            n = (if zero = Some 0 \<and>
                    (mx = 5 \<and> p ! 10 = 0xff \<and> p ! 11 = 0xff \<or> mx = 6 \<or> mx = 7 \<and> p ! 14 \<noteq> 0 \<and> p ! 15 \<noteq> 1)
                 then 12 else 16)
        in case ntop_groups p zero mx n 0 of
             None \<Rightarrow> None
           | Some t \<Rightarrow>
               (case (if n = 12 then ngx_sprintf (ascii ''%ud.%ud.%ud.%ud'') [A_byte (p ! 12), A_byte (p ! 13), A_byte (p ! 14), A_byte (p ! 15)] else Some []) of
                  None \<Rightarrow> None
                | Some d \<Rightarrow> Some ((if zero = Some 0 then [c_colon] else []) @ t @ d))))"

text \<open>\<open>ngx_inet_ntop\<close>, for the family \<open>AF_INET\<close> or \<open>AF_INET6\<close>.\<close>

datatype addr_family = AF_INET | AF_INET6 | AF_UNIX | AF_other

definition ngx_inet_ntop :: "addr_family \<Rightarrow> bytes \<Rightarrow> nat \<Rightarrow> bytes option" where
  "ngx_inet_ntop family p len =
    (case family of
       AF_INET \<Rightarrow>
         if length p < 4 then None
         else ngx_snprintf len (ascii ''%ud.%ud.%ud.%ud'') [A_byte (p ! 0), A_byte (p ! 1), A_byte (p ! 2), A_byte (p ! 3)]
     | AF_INET6 \<Rightarrow> ngx_inet6_ntop p len
     | _ \<Rightarrow> Some [])"

text \<open>
  A socket address: \<open>sockaddr_in\<close> and \<open>sockaddr_in6\<close> with the bytes of the address and the port in network
  order, \<open>sockaddr_un\<close> with the length of the structure and its path.
\<close>

datatype sockaddr = SA_inet bytes "16 word" | SA_inet6 bytes "16 word" | SA_unix nat bytes | SA_other

definition ntohs :: "16 word \<Rightarrow> 16 word" where
  "ntohs w = push_bit 8 w OR drop_bit 8 w"

definition ngx_sock_ntop :: "sockaddr \<Rightarrow> nat \<Rightarrow> bool \<Rightarrow> bytes option" where
  "ngx_sock_ntop sa len port =
    (case sa of
       SA_inet p sin_port \<Rightarrow>
         if length p < 4 then None
         else if port
         then ngx_snprintf len (ascii ''%ud.%ud.%ud.%ud:%d'')
                [A_byte (p ! 0), A_byte (p ! 1), A_byte (p ! 2), A_byte (p ! 3), A_int (ucast (ntohs sin_port))]
         else ngx_snprintf len (ascii ''%ud.%ud.%ud.%ud'') [A_byte (p ! 0), A_byte (p ! 1), A_byte (p ! 2), A_byte (p ! 3)]
     | SA_inet6 p sin6_port \<Rightarrow>
         (case ngx_inet6_ntop p len of
            None \<Rightarrow> None
          | Some t \<Rightarrow>
              if port
              then map_option (\<lambda>e. of_char CHR ''['' # t @ e) (ngx_sprintf (ascii '']:%d'') [A_int (ucast (ntohs sin6_port))])
              else Some t)
     | SA_unix socklen sun_path \<Rightarrow>
         map_option butlast
           (if socklen \<le> 2 then ngx_snprintf len (ascii ''unix:%Z'') []
            else ngx_snprintf len (ascii ''unix:%s%Z'') [A_ptr sun_path])
     | SA_other \<Rightarrow> Some [])"

text \<open>\<open>ngx_parse_addr\<close>, when memory for the result can be had; \<open>None\<close> is \<open>NGX_DECLINED\<close>.\<close>

definition ngx_parse_addr :: "bytes \<Rightarrow> sockaddr option" where
  "ngx_parse_addr text =
    (let inaddr = ngx_inet_addr text in
     if inaddr \<noteq> INADDR_NONE then Some (SA_inet (word_bytes inaddr) 0)
     else map_option (\<lambda>a. SA_inet6 a 0) (ngx_inet6_addr text))"

section \<open>Networks\<close>

text \<open>\<open>ngx_cidr_t\<close>, in network order.\<close>

datatype cidr = Cidr_in "32 word" "32 word" | Cidr_in6 bytes bytes

text \<open>
  The loop of \<open>ngx_ptocidr\<close> over the bytes of an address, with the number of bits left: the address
  without the bits beyond the mask, the mask, and whether bits were lost.
\<close>

fun ptocidr6_loop :: "bytes \<Rightarrow> int \<Rightarrow> bytes \<times> bytes \<times> bool" where
  "ptocidr6_loop [] shift = ([], [], False)"
| "ptocidr6_loop (a # addr) shift =
    (let s = (if shift > 8 then 8 else shift);
         m = ucast (push_bit (nat (8 - s)) (0xff :: 32 word));
         (addr', masks, lost) = ptocidr6_loop addr (shift - s)
     in ((a AND m) # addr', m # masks, lost \<or> a \<noteq> a AND m))"

definition ngx_ptocidr :: "bytes \<Rightarrow> (int \<times> cidr) option" where
  "ngx_ptocidr text =
    (let slash = the (ngx_strlchr text (length text) c_slash);
         addr = (case slash of None \<Rightarrow> text | Some i \<Rightarrow> take i text);
         inaddr = ngx_inet_addr addr
     in if inaddr \<noteq> INADDR_NONE then
          (case slash of
             None \<Rightarrow> Some (NGX_OK, Cidr_in inaddr 0xffffffff)
           | Some i \<Rightarrow>
               (let shift = ngx_atoi (drop (i + 1) text) in
                if shift = NGX_ERROR then None
                else if shift > 32 then None
                else
                  (let m = (if shift \<noteq> 0 then htonl (push_bit (nat (32 - shift)) 0xffffffff) else 0)
                   in Some (if inaddr = inaddr AND m then NGX_OK else NGX_DONE, Cidr_in (inaddr AND m) m))))
        else
          (case ngx_inet6_addr addr of
             None \<Rightarrow> None
           | Some in6 \<Rightarrow>
               (case slash of
                  None \<Rightarrow> Some (NGX_OK, Cidr_in6 in6 (replicate 16 0xff))
                | Some i \<Rightarrow>
                    (let shift = ngx_atoi (drop (i + 1) text) in
                     if shift = NGX_ERROR then None
                     else if shift > 128 then None
                     else (case ptocidr6_loop in6 shift of (in6, m, lost) \<Rightarrow> Some (if lost then NGX_DONE else NGX_OK, Cidr_in6 in6 m))))))"

end
