(* ===== verification/Http_Access.thy ===== *)
theory Http_Access
  imports Ngx_Inet
begin

text \<open>
The access rules of a location (\<open>http/modules/ngx_http_access_module.c\<close>): what \<open>allow\<close> and \<open>deny\<close> keep
  of a network, and the handler that goes through the rules for a client.
\<close>

section \<open>Rules\<close>

text \<open>
  \<open>ngx_http_access_loc_conf_t\<close>: the rules with mask, address and whether they deny, in network order;
  \<open>None\<close> is an array that has not been created.
\<close>

record access_conf =
  ac_rules :: "(32 word \<times> 32 word \<times> bool) list option"
  ac_rules6 :: "(bytes \<times> bytes \<times> bool) list option"
  ac_rules_un :: "bool list option"

definition ngx_http_access_create_loc_conf :: access_conf where
  "ngx_http_access_create_loc_conf = \<lparr>ac_rules = None, ac_rules6 = None, ac_rules_un = None\<rparr>"

definition access_push :: "'a \<Rightarrow> 'a list option \<Rightarrow> 'a list option" where
  "access_push x xs = Some ((case xs of None \<Rightarrow> [] | Some xs \<Rightarrow> xs) @ [x])"

text \<open>
  \<open>ngx_http_access_rule\<close>, the directives \<open>allow\<close> and \<open>deny\<close>, when there is memory; \<open>None\<close> is
  \<open>NGX_CONF_ERROR\<close>. With \<open>all\<close> the network is the zeroed structure, for all families.
\<close>

definition ngx_http_access_rule :: "bytes \<Rightarrow> bytes \<Rightarrow> access_conf \<Rightarrow> access_conf option" where
  "ngx_http_access_rule directive net conf =
    (let deny = (directive \<noteq> [] \<and> hd directive = of_char CHR ''d'') in
     if net = ascii ''all'' then
       Some (conf\<lparr>ac_rules := access_push (0, 0, deny) (ac_rules conf),
                  ac_rules6 := access_push (replicate 16 0, replicate 16 0, deny) (ac_rules6 conf),
                  ac_rules_un := access_push deny (ac_rules_un conf)\<rparr>)
     else if net = ascii ''unix:'' then Some (conf\<lparr>ac_rules_un := access_push deny (ac_rules_un conf)\<rparr>)
     else
       (case ngx_ptocidr net of
          None \<Rightarrow> None
        | Some (rc, Cidr_in addr m) \<Rightarrow> Some (conf\<lparr>ac_rules := access_push (m, addr, deny) (ac_rules conf)\<rparr>)
        | Some (rc, Cidr_in6 addr m) \<Rightarrow> Some (conf\<lparr>ac_rules6 := access_push (m, addr, deny) (ac_rules6 conf)\<rparr>)))"

definition ngx_http_access_merge_loc_conf :: "access_conf \<Rightarrow> access_conf \<Rightarrow> access_conf" where
  "ngx_http_access_merge_loc_conf prev conf =
    (if ac_rules conf = None \<and> ac_rules6 conf = None \<and> ac_rules_un conf = None
     then conf\<lparr>ac_rules := ac_rules prev, ac_rules6 := ac_rules6 prev, ac_rules_un := ac_rules_un prev\<rparr>
     else conf)"

section \<open>The handler\<close>

definition ngx_http_access_found :: "bool \<Rightarrow> int" where
  "ngx_http_access_found deny = (if deny then 403 else NGX_OK)"

fun ngx_http_access_inet :: "32 word \<Rightarrow> (32 word \<times> 32 word \<times> bool) list \<Rightarrow> int" where
  "ngx_http_access_inet addr [] = NGX_DECLINED"
| "ngx_http_access_inet addr ((m, a, deny) # rules) =
    (if addr AND m = a then ngx_http_access_found deny else ngx_http_access_inet addr rules)"

fun ngx_http_access_inet6 :: "bytes \<Rightarrow> (bytes \<times> bytes \<times> bool) list \<Rightarrow> int" where
  "ngx_http_access_inet6 p [] = NGX_DECLINED"
| "ngx_http_access_inet6 p ((m, a, deny) # rules) =
    (if \<forall>n \<in> set [0..<16]. p ! n AND m ! n = a ! n then ngx_http_access_found deny else ngx_http_access_inet6 p rules)"

fun ngx_http_access_unix :: "bool list \<Rightarrow> int" where
  "ngx_http_access_unix [] = NGX_DECLINED"
| "ngx_http_access_unix (deny # rules) = ngx_http_access_found deny"

text \<open>The macro \<open>IN6_IS_ADDR_V4MAPPED\<close>, and the address of 32 bits in host order the code reads then.\<close>

definition v4_mapped :: "bytes \<Rightarrow> bool" where
  "v4_mapped p \<longleftrightarrow> take 12 p = replicate 10 0 @ [0xff, 0xff]"

definition mapped_addr :: "bytes \<Rightarrow> 32 word" where
  "mapped_addr p = push_bit 24 (ucast (p ! 12)) + push_bit 16 (ucast (p ! 13)) + push_bit 8 (ucast (p ! 14)) + ucast (p ! 15)"

text \<open>An IPv4 address as the word its four bytes are in memory.\<close>

definition bytes_word :: "bytes \<Rightarrow> 32 word" where
  "bytes_word p = ucast (p ! 0) OR push_bit 8 (ucast (p ! 1)) OR push_bit 16 (ucast (p ! 2)) OR push_bit 24 (ucast (p ! 3))"

definition ngx_http_access_handler :: "access_conf \<Rightarrow> sockaddr \<Rightarrow> int" where
  "ngx_http_access_handler conf sa =
    (case sa of
       SA_inet p port \<Rightarrow>
         (case ac_rules conf of None \<Rightarrow> NGX_DECLINED | Some rules \<Rightarrow> ngx_http_access_inet (bytes_word p) rules)
     | SA_inet6 p port \<Rightarrow>
         if ac_rules conf \<noteq> None \<and> v4_mapped p
         then ngx_http_access_inet (htonl (mapped_addr p)) (the (ac_rules conf))
         else (case ac_rules6 conf of None \<Rightarrow> NGX_DECLINED | Some rules \<Rightarrow> ngx_http_access_inet6 p rules)
     | SA_unix socklen path \<Rightarrow> (case ac_rules_un conf of None \<Rightarrow> NGX_DECLINED | Some rules \<Rightarrow> ngx_http_access_unix rules)
     | SA_other \<Rightarrow> NGX_DECLINED)"

end
