(* ===== verification/Ngx_Radix_Tree.thy ===== *)
theory Ngx_Radix_Tree
  imports Nginx_Prelude
begin

text \<open>
Radix trees (\<open>core/ngx_radix_tree.c\<close>): the values of networks, found by the bits of an address, of 32
  bits in a word or of 128 bits in sixteen bytes.
\<close>

section \<open>Nodes\<close>

text \<open>
  A node with its value and its children; \<open>NGX_RADIX_NO_VALUE\<close> marks a node without a value. A pointer to a
  node, with the \<open>parent\<close> pointers that lead from it to the root, is the subtree and its path: for each
  ancestor, which child the path comes from, its value and its other child.
\<close>

datatype radix_node = RX_null | RX radix_node "64 word" radix_node

type_synonym radix_path = "(bool \<times> 64 word \<times> radix_node) list"

abbreviation (input) NGX_RADIX_NO_VALUE :: "64 word" where "NGX_RADIX_NO_VALUE \<equiv> -1"

fun radix_up :: "bool \<times> 64 word \<times> radix_node \<Rightarrow> radix_node \<Rightarrow> radix_node" where
  "radix_up (right, v, s) n = (if right then RX s v n else RX n v s)"

fun radix_plug :: "radix_node \<Rightarrow> radix_path \<Rightarrow> radix_node" where
  "radix_plug n [] = n"
| "radix_plug n (e # p) = radix_plug (radix_up e n) p"

text \<open>
  \<open>ngx_radix_tree_t\<close>: the length of the list of free nodes, the bytes left of the page nodes are taken
  from, and the pool as the number of pages it can still give; a page has \<open>ngx_pagesize\<close> bytes, a node 32.
\<close>

record radix_tree =
  radix_root :: radix_node
  radix_free :: nat
  radix_size :: nat
  radix_pool :: nat

definition ngx_radix_alloc :: "nat \<Rightarrow> radix_tree \<Rightarrow> radix_tree option" where
  "ngx_radix_alloc ngx_pagesize t =
    (if radix_free t > 0 then Some (t\<lparr>radix_free := radix_free t - 1\<rparr>)
     else if radix_size t < 32
     then (if radix_pool t = 0 then None else Some (t\<lparr>radix_pool := radix_pool t - 1, radix_size := ngx_pagesize - 32\<rparr>))
     else Some (t\<lparr>radix_size := radix_size t - 32\<rparr>))"

section \<open>Addresses of 32 bits\<close>

text \<open>
  The first loop of \<open>ngx_radix32tree_insert\<close>: the node reached with its path, the bit, and whether the loop
  ended at a null child.
\<close>

function radix32_walk :: "32 word \<Rightarrow> 32 word \<Rightarrow> 32 word \<Rightarrow> radix_node \<Rightarrow> radix_path \<Rightarrow> radix_node \<times> radix_path \<times> 32 word \<times> bool" where
  "radix32_walk key netmask b RX_null p = (RX_null, p, b, False)"
| "radix32_walk key netmask b (RX l v r) p =
    (if b AND netmask = 0 then (RX l v r, p, b, False)
     else
       (let right = (key AND b \<noteq> 0); next = (if right then r else l)
        in if next = RX_null then (RX l v r, p, b, True)
           else radix32_walk key netmask (drop_bit 1 b) next ((right, v, if right then l else r) # p)))"
  by pat_completeness auto
termination
  by (relation "measure (\<lambda>(key, netmask, b, node, p). size node)") auto

text \<open>
  The second loop, which makes the missing nodes; the tree keeps those made when there is no memory for
  the next one. The root is put back from the node and its path at the end.
\<close>

lemma drop_bit_less: "b \<noteq> 0 \<Longrightarrow> unat (drop_bit (Suc 0) b) < unat b" for b :: "'a :: len word"
proof -
  assume "b \<noteq> 0"
  then have "0 < unat b" by (simp add: unat_gt_0)
  moreover have "unat (drop_bit (Suc 0) b) = unat b div 2" by (simp only: unat_drop_bit_eq) (simp add: drop_bit_Suc)
  ultimately show ?thesis by simp
qed

function radix32_grow :: "nat \<Rightarrow> 32 word \<Rightarrow> 32 word \<Rightarrow> 32 word \<Rightarrow> radix_tree \<Rightarrow> radix_node \<Rightarrow> radix_path \<Rightarrow> bool \<times> radix_tree \<times> radix_node \<times> radix_path" where
  "radix32_grow ngx_pagesize key netmask b t node p =
    (if b AND netmask = 0 then (True, t, node, p)
     else
       (case ngx_radix_alloc ngx_pagesize t of
          None \<Rightarrow> (False, t, node, p)
        | Some t \<Rightarrow>
            (case node of
               RX_null \<Rightarrow> (False, t, node, p)
             | RX l v r \<Rightarrow>
                 (let right = (key AND b \<noteq> 0)
                  in radix32_grow ngx_pagesize key netmask (drop_bit 1 b) t (RX RX_null NGX_RADIX_NO_VALUE RX_null)
                       ((right, v, if right then l else r) # p)))))"
  by pat_completeness auto
termination
  by (relation "measure (\<lambda>(ngx_pagesize, key, netmask, b, t, node, p). unat b)") (auto intro!: drop_bit_less)

declare radix32_grow.simps [simp del]

definition ngx_radix32tree_insert :: "nat \<Rightarrow> 32 word \<Rightarrow> 32 word \<Rightarrow> 64 word \<Rightarrow> radix_tree \<Rightarrow> int \<times> radix_tree" where
  "ngx_radix32tree_insert ngx_pagesize key netmask value t =
    (case radix32_walk key netmask 0x80000000 (radix_root t) [] of
       (node, p, b, missing) \<Rightarrow>
         if \<not> missing then
           (case node of
              RX_null \<Rightarrow> (NGX_ERROR, t)
            | RX l v r \<Rightarrow> if v \<noteq> NGX_RADIX_NO_VALUE then (NGX_BUSY, t) else (NGX_OK, t\<lparr>radix_root := radix_plug (RX l value r) p\<rparr>))
         else
           (case radix32_grow ngx_pagesize key netmask b t node p of
              (False, t, node, p) \<Rightarrow> (NGX_ERROR, t\<lparr>radix_root := radix_plug node p\<rparr>)
            | (True, t, RX_null, p) \<Rightarrow> (NGX_ERROR, t)
            | (True, t, RX l v r, p) \<Rightarrow> (NGX_OK, t\<lparr>radix_root := radix_plug (RX l value r) p\<rparr>)))"

text \<open>
  The descent of \<open>ngx_radix32tree_delete\<close>, whose node may be null, and the loop that takes leaves without a
  value out, shared with addresses of 128 bits; \<open>None\<close> is an access to the parent of the root.
\<close>

fun radix32_down :: "32 word \<Rightarrow> 32 word \<Rightarrow> 32 word \<Rightarrow> radix_node \<Rightarrow> radix_path \<Rightarrow> radix_node \<times> radix_path" where
  "radix32_down key netmask b RX_null p = (RX_null, p)"
| "radix32_down key netmask b (RX l v r) p =
    (if b AND netmask = 0 then (RX l v r, p)
     else if key AND b \<noteq> 0 then radix32_down key netmask (drop_bit 1 b) r ((True, v, l) # p)
     else radix32_down key netmask (drop_bit 1 b) l ((False, v, r) # p))"

fun radix_prune :: "radix_path \<Rightarrow> radix_tree \<Rightarrow> radix_tree option" where
  "radix_prune [] t = None"
| "radix_prune ((right, v, s) # p) t =
    (let t = t\<lparr>radix_free := radix_free t + 1\<rparr>
     in if s \<noteq> RX_null \<or> v \<noteq> NGX_RADIX_NO_VALUE \<or> p = []
        then Some (t\<lparr>radix_root := radix_plug (radix_up (right, v, s) RX_null) p\<rparr>)
        else radix_prune p t)"

definition radix_delete :: "radix_node \<times> radix_path \<Rightarrow> radix_tree \<Rightarrow> (int \<times> radix_tree) option" where
  "radix_delete place t =
    (case place of
       (RX_null, p) \<Rightarrow> Some (NGX_ERROR, t)
     | (RX l v r, p) \<Rightarrow>
         if r \<noteq> RX_null \<or> l \<noteq> RX_null then
           (if v \<noteq> NGX_RADIX_NO_VALUE then Some (NGX_OK, t\<lparr>radix_root := radix_plug (RX l NGX_RADIX_NO_VALUE r) p\<rparr>)
            else Some (NGX_ERROR, t))
         else map_option (\<lambda>t. (NGX_OK, t)) (radix_prune p t))"

definition ngx_radix32tree_delete :: "32 word \<Rightarrow> 32 word \<Rightarrow> radix_tree \<Rightarrow> (int \<times> radix_tree) option" where
  "ngx_radix32tree_delete key netmask t = radix_delete (radix32_down key netmask 0x80000000 (radix_root t) []) t"

fun radix32_search :: "32 word \<Rightarrow> 32 word \<Rightarrow> 64 word \<Rightarrow> radix_node \<Rightarrow> 64 word" where
  "radix32_search key b value RX_null = value"
| "radix32_search key b value (RX l v r) =
    radix32_search key (drop_bit 1 b) (if v \<noteq> NGX_RADIX_NO_VALUE then v else value) (if key AND b \<noteq> 0 then r else l)"

definition ngx_radix32tree_find :: "radix_tree \<Rightarrow> 32 word \<Rightarrow> 64 word" where
  "ngx_radix32tree_find t key = radix32_search key 0x80000000 NGX_RADIX_NO_VALUE (radix_root t)"

text \<open>
  \<open>ngx_radix_tree_create\<close>: the nodes of the first bits are made beforehand, six bits of them for -1 on a
  machine whose pages hold 128 nodes. \<open>None\<close> is \<open>NULL\<close>. The inner loop ends when the key wraps around.
\<close>

partial_function (option) radix_prealloc :: "nat \<Rightarrow> 32 word \<Rightarrow> 32 word \<Rightarrow> 32 word \<Rightarrow> radix_tree \<Rightarrow> radix_tree option option" where
  "radix_prealloc ngx_pagesize netmask inc key t =
    (let (rc, t) = ngx_radix32tree_insert ngx_pagesize key netmask NGX_RADIX_NO_VALUE t
     in if rc \<noteq> NGX_OK then Some None
        else if key + inc = 0 then Some (Some t)
        else radix_prealloc ngx_pagesize netmask inc (key + inc) t)"

declare radix_prealloc.simps [code]

fun radix_prealloc_bits :: "nat \<Rightarrow> nat \<Rightarrow> 32 word \<Rightarrow> 32 word \<Rightarrow> radix_tree \<Rightarrow> radix_tree option option" where
  "radix_prealloc_bits ngx_pagesize 0 netmask inc t = Some (Some t)"
| "radix_prealloc_bits ngx_pagesize (Suc preallocate) netmask inc t =
    (let netmask = drop_bit 1 netmask OR 0x80000000
     in case radix_prealloc ngx_pagesize netmask inc 0 t of
          Some (Some t) \<Rightarrow> radix_prealloc_bits ngx_pagesize preallocate netmask (drop_bit 1 inc) t
        | r \<Rightarrow> r)"

definition ngx_radix_tree_create :: "nat \<Rightarrow> nat \<Rightarrow> int \<Rightarrow> radix_tree option option" where
  "ngx_radix_tree_create ngx_pagesize pool preallocate =
    (case ngx_radix_alloc ngx_pagesize \<lparr>radix_root = RX_null, radix_free = 0, radix_size = 0, radix_pool = pool\<rparr> of
       None \<Rightarrow> Some None
     | Some t \<Rightarrow>
         radix_prealloc_bits ngx_pagesize
           (nat (if preallocate = -1
                 then (if ngx_pagesize div 32 = 128 then 6 else if ngx_pagesize div 32 = 256 then 7 else 8)
                 else preallocate))
           0 0x80000000 (t\<lparr>radix_root := RX RX_null NGX_RADIX_NO_VALUE RX_null\<rparr>))"

section \<open>Addresses of 128 bits\<close>

text \<open>
  The same over the bytes of an address and a mask, of which \<open>i\<close> is the current one; \<open>None\<close> is a read past
  their end. After sixteen bytes the loops end.
\<close>

definition radix128_next :: "nat \<Rightarrow> u_char \<Rightarrow> (nat \<times> u_char) option" where
  "radix128_next i b =
    (let b = drop_bit 1 b in if b = 0 then (if i + 1 = 16 then None else Some (i + 1, 0x80)) else Some (i, b))"

function radix128_walk :: "bytes \<Rightarrow> bytes \<Rightarrow> nat \<Rightarrow> u_char \<Rightarrow> radix_node \<Rightarrow> radix_path \<Rightarrow> (radix_node \<times> radix_path \<times> nat \<times> u_char \<times> bool) option" where
  "radix128_walk key netmask i b RX_null p = None"
| "radix128_walk key netmask i b (RX l v r) p =
    (if length netmask \<le> i then None
     else if b AND netmask ! i = 0 then Some (RX l v r, p, i, b, False)
     else if length key \<le> i then None
     else
       (let right = (key ! i AND b \<noteq> 0); next = (if right then r else l); p' = (right, v, if right then l else r) # p
        in if next = RX_null then Some (RX l v r, p, i, b, True)
           else
             (case radix128_next i b of
                None \<Rightarrow> Some (next, p', 16, 0, False)
              | Some (i, b) \<Rightarrow> radix128_walk key netmask i b next p')))"
  by pat_completeness auto
termination
  by (relation "measure (\<lambda>(key, netmask, i, b, node, p). size node)") auto

function radix128_grow ::
  "nat \<Rightarrow> bytes \<Rightarrow> bytes \<Rightarrow> nat \<Rightarrow> u_char \<Rightarrow> radix_tree \<Rightarrow> radix_node \<Rightarrow> radix_path \<Rightarrow> (bool \<times> radix_tree \<times> radix_node \<times> radix_path) option" where
  "radix128_grow ngx_pagesize key netmask i b t node p =
    (if length netmask \<le> i then None
     else if b AND netmask ! i = 0 then Some (True, t, node, p)
     else
       (case ngx_radix_alloc ngx_pagesize t of
          None \<Rightarrow> Some (False, t, node, p)
        | Some t \<Rightarrow>
            (case node of
               RX_null \<Rightarrow> None
             | RX l v r \<Rightarrow>
                 if length key \<le> i then None
                 else
                   (let right = (key ! i AND b \<noteq> 0); node = RX RX_null NGX_RADIX_NO_VALUE RX_null; p = (right, v, if right then l else r) # p
                    in case radix128_next i b of
                         None \<Rightarrow> Some (True, t, node, p)
                       | Some (i, b) \<Rightarrow> radix128_grow ngx_pagesize key netmask i b t node p))))"
  by pat_completeness auto
termination
  by (relation "measures [\<lambda>(ngx_pagesize, key, netmask, i, b, t, node, p). length netmask - i, \<lambda>(ngx_pagesize, key, netmask, i, b, t, node, p). unat b]")
    (auto simp: radix128_next_def Let_def split: if_splits intro!: drop_bit_less)

declare radix128_grow.simps [simp del]

definition ngx_radix128tree_insert :: "nat \<Rightarrow> bytes \<Rightarrow> bytes \<Rightarrow> 64 word \<Rightarrow> radix_tree \<Rightarrow> (int \<times> radix_tree) option" where
  "ngx_radix128tree_insert ngx_pagesize key netmask value t =
    (case radix128_walk key netmask 0 0x80 (radix_root t) [] of
       None \<Rightarrow> None
     | Some (RX_null, p, i, b, missing) \<Rightarrow> None
     | Some (RX l v r, p, i, b, False) \<Rightarrow>
         if v \<noteq> NGX_RADIX_NO_VALUE then Some (NGX_BUSY, t) else Some (NGX_OK, t\<lparr>radix_root := radix_plug (RX l value r) p\<rparr>)
     | Some (RX l v r, p, i, b, True) \<Rightarrow>
         (case radix128_grow ngx_pagesize key netmask i b t (RX l v r) p of
            None \<Rightarrow> None
          | Some (False, t, node, p) \<Rightarrow> Some (NGX_ERROR, t\<lparr>radix_root := radix_plug node p\<rparr>)
          | Some (True, t, RX_null, p) \<Rightarrow> None
          | Some (True, t, RX l v r, p) \<Rightarrow> Some (NGX_OK, t\<lparr>radix_root := radix_plug (RX l value r) p\<rparr>)))"

fun radix128_down :: "bytes \<Rightarrow> bytes \<Rightarrow> nat \<Rightarrow> u_char \<Rightarrow> radix_node \<Rightarrow> radix_path \<Rightarrow> (radix_node \<times> radix_path) option" where
  "radix128_down key netmask i b RX_null p = Some (RX_null, p)"
| "radix128_down key netmask i b (RX l v r) p =
    (if length netmask \<le> i then None
     else if b AND netmask ! i = 0 then Some (RX l v r, p)
     else if length key \<le> i then None
     else
       (let right = (key ! i AND b \<noteq> 0); next = (if right then r else l); p' = (right, v, if right then l else r) # p
        in case radix128_next i b of
             None \<Rightarrow> Some (next, p')
           | Some (i, b) \<Rightarrow> radix128_down key netmask i b next p'))"

definition ngx_radix128tree_delete :: "bytes \<Rightarrow> bytes \<Rightarrow> radix_tree \<Rightarrow> (int \<times> radix_tree) option" where
  "ngx_radix128tree_delete key netmask t =
    (case radix128_down key netmask 0 0x80 (radix_root t) [] of None \<Rightarrow> None | Some place \<Rightarrow> radix_delete place t)"

fun radix128_search :: "bytes \<Rightarrow> nat \<Rightarrow> u_char \<Rightarrow> 64 word \<Rightarrow> radix_node \<Rightarrow> 64 word option" where
  "radix128_search key i b value RX_null = Some value"
| "radix128_search key i b value (RX l v r) =
    (if length key \<le> i then None
     else
       (let value = (if v \<noteq> NGX_RADIX_NO_VALUE then v else value); next = (if key ! i AND b \<noteq> 0 then r else l); b = drop_bit 1 b
        in if b = 0 then radix128_search key (i + 1) 0x80 value next else radix128_search key i b value next))"

definition ngx_radix128tree_find :: "radix_tree \<Rightarrow> bytes \<Rightarrow> 64 word option" where
  "ngx_radix128tree_find t key = radix128_search key 0 0x80 NGX_RADIX_NO_VALUE (radix_root t)"

end
