(* ===== verification/Radix_Tree_Correct.thy ===== *)
theory Radix_Tree_Correct
  imports Ngx_Radix_Tree
begin

text \<open>
A radix tree is a map from prefixes to values: insertion and deletion change one prefix, a lookup
  finds the longest prefix of an address that has a value. The locale \<open>prefix_table\<close> is the interface the
  users of both trees rely on.
\<close>

section \<open>The map a tree stands for\<close>

text \<open>A tree maps the bits of a prefix to the value of its node.\<close>

fun radix_map :: "radix_node \<Rightarrow> bool list \<Rightarrow> 64 word option" where
  "radix_map RX_null ks = None"
| "radix_map (RX l v r) [] = (if v = NGX_RADIX_NO_VALUE then None else Some v)"
| "radix_map (RX l v r) (k # ks) = radix_map (if k then r else l) ks"

fun radix_height :: "radix_node \<Rightarrow> nat" where
  "radix_height RX_null = 0"
| "radix_height (RX l v r) = Suc (max (radix_height l) (radix_height r))"

definition path_bits :: "radix_path \<Rightarrow> bool list" where
  "path_bits p = rev (map fst p)"

lemma path_bits_simps [simp]:
  "path_bits [] = []" "path_bits ((right, v, s) # p) = path_bits p @ [right]" "length (path_bits p) = length p"
  by (simp_all add: path_bits_def)

lemma radix_map_null: "radix_map RX_null = Map.empty"
  by (rule ext) simp

lemma radix_map_leaf: "radix_map (RX RX_null v RX_null) = [[] \<mapsto> v]" if "v \<noteq> NGX_RADIX_NO_VALUE"
proof
  fix ks show "radix_map (RX RX_null v RX_null) ks = [[] \<mapsto> v] ks" using that by (cases ks) simp_all
qed

lemma radix_map_blank: "radix_map (RX RX_null NGX_RADIX_NO_VALUE RX_null) = Map.empty"
proof
  fix ks show "radix_map (RX RX_null NGX_RADIX_NO_VALUE RX_null) ks = None" by (cases ks) simp_all
qed

lemma radix_map_value: "radix_map (RX l v r) = (radix_map (RX l w r))([] := if v = NGX_RADIX_NO_VALUE then None else Some v)"
proof
  fix ks show "radix_map (RX l v r) ks = ((radix_map (RX l w r))([] := if v = NGX_RADIX_NO_VALUE then None else Some v)) ks"
    by (cases ks) simp_all
qed

lemma up_map: "radix_map n' = (radix_map n)(ks := x) \<Longrightarrow> radix_map (radix_up (right, v, s) n') = (radix_map (radix_up (right, v, s) n))(right # ks := x)"
proof
  fix js assume "radix_map n' = (radix_map n)(ks := x)"
  then show "radix_map (radix_up (right, v, s) n') js = ((radix_map (radix_up (right, v, s) n))(right # ks := x)) js" by (cases js) auto
qed

lemma plug_map: "radix_map n' = (radix_map n)(ks := x) \<Longrightarrow> radix_map (radix_plug n' p) = (radix_map (radix_plug n p))(path_bits p @ ks := x)"
proof (induction p arbitrary: n n' ks)
  case (Cons e p)
  obtain right v s where e: "e = (right, v, s)" by (cases e)
  from Cons.IH [OF up_map [OF Cons.prems]] show ?case by (simp add: e)
qed simp

lemma plug_same: "radix_map n' = radix_map n \<Longrightarrow> radix_map (radix_plug n' p) = radix_map (radix_plug n p)"
proof -
  assume e: "radix_map n' = radix_map n"
  let ?f = "(radix_map (radix_plug n p))(path_bits p @ [] := radix_map n [])"
  have "radix_map (radix_plug n' p) = ?f" by (rule plug_map) (unfold e fun_upd_triv, rule refl)
  moreover have "radix_map (radix_plug n p) = ?f" by (rule plug_map) (unfold fun_upd_triv, rule refl)
  ultimately show ?thesis by (rule trans [OF _ sym])
qed

lemma plug_at: "radix_map (radix_plug n p) (path_bits p @ ks) = radix_map n ks"
proof (induction p arbitrary: n ks)
  case (Cons e p)
  obtain right v s where e: "e = (right, v, s)" by (cases e)
  show ?case using Cons.IH [of "radix_up e n" "right # ks"] by (simp add: e)
qed simp

lemma plug_null: "radix_plug n p = RX_null \<longleftrightarrow> n = RX_null \<and> p = []"
proof (induction p arbitrary: n)
  case (Cons e p)
  have "radix_up e n \<noteq> RX_null" by (cases e) simp
  then show ?case using Cons.IH [of "radix_up e n"] by simp
qed simp

fun path_height :: "nat \<Rightarrow> radix_path \<Rightarrow> bool" where
  "path_height N [] = True"
| "path_height N ((right, v, s) # p) \<longleftrightarrow> radix_height s + Suc (length p) \<le> N \<and> path_height N p"

lemma plug_height: "radix_height (radix_plug n p) \<le> N \<longleftrightarrow> radix_height n + length p \<le> N \<and> path_height N p"
proof (induction p arbitrary: n)
  case (Cons e p)
  obtain right v s where e: "e = (right, v, s)" by (cases e)
  have "radix_height (radix_up e n) = Suc (max (radix_height s) (radix_height n))" by (simp add: e max.commute)
  then show ?case using Cons.IH [of "radix_up e n"] by (auto simp: e)
qed simp

section \<open>Prefixes\<close>

text \<open>The bits of the key that the mask keeps: those under its leading ones.\<close>

definition prefix_bits :: "bool list \<Rightarrow> bool list \<Rightarrow> bool list" where
  "prefix_bits ks ms = take (length (takeWhile id ms)) ks"

lemma prefix_bits_simps [simp]:
  "prefix_bits ks [] = []" "prefix_bits (k # ks) (True # ms) = k # prefix_bits ks ms" "prefix_bits ks (False # ms) = []"
  by (simp_all add: prefix_bits_def)

definition bits32 :: "32 word \<Rightarrow> bool list" where
  "bits32 w = map (bit w) (rev [0..<32])"

definition bits8 :: "u_char \<Rightarrow> bool list" where
  "bits8 w = map (bit w) (rev [0..<8])"

definition bits128 :: "bytes \<Rightarrow> bool list" where
  "bits128 bs = concat (map bits8 bs)"

text \<open>The current bit when \<open>m\<close> bits are still to come.\<close>

definition nth_mask :: "nat \<Rightarrow> 'a :: len word" where
  "nth_mask m = (if m = 0 then 0 else push_bit (m - 1) 1)"

definition low_bits :: "'a :: len word \<Rightarrow> nat \<Rightarrow> bool list" where
  "low_bits w m = map (bit w) (rev [0..<m])"

lemma low_bits_simps [simp]: "low_bits w 0 = []" "low_bits w (Suc m) = bit w m # low_bits w m" "length (low_bits w m) = m"
  by (simp_all add: low_bits_def)

lemma mask_and:
  fixes w :: "'a :: len word"
  assumes "m < LENGTH('a)"
  shows "nth_mask (Suc m) AND w = 0 \<longleftrightarrow> \<not> bit w m" "w AND nth_mask (Suc m) = 0 \<longleftrightarrow> \<not> bit w m"
proof -
  have "nth_mask (Suc m) AND w = (if bit w m then push_bit m 1 else 0)"
    by (rule bit_word_eqI) (auto simp: nth_mask_def bit_simps)
  moreover have "push_bit m 1 \<noteq> (0 :: 'a word)" using assms by (simp add: push_bit_eq_mult)
  ultimately show "nth_mask (Suc m) AND w = 0 \<longleftrightarrow> \<not> bit w m" by simp
  then show "w AND nth_mask (Suc m) = 0 \<longleftrightarrow> \<not> bit w m" by (simp add: and.commute)
qed

lemma mask_0 [simp]: "nth_mask 0 = 0"
  by (simp add: nth_mask_def)

lemma mask_drop: "drop_bit (Suc 0) (nth_mask (Suc m) :: 'a :: len word) = nth_mask m" if "m < LENGTH('a)"
  using that by (intro bit_word_eqI) (auto simp: nth_mask_def bit_simps)

lemma mask_zero: "nth_mask m = (0 :: 'a :: len word) \<longleftrightarrow> m = 0" if "m \<le> LENGTH('a)"
  using that by (cases m) (simp_all add: nth_mask_def push_bit_eq_mult)

lemma mask_first: "(0x80000000 :: 32 word) = nth_mask 32" "(0x80 :: u_char) = nth_mask 8"
  by (simp_all add: nth_mask_def)

lemma bits_low: "bits32 w = low_bits w 32" "bits8 c = low_bits c 8"
  by (simp_all add: bits32_def bits8_def low_bits_def)

lemma length_bits [simp]: "length (bits32 w) = 32" "length (bits8 c) = 8" "length (bits128 bs) = 8 * length bs"
  by (simp_all add: bits32_def bits8_def bits128_def length_concat comp_def sum_list_triv)

section \<open>Descents\<close>

text \<open>
  What a descent from \<open>n\<close> at \<open>p\<close> with the bits \<open>ks\<close> ahead comes to: the same tree, seen from the node of
  the bits it has read, with \<open>rest\<close> ahead.
\<close>

definition descent :: "radix_node \<Rightarrow> radix_path \<Rightarrow> bool list \<Rightarrow> radix_node \<Rightarrow> radix_path \<Rightarrow> bool list \<Rightarrow> bool" where
  "descent n p ks n' p' rest \<longleftrightarrow> radix_plug n' p' = radix_plug n p \<and> path_bits p @ ks = path_bits p' @ rest"

lemma descent_here: "descent n p ks n p ks"
  by (simp add: descent_def)

lemma descent_step:
  "descent (if k then r else l) ((k, v, if k then l else r) # p) ks n' p' rest \<Longrightarrow> descent (RX l v r) p (k # ks) n' p' rest"
  by (auto simp: descent_def split: if_splits)

text \<open>Where a child is missing, the node has nothing under the bit.\<close>

fun child_missing :: "radix_node \<Rightarrow> bool list \<Rightarrow> bool" where
  "child_missing (RX l v r) (k # ks) \<longleftrightarrow> (if k then r else l) = RX_null"
| "child_missing n ks \<longleftrightarrow> False"

lemma walk32:
  assumes "n \<noteq> RX_null" "m \<le> 32" "radix32_walk key nm (nth_mask m) n p = (n', p', b, missing)"
  shows "\<exists>m' \<le> m. b = nth_mask m' \<and> n' \<noteq> RX_null \<and>
    descent n p (prefix_bits (low_bits key m) (low_bits nm m)) n' p' (prefix_bits (low_bits key m') (low_bits nm m')) \<and>
    (if missing then child_missing n' (prefix_bits (low_bits key m') (low_bits nm m')) else prefix_bits (low_bits key m') (low_bits nm m') = [])"
  using assms
proof (induction m arbitrary: n p)
  case 0
  then show ?case by (cases n) (auto simp: descent_here)
next
  case (Suc m)
  then obtain l v r where n: "n = RX l v r" by (cases n) auto
  have m: "m < 32" using Suc.prems(2) by simp
  note bits = mask_and [where 'a = 32, simplified, OF m] mask_drop [where 'a = 32, simplified, OF m]
  show ?case
  proof (cases "bit nm m")
    case False
    then show ?thesis using Suc.prems(3) by (intro exI [of _ "Suc m"]) (auto simp: n bits descent_here)
  next
    case True
    let ?k = "bit key m"
    show ?thesis
    proof (cases "(if ?k then r else l) = RX_null")
      case True
      then show ?thesis using Suc.prems(3) \<open>bit nm m\<close> by (intro exI [of _ "Suc m"]) (auto simp: n bits descent_here Let_def split: if_splits)
    next
      case False
      have w: "radix32_walk key nm (nth_mask m) (if ?k then r else l) ((?k, v, if ?k then l else r) # p) = (n', p', b, missing)"
        using Suc.prems(3) False \<open>bit nm m\<close> by (auto simp: n bits Let_def split: if_splits)
      from Suc.IH [OF False _ w] m obtain m' where m': "m' \<le> m" "b = nth_mask m'" "n' \<noteq> RX_null"
        "descent (if ?k then r else l) ((?k, v, if ?k then l else r) # p) (prefix_bits (low_bits key m) (low_bits nm m)) n' p'
           (prefix_bits (low_bits key m') (low_bits nm m'))"
        "if missing then child_missing n' (prefix_bits (low_bits key m') (low_bits nm m')) else prefix_bits (low_bits key m') (low_bits nm m') = []"
        by auto
      have "descent n p (?k # prefix_bits (low_bits key m) (low_bits nm m)) n' p' (prefix_bits (low_bits key m') (low_bits nm m'))"
        unfolding n by (rule descent_step) (rule m'(4))
      then show ?thesis using m'(1-3,5) \<open>bit nm m\<close> by (intro exI [of _ m']) auto
    qed
  qed
qed

text \<open>
  What the second loop of an insertion comes to: it adds no value, and its last node is the one of the
  bits, unless memory ran out.
\<close>

definition grown :: "radix_tree \<Rightarrow> radix_node \<Rightarrow> radix_path \<Rightarrow> bool list \<Rightarrow> bool \<times> radix_tree \<times> radix_node \<times> radix_path \<Rightarrow> bool" where
  "grown t n p ks res \<longleftrightarrow>
    (case res of (ok, t', n', p') \<Rightarrow>
       radix_root t' = radix_root t \<and> radix_pool t \<le> radix_pool t' + length ks \<and> n' \<noteq> RX_null \<and>
       radix_map (radix_plug n' p') = radix_map (radix_plug n p) \<and>
       (\<forall>N. radix_height (radix_plug n p) \<le> N \<and> Suc (length p + length ks) \<le> N \<longrightarrow> radix_height (radix_plug n' p') \<le> N) \<and>
       (ok \<longrightarrow> path_bits p' = path_bits p @ ks) \<and>
       (\<not> ok \<longrightarrow> radix_pool t' = 0))"

lemma alloc_root: "ngx_radix_alloc ps t = Some t' \<Longrightarrow> radix_root t' = radix_root t"
  by (auto simp: ngx_radix_alloc_def split: if_splits)

lemma alloc_pool: "ngx_radix_alloc ps t = Some t' \<Longrightarrow> radix_pool t \<le> Suc (radix_pool t')"
  by (auto simp: ngx_radix_alloc_def split: if_splits)

lemma alloc_none: "ngx_radix_alloc ps t = None \<Longrightarrow> radix_pool t = 0"
  by (auto simp: ngx_radix_alloc_def split: if_splits)

lemma grown_here: "n \<noteq> RX_null \<Longrightarrow> grown t n p [] (True, t, n, p)"
  by (auto simp: grown_def)

lemma grown_out: "n \<noteq> RX_null \<Longrightarrow> ngx_radix_alloc ps t = None \<Longrightarrow> grown t n p ks (False, t, n, p)"
  by (auto simp: grown_def dest: alloc_none)

abbreviation blank :: radix_node where "blank \<equiv> RX RX_null NGX_RADIX_NO_VALUE RX_null"

lemma grown_step:
  assumes c: "child_missing (RX l v r) (k # ks)" and a: "ngx_radix_alloc ps t = Some t'"
    and g: "grown t' blank ((k, v, if k then l else r) # p) ks res"
  shows "grown t (RX l v r) p (k # ks) res"
proof -
  obtain ok t2 n' p' where res: "res = (ok, t2, n', p')" by (cases res)
  have up: "radix_up (k, v, if k then l else r) RX_null = RX l v r" using c by (auto split: if_splits)
  have "radix_map (radix_plug blank ((k, v, if k then l else r) # p)) = radix_map (radix_plug RX_null ((k, v, if k then l else r) # p))"
    by (rule plug_same) (simp add: radix_map_blank radix_map_null)
  also have "\<dots> = radix_map (radix_plug (RX l v r) p)" using up by simp
  finally have m: "radix_map (radix_plug blank ((k, v, if k then l else r) # p)) = radix_map (radix_plug (RX l v r) p)" .
  have h: "radix_height (radix_plug blank ((k, v, if k then l else r) # p)) \<le> N"
    if "radix_height (radix_plug (RX l v r) p) \<le> N" "Suc (length p + length (k # ks)) \<le> N" for N
    using that c by (simp add: plug_height split: if_splits)
  show ?thesis unfolding grown_def res prod.case
  proof (intro conjI allI impI)
    show "radix_root t2 = radix_root t" using g alloc_root [OF a] by (simp add: grown_def res)
    show "radix_pool t \<le> radix_pool t2 + length (k # ks)" using g alloc_pool [OF a] by (simp add: grown_def res)
    show "n' \<noteq> RX_null" using g by (simp add: grown_def res)
    show "radix_map (radix_plug n' p') = radix_map (radix_plug (RX l v r) p)" using g m by (simp add: grown_def res)
    show "radix_height (radix_plug n' p') \<le> N" if "radix_height (radix_plug (RX l v r) p) \<le> N \<and> Suc (length p + length (k # ks)) \<le> N" for N
    proof -
      have "radix_height (radix_plug blank ((k, v, if k then l else r) # p)) \<le> N" by (rule h) (use that in auto)
      moreover have "Suc (length ((k, v, if k then l else r) # p) + length ks) \<le> N" using that by simp
      ultimately show ?thesis using g unfolding grown_def res prod.case by blast
    qed
    show "path_bits p' = path_bits p @ k # ks" if ok using g that by (simp add: grown_def res)
    show "radix_pool t2 = 0" if "\<not> ok" using g that by (simp add: grown_def res)
  qed
qed

lemma grow32:
  assumes "m \<le> 32" "n \<noteq> RX_null" "prefix_bits (low_bits key m) (low_bits nm m) \<noteq> [] \<longrightarrow> child_missing n (prefix_bits (low_bits key m) (low_bits nm m))"
  shows "grown t n p (prefix_bits (low_bits key m) (low_bits nm m)) (radix32_grow ps key nm (nth_mask m) t n p)"
  using assms
proof (induction m arbitrary: t n p)
  case 0
  then show ?case by (simp add: radix32_grow.simps [of ps key nm 0] grown_here)
next
  case (Suc m)
  then obtain l v r where n: "n = RX l v r" by (cases n) auto
  have m: "m < 32" using Suc.prems(1) by simp
  note bits = mask_and [where 'a = 32, simplified, OF m] mask_drop [where 'a = 32, simplified, OF m]
  note eq = radix32_grow.simps [of ps key nm "nth_mask (Suc m)" t n p]
  show ?case
  proof (cases "bit nm m")
    case False
    then show ?thesis using Suc.prems by (simp add: eq bits grown_here)
  next
    case True
    let ?k = "bit key m"
    show ?thesis
    proof (cases "ngx_radix_alloc ps t")
      case None
      then show ?thesis using True Suc.prems(2) grown_out [OF Suc.prems(2) None] by (simp add: eq bits)
    next
      case (Some t')
      have "grown t' blank ((?k, v, if ?k then l else r) # p) (prefix_bits (low_bits key m) (low_bits nm m))
        (radix32_grow ps key nm (nth_mask m) t' blank ((?k, v, if ?k then l else r) # p))"
      proof (rule Suc.IH)
        show "prefix_bits (low_bits key m) (low_bits nm m) \<noteq> [] \<longrightarrow> child_missing blank (prefix_bits (low_bits key m) (low_bits nm m))"
          by (cases "prefix_bits (low_bits key m) (low_bits nm m)") simp_all
      qed (use m in simp_all)
      moreover have "child_missing (RX l v r) (?k # prefix_bits (low_bits key m) (low_bits nm m))" using Suc.prems(3) True by (simp add: n)
      ultimately have "grown t (RX l v r) p (?k # prefix_bits (low_bits key m) (low_bits nm m))
        (radix32_grow ps key nm (nth_mask m) t' blank ((?k, v, if ?k then l else r) # p))"
        using grown_step [OF _ Some] by blast
      moreover have "radix32_grow ps key nm (nth_mask (Suc m)) t n p = radix32_grow ps key nm (nth_mask m) t' blank ((?k, v, if ?k then l else r) # p)"
        by (subst eq) (use True Some in \<open>simp add: n bits Let_def\<close>)
      ultimately show ?thesis using True by (simp add: n)
    qed
  qed
qed

lemma down32:
  assumes "m \<le> 32" "radix32_down key nm (nth_mask m) n p = (n', p')"
  shows "radix_plug n' p' = radix_plug n p \<and>
    (if n' = RX_null then radix_map n (prefix_bits (low_bits key m) (low_bits nm m)) = None
     else path_bits p' = path_bits p @ prefix_bits (low_bits key m) (low_bits nm m))"
  using assms
proof (induction m arbitrary: n p)
  case 0
  then show ?case by (cases n) auto
next
  case (Suc m)
  have m: "m < 32" using Suc.prems(1) by simp
  note bits = mask_and [where 'a = 32, simplified, OF m] mask_drop [where 'a = 32, simplified, OF m]
  show ?case
  proof (cases n)
    case RX_null
    then show ?thesis using Suc.prems by auto
  next
    case (RX l v r)
    show ?thesis
    proof (cases "bit nm m")
      case False
      then show ?thesis using Suc.prems by (auto simp: RX bits)
    next
      case True
      let ?k = "bit key m"
      have "radix32_down key nm (nth_mask m) (if ?k then r else l) ((?k, v, if ?k then l else r) # p) = (n', p')"
        using Suc.prems(2) True by (auto simp: RX bits split: if_splits)
      from Suc.IH [OF _ this] m True show ?thesis by (auto simp: RX split: if_splits)
    qed
  qed
qed

section \<open>Taking nodes out\<close>

lemma prune_ok:
  assumes "radix_prune p t = Some t'"
  shows "radix_map (radix_root t') = radix_map (radix_plug RX_null p) \<and> radix_root t' \<noteq> RX_null \<and>
    (\<forall>N. path_height N p \<longrightarrow> radix_height (radix_root t') \<le> N)"
  using assms
proof (induction p t rule: radix_prune.induct)
  case (2 right v s p t)
  let ?n = "radix_up (right, v, s) RX_null"
  have n: "?n \<noteq> RX_null" by simp
  show ?case
  proof (cases "s \<noteq> RX_null \<or> v \<noteq> NGX_RADIX_NO_VALUE \<or> p = []")
    case True
    then have "radix_root t' = radix_plug ?n p" using "2.prems" by (auto simp: Let_def)
    then show ?thesis using n by (auto simp: plug_null plug_height)
  next
    case False
    then have t: "radix_prune p (t\<lparr>radix_free := radix_free t + 1\<rparr>) = Some t'" using "2.prems" by (simp add: Let_def)
    have "radix_map (radix_plug RX_null p) = radix_map (radix_plug ?n p)"
      by (rule plug_same) (use False in \<open>simp add: radix_map_blank radix_map_null\<close>)
    then show ?thesis using "2.IH" [OF refl False t] by auto
  qed
qed simp

lemma prune_some: "radix_prune p t = None \<longleftrightarrow> p = []"
  by (induction p t rule: radix_prune.induct) (auto simp: Let_def)

lemma radix_delete_ok:
  assumes n: "radix_plug n p = radix_root t" and t: "radix_root t \<noteq> RX_null"
    and k: "if n = RX_null then radix_map (radix_root t) ks = None else path_bits p = ks"
    and leaf: "\<not> (ks = [] \<and> (\<exists>v. radix_root t = RX RX_null v RX_null))"
  shows "\<exists>rc t'. radix_delete (n, p) t = Some (rc, t') \<and> radix_root t' \<noteq> RX_null \<and>
    radix_height (radix_root t') \<le> radix_height (radix_root t) \<and>
    (rc = NGX_OK \<and> radix_map (radix_root t') = (radix_map (radix_root t))(ks := None) \<or>
     rc = NGX_ERROR \<and> t' = t \<and> radix_map (radix_root t) ks = None)"
proof (cases n)
  case RX_null
  then show ?thesis using t k by (simp add: radix_delete_def)
next
  case (RX l v r)
  then have p: "path_bits p = ks" using k by simp
  have h: "radix_height n + length p \<le> radix_height (radix_root t)" "path_height (radix_height (radix_root t)) p"
    using plug_height [of n p "radix_height (radix_root t)"] n by simp_all
  have at: "radix_map (radix_root t) ks = (if v = NGX_RADIX_NO_VALUE then None else Some v)"
    using plug_at [of n p "[]"] n p by (simp add: RX)
  have null: "radix_map (radix_plug m p) = (radix_map (radix_root t))(ks := None)" if "radix_map m = (radix_map n)([] := None)" for m
    using plug_map [of m n "[]" None p] that by (simp add: n p)
  show ?thesis
  proof (cases "r \<noteq> RX_null \<or> l \<noteq> RX_null")
    case True
    have "radix_map (radix_plug (RX l NGX_RADIX_NO_VALUE r) p) = (radix_map (radix_root t))(ks := None)"
      by (rule null) (simp add: RX radix_map_value [of l NGX_RADIX_NO_VALUE r v])
    moreover have "radix_height (radix_plug (RX l NGX_RADIX_NO_VALUE r) p) \<le> radix_height (radix_root t)"
      unfolding plug_height using h by (simp add: RX)
    ultimately show ?thesis using True t at by (simp add: radix_delete_def RX plug_null)
  next
    case False
    then have p0: "p \<noteq> []" using n [symmetric] leaf p RX by auto
    then obtain t' where t': "radix_prune p t = Some t'" using prune_some [of p t] by blast
    have "radix_map (radix_plug RX_null p) = (radix_map (radix_root t))(ks := None)"
    proof (rule null)
      show "radix_map RX_null = (radix_map n)([] := None)"
      proof
        fix js show "radix_map RX_null js = ((radix_map n)([] := None)) js" using False RX by (cases js) auto
      qed
    qed
    then show ?thesis using prune_ok [OF t'] h(2) False t' by (auto simp: radix_delete_def RX)
  qed
qed

section \<open>The longest match\<close>

text \<open>A value found for the bits of an address belongs to the longest prefix of them that has one.\<close>

definition longest_match :: "(bool list \<Rightarrow> 64 word option) \<Rightarrow> bool list \<Rightarrow> 64 word \<Rightarrow> bool" where
  "longest_match m ks v \<longleftrightarrow>
    (\<exists>n \<le> length ks. m (take n ks) = Some v \<and> (\<forall>j. n < j \<and> j \<le> length ks \<longrightarrow> m (take j ks) = None)) \<or>
    v = NGX_RADIX_NO_VALUE \<and> (\<forall>j \<le> length ks. m (take j ks) = None)"

fun radix_search :: "bool list \<Rightarrow> 64 word \<Rightarrow> radix_node \<Rightarrow> 64 word" where
  "radix_search ks value RX_null = value"
| "radix_search [] value (RX l v r) = (if v \<noteq> NGX_RADIX_NO_VALUE then v else value)"
| "radix_search (k # ks) value (RX l v r) = radix_search ks (if v \<noteq> NGX_RADIX_NO_VALUE then v else value) (if k then r else l)"

lemma search_match:
  "(\<exists>n \<le> length ks. radix_map node (take n ks) = Some (radix_search ks value node) \<and>
      (\<forall>j. n < j \<and> j \<le> length ks \<longrightarrow> radix_map node (take j ks) = None)) \<or>
   radix_search ks value node = value \<and> (\<forall>j \<le> length ks. radix_map node (take j ks) = None)"
proof (induction ks "value" node rule: radix_search.induct)
  case (3 k ks val l v r)
  let ?c = "if k then r else l"
  have tk: "radix_map (RX l v r) (take (Suc n) (k # ks)) = radix_map ?c (take n ks)" for n by simp
  from "3.IH" show ?case
  proof (elim disjE exE conjE)
    fix n assume n: "n \<le> length ks" "radix_map ?c (take n ks) = Some (radix_search ks (if v \<noteq> NGX_RADIX_NO_VALUE then v else val) ?c)"
      "\<forall>j. n < j \<and> j \<le> length ks \<longrightarrow> radix_map ?c (take j ks) = None"
    have "radix_map (RX l v r) (take j (k # ks)) = None" if "Suc n < j" "j \<le> length (k # ks)" for j
      using that n(3) by (cases j) auto
    then show ?thesis using n(1,2) by (intro disjI1 exI [of _ "Suc n"]) auto
  next
    assume a: "radix_search ks (if v \<noteq> NGX_RADIX_NO_VALUE then v else val) ?c = (if v \<noteq> NGX_RADIX_NO_VALUE then v else val)"
      "\<forall>j \<le> length ks. radix_map ?c (take j ks) = None"
    have "radix_map (RX l v r) (take j (k # ks)) = None" if "0 < j" "j \<le> length (k # ks)" for j
      using that a(2) by (cases j) auto
    then show ?thesis
    proof (cases "v = NGX_RADIX_NO_VALUE")
      case True
      have "radix_map (RX l v r) (take j (k # ks)) = None" if "j \<le> length (k # ks)" for j
        using that a(2) True by (cases j) auto
      then show ?thesis using a(1) True by auto
    next
      case False
      have "radix_map (RX l v r) (take j (k # ks)) = None" if "0 < j" "j \<le> length (k # ks)" for j
        using that a(2) by (cases j) auto
      then show ?thesis using a(1) False by (intro disjI1 exI [of _ 0]) auto
    qed
  qed
qed auto

lemma search_longest: "longest_match (radix_map node) ks (radix_search ks NGX_RADIX_NO_VALUE node)"
  using search_match [of ks node NGX_RADIX_NO_VALUE] by (auto simp: longest_match_def)

lemma height_0: "radix_height n = 0 \<longleftrightarrow> n = RX_null"
  by (cases n) simp_all

lemma search32: "m \<le> 32 \<Longrightarrow> radix_height n \<le> Suc m \<Longrightarrow> radix32_search key (nth_mask m) w n = radix_search (low_bits key m) w n"
proof (induction m arbitrary: w n)
  case 0
  then show ?case
  proof (cases n)
    case (RX l v r)
    then have "l = RX_null" "r = RX_null" using 0 by (simp_all add: height_0)
    then show ?thesis by (simp add: RX)
  qed simp
next
  case (Suc m)
  have m: "m < 32" using Suc.prems(1) by simp
  note bits = mask_and [where 'a = 32, simplified, OF m] mask_drop [where 'a = 32, simplified, OF m]
  show ?case using Suc by (cases n) (simp_all add: bits)
qed

section \<open>Positions in the bytes of an address\<close>

lemma eight_minus: "8 - q mod 8 = Suc (7 - q mod 8)" for q :: nat
proof -
  have "q mod 8 < 8" by simp
  then show ?thesis by arith
qed

text \<open>The bit \<open>b\<close> of byte \<open>i\<close> is bit number \<open>q\<close> of the address.\<close>

definition at_bit :: "nat \<Rightarrow> nat \<Rightarrow> u_char \<Rightarrow> bool" where
  "at_bit q i b \<longleftrightarrow> q < 128 \<and> i = q div 8 \<and> b = nth_mask (8 - q mod 8)"

lemma bits128_nth: "q < 8 * length bs \<Longrightarrow> bits128 bs ! q = bit (bs ! (q div 8)) (7 - q mod 8)"
proof (induction bs arbitrary: q)
  case (Cons c bs)
  show ?case
  proof (cases "q < 8")
    case True
    then show ?thesis by (simp add: bits128_def nth_append bits8_def rev_nth)
  next
    case False
    then have "bits128 (c # bs) ! q = bits128 bs ! (q - 8)" by (simp add: bits128_def nth_append)
    also have "\<dots> = bit (bs ! ((q - 8) div 8)) (7 - (q - 8) mod 8)" using Cons False by simp
    finally show ?thesis using False by (simp add: le_div_geq le_mod_geq)
  qed
qed simp

lemma at_bit_test:
  assumes "at_bit q i b" "16 \<le> length bs"
  shows "b AND bs ! i = 0 \<longleftrightarrow> \<not> bits128 bs ! q" "bs ! i AND b = 0 \<longleftrightarrow> \<not> bits128 bs ! q"
proof -
  have "b = nth_mask (Suc (7 - q mod 8))" using assms(1) by (simp add: at_bit_def eight_minus)
  moreover have "bits128 bs ! q = bit (bs ! i) (7 - q mod 8)" using assms bits128_nth [of q bs] by (simp add: at_bit_def)
  moreover have "7 - q mod 8 < LENGTH(8)" by simp
  ultimately show "b AND bs ! i = 0 \<longleftrightarrow> \<not> bits128 bs ! q" "bs ! i AND b = 0 \<longleftrightarrow> \<not> bits128 bs ! q"
    using mask_and [where 'a = 8] by simp_all
qed

lemma at_bit_first: "at_bit 0 0 0x80"
  by (simp add: at_bit_def mask_first)

lemma at_bit_index: "at_bit q i b \<Longrightarrow> i < 16 \<and> q < 128"
  by (auto simp: at_bit_def)

lemma at_bit_shift:
  assumes "at_bit q i b"
  shows "if q mod 8 = 7 then drop_bit (Suc 0) b = 0 else drop_bit (Suc 0) b \<noteq> 0 \<and> at_bit (Suc q) i (drop_bit (Suc 0) b)"
    "q mod 8 = 7 \<Longrightarrow> Suc q < 128 \<Longrightarrow> at_bit (Suc q) (Suc i) 0x80"
    "q mod 8 = 7 \<Longrightarrow> Suc i = 16 \<longleftrightarrow> Suc q = 128"
proof -
  have b: "b = nth_mask (Suc (7 - q mod 8))" "i = q div 8" "q < 128" using assms by (simp_all add: at_bit_def eight_minus)
  have d: "drop_bit (Suc 0) b = nth_mask (7 - q mod 8)" unfolding b(1) by (rule mask_drop) simp
  have z: "(nth_mask (7 - q mod 8) :: u_char) = 0 \<longleftrightarrow> 7 - q mod 8 = 0" by (rule mask_zero) simp
  have "q mod 8 < 8" by simp
  then consider "q mod 8 = 7" | "q mod 8 < 7" by linarith
  then show "if q mod 8 = 7 then drop_bit (Suc 0) b = 0 else drop_bit (Suc 0) b \<noteq> 0 \<and> at_bit (Suc q) i (drop_bit (Suc 0) b)"
  proof cases
    case 2
    then have "Suc q mod 8 = Suc (q mod 8)" "Suc q div 8 = q div 8" "Suc q < 128" using b(3) by (simp_all add: mod_Suc div_Suc) (presburger)
    then show ?thesis using 2 d z b by (simp add: at_bit_def)
  qed (simp add: d)
  assume q: "q mod 8 = 7"
  then have "Suc q div 8 = Suc (q div 8)" "Suc q mod 8 = 0" by (simp_all add: mod_Suc div_Suc)
  then show "Suc q < 128 \<Longrightarrow> at_bit (Suc q) (Suc i) 0x80" using b by (simp add: at_bit_def mask_first)
  show "Suc i = 16 \<longleftrightarrow> Suc q = 128" using q b(2) by presburger
qed

lemma at_bit_next:
  assumes "at_bit q i b"
  shows "case radix128_next i b of None \<Rightarrow> Suc q = 128 | Some (i', b') \<Rightarrow> at_bit (Suc q) i' b'"
proof (cases "q mod 8 = 7")
  case True
  have "Suc q \<le> 128" using assms by (simp add: at_bit_def)
  then show ?thesis using at_bit_shift [OF assms] True by (auto simp: radix128_next_def Let_def)
next
  case False
  then show ?thesis using at_bit_shift(1) [OF assms] by (simp add: radix128_next_def Let_def)
qed

lemma drop_bits128: "q < 128 \<Longrightarrow> length bs = 16 \<Longrightarrow> drop q (bits128 bs) = bits128 bs ! q # drop (Suc q) (bits128 bs)"
  by (simp add: Cons_nth_drop_Suc)

abbreviation ahead :: "bytes \<Rightarrow> bytes \<Rightarrow> nat \<Rightarrow> bool list" where
  "ahead key nm q \<equiv> prefix_bits (drop q (bits128 key)) (drop q (bits128 nm))"

lemma ahead_step:
  assumes "q < 128" "length key = 16" "length nm = 16"
  shows "ahead key nm q = (if bits128 nm ! q then bits128 key ! q # ahead key nm (Suc q) else [])"
  using assms by (simp add: drop_bits128)

lemma ahead_end: "length key = 16 \<Longrightarrow> length nm = 16 \<Longrightarrow> ahead key nm 128 = []"
  by simp

section \<open>The descents\<close>

lemma walk128:
  assumes "n \<noteq> RX_null" "at_bit q i b" "length key = 16" "length nm = 16"
  shows "\<exists>n' p' i' b' missing q'. radix128_walk key nm i b n p = Some (n', p', i', b', missing) \<and>
    n' \<noteq> RX_null \<and> descent n p (ahead key nm q) n' p' (ahead key nm q') \<and>
    (if missing then at_bit q' i' b' \<and> child_missing n' (ahead key nm q') else ahead key nm q' = [])"
  using assms(1,2)
proof (induction n arbitrary: q i b p)
  case (RX l v r)
  have q: "i < 16" "q < 128" using at_bit_index [OF RX.prems(2)] by simp_all
  have IH: "\<exists>n' p' i' b' missing q'. radix128_walk key nm i b (if k then r else l) p = Some (n', p', i', b', missing) \<and>
    n' \<noteq> RX_null \<and> descent (if k then r else l) p (ahead key nm q) n' p' (ahead key nm q') \<and>
    (if missing then at_bit q' i' b' \<and> child_missing n' (ahead key nm q') else ahead key nm q' = [])"
    if "(if k then r else l) \<noteq> RX_null" "at_bit q i b" for k q i b p
    using RX.IH that by (cases k) simp_all
  note test = at_bit_test [OF RX.prems(2)]
  show ?case
  proof (cases "bits128 nm ! q")
    case False
    have "radix128_walk key nm i b (RX l v r) p = Some (RX l v r, p, i, b, False)" using False q test assms by simp
    moreover have "ahead key nm q = []" using False q assms by (simp add: ahead_step)
    ultimately show ?thesis
      by (intro exI [of _ "RX l v r"] exI [of _ p] exI [of _ i] exI [of _ b] exI [of _ False] exI [of _ q]) (simp add: descent_here)
  next
    case True
    let ?k = "bits128 key ! q"
    let ?p = "(?k, v, if ?k then l else r) # p"
    have a: "ahead key nm q = ?k # ahead key nm (Suc q)" using True q assms by (simp add: ahead_step)
    show ?thesis
    proof (cases "(if ?k then r else l) = RX_null")
      case True
      then have "radix128_walk key nm i b (RX l v r) p = Some (RX l v r, p, i, b, True)" using \<open>bits128 nm ! q\<close> q test assms by (auto simp: Let_def)
      moreover have "child_missing (RX l v r) (ahead key nm q)" unfolding a using True by simp
      ultimately show ?thesis using RX.prems(2)
        by (intro exI [of _ "RX l v r"] exI [of _ p] exI [of _ i] exI [of _ b] exI [of _ True] exI [of _ q]) (simp add: descent_here)
    next
      case False
      have w: "radix128_walk key nm i b (RX l v r) p =
        (case radix128_next i b of None \<Rightarrow> Some (if ?k then r else l, ?p, 16, 0, False)
         | Some (i, b) \<Rightarrow> radix128_walk key nm i b (if ?k then r else l) ?p)"
        using False \<open>bits128 nm ! q\<close> q test assms by (auto simp: Let_def)
      show ?thesis
      proof (cases "radix128_next i b")
        case None
        then have "Suc q = 128" using at_bit_next [OF RX.prems(2)] by simp
        then have e: "ahead key nm (Suc q) = []" using assms by simp
        have "descent (RX l v r) p (ahead key nm q) (if ?k then r else l) ?p (ahead key nm (Suc q))"
          unfolding a by (rule descent_step) (rule descent_here)
        then show ?thesis using w None False e
          by (intro exI [of _ "if ?k then r else l"] exI [of _ ?p] exI [of _ 16] exI [of _ 0] exI [of _ False] exI [of _ "Suc q"]) simp
      next
        case (Some ib)
        obtain i1 b1 where ib: "ib = (i1, b1)" by (cases ib)
        have "at_bit (Suc q) i1 b1" using at_bit_next [OF RX.prems(2)] Some ib by simp
        from IH [OF False this, of ?p] obtain n' p' i' b' missing q' where r:
          "radix128_walk key nm i1 b1 (if ?k then r else l) ?p = Some (n', p', i', b', missing)" "n' \<noteq> RX_null"
          "descent (if ?k then r else l) ?p (ahead key nm (Suc q)) n' p' (ahead key nm q')"
          "if missing then at_bit q' i' b' \<and> child_missing n' (ahead key nm q') else ahead key nm q' = []" by blast
        have "descent (RX l v r) p (ahead key nm q) n' p' (ahead key nm q')"
          unfolding a by (rule descent_step) (rule r(3))
        moreover have "radix128_walk key nm i b (RX l v r) p = Some (n', p', i', b', missing)" using w Some ib r(1) by simp
        ultimately show ?thesis using r(2,4) by blast
      qed
    qed
  qed
qed simp

lemma grow128:
  assumes "at_bit q i b" "n \<noteq> RX_null" "ahead key nm q \<noteq> [] \<longrightarrow> child_missing n (ahead key nm q)" "length key = 16" "length nm = 16"
  shows "\<exists>res. radix128_grow ps key nm i b t n p = Some res \<and> grown t n p (ahead key nm q) res"
  using assms(1-3)
proof (induction "128 - q" arbitrary: q i b t n p)
  case 0
  then show ?case using at_bit_index by force
next
  case (Suc d)
  then obtain l v r where n: "n = RX l v r" by (cases n) auto
  have q: "i < 16" "q < 128" using at_bit_index [OF Suc.prems(1)] by simp_all
  note test = at_bit_test [OF Suc.prems(1)]
  note eq = radix128_grow.simps [of ps key nm i b t n p]
  show ?case
  proof (cases "bits128 nm ! q")
    case False
    then show ?thesis using q test assms Suc.prems(2) by (simp add: eq ahead_step grown_here)
  next
    case True
    let ?k = "bits128 key ! q"
    let ?p = "(?k, v, if ?k then l else r) # p"
    have a: "ahead key nm q = ?k # ahead key nm (Suc q)" using True q assms by (simp add: ahead_step)
    show ?thesis
    proof (cases "ngx_radix_alloc ps t")
      case None
      then show ?thesis using True q test assms grown_out [OF Suc.prems(2) None] by (simp add: eq)
    next
      case (Some t')
      have c: "child_missing (RX l v r) (?k # ahead key nm (Suc q))" using Suc.prems(3) by (simp add: n a)
      have w: "radix128_grow ps key nm i b t n p =
        (case radix128_next i b of None \<Rightarrow> Some (True, t', blank, ?p) | Some (i, b) \<Rightarrow> radix128_grow ps key nm i b t' blank ?p)"
        by (subst eq) (use True Some q test assms in \<open>simp add: n Let_def\<close>)
      have step: "grown t n p (ahead key nm q) res" if "grown t' blank ?p (ahead key nm (Suc q)) res" for res
        unfolding a n by (rule grown_step [OF c Some that])
      show ?thesis
      proof (cases "radix128_next i b")
        case None
        then have "ahead key nm (Suc q) = []" using at_bit_next [OF Suc.prems(1)] assms by simp
        then show ?thesis using w None step [of "(True, t', blank, ?p)"] by (simp add: grown_here)
      next
        case ib: (Some ib)
        obtain i1 b1 where i1: "ib = (i1, b1)" by (cases ib)
        have "at_bit (Suc q) i1 b1" using at_bit_next [OF Suc.prems(1)] ib i1 by simp
        moreover have "ahead key nm (Suc q) \<noteq> [] \<longrightarrow> child_missing blank (ahead key nm (Suc q))"
          by (cases "ahead key nm (Suc q)") simp_all
        moreover have d: "d = 128 - Suc q" using Suc.hyps(2) by arith
        ultimately obtain res where "radix128_grow ps key nm i1 b1 t' blank ?p = Some res" "grown t' blank ?p (ahead key nm (Suc q)) res"
          using Suc.hyps(1) [OF d, of i1 b1 blank t' ?p] by blast
        then show ?thesis using w ib i1 step by auto
      qed
    qed
  qed
qed

lemma down128:
  assumes "at_bit q i b" "length key = 16" "length nm = 16"
  shows "\<exists>n' p'. radix128_down key nm i b n p = Some (n', p') \<and> radix_plug n' p' = radix_plug n p \<and>
    (if n' = RX_null then radix_map n (ahead key nm q) = None else path_bits p' = path_bits p @ ahead key nm q)"
  using assms(1)
proof (induction n arbitrary: q i b p)
  case (RX l v r)
  have q: "i < 16" "q < 128" using at_bit_index [OF RX.prems] by simp_all
  have IH: "\<exists>n' p'. radix128_down key nm i b (if k then r else l) p = Some (n', p') \<and> radix_plug n' p' = radix_plug (if k then r else l) p \<and>
    (if n' = RX_null then radix_map (if k then r else l) (ahead key nm q) = None else path_bits p' = path_bits p @ ahead key nm q)"
    if "at_bit q i b" for k q i b p
    using RX.IH that by (cases k) simp_all
  note test = at_bit_test [OF RX.prems]
  show ?case
  proof (cases "bits128 nm ! q")
    case False
    then show ?thesis using q test assms by (simp add: ahead_step)
  next
    case True
    let ?k = "bits128 key ! q"
    let ?p = "(?k, v, if ?k then l else r) # p"
    have a: "ahead key nm q = ?k # ahead key nm (Suc q)" using True q assms by (simp add: ahead_step)
    have up: "radix_plug (if ?k then r else l) ?p = radix_plug (RX l v r) p" by simp
    have w: "radix128_down key nm i b (RX l v r) p =
      (case radix128_next i b of None \<Rightarrow> Some (if ?k then r else l, ?p) | Some (i, b) \<Rightarrow> radix128_down key nm i b (if ?k then r else l) ?p)"
      using True q test assms by (auto simp: Let_def)
    show ?thesis
    proof (cases "radix128_next i b")
      case None
      then have "ahead key nm (Suc q) = []" using at_bit_next [OF RX.prems] assms by simp
      then show ?thesis using w None up by (simp add: a)
    next
      case (Some ib)
      obtain i1 b1 where ib: "ib = (i1, b1)" by (cases ib)
      have "at_bit (Suc q) i1 b1" using at_bit_next [OF RX.prems] Some ib by simp
      from IH [OF this, of ?k ?p] show ?thesis using w Some ib up by (auto simp: a split: if_splits)
    qed
  qed
qed simp

text \<open>Below the last bit there are no nodes; but their absence is only seen after a look at the next byte.\<close>

lemma search128:
  assumes "at_bit q i b \<or> q = 128 \<and> i = 16" "16 \<le> length key" "radix_height n \<le> 129 - q" "radix_height n = 129 - q \<longrightarrow> 17 \<le> length key"
  shows "radix128_search key i b w n = Some (radix_search (drop q (take 128 (bits128 key))) w n)"
  using assms
proof (induction n arbitrary: q i b w)
  case (RX l v r)
  show ?case
  proof (cases "q = 128")
    case True
    then have "i = 16" "17 \<le> length key" "l = RX_null" "r = RX_null"
      using RX.prems at_bit_index [of q i b] by (auto simp: height_0)
    then show ?thesis using True by (simp add: Let_def)
  next
    case False
    then have at: "at_bit q i b" using RX.prems(1) by simp
    then have q: "i < 16" "q < 128" using at_bit_index by simp_all
    let ?k = "bits128 key ! q" and ?w = "if v \<noteq> NGX_RADIX_NO_VALUE then v else w"
    have n: "key ! i AND b \<noteq> 0 \<longleftrightarrow> ?k" using at_bit_test(2) [OF at] RX.prems(2) by simp
    have ks: "drop q (take 128 (bits128 key)) = ?k # drop (Suc q) (take 128 (bits128 key))"
      using q RX.prems(2) by (subst Cons_nth_drop_Suc [symmetric]) simp_all
    let ?i = "if drop_bit 1 b = 0 then i + 1 else i" and ?b = "if drop_bit 1 b = 0 then 0x80 else drop_bit 1 b"
    have p: "at_bit (Suc q) ?i ?b \<or> Suc q = 128 \<and> ?i = 16"
      using at_bit_shift [OF at] q by (cases "Suc q = 128") (auto split: if_splits)
    have IH: "radix128_search key ?i ?b ?w (if ?k then r else l) = Some (radix_search (drop (Suc q) (take 128 (bits128 key))) ?w (if ?k then r else l))"
      using RX.IH(1) [OF p RX.prems(2), of ?w] RX.IH(2) [OF p RX.prems(2), of ?w] RX.prems(3,4) q by auto
    have "radix128_search key i b w (RX l v r) = radix128_search key ?i ?b ?w (if ?k then r else l)"
      using q RX.prems(2) n by (simp add: Let_def)
    then show ?thesis unfolding ks radix_search.simps IH .
  qed
qed simp

section \<open>Prefix tables\<close>

text \<open>
  What the users of a radix tree rely on: the operations on a map from prefixes to values. A deletion may
  fail on the last node, the root; an insertion without memory changes no value.
\<close>

locale prefix_table =
  fixes tree_ok :: "radix_tree \<Rightarrow> bool"
    and key_ok :: "'k \<Rightarrow> bool"
    and bits :: "'k \<Rightarrow> bool list"
    and ins :: "nat \<Rightarrow> 'k \<Rightarrow> 'k \<Rightarrow> 64 word \<Rightarrow> radix_tree \<Rightarrow> (int \<times> radix_tree) option"
    and del :: "'k \<Rightarrow> 'k \<Rightarrow> radix_tree \<Rightarrow> (int \<times> radix_tree) option"
  assumes ins_ok: "tree_ok t \<Longrightarrow> key_ok key \<Longrightarrow> key_ok nm \<Longrightarrow>
      \<exists>rc t'. ins ps key nm v t = Some (rc, t') \<and> tree_ok t' \<and> radix_pool t \<le> radix_pool t' + length (prefix_bits (bits key) (bits nm)) \<and>
        (rc = NGX_OK \<and> radix_map (radix_root t) (prefix_bits (bits key) (bits nm)) = None \<and>
           radix_map (radix_root t') = (radix_map (radix_root t))(prefix_bits (bits key) (bits nm) := if v = NGX_RADIX_NO_VALUE then None else Some v) \<or>
         rc = NGX_BUSY \<and> radix_map (radix_root t) (prefix_bits (bits key) (bits nm)) \<noteq> None \<and> t' = t \<or>
         rc = NGX_ERROR \<and> radix_map (radix_root t') = radix_map (radix_root t) \<and> radix_pool t' = 0)"
    and del_ok: "tree_ok t \<Longrightarrow> key_ok key \<Longrightarrow> key_ok nm \<Longrightarrow>
      \<not> (prefix_bits (bits key) (bits nm) = [] \<and> (\<exists>v. radix_root t = RX RX_null v RX_null)) \<Longrightarrow>
      \<exists>rc t'. del key nm t = Some (rc, t') \<and> tree_ok t' \<and> radix_pool t' = radix_pool t \<and>
        (rc = NGX_OK \<and> radix_map (radix_root t') = (radix_map (radix_root t))(prefix_bits (bits key) (bits nm) := None) \<or>
         rc = NGX_ERROR \<and> t' = t \<and> radix_map (radix_root t) (prefix_bits (bits key) (bits nm)) = None)"
begin

text \<open>
  Replacing the value of a prefix: an insertion, and if there was a value, a deletion and another
  insertion, which never find the tree invalid.
\<close>

lemma replace_ok:
  assumes t: "tree_ok t" and k: "key_ok key" "key_ok nm" and v: "v \<noteq> NGX_RADIX_NO_VALUE"
    and r: "\<not> (prefix_bits (bits key) (bits nm) = [] \<and> (\<exists>v. radix_root t = RX RX_null v RX_null))"
    and i: "ins ps key nm v t = Some (rc, t')"
  shows "rc = NGX_OK \<and> tree_ok t' \<and> radix_map (radix_root t') = (radix_map (radix_root t))(prefix_bits (bits key) (bits nm) \<mapsto> v) \<or>
    rc = NGX_ERROR \<and> tree_ok t' \<and> radix_map (radix_root t') = radix_map (radix_root t) \<and> radix_pool t' = 0 \<or>
    rc = NGX_BUSY \<and> t' = t \<and>
      (\<exists>t1. del key nm t = Some (NGX_OK, t1) \<and> tree_ok t1 \<and>
        (\<exists>rc2 t2. ins ps key nm v t1 = Some (rc2, t2) \<and> tree_ok t2 \<and>
          (rc2 = NGX_OK \<and> radix_map (radix_root t2) = (radix_map (radix_root t))(prefix_bits (bits key) (bits nm) \<mapsto> v) \<or>
           rc2 = NGX_ERROR \<and> radix_pool t2 = 0)))"
proof (cases "rc = NGX_BUSY")
  case False
  then show ?thesis using ins_ok [OF t k, of ps v] i v by (auto simp: NGX_BUSY_def)
next
  case True
  then have b: "radix_map (radix_root t) (prefix_bits (bits key) (bits nm)) \<noteq> None" "t' = t"
    using ins_ok [OF t k, of ps v] i by (auto simp: NGX_BUSY_def)
  obtain t1 where d: "del key nm t = Some (NGX_OK, t1)" "tree_ok t1"
    "radix_map (radix_root t1) = (radix_map (radix_root t))(prefix_bits (bits key) (bits nm) := None)"
    using del_ok [OF t k r] b(1) by auto
  obtain rc2 t2 where i2: "ins ps key nm v t1 = Some (rc2, t2)" "tree_ok t2"
    "rc2 = NGX_OK \<and> radix_map (radix_root t2) = (radix_map (radix_root t1))(prefix_bits (bits key) (bits nm) := Some v) \<or>
     rc2 = NGX_ERROR \<and> radix_pool t2 = 0"
    using ins_ok [OF d(2) k, of ps v] d(3) v by auto
  then show ?thesis using True b(2) d by auto
qed

text \<open>With memory for the nodes of one prefix, replacing its value succeeds.\<close>

lemma replace_accepts:
  assumes t: "tree_ok t" and k: "key_ok key" "key_ok nm" and v: "v \<noteq> NGX_RADIX_NO_VALUE"
    and r: "\<not> (prefix_bits (bits key) (bits nm) = [] \<and> (\<exists>v. radix_root t = RX RX_null v RX_null))"
    and n: "length (prefix_bits (bits key) (bits nm)) < radix_pool t"
  shows "\<exists>rc t' t2. ins ps key nm v t = Some (rc, t') \<and> radix_pool t \<le> radix_pool t2 + length (prefix_bits (bits key) (bits nm)) \<and>
    (rc = NGX_OK \<and> t2 = t' \<or>
     rc = NGX_BUSY \<and> (\<exists>t1. del key nm t = Some (NGX_OK, t1) \<and> ins ps key nm v t1 = Some (NGX_OK, t2)))"
proof -
  obtain rc t' where i: "ins ps key nm v t = Some (rc, t')" "radix_pool t \<le> radix_pool t' + length (prefix_bits (bits key) (bits nm))"
    "rc = NGX_OK \<or> rc = NGX_BUSY \<and> radix_map (radix_root t) (prefix_bits (bits key) (bits nm)) \<noteq> None"
    using ins_ok [OF t k, of ps v] n by auto
  show ?thesis
  proof (cases "rc = NGX_OK")
    case True
    then show ?thesis using i by blast
  next
    case False
    then have b: "rc = NGX_BUSY" "radix_map (radix_root t) (prefix_bits (bits key) (bits nm)) \<noteq> None" using i(3) by auto
    obtain t1 where d: "del key nm t = Some (NGX_OK, t1)" "tree_ok t1" "radix_pool t1 = radix_pool t"
      "radix_map (radix_root t1) = (radix_map (radix_root t))(prefix_bits (bits key) (bits nm) := None)"
      using del_ok [OF t k r] b(2) by auto
    obtain t2 where "ins ps key nm v t1 = Some (NGX_OK, t2)" "radix_pool t1 \<le> radix_pool t2 + length (prefix_bits (bits key) (bits nm))"
      using ins_ok [OF d(2) k, of ps v] d(3,4) n by auto
    then show ?thesis using i(1) b(1) d(1,3) by (intro exI [of _ rc] exI [of _ t'] exI [of _ t2]) simp
  qed
qed

end

section \<open>The two trees\<close>

definition radix32_ok :: "radix_tree \<Rightarrow> bool" where
  "radix32_ok t \<longleftrightarrow> radix_root t \<noteq> RX_null \<and> radix_height (radix_root t) \<le> 33"

definition radix128_ok :: "radix_tree \<Rightarrow> bool" where
  "radix128_ok t \<longleftrightarrow> radix_root t \<noteq> RX_null \<and> radix_height (radix_root t) \<le> 129"

lemma length_prefix: "length (prefix_bits ks ms) \<le> length ks"
  by (simp add: prefix_bits_def)

text \<open>An insertion, from what its two loops come to.\<close>

lemma set_value_ok:
  assumes n: "radix_plug (RX l w r) p = root" and b: "path_bits p = ks"
  shows "radix_map (radix_plug (RX l v r) p) = (radix_map root)(ks := if v = NGX_RADIX_NO_VALUE then None else Some v)"
    "radix_height (radix_plug (RX l v r) p) = radix_height root"
    "radix_map root ks = (if w = NGX_RADIX_NO_VALUE then None else Some w)"
proof -
  have "radix_map (radix_plug (RX l v r) p) = (radix_map (radix_plug (RX l w r) p))(path_bits p @ [] := if v = NGX_RADIX_NO_VALUE then None else Some v)"
    by (rule plug_map) (rule radix_map_value)
  then show "radix_map (radix_plug (RX l v r) p) = (radix_map root)(ks := if v = NGX_RADIX_NO_VALUE then None else Some v)" by (simp add: n b)
  have "radix_height (radix_plug (RX l v r) p) \<le> N \<longleftrightarrow> radix_height root \<le> N" for N
    unfolding n [symmetric] plug_height by simp
  then show "radix_height (radix_plug (RX l v r) p) = radix_height root" by (metis order_antisym order_refl)
  show "radix_map root ks = (if w = NGX_RADIX_NO_VALUE then None else Some w)" using plug_at [of "RX l w r" p "[]"] by (simp add: n b)
qed

lemma grown_value:
  assumes g: "grown t n p rest (ok, t', n', p')" and n: "radix_plug n p = root" "root \<noteq> RX_null" and b: "path_bits p @ rest = ks"
    and N: "radix_height root \<le> N" "length ks < N"
  shows "radix_root t' = radix_root t \<and> radix_pool t \<le> radix_pool t' + length ks \<and>
    (if ok then \<exists>l w r. n' = RX l w r \<and>
       radix_map (radix_plug (RX l v r) p') = (radix_map root)(ks := if v = NGX_RADIX_NO_VALUE then None else Some v) \<and>
       radix_plug (RX l v r) p' \<noteq> RX_null \<and> radix_height (radix_plug (RX l v r) p') \<le> N
     else radix_pool t' = 0 \<and> radix_map (radix_plug n' p') = radix_map root \<and> radix_plug n' p' \<noteq> RX_null \<and> radix_height (radix_plug n' p') \<le> N)"
proof -
  have l: "length p + length rest = length ks" using b [symmetric] by simp
  have pool: "radix_pool t \<le> radix_pool t' + length ks" using g l by (simp add: grown_def)
  have G: "radix_root t' = radix_root t" "n' \<noteq> RX_null" "radix_map (radix_plug n' p') = radix_map root"
    "radix_height (radix_plug n' p') \<le> N" "ok \<Longrightarrow> path_bits p' = ks" "\<not> ok \<Longrightarrow> radix_pool t' = 0"
    using g N l b by (auto simp: grown_def n)
  then obtain l w r where n': "n' = RX l w r" by (cases n') auto
  show ?thesis
  proof (cases ok)
    case True
    note s = set_value_ok(1,2) [OF refl G(5) [OF True], where v = v and l = l and w = w and r = r]
    show ?thesis using True pool G(1-4) s n' by (auto simp: plug_null)
  next
    case False
    then show ?thesis using pool G by (simp add: plug_null)
  qed
qed

lemma missing_none:
  assumes "child_missing n rest" shows "radix_map n rest = None"
  using assms by (cases "(n, rest)" rule: child_missing.cases) (auto simp: radix_map_null)

lemma insert32_ok:
  fixes key nm :: "32 word"
  assumes t: "radix32_ok t"
  defines "ks \<equiv> prefix_bits (bits32 key) (bits32 nm)"
  shows "\<exists>rc t'. ngx_radix32tree_insert ps key nm v t = (rc, t') \<and> radix32_ok t' \<and> radix_pool t \<le> radix_pool t' + length ks \<and>
    (rc = NGX_OK \<and> radix_map (radix_root t) ks = None \<and>
       radix_map (radix_root t') = (radix_map (radix_root t))(ks := if v = NGX_RADIX_NO_VALUE then None else Some v) \<or>
     rc = NGX_BUSY \<and> radix_map (radix_root t) ks \<noteq> None \<and> t' = t \<or>
     rc = NGX_ERROR \<and> radix_map (radix_root t') = radix_map (radix_root t) \<and> radix_pool t' = 0)"
proof -
  let ?root = "radix_root t"
  have root: "?root \<noteq> RX_null" "radix_height ?root \<le> 33" using t by (simp_all add: radix32_ok_def)
  have len: "length ks < 33" using length_prefix [of "bits32 key" "bits32 nm"] by (simp add: ks_def)
  obtain n p b missing where w: "radix32_walk key nm (nth_mask 32) ?root [] = (n, p, b, missing)" by (metis prod_cases4)
  from walk32 [OF root(1) order_refl w] obtain m where m: "m \<le> 32" "b = nth_mask m" "n \<noteq> RX_null"
    "descent ?root [] (prefix_bits (low_bits key 32) (low_bits nm 32)) n p (prefix_bits (low_bits key m) (low_bits nm m))"
    "if missing then child_missing n (prefix_bits (low_bits key m) (low_bits nm m)) else prefix_bits (low_bits key m) (low_bits nm m) = []"
    by blast
  let ?rest = "prefix_bits (low_bits key m) (low_bits nm m)"
  have d: "radix_plug n p = ?root" "path_bits p @ ?rest = ks" using m(4) by (simp_all add: descent_def ks_def bits_low)
  obtain l u r where n: "n = RX l u r" using m(3) by (cases n) auto
  show ?thesis
  proof (cases missing)
    case False
    then have "path_bits p = ks" using m(5) d(2) by simp
    note s = set_value_ok(1,2) [OF d(1) [unfolded n] this, where v = v] set_value_ok(3) [OF d(1) [unfolded n] this]
    show ?thesis using w False root s by (auto simp: ngx_radix32tree_insert_def mask_first n radix32_ok_def plug_null)
  next
    case True
    obtain ok t' n' p' where g: "radix32_grow ps key nm b t n p = (ok, t', n', p')" by (metis prod_cases4)
    have "grown t n p ?rest (ok, t', n', p')" using grow32 [OF m(1,3), of key nm t p ps] m(2,5) True g by simp
    note G = grown_value [OF this d(1) root(1) d(2) root(2) len, of v]
    have none: "radix_map ?root ks = None" using plug_at [of n p ?rest] missing_none m(5) True d by simp
    show ?thesis
    proof (cases ok)
      case ok: True
      then obtain l w r where "n' = RX l w r" "radix_map (radix_plug (RX l v r) p') = (radix_map ?root)(ks := if v = NGX_RADIX_NO_VALUE then None else Some v)"
        "radix_plug (RX l v r) p' \<noteq> RX_null" "radix_height (radix_plug (RX l v r) p') \<le> 33" using G by auto
      then show ?thesis using w True g ok none conjunct1 [OF conjunct2 [OF G]] by (simp add: ngx_radix32tree_insert_def mask_first radix32_ok_def)
    next
      case False
      then show ?thesis using w True g G by (simp add: ngx_radix32tree_insert_def mask_first radix32_ok_def)
    qed
  qed
qed

lemma delete_pool: "radix_delete place t = Some (rc, t') \<Longrightarrow> radix_pool t' = radix_pool t"
proof -
  have prune: "radix_prune p t = Some t' \<Longrightarrow> radix_pool t' = radix_pool t" for p t
    by (induction p t rule: radix_prune.induct) (auto simp: Let_def split: if_splits)
  show "radix_delete place t = Some (rc, t') \<Longrightarrow> radix_pool t' = radix_pool t"
    by (auto simp: radix_delete_def prune split: prod.splits radix_node.splits if_splits)
qed

lemma delete32_ok:
  fixes key nm :: "32 word"
  assumes t: "radix32_ok t"
  defines "ks \<equiv> prefix_bits (bits32 key) (bits32 nm)"
  assumes leaf: "\<not> (ks = [] \<and> (\<exists>v. radix_root t = RX RX_null v RX_null))"
  shows "\<exists>rc t'. ngx_radix32tree_delete key nm t = Some (rc, t') \<and> radix32_ok t' \<and> radix_pool t' = radix_pool t \<and>
    (rc = NGX_OK \<and> radix_map (radix_root t') = (radix_map (radix_root t))(ks := None) \<or>
     rc = NGX_ERROR \<and> t' = t \<and> radix_map (radix_root t) ks = None)"
proof -
  have root: "radix_root t \<noteq> RX_null" "radix_height (radix_root t) \<le> 33" using t by (simp_all add: radix32_ok_def)
  obtain n p where w: "radix32_down key nm (nth_mask 32) (radix_root t) [] = (n, p)" by fastforce
  from down32 [OF order_refl w] have "radix_plug n p = radix_root t" "if n = RX_null then radix_map (radix_root t) ks = None else path_bits p = ks"
    by (simp_all add: ks_def bits_low)
  from radix_delete_ok [OF this(1) root(1) this(2) leaf] show ?thesis
    using w root(2) by (auto simp: delete_pool ngx_radix32tree_delete_def mask_first radix32_ok_def)
qed

lemma find32_ok: "radix32_ok t \<Longrightarrow> longest_match (radix_map (radix_root t)) (bits32 key) (ngx_radix32tree_find t key)"
  using search32 [of 32 "radix_root t" key] search_longest [of "radix_root t" "bits32 key"]
  by (simp add: radix32_ok_def ngx_radix32tree_find_def mask_first bits_low)

lemma insert128_ok:
  fixes key nm :: bytes
  assumes t: "radix128_ok t" and len: "length key = 16" "length nm = 16"
  defines "ks \<equiv> prefix_bits (bits128 key) (bits128 nm)"
  shows "\<exists>rc t'. ngx_radix128tree_insert ps key nm v t = Some (rc, t') \<and> radix128_ok t' \<and> radix_pool t \<le> radix_pool t' + length ks \<and>
    (rc = NGX_OK \<and> radix_map (radix_root t) ks = None \<and>
       radix_map (radix_root t') = (radix_map (radix_root t))(ks := if v = NGX_RADIX_NO_VALUE then None else Some v) \<or>
     rc = NGX_BUSY \<and> radix_map (radix_root t) ks \<noteq> None \<and> t' = t \<or>
     rc = NGX_ERROR \<and> radix_map (radix_root t') = radix_map (radix_root t) \<and> radix_pool t' = 0)"
proof -
  let ?root = "radix_root t"
  have root: "?root \<noteq> RX_null" "radix_height ?root \<le> 129" using t by (simp_all add: radix128_ok_def)
  have l: "length ks < 129" using length_prefix [of "bits128 key" "bits128 nm"] len by (simp add: ks_def)
  from walk128 [OF root(1) at_bit_first len, of "[]"] obtain n p i b missing q where
    w: "radix128_walk key nm 0 0x80 ?root [] = Some (n, p, i, b, missing)" "n \<noteq> RX_null"
    "descent ?root [] (ahead key nm 0) n p (ahead key nm q)"
    "if missing then at_bit q i b \<and> child_missing n (ahead key nm q) else ahead key nm q = []" by blast
  have d: "radix_plug n p = ?root" "path_bits p @ ahead key nm q = ks" using w(3) by (simp_all add: descent_def ks_def)
  obtain l' u r where n: "n = RX l' u r" using w(2) by (cases n) auto
  show ?thesis
  proof (cases missing)
    case False
    then have "path_bits p = ks" using w(4) d(2) by simp
    note s = set_value_ok(1,2) [OF d(1) [unfolded n] this, where v = v] set_value_ok(3) [OF d(1) [unfolded n] this]
    show ?thesis using w(1) False root s by (auto simp: ngx_radix128tree_insert_def n radix128_ok_def plug_null)
  next
    case True
    obtain ok t' n' p' where g: "radix128_grow ps key nm i b t n p = Some (ok, t', n', p')" "grown t n p (ahead key nm q) (ok, t', n', p')"
      using grow128 [of q i b n key nm ps t p] w(2,4) True len by auto
    note G = grown_value [OF g(2) d(1) root(1) d(2) root(2) l, of v]
    have none: "radix_map ?root ks = None" using plug_at [of n p "ahead key nm q"] missing_none w(4) True d by simp
    show ?thesis
    proof (cases ok)
      case ok: True
      then obtain l w' r where "n' = RX l w' r" "radix_map (radix_plug (RX l v r) p') = (radix_map ?root)(ks := if v = NGX_RADIX_NO_VALUE then None else Some v)"
        "radix_plug (RX l v r) p' \<noteq> RX_null" "radix_height (radix_plug (RX l v r) p') \<le> 129" using G by auto
      then show ?thesis using w(1) True g(1) n ok none conjunct1 [OF conjunct2 [OF G]] by (simp add: ngx_radix128tree_insert_def radix128_ok_def)
    next
      case False
      then show ?thesis using w(1) True g(1) n G by (simp add: ngx_radix128tree_insert_def radix128_ok_def)
    qed
  qed
qed

lemma delete128_ok:
  fixes key nm :: bytes
  assumes t: "radix128_ok t" and len: "length key = 16" "length nm = 16"
  defines "ks \<equiv> prefix_bits (bits128 key) (bits128 nm)"
  assumes leaf: "\<not> (ks = [] \<and> (\<exists>v. radix_root t = RX RX_null v RX_null))"
  shows "\<exists>rc t'. ngx_radix128tree_delete key nm t = Some (rc, t') \<and> radix128_ok t' \<and> radix_pool t' = radix_pool t \<and>
    (rc = NGX_OK \<and> radix_map (radix_root t') = (radix_map (radix_root t))(ks := None) \<or>
     rc = NGX_ERROR \<and> t' = t \<and> radix_map (radix_root t) ks = None)"
proof -
  have root: "radix_root t \<noteq> RX_null" "radix_height (radix_root t) \<le> 129" using t by (simp_all add: radix128_ok_def)
  obtain n p where w: "radix128_down key nm 0 0x80 (radix_root t) [] = Some (n, p)" "radix_plug n p = radix_root t"
    "if n = RX_null then radix_map (radix_root t) ks = None else path_bits p = ks"
    using down128 [OF at_bit_first len, of "radix_root t" "[]"] unfolding ks_def drop_0 path_bits_simps(1) append_Nil radix_plug.simps(1) by blast
  from radix_delete_ok [OF w(2) root(1) w(3) leaf] show ?thesis
    using w(1) root(2) by (auto simp: delete_pool ngx_radix128tree_delete_def radix128_ok_def)
qed

text \<open>A lookup of 128 bits reads the byte after the address, so there must be one.\<close>

lemma find128_ok:
  assumes "radix128_ok t" "17 \<le> length key"
  shows "\<exists>v. ngx_radix128tree_find t key = Some v \<and> longest_match (radix_map (radix_root t)) (take 128 (bits128 key)) v"
  using search128 [where q = 0 and i = 0 and b = "0x80" and key = key and n = "radix_root t"] at_bit_first search_longest [of "radix_root t" "take 128 (bits128 key)"] assms
  by (simp add: radix128_ok_def ngx_radix128tree_find_def)

text \<open>Without that byte a lookup that meets a full-length prefix reads past the end of the address.\<close>

lemma search128_reads_past:
  assumes "at_bit q i b \<or> q = 128 \<and> i = 16" "length key = 16" "radix_map n (drop q (bits128 key)) \<noteq> None"
  shows "radix128_search key i b w n = None"
  using assms
proof (induction n arbitrary: q i b w)
  case (RX l v r)
  show ?case
  proof (cases "q = 128")
    case True
    then have "i = 16" using RX.prems(1) at_bit_index [of q i b] by auto
    then show ?thesis using RX.prems(2) by simp
  next
    case False
    then have at: "at_bit q i b" using RX.prems(1) by simp
    then have q: "i < 16" "q < 128" using at_bit_index by simp_all
    let ?k = "bits128 key ! q" and ?w = "if v \<noteq> NGX_RADIX_NO_VALUE then v else w"
    let ?i = "if drop_bit 1 b = 0 then i + 1 else i" and ?b = "if drop_bit 1 b = 0 then 0x80 else drop_bit 1 b"
    have n: "key ! i AND b \<noteq> 0 \<longleftrightarrow> ?k" using at_bit_test(2) [OF at] RX.prems(2) by simp
    have p: "at_bit (Suc q) ?i ?b \<or> Suc q = 128 \<and> ?i = 16"
      using at_bit_shift [OF at] q by (cases "Suc q = 128") (auto split: if_splits)
    have "radix_map (if ?k then r else l) (drop (Suc q) (bits128 key)) \<noteq> None"
      using RX.prems(3) drop_bits128 [OF q(2) RX.prems(2)] by simp
    then have "radix128_search key ?i ?b ?w (if ?k then r else l) = None"
      using RX.IH(1) [OF p RX.prems(2), of ?w] RX.IH(2) [OF p RX.prems(2), of ?w] by auto
    moreover have "radix128_search key i b w (RX l v r) = radix128_search key ?i ?b ?w (if ?k then r else l)"
      using q RX.prems(2) n by (simp add: Let_def)
    ultimately show ?thesis by simp
  qed
qed simp

lemma find128_reads_past:
  "length key = 16 \<Longrightarrow> radix_map (radix_root t) (bits128 key) \<noteq> None \<Longrightarrow> ngx_radix128tree_find t key = None"
  using search128_reads_past [where q = 0 and i = 0 and b = "0x80" and key = key and n = "radix_root t"] at_bit_first by (simp add: ngx_radix128tree_find_def)

interpretation radix32: prefix_table radix32_ok "\<lambda>_. True" bits32 "\<lambda>ps key nm v t. Some (ngx_radix32tree_insert ps key nm v t)" ngx_radix32tree_delete
proof
qed (use insert32_ok delete32_ok in auto)

interpretation radix128: prefix_table radix128_ok "\<lambda>key. length key = 16" bits128 ngx_radix128tree_insert ngx_radix128tree_delete
  by standard (rule insert128_ok delete128_ok; assumption)+

section \<open>A new tree\<close>

text \<open>The nodes made beforehand hold no values; making them ends, as the key wraps around to zero.\<close>

lemma prealloc_ok:
  assumes "e < 32" "i < 2 ^ (32 - e)" "radix32_ok t" "radix_map (radix_root t) = Map.empty"
  shows "\<exists>res. radix_prealloc ps nm (push_bit e 1) (word_of_nat (i * 2 ^ e)) t = Some res \<and>
    (\<forall>t'. res = Some t' \<longrightarrow> radix32_ok t' \<and> radix_map (radix_root t') = Map.empty \<and> radix_pool t \<le> radix_pool t' + 32 * (2 ^ (32 - e) - i)) \<and>
    (32 * (2 ^ (32 - e) - i) < radix_pool t \<longrightarrow> res \<noteq> None)"
  using assms(2-)
proof (induction "2 ^ (32 - e) - i" arbitrary: i t)
  case (Suc d)
  let ?key = "word_of_nat (i * 2 ^ e) :: 32 word"
  obtain rc t' where ins: "ngx_radix32tree_insert ps ?key nm NGX_RADIX_NO_VALUE t = (rc, t')" "radix32_ok t'"
    "rc = NGX_OK \<longrightarrow> radix_map (radix_root t') = Map.empty" "radix_pool t \<le> radix_pool t' + 32" "32 < radix_pool t \<longrightarrow> rc = NGX_OK"
    using insert32_ok [OF Suc.prems(2), of ps ?key nm NGX_RADIX_NO_VALUE] Suc.prems(3) length_prefix [of "bits32 ?key" "bits32 nm"] by auto
  have key: "?key + push_bit e 1 = word_of_nat (Suc i * 2 ^ e)" by (simp add: push_bit_eq_mult algebra_simps)
  have pow: "(2 :: nat) ^ (32 - e) * 2 ^ e = 2 ^ 32" using assms(1) by (simp flip: power_add)
  have "Suc i * 2 ^ e \<le> 2 ^ (32 - e) * 2 ^ e" using Suc.prems(1) by (intro mult_le_mono1) simp
  then have le: "Suc i * 2 ^ e \<le> 2 ^ 32" unfolding pow .
  have zero: "?key + push_bit e 1 = 0 \<longleftrightarrow> Suc i = 2 ^ (32 - e)"
  proof
    assume "?key + push_bit e 1 = 0"
    then have "(2 :: nat) ^ 32 dvd Suc i * 2 ^ e" unfolding key by (simp only: word_of_nat_eq_0_iff) simp
    then have "2 ^ 32 \<le> Suc i * 2 ^ e" by (rule dvd_imp_le) simp
    then have "Suc i * 2 ^ e = 2 ^ (32 - e) * 2 ^ e" using le pow by simp
    then show "Suc i = 2 ^ (32 - e)" by (simp only: mult_cancel2) simp
  next
    assume "Suc i = 2 ^ (32 - e)"
    then show "?key + push_bit e 1 = 0" unfolding key using pow by (simp add: word_of_nat_eq_0_iff)
  qed
  note eq = radix_prealloc.simps [of ps nm "push_bit e 1" ?key t]
  show ?case
  proof (cases "rc = NGX_OK \<and> Suc i \<noteq> 2 ^ (32 - e)")
    case True
    have "radix_prealloc ps nm (push_bit e 1) ?key t = radix_prealloc ps nm (push_bit e 1) (word_of_nat (Suc i * 2 ^ e)) t'"
      unfolding eq key [symmetric] using True ins(1) zero by (simp del: of_nat_mult push_bit_of_1)
    moreover have "d = 2 ^ (32 - e) - Suc i" "Suc i < 2 ^ (32 - e)" using Suc.hyps(2) Suc.prems(1) True by simp_all
    ultimately show ?thesis using Suc.hyps(1) [of "Suc i" t'] True ins(2-4) by (auto intro: order_trans)
  next
    case False
    then show ?thesis unfolding eq using ins zero Suc.hyps(2) by auto
  qed
qed simp

lemma prealloc_bits_ok:
  assumes "n \<le> 32 - j" "j \<le> 32" "radix32_ok t" "radix_map (radix_root t) = Map.empty"
  shows "\<exists>res. radix_prealloc_bits ps n nm (if j = 32 then 0 else push_bit (31 - j) 1) t = Some res \<and>
    (\<forall>t'. res = Some t' \<longrightarrow> radix32_ok t' \<and> radix_map (radix_root t') = Map.empty \<and>
       radix_pool t + 32 * 2 ^ Suc j \<le> radix_pool t' + 32 * 2 ^ Suc (j + n)) \<and>
    (32 * 2 ^ Suc (j + n) < radix_pool t + 32 * 2 ^ Suc j \<longrightarrow> res \<noteq> None)"
  using assms
proof (induction n arbitrary: j nm t)
  case (Suc n)
  then have j: "j < 32" by simp
  let ?nm = "drop_bit 1 nm OR 0x80000000 :: 32 word"
  have diff_lt: "31 - j < 32" by simp
  have e: "32 - (31 - j) = Suc j" using j by simp
  obtain res where res: "radix_prealloc ps ?nm (push_bit (31 - j) 1) 0 t = Some res"
    "\<forall>t'. res = Some t' \<longrightarrow> radix32_ok t' \<and> radix_map (radix_root t') = Map.empty \<and> radix_pool t \<le> radix_pool t' + 32 * 2 ^ Suc j"
    "32 * 2 ^ Suc j < radix_pool t \<longrightarrow> res \<noteq> None"
    using prealloc_ok [OF diff_lt _ Suc.prems(3,4), of 0 ps ?nm] j unfolding e by (simp del: push_bit_of_1) blast
  have d: "drop_bit 1 (push_bit (31 - j) 1 :: 32 word) = (if Suc j = 32 then 0 else push_bit (31 - Suc j) 1)"
    using mask_drop [of "31 - j", where 'a = 32] j by (auto simp: nth_mask_def)
  have pow: "(2 :: nat) ^ j \<le> 2 ^ (j + n)" by (rule power_increasing) simp_all
  show ?case
  proof (cases res)
    case None
    have "radix_pool t \<le> 32 * 2 ^ Suc j" using res(3) None by simp
    then have "\<not> 32 * 2 ^ Suc (j + Suc n) < radix_pool t + 32 * 2 ^ Suc j"
      using pow unfolding power_Suc add_Suc_right by linarith
    then show ?thesis using res j None by simp
  next
    case (Some t')
    have "\<exists>res. radix_prealloc_bits ps n ?nm (if Suc j = 32 then 0 else push_bit (31 - Suc j) 1) t' = Some res \<and>
      (\<forall>t''. res = Some t'' \<longrightarrow> radix32_ok t'' \<and> radix_map (radix_root t'') = Map.empty \<and>
         radix_pool t' + 32 * 2 ^ Suc (Suc j) \<le> radix_pool t'' + 32 * 2 ^ Suc (Suc j + n)) \<and>
      (32 * 2 ^ Suc (Suc j + n) < radix_pool t' + 32 * 2 ^ Suc (Suc j) \<longrightarrow> res \<noteq> None)"
      by (rule Suc.IH) (use Suc.prems(1) j res(2) Some in auto)
    then obtain res2 where r2: "radix_prealloc_bits ps n ?nm (if Suc j = 32 then 0 else push_bit (31 - Suc j) 1) t' = Some res2"
      "\<forall>t''. res2 = Some t'' \<longrightarrow> radix32_ok t'' \<and> radix_map (radix_root t'') = Map.empty \<and>
         radix_pool t' + 32 * 2 ^ Suc (Suc j) \<le> radix_pool t'' + 32 * 2 ^ Suc (Suc j + n)"
      "32 * 2 ^ Suc (Suc j + n) < radix_pool t' + 32 * 2 ^ Suc (Suc j) \<longrightarrow> res2 \<noteq> None" by blast
    have p: "radix_pool t \<le> radix_pool t' + 32 * 2 ^ Suc j" using res(2) Some by blast
    have "radix_prealloc_bits ps (Suc n) nm (if j = 32 then 0 else push_bit (31 - j) 1) t = Some res2"
      using res(1) Some j d r2(1) by (simp add: Let_def)
    moreover have "\<forall>t''. res2 = Some t'' \<longrightarrow> radix32_ok t'' \<and> radix_map (radix_root t'') = Map.empty \<and>
       radix_pool t + 32 * 2 ^ Suc j \<le> radix_pool t'' + 32 * 2 ^ Suc (j + Suc n)"
      using r2(2) p by fastforce
    moreover have "32 * 2 ^ Suc (j + Suc n) < radix_pool t + 32 * 2 ^ Suc j \<longrightarrow> res2 \<noteq> None"
      using r2(3) p by (auto simp: power_Suc)
    ultimately show ?thesis by blast
  qed
qed simp

text \<open>The pages that making a tree may take.\<close>

abbreviation create_pages :: nat where "create_pages \<equiv> 16385"

lemma tree_create_ok:
  assumes "preallocate = -1 \<or> 0 \<le> preallocate \<and> preallocate \<le> 32"
  shows "\<exists>res. ngx_radix_tree_create ps pool preallocate = Some res \<and>
    (\<forall>t. res = Some t \<longrightarrow> radix32_ok t \<and> radix_map (radix_root t) = Map.empty) \<and>
    (preallocate = -1 \<longrightarrow> create_pages < pool \<longrightarrow> (\<exists>t. res = Some t \<and> pool \<le> radix_pool t + create_pages))"
proof (cases "ngx_radix_alloc ps \<lparr>radix_root = RX_null, radix_free = 0, radix_size = 0, radix_pool = pool\<rparr>")
  case None
  then have "pool = 0" using alloc_none [OF None] by simp
  then show ?thesis using None by (simp add: ngx_radix_tree_create_def)
next
  case (Some t)
  let ?n = "nat (if preallocate = -1 then (if ps div 32 = 128 then 6 else if ps div 32 = 256 then 7 else 8) else preallocate)"
  have n: "?n \<le> 32" "preallocate = -1 \<Longrightarrow> ?n \<le> 8" using assms by auto
  have p: "pool \<le> Suc (radix_pool t)" using alloc_pool [OF Some] by simp
  have "\<exists>res. radix_prealloc_bits ps ?n 0 (if (0 :: nat) = 32 then 0 else push_bit (31 - 0) 1) (t\<lparr>radix_root := blank\<rparr>) = Some res \<and>
    (\<forall>t'. res = Some t' \<longrightarrow> radix32_ok t' \<and> radix_map (radix_root t') = Map.empty \<and>
       radix_pool (t\<lparr>radix_root := blank\<rparr>) + 32 * 2 ^ Suc 0 \<le> radix_pool t' + 32 * 2 ^ Suc (0 + ?n)) \<and>
    (32 * 2 ^ Suc (0 + ?n) < radix_pool (t\<lparr>radix_root := blank\<rparr>) + 32 * 2 ^ Suc 0 \<longrightarrow> res \<noteq> None)"
    using n(1) by (intro prealloc_bits_ok) (simp_all add: radix32_ok_def radix_map_blank)
  then obtain res where r: "radix_prealloc_bits ps ?n 0 0x80000000 (t\<lparr>radix_root := blank\<rparr>) = Some res"
    "\<forall>t'. res = Some t' \<longrightarrow> radix32_ok t' \<and> radix_map (radix_root t') = Map.empty \<and> radix_pool t + 64 \<le> radix_pool t' + 32 * 2 ^ Suc ?n"
    "32 * 2 ^ Suc ?n < radix_pool t + 64 \<longrightarrow> res \<noteq> None" by (auto simp: push_bit_eq_mult)
  have "\<exists>t'. res = Some t' \<and> pool \<le> radix_pool t' + create_pages" if "preallocate = -1" "create_pages < pool"
  proof -
    have "(2 :: nat) ^ Suc ?n \<le> 2 ^ Suc 8" using n(2) [OF that(1)] by (intro power_increasing) simp_all
    then have "32 * 2 ^ Suc ?n \<le> (16384 :: nat)" by simp
    then show ?thesis using r(2,3) p that(2) by (cases res) fastforce+
  qed
  then show ?thesis using Some r by (simp add: ngx_radix_tree_create_def)
qed

lemma radix32_128: "radix32_ok t \<Longrightarrow> radix128_ok t"
  by (simp add: radix32_ok_def radix128_ok_def)

end
