(* ===== verification/Inet_Correct.thy ===== *)
theory Inet_Correct
  imports Http_Access Radix_Tree_Correct
begin

text \<open>
Addresses and networks as lists of bits: what \<open>ngx_ptocidr\<close> makes of a text, and when a network
  contains an address.
\<close>

section \<open>Words and their bits\<close>

lemma map_bit_and: "map (bit (x AND y)) ns = map2 (\<and>) (map (bit x) ns) (map (bit y) ns)"
  by (induction ns) (simp_all add: bit_and_iff)

lemma bits_and: "bits32 (x AND y) = map2 (\<and>) (bits32 x) (bits32 y)" "bits8 (c AND d) = map2 (\<and>) (bits8 c) (bits8 d)"
  unfolding bits32_def bits8_def by (rule map_bit_and)+

lemma low_bits_inject:
  fixes x y :: "'a :: len word"
  assumes "map (bit x) (rev [0..<LENGTH('a)]) = map (bit y) (rev [0..<LENGTH('a)])"
  shows "x = y"
proof (rule bit_word_eqI)
  fix n assume "n < LENGTH('a)"
  then show "bit x n \<longleftrightarrow> bit y n" using assms by simp
qed

lemma bits32_inject: "bits32 x = bits32 y \<longleftrightarrow> x = y"
  using low_bits_inject [where 'a = 32] by (auto simp: bits32_def)

lemma bits8_inject: "bits8 x = bits8 y \<longleftrightarrow> x = y"
  using low_bits_inject [where 'a = 8] by (auto simp: bits8_def)

lemma bits128_Cons: "bits128 (c # bs) = bits8 c @ bits128 bs"
  by (simp add: bits128_def)

lemma bits128_Nil: "bits128 [] = []"
  by (simp add: bits128_def)

lemma bits128_inject: "length bs = length cs \<Longrightarrow> bits128 bs = bits128 cs \<longleftrightarrow> bs = cs"
  by (induction bs cs rule: list_induct2) (simp_all add: bits128_Cons bits8_inject)

lemma bits128_and: "length bs = length cs \<Longrightarrow> bits128 (map2 (AND) bs cs) = map2 (\<and>) (bits128 bs) (bits128 cs)"
  by (induction bs cs rule: list_induct2) (simp_all add: bits128_Cons bits128_Nil bits_and)

lemma upt_32: "rev [0..<32] = [31,30,29,28,27,26,25,24,23,22,21,20,19,18,17,16,15,14,13,12,11,10,9,8,7,6,5,4,3,2,1,0 :: nat]"
  by (simp add: upt_conv_Cons)

lemma upt_8: "rev [0..<8] = [7,6,5,4,3,2,1,0 :: nat]"
  by (simp add: upt_conv_Cons)

lemma beyond [simp]: "32 \<le> n \<Longrightarrow> bit (w :: 32 word) n = False" "8 \<le> n \<Longrightarrow> bit (c :: u_char) n = False"
  using bit_imp_le_length [of w n] bit_imp_le_length [of c n] by auto

lemma below_32: "n < 32 \<longleftrightarrow> n \<in> set (rev [0..<32])"
  by simp

lemma octets: "(n :: nat) < 32 \<Longrightarrow> \<exists>k r. n = 8 * k + r \<and> k \<le> 3 \<and> r < 8"
  by (rule exI [of _ "n div 8"], rule exI [of _ "n mod 8"]) auto

lemma bit_htonl: "k \<le> 3 \<Longrightarrow> r < 8 \<Longrightarrow> bit (htonl w) (8 * k + r) = bit w (8 * (3 - k) + r)"
proof -
  assume "k \<le> 3" "r < 8"
  then have "k = 0 \<or> k = 1 \<or> k = 2 \<or> k = 3" "r = 0 \<or> r = 1 \<or> r = 2 \<or> r = 3 \<or> r = 4 \<or> r = 5 \<or> r = 6 \<or> r = 7" by arith+
  then show ?thesis by (elim disjE) (simp_all add: htonl_def bit_simps numeral_2_eq_2)
qed

lemma htonl_htonl [simp]: "htonl (htonl w) = w"
proof (rule bit_word_eqI)
  fix n assume "n < LENGTH(32)" then have "n < 32" by simp
  then obtain k r where n: "n = 8 * k + r" "k \<le> 3" "r < 8" using octets [of n] by blast
  have "3 - k \<le> 3" "3 - (3 - k) = k" using n(2) by arith+
  then show "bit (htonl (htonl w)) n \<longleftrightarrow> bit w n" using bit_htonl [of "3 - k" r w] bit_htonl [OF n(2,3), of "htonl w"] n by simp
qed

lemma htonl_and: "htonl (x AND y) = htonl x AND htonl y"
proof (rule bit_word_eqI)
  fix n assume "n < LENGTH(32)" then have "n < 32" by simp
  then obtain k r where "n = 8 * k + r" "k \<le> 3" "r < 8" using octets [of n] by blast
  then show "bit (htonl (x AND y)) n \<longleftrightarrow> bit (htonl x AND htonl y) n" by (simp add: bit_htonl bit_and_iff)
qed

lemma htonl_eq: "htonl x = htonl y \<longleftrightarrow> x = y"
  by (metis htonl_htonl)

text \<open>The bits of a word in host order are those of its bytes in network order.\<close>

lemma bits_word_bytes: "bits128 (word_bytes w) = bits32 (htonl w)"
  unfolding bits128_def bits8_def bits32_def upt_32 upt_8 word_bytes_def htonl_def by (simp add: bit_simps)

lemma word_bytes_of: "length p = 4 \<Longrightarrow> word_bytes (bytes_word p) = p"
proof -
  assume "length p = 4"
  then obtain a b c d where p: "p = [a, b, c, d]" by (auto simp: length_Suc_conv numeral_eq_Suc)
  have "ucast (bytes_word p) = a" "ucast (drop_bit 8 (bytes_word p)) = b" "ucast (drop_bit 16 (bytes_word p)) = c" "ucast (drop_bit 24 (bytes_word p)) = d"
    unfolding bytes_word_def p by ((rule bit_word_eqI, simp add: bit_simps)+)
  then show ?thesis by (simp add: word_bytes_def p)
qed

lemma bits_bytes_word: "length p = 4 \<Longrightarrow> bits32 (htonl (bytes_word p)) = bits128 p"
  using bits_word_bytes [of "bytes_word p"] by (simp add: word_bytes_of)

lemma mapped_addr_htonl: "length p = 16 \<Longrightarrow> mapped_addr p = htonl (bytes_word (drop 12 p))"
proof -
  have "push_bit 24 (ucast a) + push_bit 16 (ucast b) + push_bit 8 (ucast c) + ucast d =
    (push_bit 24 (ucast a) OR push_bit 16 (ucast b) OR push_bit 8 (ucast c) OR ucast d :: 32 word)" for a b c d :: u_char
  proof -
    have "push_bit 24 (ucast a) + push_bit 16 (ucast b) = (push_bit 24 (ucast a) OR push_bit 16 (ucast b) :: 32 word)"
      by (rule disjunctive_add) (auto simp: bit_simps)
    moreover have "(push_bit 24 (ucast a) OR push_bit 16 (ucast b)) + push_bit 8 (ucast c) = (push_bit 24 (ucast a) OR push_bit 16 (ucast b) OR push_bit 8 (ucast c) :: 32 word)"
      by (subst disjunctive_add) (auto simp: bit_simps ac_simps)
    moreover have "(push_bit 24 (ucast a) OR push_bit 16 (ucast b) OR push_bit 8 (ucast c)) + ucast d = (push_bit 24 (ucast a) OR push_bit 16 (ucast b) OR push_bit 8 (ucast c) OR ucast d :: 32 word)"
      by (subst disjunctive_add) (auto simp: bit_simps ac_simps)
    ultimately show ?thesis by simp
  qed
  note plus = this
  assume p: "length p = 16"
  show ?thesis
  proof (rule bit_word_eqI)
    fix n assume "n < LENGTH(32)" then have "n < 32" by simp
    then obtain k r where n: "n = 8 * k + r" "k \<le> 3" "r < 8" using octets [of n] by blast
    then have "k = 0 \<or> k = 1 \<or> k = 2 \<or> k = 3" "r = 0 \<or> r = 1 \<or> r = 2 \<or> r = 3 \<or> r = 4 \<or> r = 5 \<or> r = 6 \<or> r = 7" by arith+
    then show "bit (mapped_addr p) n \<longleftrightarrow> bit (htonl (bytes_word (drop 12 p))) n"
      unfolding n(1) bit_htonl [OF n(2,3)] mapped_addr_def plus bytes_word_def
      by (elim disjE) (simp_all add: bit_simps p numeral_2_eq_2)
  qed
qed

lemma mapped_bits: "length p = 16 \<Longrightarrow> bits32 (mapped_addr p) = bits128 (drop 12 p)"
  by (simp add: mapped_addr_htonl bits_bytes_word)

section \<open>Masks\<close>

definition net_mask :: "nat \<Rightarrow> nat \<Rightarrow> bool list" where
  "net_mask n len = replicate n True @ replicate (len - n) False"

lemma mask_and_take: "length xs = len \<Longrightarrow> n \<le> len \<Longrightarrow> map2 (\<and>) xs (net_mask n len) = take n xs @ replicate (len - n) False"
proof (induction xs arbitrary: n len)
  case (Cons x xs)
  then show ?case
  proof (cases n)
    case 0
    have "map2 (\<and>) ys (replicate (length ys) False) = replicate (length ys) False" for ys :: "bool list" by (induction ys) simp_all
    from this [of "x # xs"] show ?thesis unfolding net_mask_def 0 diff_zero replicate_0 append_Nil take_0 Cons.prems(1) .
  next
    case (Suc m)
    then show ?thesis using Cons by (cases len) (auto simp: net_mask_def)
  qed
qed (simp add: net_mask_def)

lemma prefix_net_mask: "length xs = len \<Longrightarrow> n \<le> len \<Longrightarrow> prefix_bits xs (net_mask n len) = take n xs"
proof -
  have "takeWhile id (replicate n True @ replicate k False) = replicate n True" for k
    by (induction n) (cases k; simp)+
  then show ?thesis by (simp add: prefix_bits_def net_mask_def)
qed

lemma net_mask_nth: "i < len \<Longrightarrow> n \<le> len \<Longrightarrow> net_mask n len ! i \<longleftrightarrow> i < n"
  by (simp add: net_mask_def nth_append)

lemma length_net_mask: "n \<le> len \<Longrightarrow> length (net_mask n len) = len"
  by (simp add: net_mask_def)

lemma bits_nth: "i < 32 \<Longrightarrow> bits32 w ! i = bit w (31 - i)" "i < 8 \<Longrightarrow> bits8 c ! i = bit c (7 - i)"
  by (simp_all add: bits32_def bits8_def rev_nth)

lemma bits32_mask:
  assumes n: "n \<le> 32"
  shows "bits32 (push_bit (32 - n) 0xffffffff) = net_mask n 32"
proof (rule nth_equalityI)
  show "length (bits32 (push_bit (32 - n) 0xffffffff)) = length (net_mask n 32)" using n by (simp add: length_net_mask)
  fix i assume "i < length (bits32 (push_bit (32 - n) 0xffffffff))"
  then have i: "i < 32" by simp
  have "(0xffffffff :: 32 word) = -1" by simp
  then have ones: "bit (0xffffffff :: 32 word) j \<longleftrightarrow> j < 32" for j by (simp only: bit_minus_1_iff) simp
  have "31 - i < 32" "31 - i - (32 - n) < 32" "32 - n \<le> 31 - i \<longleftrightarrow> i < n" using i n by arith+
  then show "bits32 (push_bit (32 - n) 0xffffffff) ! i = net_mask n 32 ! i"
    unfolding bits_nth(1) [OF i] net_mask_nth [OF i n] bit_push_bit_iff ones by simp
qed

lemma bits8_mask:
  assumes s: "0 \<le> s" "s \<le> 8"
  shows "bits8 (ucast (push_bit (nat (8 - s)) (0xff :: 32 word))) = net_mask (nat s) 8"
proof (rule nth_equalityI)
  define n where "n = nat s"
  have n: "n \<le> 8" "nat (8 - s) = 8 - n" using s by (simp_all add: n_def nat_diff_distrib)
  show "length (bits8 (ucast (push_bit (nat (8 - s)) (0xff :: 32 word)))) = length (net_mask (nat s) 8)" using n by (simp add: length_net_mask n_def)
  fix i assume "i < length (bits8 (ucast (push_bit (nat (8 - s)) (0xff :: 32 word))))"
  then have i: "i < 8" by simp
  have "(0xff :: 32 word) = mask 8" by (simp add: mask_eq_exp_minus_1)
  then have ones: "bit (0xff :: 32 word) j \<longleftrightarrow> j < 8" for j by (simp only: bit_mask_iff) auto
  have "7 - i < 32" "7 - i < 8" "7 - i - (8 - n) < 8" "8 - n \<le> 7 - i \<longleftrightarrow> i < n" using i n by arith+
  then show "bits8 (ucast (push_bit (nat (8 - s)) (0xff :: 32 word))) ! i = net_mask (nat s) 8 ! i"
    unfolding bits_nth(2) [OF i] net_mask_nth [OF i n(1) [unfolded n_def]] bit_ucast_iff bit_push_bit_iff ones n(2) by (simp add: n_def)
qed

section \<open>Addresses of 128 bits\<close>

text \<open>The bytes stored and the groups to come make sixteen bytes.\<close>

definition i6_ok :: "inet6_state \<Rightarrow> bool" where
  "i6_ok s \<longleftrightarrow> 1 \<le> unat (i6_n s) \<and> unat (i6_n s) \<le> 8 \<and> length (i6_addr s) + 2 * unat (i6_n s) = 16 \<and>
    (\<forall>z. i6_zero s = Some z \<longrightarrow> z \<le> length (i6_addr s))"

lemma unat_dec: "n \<noteq> 0 \<Longrightarrow> unat (n - 1) = unat n - 1" for n :: "'a :: len word"
  by (simp add: unat_minus_one)

lemma inet6_loop_ok: "inet6_loop p s = Some s' \<Longrightarrow> i6_ok s \<Longrightarrow> i6_ok s'"
proof (induction p s rule: inet6_loop.induct)
  case (2 c p s)
  have n: "i6_n s \<noteq> 0" using "2.prems"(2) by (auto simp: i6_ok_def)
  have dec: "unat (i6_n s - 1) = unat (i6_n s) - 1" by (rule unat_dec [OF n])
  consider (colon) "c = c_colon" "i6_nibbles s \<noteq> 0" | (zero) "c = c_colon" "i6_nibbles s = 0"
    | (dot) "c \<noteq> c_colon" "c = c_dot" "i6_nibbles s \<noteq> 0" | (digit) "c \<noteq> c_colon" "\<not> (c = c_dot \<and> i6_nibbles s \<noteq> 0)" by blast
  then show ?case
  proof cases
    case colon
    have "i6_n s - 1 \<noteq> 0" using "2.prems"(1) colon by (auto simp: Let_def i6_store_def split: if_splits)
    then have "1 \<le> unat (i6_n s - 1)" by (simp add: unat_gt_0 Suc_le_eq)
    then have "2 \<le> unat (i6_n s)" unfolding dec by arith
    then have ok: "i6_ok ((i6_store (s\<lparr>i6_digit := Some p\<rparr>))\<lparr>i6_n := i6_n s - 1, i6_nibbles := 0, i6_word := 0\<rparr>)"
      using "2.prems"(2) dec by (auto simp: i6_ok_def i6_store_def)
    then show ?thesis using "2.IH"(1) [OF colon refl refl] "2.prems"(1) colon \<open>i6_n s - 1 \<noteq> 0\<close>
      by (simp add: i6_store_def Let_def)
  next
    case zero
    then show ?thesis using "2.IH"(2) "2.prems" by (auto simp: i6_ok_def split: if_splits)
  next
    case dot
    then obtain digit where "i6_digit s = Some digit" "\<not> i6_n s < 2"
      using "2.prems"(1) by (auto split: option.splits if_splits)
    moreover from this have "2 \<le> unat (i6_n s)" by (simp add: word_less_nat_alt)
    ultimately show ?thesis using "2.prems" dot dec by (auto simp: i6_ok_def Let_def split: if_splits)
  next
    case digit
    then show ?thesis using "2.IH"(3,4) "2.prems" by (auto simp: i6_ok_def Let_def split: if_splits)
  qed
qed simp

lemma unat_double: "unat w \<le> 8 \<Longrightarrow> unat (w * 2) = 2 * unat w" for w :: "64 word"
proof -
  assume "unat w \<le> 8"
  then have "unat w * unat (2 :: 64 word) < 2 ^ 64" by simp
  then show ?thesis by (simp add: unat_mult_lem [THEN iffD1])
qed

lemma inet6_addr_length:
  assumes "ngx_inet6_addr p = Some a" shows "length a = 16"
proof -
  let ?s0 = "\<lparr>i6_addr = [], i6_zero = None, i6_digit = None, i6_nibbles = 0, i6_word = 0, i6_n = 8\<rparr>"
  let ?p = "if hd p = c_colon then tl p else p"
  obtain s where s: "inet6_loop ?p ?s0 = Some s"
    using assms by (cases "inet6_loop ?p ?s0") (auto simp: ngx_inet6_addr_def Let_def split: if_splits)
  have ok: "i6_ok s" using inet6_loop_ok [OF s] by (simp add: i6_ok_def)
  then have n: "i6_n s \<noteq> 0" by (auto simp: i6_ok_def)
  have dec: "unat (i6_n s - 1) = unat (i6_n s) - 1" by (rule unat_dec [OF n])
  show ?thesis
  proof (cases "i6_n s - 1 = 0")
    case True
    then have "unat (i6_n s) = 1" using dec ok by (simp add: i6_ok_def)
    then show ?thesis using assms s ok True by (auto simp: ngx_inet6_addr_def Let_def i6_store_def i6_ok_def split: if_splits option.splits)
  next
    case False
    have "unat ((i6_n s - 1) * 2) = 2 * unat (i6_n s - 1)"
      by (rule unat_double) (use ok in \<open>unfold i6_ok_def dec, linarith\<close>)
    then show ?thesis using assms s ok False dec
      by (auto simp: ngx_inet6_addr_def Let_def i6_store_def i6_ok_def split: if_splits option.splits)
  qed
qed

section \<open>Networks\<close>

text \<open>
  The prefix of a network, as bits, and the form its two addresses have: the mask is ones and then zeros,
  and the address has no bits under the zeros.
\<close>

fun cidr_bits :: "cidr \<Rightarrow> bool list \<times> bool list" where
  "cidr_bits (Cidr_in a m) = (bits32 (htonl a), bits32 (htonl m))"
| "cidr_bits (Cidr_in6 a m) = (bits128 a, bits128 m)"

fun cidr_len :: "cidr \<Rightarrow> nat" where
  "cidr_len (Cidr_in a m) = 32"
| "cidr_len (Cidr_in6 a m) = 128"

definition cidr_prefix :: "cidr \<Rightarrow> bool list" where
  "cidr_prefix c = prefix_bits (fst (cidr_bits c)) (snd (cidr_bits c))"

definition cidr_ok :: "cidr \<Rightarrow> bool" where
  "cidr_ok c \<longleftrightarrow> (\<forall>a m. c = Cidr_in6 a m \<longrightarrow> length a = 16 \<and> length m = 16) \<and> length (cidr_prefix c) \<le> cidr_len c \<and>
     snd (cidr_bits c) = net_mask (length (cidr_prefix c)) (cidr_len c) \<and>
     fst (cidr_bits c) = cidr_prefix c @ replicate (cidr_len c - length (cidr_prefix c)) False"

lemma ptocidr6_ok:
  assumes "0 \<le> shift" "shift \<le> 8 * int (length addr)" "ptocidr6_loop addr shift = (a, m, lost)"
  shows "length a = length addr \<and> length m = length addr \<and> bits128 m = net_mask (nat shift) (8 * length addr) \<and>
    a = map2 (AND) addr m \<and> (lost \<longleftrightarrow> a \<noteq> addr)"
  using assms
proof (induction addr arbitrary: shift a m lost)
  case (Cons c addr)
  let ?s = "if shift > 8 then 8 else shift"
  let ?m = "ucast (push_bit (nat (8 - ?s)) (0xff :: 32 word)) :: u_char"
  obtain a' m' lost' where r: "ptocidr6_loop addr (shift - ?s) = (a', m', lost')" by (metis prod_cases3)
  have res: "a = (c AND ?m) # a'" "m = ?m # m'" "lost \<longleftrightarrow> lost' \<or> c \<noteq> c AND ?m"
    using Cons.prems(3) r by (simp_all add: Let_def)
  have IH: "length a' = length addr" "length m' = length addr" "bits128 m' = net_mask (nat (shift - ?s)) (8 * length addr)"
    "a' = map2 (AND) addr m'" "lost' \<longleftrightarrow> a' \<noteq> addr"
    using Cons.IH [OF _ _ r] Cons.prems(1,2) by (auto split: if_splits)
  have "bits8 ?m = net_mask (nat ?s) 8" by (rule bits8_mask) (use Cons.prems(1) in auto)
  then have "bits128 m = net_mask (nat ?s) 8 @ net_mask (nat (shift - ?s)) (8 * length addr)"
    by (simp add: res(2) bits128_Cons IH(3))
  also have "\<dots> = net_mask (nat shift) (8 * length (c # addr))"
  proof (cases "shift > 8")
    case True
    then have "nat shift = 8 + nat (shift - 8)" by simp
    then show ?thesis using True by (simp add: net_mask_def replicate_add)
  next
    case False
    then have "nat shift \<le> 8" by simp
    then show ?thesis using False by (simp add: net_mask_def flip: replicate_add)
  qed
  finally show ?case using IH by (auto simp: res(1,3)) (simp_all add: res(2))
qed (simp add: bits128_Nil net_mask_def)

lemma cidr_in_ok:
  assumes "n \<le> 32" "bits32 (htonl m) = net_mask n 32" "a' = a AND m"
  shows "cidr_ok (Cidr_in a' m)" "cidr_prefix (Cidr_in a' m) = take n (bits32 (htonl a))"
proof -
  have b: "bits32 (htonl a') = take n (bits32 (htonl a)) @ replicate (32 - n) False"
    using mask_and_take [of "bits32 (htonl a)" 32 n] assms by (simp add: htonl_and bits_and)
  have p: "cidr_prefix (Cidr_in a' m) = take n (bits32 (htonl a))"
    using prefix_net_mask [of "bits32 (htonl a')" 32 n] assms(1,2) b by (simp add: cidr_prefix_def)
  then show "cidr_prefix (Cidr_in a' m) = take n (bits32 (htonl a))" .
  show "cidr_ok (Cidr_in a' m)" using assms(1,2) b p by (simp add: cidr_ok_def min_absorb2)
qed

lemma cidr_in6_ok:
  assumes "n \<le> 128" "bits128 m = net_mask n 128" "a' = map2 (AND) a m" "length a = 16" "length m = 16"
  shows "cidr_ok (Cidr_in6 a' m)" "cidr_prefix (Cidr_in6 a' m) = take n (bits128 a)"
proof -
  have b: "bits128 a' = take n (bits128 a) @ replicate (128 - n) False"
    using mask_and_take [of "bits128 a" 128 n] assms by (simp add: bits128_and)
  have p: "cidr_prefix (Cidr_in6 a' m) = take n (bits128 a)"
    using prefix_net_mask [of "bits128 a'" 128 n] assms b by (simp add: cidr_prefix_def)
  then show "cidr_prefix (Cidr_in6 a' m) = take n (bits128 a)" .
  show "cidr_ok (Cidr_in6 a' m)" using assms b p by (simp add: cidr_ok_def min_absorb2)
qed

lemma htonl_ones: "bits32 (htonl 0xffffffff) = net_mask 32 32" "bits32 (htonl 0) = net_mask 0 32"
proof -
  have "htonl 0xffffffff = push_bit (32 - 32) 0xffffffff" by (simp add: htonl_def)
  then show "bits32 (htonl 0xffffffff) = net_mask 32 32" using bits32_mask [of 32] by simp
  show "bits32 (htonl 0) = net_mask 0 32" by (simp add: htonl_def bits32_def net_mask_def upt_32 replicate_numeral)
qed

lemma bits128_ones: "bits128 (replicate n 0xff) = replicate (8 * n) True" "bits128 (replicate n 0) = replicate (8 * n) False"
proof -
  have "bits8 0xff = replicate 8 True" "bits8 0 = replicate 8 False" by (simp_all add: bits8_def upt_8 replicate_numeral)
  then show "bits128 (replicate n 0xff) = replicate (8 * n) True" "bits128 (replicate n 0) = replicate (8 * n) False"
    by (induction n) (simp_all add: bits128_Nil bits128_Cons flip: replicate_add)
qed

lemma atoi_range: "ngx_atoi t \<noteq> NGX_ERROR \<Longrightarrow> 0 \<le> ngx_atoi t"
  by (auto simp: ngx_atoi_def atoi_result_def split: option.splits if_splits)

text \<open>
  What \<open>ngx_ptocidr\<close> accepts is an address and, after a slash, a number of bits; the result is the network
  of that many bits of the address, and \<open>NGX_DONE\<close> tells that the address had more.
\<close>

lemma map2_and_ones: "length a = n \<Longrightarrow> map2 (AND) a (replicate n 0xff) = (a :: bytes)"
proof (induction a arbitrary: n)
  case (Cons c a)
  have "(0xff :: u_char) = -1" by simp
  then have "c AND 0xff = c" by (simp only: and.right_neutral)
  then show ?case using Cons by auto
qed simp

definition addr_bits :: "bytes \<Rightarrow> bool list option" where
  "addr_bits text =
    (if ngx_inet_addr text \<noteq> INADDR_NONE then Some (bits32 (htonl (ngx_inet_addr text)))
     else map_option bits128 (ngx_inet6_addr text))"

lemma ptocidr_ok:
  assumes "ngx_ptocidr text = Some (rc, c)"
  defines "slash \<equiv> the (ngx_strlchr text (length text) c_slash)"
  shows "cidr_ok c \<and>
    (\<exists>bits n. addr_bits (case slash of None \<Rightarrow> text | Some i \<Rightarrow> take i text) = Some bits \<and> n \<le> length bits \<and>
      cidr_prefix c = take n bits \<and>
      (case slash of None \<Rightarrow> n = length bits | Some i \<Rightarrow> int n = ngx_atoi (drop (i + 1) text)) \<and>
      rc = (if fst (cidr_bits c) = bits then NGX_OK else NGX_DONE))"
proof -
  let ?text = "case slash of None \<Rightarrow> text | Some i \<Rightarrow> take i text"
  let ?a = "ngx_inet_addr ?text"
  show ?thesis
  proof (cases "?a = INADDR_NONE")
    case False
    show ?thesis
    proof (cases slash)
      case None
      have e: "rc = NGX_OK" "c = Cidr_in ?a 0xffffffff" using assms(1) None False by (simp_all add: ngx_ptocidr_def slash_def Let_def)
      have "?a = ?a AND 0xffffffff"
      proof -
        have "(0xffffffff :: 32 word) = -1" by simp
        then show ?thesis by (simp only: and.right_neutral)
      qed
      note k = cidr_in_ok [OF order_refl htonl_ones(1) this]
      have "addr_bits ?text = Some (bits32 (htonl ?a))" using False by (simp add: addr_bits_def)
      then show ?thesis using k e None by (intro conjI exI [of _ "bits32 (htonl ?a)"] exI [of _ 32]) simp_all
    next
      case (Some i)
      let ?shift = "ngx_atoi (drop (i + 1) text)"
      let ?m = "if ?shift \<noteq> 0 then htonl (push_bit (nat (32 - ?shift)) 0xffffffff) else 0"
      have e: "?shift \<noteq> NGX_ERROR" "?shift \<le> 32" "c = Cidr_in (?a AND ?m) ?m" "rc = (if ?a = ?a AND ?m then NGX_OK else NGX_DONE)"
        using assms(1) Some False by (auto simp: ngx_ptocidr_def slash_def Let_def split: if_splits)
      define n where "n = nat ?shift"
      have n: "int n = ?shift" "n \<le> 32" using e(2) atoi_range [OF e(1)] by (simp_all add: n_def)
      have m: "bits32 (htonl ?m) = net_mask n 32"
      proof (cases "?shift = 0")
        case True
        then show ?thesis using n htonl_ones(2) by simp
      next
        case False
        have "nat (32 - ?shift) = 32 - n" unfolding n(1) [symmetric] by (simp add: nat_diff_distrib)
        then show ?thesis using False bits32_mask [OF n(2)] by simp
      qed
      note k = cidr_in_ok [OF n(2) m refl, of ?a]
      have b: "addr_bits ?text = Some (bits32 (htonl ?a))" using False by (simp add: addr_bits_def)
      have r: "rc = (if fst (cidr_bits c) = bits32 (htonl ?a) then NGX_OK else NGX_DONE)"
        unfolding e(3,4) by (auto simp: bits32_inject htonl_eq)
      show ?thesis unfolding Some option.case
      proof (intro conjI exI)
        show "addr_bits (take i text) = Some (bits32 (htonl ?a))" using b by (simp add: Some)
        show "n \<le> length (bits32 (htonl ?a))" using n(2) by simp
        show "cidr_prefix c = take n (bits32 (htonl ?a))" unfolding e(3) by (rule k(2))
        show "cidr_ok c" unfolding e(3) by (rule k(1))
        show "int n = ?shift" by (rule n(1))
        show "rc = (if fst (cidr_bits c) = bits32 (htonl ?a) then NGX_OK else NGX_DONE)" by (rule r)
      qed
    qed
  next
    case True
    then obtain in6 where in6: "ngx_inet6_addr ?text = Some in6"
      using assms(1) by (cases "ngx_inet6_addr ?text") (simp_all add: ngx_ptocidr_def slash_def Let_def)
    have len: "length in6 = 16" by (rule inet6_addr_length [OF in6])
    have b: "addr_bits ?text = Some (bits128 in6)" using True in6 by (simp add: addr_bits_def)
    show ?thesis
    proof (cases slash)
      case None
      have e: "rc = NGX_OK" "c = Cidr_in6 in6 (replicate 16 0xff)" using assms(1) None True in6 by (simp_all add: ngx_ptocidr_def slash_def Let_def)
      have "bits128 (replicate 16 0xff) = net_mask 128 128" by (simp add: bits128_ones net_mask_def)
      note k = cidr_in6_ok [OF order_refl this map2_and_ones [OF len, symmetric] len]
      show ?thesis using k e None b len by (intro conjI exI [of _ "bits128 in6"] exI [of _ 128]) simp_all
    next
      case (Some i)
      let ?shift = "ngx_atoi (drop (i + 1) text)"
      obtain a m lost where l: "ptocidr6_loop in6 ?shift = (a, m, lost)" by (metis prod_cases3)
      have e: "?shift \<noteq> NGX_ERROR" "?shift \<le> 128" "c = Cidr_in6 a m" "rc = (if lost then NGX_DONE else NGX_OK)"
        using assms(1) Some True in6 l by (auto simp: ngx_ptocidr_def slash_def Let_def split: if_splits)
      define n where "n = nat ?shift"
      have n: "int n = ?shift" "n \<le> 128" using e(2) atoi_range [OF e(1)] by (simp_all add: n_def)
      have p: "length a = 16" "length m = 16" "bits128 m = net_mask n 128" "a = map2 (AND) in6 m" "lost \<longleftrightarrow> a \<noteq> in6"
        using ptocidr6_ok [OF atoi_range [OF e(1)] _ l] e(2) len by (simp_all add: n_def)
      note k = cidr_in6_ok [OF n(2) p(3,4) len p(2)]
      show ?thesis unfolding Some option.case
      proof (intro conjI exI)
        show "addr_bits (take i text) = Some (bits128 in6)" using b by (simp add: Some)
        show "n \<le> length (bits128 in6)" using n(2) len by simp
        show "cidr_prefix c = take n (bits128 in6)" unfolding e(3) by (rule k(2))
        show "cidr_ok c" unfolding e(3) by (rule k(1))
        show "int n = ?shift" by (rule n(1))
        show "rc = (if fst (cidr_bits c) = bits128 in6 then NGX_OK else NGX_DONE)"
          unfolding e(3,4) using p(1,5) len by (auto simp: bits128_inject)
      qed
    qed
  qed
qed

text \<open>A network contains the addresses of its family that start with its prefix.\<close>

fun in_network :: "cidr \<Rightarrow> sockaddr \<Rightarrow> bool" where
  "in_network (Cidr_in a m) (SA_inet p port) \<longleftrightarrow> take (length (cidr_prefix (Cidr_in a m))) (bits128 p) = cidr_prefix (Cidr_in a m)"
| "in_network (Cidr_in6 a m) (SA_inet6 p port) \<longleftrightarrow> take (length (cidr_prefix (Cidr_in6 a m))) (bits128 p) = cidr_prefix (Cidr_in6 a m)"
| "in_network c sa \<longleftrightarrow> False"

lemma mask_matches:
  assumes "length xs = len" "ms = net_mask (length pre) len" "as = pre @ replicate (len - length pre) False" "length pre \<le> len"
  shows "map2 (\<and>) xs ms = as \<longleftrightarrow> take (length pre) xs = pre"
  using mask_and_take [OF assms(1,4)] assms by auto

lemma in_network_v4:
  assumes "cidr_ok (Cidr_in a m)" "length p = 4"
  shows "bytes_word p AND m = a \<longleftrightarrow> in_network (Cidr_in a m) (SA_inet p port)"
proof -
  have "bytes_word p AND m = a \<longleftrightarrow> bits32 (htonl (bytes_word p AND m)) = bits32 (htonl a)" by (simp add: bits32_inject htonl_eq)
  also have "\<dots> \<longleftrightarrow> map2 (\<and>) (bits128 p) (bits32 (htonl m)) = bits32 (htonl a)"
    by (simp add: htonl_and bits_and bits_bytes_word assms(2))
  also have "\<dots> \<longleftrightarrow> take (length (cidr_prefix (Cidr_in a m))) (bits128 p) = cidr_prefix (Cidr_in a m)"
    by (rule mask_matches [where len = 32]) (use assms in \<open>simp_all add: cidr_ok_def\<close>)
  finally show ?thesis by simp
qed

lemma in_network_v6:
  assumes "cidr_ok (Cidr_in6 a m)" "length p = 16"
  shows "(\<forall>n \<in> set [0..<16]. p ! n AND m ! n = a ! n) \<longleftrightarrow> in_network (Cidr_in6 a m) (SA_inet6 p port)"
proof -
  have l: "length a = 16" "length m = 16" using assms(1) by (simp_all add: cidr_ok_def)
  have "(\<forall>n \<in> set [0..<16]. p ! n AND m ! n = a ! n) \<longleftrightarrow> map2 (AND) p m = a"
    using l assms(2) by (auto simp: list_eq_iff_nth_eq)
  also have "\<dots> \<longleftrightarrow> bits128 (map2 (AND) p m) = bits128 a" using l assms(2) by (simp add: bits128_inject)
  also have "\<dots> \<longleftrightarrow> map2 (\<and>) (bits128 p) (bits128 m) = bits128 a" using l assms(2) by (simp add: bits128_and)
  also have "\<dots> \<longleftrightarrow> take (length (cidr_prefix (Cidr_in6 a m))) (bits128 p) = cidr_prefix (Cidr_in6 a m)"
    by (rule mask_matches [where len = 128]) (use assms in \<open>simp_all add: cidr_ok_def\<close>)
  finally show ?thesis by simp
qed

section \<open>The networks a text can name\<close>

text \<open>The bits of the address before the slash and the number after it, or all of them.\<close>

definition text_network :: "bytes \<Rightarrow> (bool list \<times> nat) option" where
  "text_network text =
    (let slash = the (ngx_strlchr text (length text) c_slash) in
     Option.bind (addr_bits (case slash of None \<Rightarrow> text | Some i \<Rightarrow> take i text))
       (\<lambda>bits. case slash of
          None \<Rightarrow> Some (bits, length bits)
        | Some i \<Rightarrow>
            (let shift = ngx_atoi (drop (i + 1) text) in
             if shift = NGX_ERROR \<or> shift > int (length bits) then None else Some (bits, nat shift))))"

lemma addr_bits_length: "addr_bits text = Some bits \<Longrightarrow> length bits = (if ngx_inet_addr text \<noteq> INADDR_NONE then 32 else 128)"
  by (auto simp: addr_bits_def inet6_addr_length split: if_splits)

lemma ptocidr_none: "ngx_ptocidr text = None \<longleftrightarrow> text_network text = None"
proof -
  define slash where "slash = the (ngx_strlchr text (length text) c_slash)"
  define addr where "addr = (case slash of None \<Rightarrow> text | Some i \<Rightarrow> take i text)"
  have p: "ngx_ptocidr text = None \<longleftrightarrow>
      (if ngx_inet_addr addr \<noteq> INADDR_NONE then (\<exists>i. slash = Some i \<and> (ngx_atoi (drop (i + 1) text) = NGX_ERROR \<or> ngx_atoi (drop (i + 1) text) > 32))
       else ngx_inet6_addr addr = None \<or> (\<exists>i. slash = Some i \<and> (ngx_atoi (drop (i + 1) text) = NGX_ERROR \<or> ngx_atoi (drop (i + 1) text) > 128)))"
    unfolding ngx_ptocidr_def Let_def slash_def [symmetric] addr_def [symmetric] by (auto split: option.splits prod.splits)
  have t: "text_network text = Option.bind (addr_bits addr)
       (\<lambda>bits. case slash of None \<Rightarrow> Some (bits, length bits)
        | Some i \<Rightarrow> if ngx_atoi (drop (i + 1) text) = NGX_ERROR \<or> ngx_atoi (drop (i + 1) text) > int (length bits) then None else Some (bits, nat (ngx_atoi (drop (i + 1) text))))"
    unfolding text_network_def Let_def slash_def [symmetric] addr_def [symmetric] ..
  show ?thesis
  proof (cases "addr_bits addr")
    case None
    then have "ngx_inet_addr addr = INADDR_NONE" "ngx_inet6_addr addr = None" by (auto simp: addr_bits_def split: if_splits)
    then show ?thesis unfolding p t None by simp
  next
    case (Some bits)
    have l: "length bits = (if ngx_inet_addr addr \<noteq> INADDR_NONE then 32 else 128)" by (rule addr_bits_length [OF Some])
    have n: "ngx_inet_addr addr = INADDR_NONE \<Longrightarrow> ngx_inet6_addr addr \<noteq> None" using Some by (auto simp: addr_bits_def)
    show ?thesis
    proof (cases "ngx_inet_addr addr = INADDR_NONE")
      case True
      then show ?thesis unfolding p t Some using l n by (auto split: option.splits)
    next
      case False
      then show ?thesis unfolding p t Some using l by (auto split: option.splits)
    qed
  qed
qed

lemma ptocidr_family:
  assumes "ngx_ptocidr text = Some (rc, c)"
  shows "cidr_len c = (if ngx_inet_addr (case the (ngx_strlchr text (length text) c_slash) of None \<Rightarrow> text | Some i \<Rightarrow> take i text) \<noteq> INADDR_NONE then 32 else 128)"
  using assms unfolding ngx_ptocidr_def Let_def by (auto split: option.splits prod.splits if_splits)


end
