(* ===== verification/Inet_Text_Correct.thy ===== *)
theory Inet_Text_Correct
  imports Inet_Correct Http_Time_Correct Numbers_Correct
begin

text \<open>
The text of an address: what the printers write, the readers read back.
\<close>

section \<open>Addresses as text\<close>

lemma dec_byte:
  assumes "n < 256" shows "length (dec_digits n []) \<le> 3" "dec_digits n [] \<noteq> []"
proof -
  have d: "dec_digits n [] = (if n div 10 = 0 then [] else dec_digits (n div 10) []) @ [of_nat (n mod 10) + c_0]" for n
    by (simp add: dec_digits.simps [of n] dec_digits_append [of "n div 10" "[x]" for x])
  have "n div 10 div 10 div 10 = 0" using assms by (simp flip: div_mult2_eq)
  then show "length (dec_digits n []) \<le> 3" by (subst d, subst d, subst d) simp
  show "dec_digits n [] \<noteq> []" by (rule dec_digits_value(3))
qed

lemma byte_256: "unat c < 256" for c :: u_char
  using unsigned_less [of c, where 'a = nat] by simp

lemma byte_long: "unat (ucast c :: 64 word) = unat c" "unat (ucast c :: 32 word) = unat c" "(ucast (ucast c :: 32 word) :: 64 word) = ucast c"
  "(ucast (ucast c :: 64 word) :: 32 word) = ucast c" for c :: u_char
proof -
  have "unat c < 2 ^ 64" "unat c < 2 ^ 32" by (rule order_less_trans [OF byte_256], simp)+
  then show "unat (ucast c :: 64 word) = unat c" "unat (ucast c :: 32 word) = unat c" by (simp_all add: unsigned_ucast_eq take_bit_nat_eq_self)
  show "(ucast (ucast c :: 32 word) :: 64 word) = ucast c" by (rule bit_word_eqI) (auto simp: bit_simps dest: bit_imp_le_length)
  show "(ucast (ucast c :: 64 word) :: 32 word) = ucast c" by (rule bit_word_eqI) (auto simp: bit_simps dest: bit_imp_le_length)
qed

lemma print_ud:
  assumes "room = None \<or> 3 \<le> the room"
  shows "ngx_vslprintf room (c_percent # of_char CHR ''u'' # of_char CHR ''d'' # fmt) (A_byte c # args) =
    map_option ((@) (dec_digits (unat c) [])) (ngx_vslprintf (room_left room (length (dec_digits (unat c) []))) fmt args)"
proof -
  have "length (dec_digits (unat c) []) \<le> 3" using dec_byte(1) unsigned_less [of c] by simp
  then have n: "ngx_sprintf_num room (ucast c) z 0 0 = dec_digits (unat c) []" for z
    using assms by (cases room) (auto simp: ngx_sprintf_num_def clip_def room_left_def Let_def byte_long intro: order_trans)
  have "room \<noteq> Some 0" using assms by auto
  then show ?thesis
    by (simp add: ngx_vslprintf.simps(2) is_digit_def word_le_nat_alt sp_conv_def sp_int32_def sp_print_def n byte_long Let_def)
qed

lemma print_char: "c \<noteq> c_percent \<Longrightarrow> room \<noteq> Some 0 \<Longrightarrow> ngx_vslprintf room (c # fmt) args = map_option (Cons c) (ngx_vslprintf (room_left room 1) fmt args)"
  by (simp add: ngx_vslprintf.simps(2))

definition dotted :: "bytes \<Rightarrow> bytes" where
  "dotted p = dec_digits (unat (p ! 0)) [] @ c_dot # dec_digits (unat (p ! 1)) [] @ c_dot # dec_digits (unat (p ! 2)) [] @ c_dot # dec_digits (unat (p ! 3)) []"

lemma print_dotted:
  assumes "room = None \<or> 15 \<le> the room"
  shows "ngx_vslprintf room (ascii ''%ud.%ud.%ud.%ud'') [A_byte (p ! 0), A_byte (p ! 1), A_byte (p ! 2), A_byte (p ! 3)] = Some (dotted p)"
proof -
  have l: "length (dec_digits (unat (c :: u_char)) []) \<le> 3" for c using dec_byte(1) unsigned_less [of c] by simp
  note room = assms l [of "p ! 0"] l [of "p ! 1"] l [of "p ! 2"] l [of "p ! 3"]
  show ?thesis
    using room by (cases room) (simp_all add: print_ud [simplified] print_char room_left_def dotted_def)
qed

text \<open>Reading a number of digits.\<close>

lemma inet_digits:
  assumes "list_all is_digit ds"
  shows "inet_addr_loop (ds @ rest) addr octet n = inet_addr_loop rest addr (octet * 10 ^ length ds + of_nat (decimal ds)) n"
  using assms
proof (induction ds arbitrary: octet)
  case (Cons c ds)
  have "c_0 \<le> c \<and> c \<le> c_9" using not_digit [of c] Cons.prems by auto
  moreover obtain d where "unat c - 48 = d" by blast
  ultimately show ?case using Cons by (simp add: digit_value decimal_Cons algebra_simps)
qed (simp add: decimal_def)

lemma inet_octet: "inet_addr_loop (dec_digits (unat c) [] @ rest) addr 0 n = inet_addr_loop rest addr (ucast c) n" for c :: u_char
proof -
  have "unat c < 2 ^ 64" by (rule order_less_trans [OF byte_256]) simp
  then have "(word_of_nat (unat c) :: 64 word) = ucast c" by (simp add: word_unat_eq_iff byte_long unat_of_nat take_bit_nat_eq_self)
  then show ?thesis by (simp add: inet_digits dec_digits_value)
qed

definition word_of :: "bytes \<Rightarrow> 32 word" where
  "word_of p = push_bit 8 (push_bit 8 (push_bit 8 (ucast (p ! 0)) + ucast (p ! 1)) + ucast (p ! 2)) + ucast (p ! 3)"

lemma inet_addr_dotted: "ngx_inet_addr (dotted p) = htonl (word_of p)"
proof -
  have b: "(ucast c :: 64 word) < 256" for c :: u_char using unsigned_less [of c] by (simp add: word_less_nat_alt byte_long)
  have dot: "\<not> (c_0 \<le> c_dot \<and> c_dot \<le> c_9)" by simp
  show ?thesis unfolding ngx_inet_addr_def dotted_def
    by (simp add: inet_octet b word_of_def byte_long) (simp add: inet_octet [of _ "[]", simplified] b byte_long)
qed


text \<open>The word has the four bytes.\<close>

lemma unat_shift_add:
  fixes w :: "32 word" and c :: u_char
  assumes "unat w < 2 ^ k" "k + 8 \<le> 32" shows "unat (push_bit 8 w + ucast c) = unat w * 256 + unat c \<and> unat (push_bit 8 w + ucast c) < 2 ^ (k + 8)"
proof -
  have c: "unat c < 256" by (rule byte_256)
  have "unat w * 256 + 256 \<le> 2 ^ k * 256" using assms(1) by (simp add: algebra_simps flip: Suc_le_eq)
  also have "\<dots> = 2 ^ (k + 8)" by (simp add: power_add)
  finally have le: "unat w * 256 + 256 \<le> 2 ^ (k + 8)" .
  moreover have "(2 :: nat) ^ (k + 8) \<le> 2 ^ 32" using assms(2) by (rule power_increasing) simp
  ultimately have lt: "unat w * 256 + unat c < 2 ^ 32" using c by linarith
  have eq: "push_bit 8 w + ucast c = word_of_nat (unat w * 256 + unat c)"
    by (simp add: push_bit_eq_mult mult.commute flip: byte_long(2))
  have "unat (push_bit 8 w + ucast c) = unat w * 256 + unat c" unfolding eq by (rule unat_of_nat_32 [OF lt])
  then show ?thesis using le c by linarith
qed

lemma unat_word_of: "unat (word_of p) = ((unat (p ! 0) * 256 + unat (p ! 1)) * 256 + unat (p ! 2)) * 256 + unat (p ! 3)"
proof -
  have "unat (ucast (p ! 0) :: 32 word) < 2 ^ 8" by (simp add: byte_long byte_256)
  note s1 = unat_shift_add [OF this, of "p ! 1"]
  note s2 = unat_shift_add [OF conjunct2 [OF s1], of "p ! 2"]
  note s3 = unat_shift_add [OF conjunct2 [OF s2], of "p ! 3"]
  show ?thesis using s1 s2 s3 by (simp add: word_of_def byte_long)
qed

lemma word_bytes_htonl: "word_bytes (htonl w) = [ucast (drop_bit 24 w), ucast (drop_bit 16 w), ucast (drop_bit 8 w), ucast w]"
proof -
  have "bits128 (word_bytes (htonl w)) = bits32 w" by (simp add: bits_word_bytes)
  also have "\<dots> = bits128 [ucast (drop_bit 24 w), ucast (drop_bit 16 w), ucast (drop_bit 8 w), ucast w]"
    by (simp add: bits128_Cons bits128_Nil bits32_def bits8_def upt_32 upt_8 bit_simps)
  finally show ?thesis by (subst (asm) bits128_inject) (simp_all add: word_bytes_def)
qed

lemma byte_divs: "(x * 256 + unat c) div 256 = x" "(x * 256 + unat c) mod 256 = unat c" "unat c mod 256 = unat c" for x and c :: u_char
  using byte_256 [of c] by (simp_all only: div_mult_self3 mod_mult_self3 div_less mod_less)

lemma word_of_bytes: "length p = 4 \<Longrightarrow> word_bytes (htonl (word_of p)) = p"
proof -
  assume l: "length p = 4"
  have byte: "(ucast (drop_bit k (word_of p)) :: u_char) = p ! i" if "unat (word_of p) div 2 ^ k mod 256 = unat (p ! i)" for k i
    using that
    by (simp only: word_unat_eq_iff unsigned_ucast_eq unat_drop_bit_eq) (simp add: take_bit_eq_mod drop_bit_eq_div)
  have dd: "x div 2 ^ 24 = x div 256 div 256 div 256" "x div 2 ^ 16 = x div 256 div 256" "x div 2 ^ 8 = x div 256" "x div 2 ^ 0 = x" for x :: nat
    by (simp_all flip: div_mult2_eq)
  have d: "unat (word_of p) div 2 ^ 24 mod 256 = unat (p ! 0)" "unat (word_of p) div 2 ^ 16 mod 256 = unat (p ! 1)"
    "unat (word_of p) div 2 ^ 8 mod 256 = unat (p ! 2)" "unat (word_of p) div 2 ^ 0 mod 256 = unat (p ! 3)"
    unfolding dd unat_word_of byte_divs by (rule refl)+
  have "word_bytes (htonl (word_of p)) = [p ! 0, p ! 1, p ! 2, p ! 3]"
    unfolding word_bytes_htonl using d [THEN byte] by simp
  then show ?thesis using l by (auto simp: list_eq_iff_nth_eq less_Suc_eq numeral_eq_Suc)
qed

lemma word_of_none: "length p = 4 \<Longrightarrow> htonl (word_of p) = INADDR_NONE \<longleftrightarrow> p = [255, 255, 255, 255]"
proof -
  assume l: "length p = 4"
  have "htonl (word_of p) = INADDR_NONE \<longleftrightarrow> word_bytes (htonl (word_of p)) = word_bytes INADDR_NONE"
    by (metis bits_word_bytes bits32_inject htonl_eq)
  moreover have "word_bytes INADDR_NONE = [255, 255, 255, 255]" by code_simp
  ultimately show ?thesis unfolding word_of_bytes [OF l] by simp
qed

lemma inet_roundtrip:
  assumes "length p = 4" "15 \<le> len"
  shows "\<exists>t. ngx_inet_ntop AF_INET p len = Some t \<and> ngx_parse_addr t = (if p = [255, 255, 255, 255] then None else Some (SA_inet p 0))"
proof -
  have t: "ngx_inet_ntop AF_INET p len = Some (dotted p)"
    unfolding ngx_inet_ntop_def ngx_snprintf_def using print_dotted [of "Some len" p] assms by simp
  have "ngx_inet6_addr (dotted [255, 255, 255, 255]) = None" by code_simp
  then show ?thesis unfolding t using word_of_none [OF assms(1)] word_of_bytes [OF assms(1)] inet_addr_dotted [of p]
    by (auto simp: ngx_parse_addr_def Let_def)
qed

section \<open>IPv6 addresses as text\<close>

text \<open>Digits as indices into \<open>hex_chars\<close>.\<close>

abbreviation hexes :: "nat list \<Rightarrow> bytes" where "hexes \<equiv> map ((!) hex_chars)"

abbreviation hexes_ok :: "nat \<Rightarrow> nat list \<Rightarrow> bool" where "hexes_ok m ks \<equiv> ks \<noteq> [] \<and> length ks \<le> m \<and> list_all (\<lambda>k. k < 16) ks"

definition hexnum :: "nat list \<Rightarrow> nat" where "hexnum ks = fold (\<lambda>k v. 16 * v + k) ks 0"

lemma hexnum_snoc: "hexnum (ks @ [k]) = 16 * hexnum ks + k" "hexnum [] = 0"
  by (simp_all add: hexnum_def)

lemma hexnum_acc: "fold (\<lambda>k v. 16 * v + k) ks v = v * 16 ^ length ks + hexnum ks"
proof (induction ks rule: rev_induct)
  case (snoc k ks)
  then show ?case by (simp add: hexnum_snoc)
qed (simp add: hexnum_def)

lemma hexnum_Cons: "hexnum (k # ks) = k * 16 ^ length ks + hexnum ks"
  using hexnum_acc [of ks k] by (simp add: hexnum_def)

lemma below_16: "k < 16 \<Longrightarrow> k \<in> {0, 1, 2, 3, 4, 5, 6, 7, 8, 9, 10, 11, 12, 13, 14, 15 :: nat}"
  unfolding lessThan_iff [symmetric] by (simp add: lessThan_nat_numeral lessThan_Suc) blast

lemma hex_digits_acc: "hex_digits ds n acc = hex_digits ds n [] @ acc"
proof (induction n arbitrary: acc rule: less_induct)
  case (less n)
  show ?case
  proof (cases "n div 16 = 0")
    case True
    then show ?thesis by (simp add: hex_digits.simps [of ds n])
  next
    case False
    then have "n div 16 < n" by auto
    note step = less [OF this]
    have "hex_digits ds n acc = hex_digits ds (n div 16) (ds ! (n mod 16) # acc)" for acc
      using False by (simp add: hex_digits.simps [of ds n] Let_def del: div_eq_0_iff)
    then show ?thesis by (metis step append_Cons append_Nil append_assoc)
  qed
qed

lemma hex_digits_hexes: "n < 16 ^ Suc m \<Longrightarrow> \<exists>ks. hex_digits hex_chars n [] = hexes ks \<and> hexes_ok (Suc m) ks \<and> hexnum ks = n"
proof (induction m arbitrary: n)
  case 0
  then show ?case by (intro exI [of _ "[n]"]) (simp add: hex_digits.simps [of _ n] hexnum_def)
next
  case (Suc m)
  have d: "hex_digits hex_chars n [] = (if n div 16 = 0 then [] else hex_digits hex_chars (n div 16) []) @ [hex_chars ! (n mod 16)]"
    by (simp add: hex_digits.simps [of _ n] hex_digits_acc [of _ "n div 16" "[x]" for x])
  show ?case
  proof (cases "n div 16 = 0")
    case True
    then show ?thesis by (intro exI [of _ "[n]"]) (simp add: d hexnum_def)
  next
    case False
    have "n div 16 < 16 ^ Suc m" using Suc.prems by (simp add: less_mult_imp_div_less mult.commute)
    from Suc.IH [OF this] obtain ks where "hex_digits hex_chars (n div 16) [] = hexes ks" "hexes_ok (Suc m) ks" "hexnum ks = n div 16" by blast
    then show ?thesis using False by (intro exI [of _ "ks @ [n mod 16]"]) (simp add: d hexnum_snoc)
  qed
qed

lemma dec_digits_hexes: "n < 256 \<Longrightarrow> \<exists>ks. dec_digits n [] = hexes ks \<and> hexes_ok 3 ks"
proof -
  assume n: "n < 256"
  have digit: "(of_nat k + c_0 :: u_char) = hex_chars ! k" if "k < 10" for k
  proof -
    have "k \<in> {0, 1, 2, 3, 4, 5, 6, 7, 8, 9}" using that by auto
    then show ?thesis by (auto simp: hex_chars_def)
  qed
  have all: "\<exists>ks. dec_digits m [] = hexes ks \<and> list_all (\<lambda>k. k < 16) ks" for m
  proof (induction m rule: less_induct)
    case (less m)
    have d: "dec_digits m [] = (if m div 10 = 0 then [] else dec_digits (m div 10) []) @ [hex_chars ! (m mod 10)]"
      by (simp add: dec_digits.simps [of m] dec_digits_append [of "m div 10" "[x]" for x] digit)
    show ?case
    proof (cases "m div 10 = 0")
      case True
      then show ?thesis by (intro exI [of _ "[m mod 10]"]) (simp add: d)
    next
      case False
      then obtain ks where "dec_digits (m div 10) [] = hexes ks" "list_all (\<lambda>k. k < 16) ks" using less [of "m div 10"] by auto
      moreover have "m mod 10 < 16" by (rule less_trans [of _ 10]) simp_all
      ultimately show ?thesis using False by (intro exI [of _ "ks @ [m mod 10]"]) (simp add: d)
    qed
  qed
  then obtain ks where "dec_digits n [] = hexes ks" "list_all (\<lambda>k. k < 16) ks" by blast
  moreover have "ks \<noteq> []" "length ks \<le> 3" using dec_byte [OF n] calculation(1) by auto
  ultimately show ?thesis by blast
qed

text \<open>The parser on digits.\<close>

definition hex_char_ok :: "nat \<Rightarrow> bool" where
  "hex_char_ok k \<longleftrightarrow> hex_chars ! k \<noteq> c_colon \<and> hex_chars ! k \<noteq> c_dot \<and>
    (if c_0 \<le> hex_chars ! k \<and> hex_chars ! k \<le> c_9 then of_nat k = (ucast (hex_chars ! k) - 48 :: 64 word)
     else of_char CHR ''a'' \<le> hex_chars ! k OR 0x20 \<and> hex_chars ! k OR 0x20 \<le> of_char CHR ''f'' \<and>
       of_nat k = (ucast (hex_chars ! k OR 0x20) - 97 + 10 :: 64 word))"

lemma hex_char_ok: "k < 16 \<Longrightarrow> hex_char_ok k"
proof -
  have "list_all hex_char_ok [0..<16]" by code_simp
  then show "k < 16 \<Longrightarrow> hex_char_ok k" by (simp add: list_all_iff)
qed

lemma inet6_digit:
  assumes "k < 16"
  shows "inet6_loop (hex_chars ! k # rest) s =
    (if 4 < i6_nibbles s + 1 then None else inet6_loop rest (s\<lparr>i6_nibbles := i6_nibbles s + 1, i6_word := i6_word s * 16 + of_nat k\<rparr>))"
proof (cases "c_0 \<le> hex_chars ! k \<and> hex_chars ! k \<le> c_9")
  case True
  then show ?thesis using hex_char_ok [OF assms] by (simp add: hex_char_ok_def Let_def)
next
  case False
  have e: "of_nat k = (ucast (hex_chars ! k OR 0x20) - 97 + 10 :: 64 word)" using hex_char_ok [OF assms] False by (simp add: hex_char_ok_def)
  have c: "hex_chars ! k \<noteq> c_colon" "hex_chars ! k \<noteq> c_dot" "of_char CHR ''a'' \<le> hex_chars ! k OR 0x20" "hex_chars ! k OR 0x20 \<le> of_char CHR ''f''"
    using hex_char_ok [OF assms] False by (simp_all add: hex_char_ok_def)
  show ?thesis unfolding e using False c by (auto simp: Let_def algebra_simps)
qed

declare inet6_loop.simps(2) [simp del]

lemma inet6_digits:
  assumes "list_all (\<lambda>k. k < 16) ks" "unat (i6_nibbles s) + length ks \<le> 4"
  shows "inet6_loop (hexes ks @ rest) s =
    inet6_loop rest (s\<lparr>i6_nibbles := i6_nibbles s + of_nat (length ks), i6_word := i6_word s * 16 ^ length ks + of_nat (hexnum ks)\<rparr>)"
  using assms
proof (induction ks arbitrary: s)
  case (Cons k ks)
  have n: "unat (i6_nibbles s + 1) = unat (i6_nibbles s) + 1" using Cons.prems(2) by (simp add: unat_word_ariths)
  then have "\<not> 4 < i6_nibbles s + 1" using Cons.prems(2) by (simp add: word_less_nat_alt)
  then show ?case using Cons n by (simp add: inet6_digit hexnum_Cons algebra_simps)
qed (simp add: hexnum_def)

text \<open>The states of the parser between groups.\<close>

abbreviation i6_at :: "bytes \<Rightarrow> nat option \<Rightarrow> bytes option \<Rightarrow> nat \<Rightarrow> inet6_state" where
  "i6_at addr zero digit n \<equiv> \<lparr>i6_addr = addr, i6_zero = zero, i6_digit = digit, i6_nibbles = 0, i6_word = 0, i6_n = of_nat n\<rparr>"

definition i6_group :: "bytes \<Rightarrow> nat \<Rightarrow> 64 word" where
  "i6_group p i = ucast (p ! i) * 256 + ucast (p ! (i + 1))"

lemma unat_group: "unat (i6_group p i) = unat (p ! i) * 256 + unat (p ! (i + 1))" "unat (i6_group p i) < 65536"
proof -
  have b: "unat (p ! i) < 256" "unat (p ! (i + 1)) < 256" by (rule byte_256)+
  then have "unat (p ! i) * 256 + unat (p ! (i + 1)) < 65536" by linarith
  then have "unat (p ! i) * 256 + unat (p ! (i + 1)) < 2 ^ 64" by (rule less_trans) simp
  moreover have "i6_group p i = of_nat (unat (p ! i) * 256 + unat (p ! (i + 1)))"
    by (simp add: i6_group_def flip: byte_long(1))
  ultimately show u: "unat (i6_group p i) = unat (p ! i) * 256 + unat (p ! (i + 1))"
    by (simp only: unsigned_of_nat) (simp add: take_bit_nat_eq_self)
  show "unat (i6_group p i) < 65536" unfolding u using b by linarith
qed

lemma group_bytes: "ucast (drop_bit 8 (i6_group p i)) = p ! i" "ucast (i6_group p i AND 0xff) = p ! (i + 1)"
proof -
  have "unat (i6_group p i) div 2 ^ 8 mod 2 ^ 8 = unat (p ! i)" "unat (i6_group p i) mod 2 ^ 8 = unat (p ! (i + 1))"
    unfolding unat_group(1) using byte_divs by simp_all
  note u = this
  show "ucast (drop_bit 8 (i6_group p i)) = p ! i"
    using u(1) by (simp only: word_unat_eq_iff unsigned_ucast_eq unat_drop_bit_eq) (simp add: take_bit_eq_mod drop_bit_eq_div)
  have "i6_group p i AND 0xff = take_bit 8 (i6_group p i)" by (simp add: take_bit_eq_mask mask_numeral)
  then show "ucast (i6_group p i AND 0xff) = p ! (i + 1)"
    using u(2) by (simp only: word_unat_eq_iff unsigned_ucast_eq unsigned_take_bit_eq) (simp add: take_bit_eq_mod)
qed

lemma print_uxi: "ngx_sprintf (ascii ''%uxi'') [A_long w] = Some (hex_digits hex_chars (unat w) [])"
  by (simp add: ngx_sprintf_def ngx_vslprintf.simps(2) is_digit_def word_le_nat_alt sp_conv_def sp_int64_def sp_print_def Let_def
      ngx_sprintf_num_def clip_def room_left_def)

lemma parse_group:
  "\<exists>t. ngx_sprintf (ascii ''%uxi'') [A_long (i6_group p i)] = Some t \<and> t \<noteq> [] \<and> hd t \<noteq> c_colon \<and>
    (\<exists>n. n \<noteq> 0 \<and> (\<forall>rest addr z dg k. inet6_loop (t @ rest) (i6_at addr z dg k) = inet6_loop rest ((i6_at addr z dg k)\<lparr>i6_nibbles := n, i6_word := i6_group p i\<rparr>)))"
proof -
  have "unat (i6_group p i) < 16 ^ Suc 3" using unat_group(2) [of p i] by simp
  from hex_digits_hexes [OF this] obtain ks where ks: "hex_digits hex_chars (unat (i6_group p i)) [] = hexes ks" "hexes_ok 4 ks" "hexnum ks = unat (i6_group p i)"
    by auto
  have "(of_nat (length ks) :: 64 word) \<noteq> 0" using ks(2) by (simp add: word_of_nat_eq_0_iff) (auto dest: dvd_imp_le)
  moreover have "hd (hexes ks) \<noteq> c_colon"
  proof -
    have "hd ks < 16" using ks(2) by (cases ks) auto
    from below_16 [OF this] have "hex_chars ! hd ks \<noteq> c_colon" by (auto simp: hex_chars_def)
    then show ?thesis using ks(2) by (simp add: hd_map)
  qed
  moreover have "inet6_loop (hexes ks @ rest) (i6_at addr z dg k) =
      inet6_loop rest ((i6_at addr z dg k)\<lparr>i6_nibbles := of_nat (length ks), i6_word := i6_group p i\<rparr>)" for rest addr z dg k
    using ks by (simp add: inet6_digits)
  ultimately show ?thesis using ks(1,2) unfolding print_uxi by (intro exI [of _ "hexes ks"]) auto
qed

text \<open>The runs of zero groups.\<close>

definition zeros :: "bytes \<Rightarrow> nat \<Rightarrow> nat \<Rightarrow> bool" where
  "zeros p a b \<longleftrightarrow> (\<forall>j. a \<le> j \<and> j < b \<longrightarrow> p ! j = 0)"

definition run_found :: "bytes \<Rightarrow> nat option \<Rightarrow> nat \<Rightarrow> nat \<Rightarrow> bool" where
  "run_found p zero mx i \<longleftrightarrow> (\<forall>z. zero = Some z \<longrightarrow> even z \<and> 2 \<le> mx \<and> z + 2 * mx \<le> i \<and> zeros p z (z + 2 * mx))"

lemma ntop_runs_found:
  assumes "k \<le> 8" "run_found p zero mx (2 * k)" "1 \<le> mx" "n = 0 \<or> 2 * n \<le> 2 * k \<and> lst = Some (2 * k - 2 * n) \<and> zeros p (2 * k - 2 * n) (2 * k)"
    "ntop_runs p (map (\<lambda>k. 2 * k) [k..<8]) zero lst mx n = (zero', mx')"
  shows "run_found p zero' mx' 16"
  using assms
proof (induction "8 - k" arbitrary: k zero lst mx n)
  case 0
  then have k: "k = 8" by simp
  show ?case using 0 by (auto simp: k run_found_def split: if_splits)
next
  case (Suc d)
  have k: "k < 8" "d = 8 - Suc k" using Suc.hyps(2) by simp_all
  have l: "map (\<lambda>k. 2 * k) [k..<8] = 2 * k # map (\<lambda>k. 2 * k) [Suc k..<8]" using k(1) by (simp add: upt_conv_Cons)
  have wider: "run_found p zero mx (2 * Suc k)" using Suc.prems(2) by (auto simp: run_found_def)
  have sk: "Suc k \<le> 8" using k(1) by simp
  show ?case
  proof (cases "p ! (2 * k) \<noteq> 0 \<or> p ! (2 * k + 1) \<noteq> 0")
    case True
    show ?thesis
    proof (cases "mx < n")
      case new: True
      then have f: "run_found p lst n (2 * Suc k)" using Suc.prems(3,4) by (auto simp: run_found_def)
      show ?thesis by (rule Suc.hyps(1) [OF k(2) sk f]) (use new Suc.prems(5) True in \<open>simp_all add: l del: upt_Suc\<close>)
    next
      case False
      show ?thesis by (rule Suc.hyps(1) [OF k(2) sk wider Suc.prems(3)]) (use False Suc.prems(5) True in \<open>simp_all add: l del: upt_Suc\<close>)
    qed
  next
    case False
    let ?lst = "if n = 0 then Some (2 * k) else lst"
    have z: "zeros p (2 * k - 2 * n) (2 * Suc k)" if "n = 0 \<or> zeros p (2 * k - 2 * n) (2 * k)"
      using that False by (auto simp: zeros_def less_Suc_eq)
    have "n + 1 = 0 \<or> 2 * (n + 1) \<le> 2 * Suc k \<and> ?lst = Some (2 * Suc k - 2 * (n + 1)) \<and> zeros p (2 * Suc k - 2 * (n + 1)) (2 * Suc k)"
      using Suc.prems(4) z by auto
    then show ?thesis by (rule Suc.hyps(1) [OF k(2) sk wider Suc.prems(3)]) (use False Suc.prems(5) in \<open>simp add: l del: upt_Suc\<close>)
  qed
qed

text \<open>The groups after the run, or all of them where there is none.\<close>

lemma groups_left: "0 < m \<Longrightarrow> m \<le> 8 \<Longrightarrow> (of_nat m :: 64 word) \<noteq> 0"
  by (auto simp: word_of_nat_eq_0_iff dest: dvd_imp_le)

lemma sub_groups: "m \<le> k \<Longrightarrow> k \<le> 8 \<Longrightarrow> (of_nat k :: 64 word) - of_nat m = of_nat (k - m)"
  by simp

lemma parse_tail:
  assumes "k \<le> 8" "length p = 16" "\<And>j. 16 - 2 * k \<le> j \<Longrightarrow> zero \<noteq> Some j" "k \<le> m" "m \<le> 8"
  shows "\<exists>t. ntop_groups p zero mx 16 (16 - 2 * k) = Some t \<and>
    (if k = 0 then t = []
     else hd t \<noteq> c_colon \<and> t \<noteq> [] \<and>
       (\<exists>s. inet6_loop t (i6_at addr z dg m) = Some s \<and> i6_addr (i6_store s) = addr @ drop (16 - 2 * k) p \<and>
         i6_zero s = z \<and> i6_nibbles s \<noteq> 0 \<and> i6_n s - 1 = of_nat (m - k)))"
  using assms
proof (induction k arbitrary: addr dg m)
  case 0
  then show ?case by (simp add: ntop_groups.simps [of p zero mx 16 16])
next
  case (Suc k)
  define i where "i = 16 - 2 * Suc k"
  have i: "i < 16" "i + 2 = 16 - 2 * k" "zero \<noteq> Some i" "i < 14 \<longleftrightarrow> k \<noteq> 0" using Suc.prems(1,3) by (auto simp: i_def)
  obtain t n where t: "ngx_sprintf (ascii ''%uxi'') [A_long (i6_group p i)] = Some t" "t \<noteq> []" "hd t \<noteq> c_colon" "n \<noteq> 0"
    "\<And>rest addr z dg k. inet6_loop (t @ rest) (i6_at addr z dg k) = inet6_loop rest ((i6_at addr z dg k)\<lparr>i6_nibbles := n, i6_word := i6_group p i\<rparr>)"
    using parse_group [of p i] by blast
  let ?addr = "addr @ [p ! i, p ! (i + 1)]"
  have d: "drop i p = [p ! i, p ! (i + 1)] @ drop (i + 2) p" using Suc.prems(2) i(1) unfolding i_def
    by (simp add: Cons_nth_drop_Suc numeral_2_eq_2)
  note eq = ntop_groups.simps [of p zero mx 16 i] and g = t(1) [unfolded i6_group_def]
  have IH: "\<exists>t2. ntop_groups p zero mx 16 (i + 2) = Some t2 \<and>
    (if k = 0 then t2 = []
     else hd t2 \<noteq> c_colon \<and> t2 \<noteq> [] \<and>
       (\<exists>s. inet6_loop t2 (i6_at ?addr z dg' (m - 1)) = Some s \<and> i6_addr (i6_store s) = ?addr @ drop (i + 2) p \<and>
         i6_zero s = z \<and> i6_nibbles s \<noteq> 0 \<and> i6_n s - 1 = of_nat (m - 1 - k)))" for dg'
    unfolding i(2) by (rule Suc.IH) (use Suc.prems in auto)
  then obtain t2 where t2: "ntop_groups p zero mx 16 (i + 2) = Some t2" by blast
  have out: "ntop_groups p zero mx 16 i = Some (t @ (if i < 14 then [c_colon] else []) @ t2)"
    by (subst eq) (use i t2 g in simp)
  have store: "i6_addr (i6_store ((i6_at addr z dg m)\<lparr>i6_nibbles := n, i6_word := i6_group p i\<rparr>)) = ?addr"
    by (simp add: i6_store_def group_bytes)
  show ?case
  proof (cases "k = 0")
    case True
    then have "t2 = []" "drop (i + 2) p = []" "\<not> i < 14" using IH t2 i Suc.prems(2) by simp_all
    then show ?thesis using out t(2-4) t(5) [of "[]" addr z dg m] store d True Suc.prems(4,5) sub_groups [of 1 m]
      by (auto simp: i_def)
  next
    case False
    have m: "(of_nat m :: 64 word) - 1 = of_nat (m - 1)" using sub_groups [of 1 m] Suc.prems(4,5) by simp
    have "(of_nat (m - 1) :: 64 word) \<noteq> 0" by (rule groups_left) (use Suc.prems(4,5) False in auto)
    then have m1: "(of_nat m :: 64 word) \<noteq> 1" unfolding m [symmetric] by simp
    obtain s where s: "inet6_loop t2 (i6_at ?addr z (Some t2) (m - 1)) = Some s" "i6_addr (i6_store s) = ?addr @ drop (i + 2) p"
      "i6_zero s = z" "i6_nibbles s \<noteq> 0" "i6_n s - 1 = of_nat (m - 1 - k)" using IH [of "Some t2"] t2 False by auto
    have "inet6_loop (c_colon # t2) ((i6_at addr z dg m)\<lparr>i6_nibbles := n, i6_word := i6_group p i\<rparr>) = inet6_loop t2 (i6_at ?addr z (Some t2) (m - 1))"
      using t(4) m m1 by (simp add: inet6_loop.simps(2) Let_def i6_store_def group_bytes)
    then have "inet6_loop (t @ (if i < 14 then [c_colon] else []) @ t2) (i6_at addr z dg m) = Some s"
      using t(5) [of "c_colon # t2" addr z dg m] i(4) False s(1) by simp
    moreover have "hd (t @ (if i < 14 then [c_colon] else []) @ t2) \<noteq> c_colon" using t(2,3) by simp
    ultimately show ?thesis using out t(2) s(2-5) d unfolding i_def [symmetric] by simp
  qed
qed

text \<open>The groups up to the run, and the two colons for it.\<close>

lemma parse_head:
  assumes "even z" "2 \<le> mx" "z + 2 * mx \<le> 16" "length p = 16" "ntop_groups p (Some z) mx 16 (z + 2 * mx) = Some t2" "2 * k \<le> z"
  shows "\<exists>t. ntop_groups p (Some z) mx 16 (z - 2 * k) = Some t \<and> (k \<noteq> 0 \<longrightarrow> t \<noteq> [] \<and> hd t \<noteq> c_colon) \<and> (k = 0 \<longrightarrow> t = c_colon # t2) \<and>
    inet6_loop t (i6_at (take (z - 2 * k) p) None dg (8 - z div 2 + k)) = inet6_loop t2 (i6_at (take z p) (Some z) (Some t2) (8 - z div 2))"
  using assms(6)
proof (induction k arbitrary: dg)
  case 0
  have e: "Suc (Suc (z + (mx - Suc 0) * 2)) = z + 2 * mx" using assms(2) by simp
  have "ntop_groups p (Some z) mx 16 z = Some (c_colon # t2)"
    by (subst ntop_groups.simps) (use assms(2,3,5) in \<open>simp add: e\<close>)
  moreover have "length (take z p) = z" using assms(2,3,4) by simp
  ultimately show ?case by (simp add: inet6_loop.simps(2))
next
  case (Suc k)
  define i where "i = z - 2 * Suc k"
  have i: "i < z" "i + 2 = z - 2 * k" "i < 14" "Suc i < 16" using Suc.prems assms(2,3) by (auto simp: i_def)
  obtain t n where t: "ngx_sprintf (ascii ''%uxi'') [A_long (i6_group p i)] = Some t" "t \<noteq> []" "hd t \<noteq> c_colon" "n \<noteq> 0"
    "\<And>rest addr z dg k. inet6_loop (t @ rest) (i6_at addr z dg k) = inet6_loop rest ((i6_at addr z dg k)\<lparr>i6_nibbles := n, i6_word := i6_group p i\<rparr>)"
    using parse_group [of p i] by blast
  note eq = ntop_groups.simps [of p "Some z" mx 16 i] and g = t(1) [unfolded i6_group_def]
  have IH: "\<exists>t3. ntop_groups p (Some z) mx 16 (i + 2) = Some t3 \<and>
    inet6_loop t3 (i6_at (take (i + 2) p) None dg' (8 - z div 2 + k)) = inet6_loop t2 (i6_at (take z p) (Some z) (Some t2) (8 - z div 2))" for dg'
    unfolding i(2) using Suc.IH [of dg'] Suc.prems by auto
  then obtain t3 where t3: "ntop_groups p (Some z) mx 16 (i + 2) = Some t3" by blast
  have out: "ntop_groups p (Some z) mx 16 i = Some (t @ c_colon # t3)"
    by (subst eq) (use i t3 g in simp)
  have tk: "take (i + 2) p = take i p @ [p ! i, p ! (i + 1)]" using i(4) assms(4) by (simp add: take_Suc_conv_app_nth numeral_2_eq_2)
  have k: "k < 8" "8 - z div 2 + k \<le> 8" "0 < 8 - z div 2 + k" using Suc.prems assms(2,3) by auto
  have m: "(of_nat (8 - z div 2 + Suc k) :: 64 word) - 1 = of_nat (8 - z div 2 + k)" "(of_nat (8 - z div 2 + k) :: 64 word) \<noteq> 0"
  proof -
    show "(of_nat (8 - z div 2 + Suc k) :: 64 word) - 1 = of_nat (8 - z div 2 + k)" by simp
    show "(of_nat (8 - z div 2 + k) :: 64 word) \<noteq> 0" by (rule groups_left [OF k(3,2)])
  qed
  have "inet6_loop (c_colon # t3) ((i6_at (take i p) None dg (8 - z div 2 + Suc k))\<lparr>i6_nibbles := n, i6_word := i6_group p i\<rparr>) =
      inet6_loop t3 (i6_at (take (i + 2) p) None (Some t3) (8 - z div 2 + k))"
    unfolding tk inet6_loop.simps(2) Let_def i6_store_def inet6_state.simps m(1) group_bytes using t(4) m(2) by simp
  also have "\<dots> = inet6_loop t2 (i6_at (take z p) (Some z) (Some t2) (8 - z div 2))" using IH [of "Some t3"] t3 by auto
  finally show ?case using out t(2,3) t(5) [of "c_colon # t3" "take i p" None dg "8 - z div 2 + Suc k"] unfolding i_def [symmetric] by simp
qed

abbreviation i6_start :: inet6_state where "i6_start \<equiv> i6_at [] None None 8"

lemma inet6_addr_loop:
  assumes "p \<noteq> []" "inet6_loop (if hd p = c_colon then tl p else p) i6_start = Some s" "i6_nibbles s \<noteq> 0 \<or> i6_zero s \<noteq> None"
    "i6_n s - 1 = of_nat m" "m \<le> 8" "m = 0 \<longleftrightarrow> i6_zero s = None"
  shows "ngx_inet6_addr p = Some (case i6_zero s of None \<Rightarrow> i6_addr (i6_store s)
    | Some z \<Rightarrow> take z (i6_addr (i6_store s)) @ replicate (2 * m) 0 @ drop z (i6_addr (i6_store s)))"
proof -
  have m0: "(of_nat m :: 64 word) = 0 \<longleftrightarrow> m = 0" using groups_left [of m] assms(5) by (cases "m = 0") simp_all
  have "unat (of_nat m :: 64 word) = m" using assms(5) by (simp add: unat_of_nat take_bit_nat_eq_self)
  then have u: "unat ((of_nat m :: 64 word) * 2) = 2 * m" using unat_double [of "of_nat m"] assms(5) by simp
  have st: "i6_n (i6_store s) = i6_n s" "i6_zero (i6_store s) = i6_zero s" by (simp_all add: i6_store_def)
  have start: "\<lparr>i6_addr = [], i6_zero = None, i6_digit = None, i6_nibbles = 0, i6_word = 0, i6_n = 8\<rparr> = i6_start" by simp
  show ?thesis unfolding ngx_inet6_addr_def Let_def start assms(2)
    using assms(1,3,6) m0 u by (cases "i6_zero s") (simp_all add: st assms(4))
qed

lemma zeros_split:
  assumes "zeros p z (z + 2 * mx)" "z + 2 * mx \<le> length p"
  shows "take z p @ replicate (2 * mx) 0 @ drop (z + 2 * mx) p = p"
proof -
  have "take (2 * mx) (drop z p) = replicate (2 * mx) 0"
    using assms by (auto simp: zeros_def list_eq_iff_nth_eq)
  then have "p = take z p @ replicate (2 * mx) 0 @ drop (2 * mx) (drop z p)" by (metis append_take_drop_id)
  then show ?thesis by (simp add: add.commute)
qed

lemma ntop_no_run:
  assumes "length p = 16"
  shows "\<exists>t. ntop_groups p None mx 16 0 = Some t \<and> ngx_inet6_addr t = Some p"
proof -
  have "16 - 2 * 8 = (0 :: nat)" by simp
  from parse_tail [where k = 8 and p = p and zero = None and m = 8 and addr = "[]" and z = None and dg = None and mx = mx, unfolded this] assms obtain t s where t: "ntop_groups p None mx 16 0 = Some t" "hd t \<noteq> c_colon" "t \<noteq> []"
    "inet6_loop t i6_start = Some s" "i6_addr (i6_store s) = p" "i6_zero s = None" "i6_nibbles s \<noteq> 0" "i6_n s - 1 = of_nat 0"
    by (auto simp del: of_nat_numeral)
  have "ngx_inet6_addr t = Some p" using inet6_addr_loop [OF t(3) _ _ t(8)] t by (simp del: of_nat_0)
  then show ?thesis using t(1) by blast
qed

lemma ntop_run:
  assumes p: "length p = 16" and f: "run_found p (Some z) mx 16"
  shows "\<exists>t. ntop_groups p (Some z) mx 16 0 = Some t \<and> ngx_inet6_addr ((if z = 0 then [c_colon] else []) @ t) = Some p"
proof -
  have z: "even z" "2 \<le> mx" "z + 2 * mx \<le> 16" "zeros p z (z + 2 * mx)" using f by (simp_all add: run_found_def)
  define k where "k = 8 - z div 2 - mx"
  have k: "16 - 2 * k = z + 2 * mx" "k \<le> 8" "k \<le> 8 - z div 2" "8 - z div 2 \<le> 8" "8 - z div 2 - k = mx" using z(1-3) by (auto simp: k_def)
  have tail: "\<exists>t. ntop_groups p (Some z) mx 16 (z + 2 * mx) = Some t \<and>
    (if k = 0 then t = []
     else hd t \<noteq> c_colon \<and> t \<noteq> [] \<and>
       (\<exists>s. inet6_loop t (i6_at (take z p) (Some z) dg (8 - z div 2)) = Some s \<and> i6_addr (i6_store s) = take z p @ drop (z + 2 * mx) p \<and>
         i6_zero s = Some z \<and> i6_nibbles s \<noteq> 0 \<and> i6_n s - 1 = of_nat mx))" for dg
    using parse_tail [OF k(2) p _ k(3,4), where zero = "Some z" and mx = mx and addr = "take z p" and z = "Some z" and dg = dg] z(2) unfolding k(1,5) by simp
  then obtain t2 where t2: "ntop_groups p (Some z) mx 16 (z + 2 * mx) = Some t2" by blast
  have "2 * (z div 2) = z" using z(1) by simp
  from parse_head [OF z(1-3) p t2, of "z div 2" None] this obtain t where t: "ntop_groups p (Some z) mx 16 0 = Some t"
    "z \<noteq> 0 \<longrightarrow> t \<noteq> [] \<and> hd t \<noteq> c_colon" "z = 0 \<longrightarrow> t = c_colon # t2"
    "inet6_loop t i6_start = inet6_loop t2 (i6_at (take z p) (Some z) (Some t2) (8 - z div 2))"
    using z(1-3) by (auto elim!: evenE)
  let ?u = "(if z = 0 then [c_colon] else []) @ t"
  have u: "?u \<noteq> []" "(if hd ?u = c_colon then tl ?u else ?u) = t" using t(2) by auto
  have tk: "length (take z p) = z" using p z(2,3) by simp
  obtain s m where s: "inet6_loop t2 (i6_at (take z p) (Some z) (Some t2) (8 - z div 2)) = Some s" "i6_zero s = Some z" "i6_n s - 1 = of_nat m" "m \<le> 8" "m \<noteq> 0"
    "take z (i6_addr (i6_store s)) @ replicate (2 * m) 0 @ drop z (i6_addr (i6_store s)) = p"
  proof (cases "k = 0")
    case True
    then have n: "t2 = []" "8 - z div 2 = mx" "z + 2 * mx = 16" using tail t2 k(1,5) by simp_all
    have e: "2 * mx = 2 * (mx - 1) + 2" using z(2) by simp
    have r: "replicate (2 * mx) (0 :: u_char) = replicate (2 * (mx - 1)) 0 @ [0, 0]"
      by (subst e, subst replicate_add) (simp add: numeral_2_eq_2)
    have "(of_nat mx :: 64 word) - 1 = of_nat (mx - 1)" using sub_groups [of 1 mx] z(2,3) by simp
    then show ?thesis using n zeros_split [OF z(4)] p z(2,3) tk
      by (intro that [of "i6_at (take z p) (Some z) (Some t2) (8 - z div 2)" "mx - 1"]) (simp_all add: i6_store_def r)
  next
    case False
    then obtain s where "inet6_loop t2 (i6_at (take z p) (Some z) (Some t2) (8 - z div 2)) = Some s" "i6_addr (i6_store s) = take z p @ drop (z + 2 * mx) p"
      "i6_zero s = Some z" "i6_n s - 1 = of_nat mx" using tail [of "Some t2"] t2 by auto
    then show ?thesis using zeros_split [OF z(4)] p z(2,3) tk by (intro that [of s mx]) simp_all
  qed
  have "ngx_inet6_addr ?u = Some p"
    using inet6_addr_loop [OF u(1), unfolded u(2), of s m] t(4) s by simp
  then show ?thesis using t(1) by blast
qed

text \<open>An address that ends in the dotted form.\<close>

lemma parse_dotted:
  assumes q: "length q = 4" "ngx_inet_addr (dotted q) \<noteq> INADDR_NONE" and m: "2 \<le> m" "m \<le> 8"
  shows "\<exists>s. inet6_loop (dotted q) (i6_at addr z (Some (dotted q)) m) = Some s \<and> i6_addr (i6_store s) = addr @ q \<and>
    i6_zero s = z \<and> i6_nibbles s \<noteq> 0 \<and> i6_n s - 1 = of_nat (m - 2)"
proof -
  obtain ks where ks: "dec_digits (unat (q ! 0)) [] = hexes ks" "hexes_ok 3 ks" using dec_digits_hexes [OF byte_256] by blast
  let ?n = "of_nat (length ks) :: 64 word"
  define rest where "rest = dec_digits (unat (q ! 1)) [] @ c_dot # dec_digits (unat (q ! 2)) [] @ c_dot # dec_digits (unat (q ! 3)) []"
  have d: "dotted q = hexes ks @ c_dot # rest" by (simp add: dotted_def rest_def ks(1))
  have n: "?n \<noteq> 0" using ks(2) by (intro groups_left) auto
  obtain w where w: "inet6_loop (dotted q) (i6_at addr z (Some (dotted q)) m) =
      inet6_loop (c_dot # rest) ((i6_at addr z (Some (dotted q)) m)\<lparr>i6_nibbles := ?n, i6_word := w\<rparr>)"
    using inet6_digits [of ks "i6_at addr z (Some (dotted q)) m" "c_dot # rest"] ks(2) unfolding d by auto
  have two: "\<not> (of_nat m :: 64 word) < 2" using m by (simp add: word_less_nat_alt unat_of_nat take_bit_nat_eq_self)
  have h: "htonl (ngx_inet_addr (dotted q)) = word_of q" by (simp add: inet_addr_dotted)
  let ?s = "(i6_at addr z (Some (dotted q)) m)\<lparr>i6_nibbles := ?n, i6_addr := addr @ [ucast (drop_bit 24 (word_of q) AND 0xff), ucast (drop_bit 16 (word_of q) AND 0xff)],
    i6_word := ucast (word_of q), i6_n := of_nat m - 1\<rparr>"
  have l: "inet6_loop (dotted q) (i6_at addr z (Some (dotted q)) m) = Some ?s"
    unfolding w using n q(2) two by (simp add: inet6_loop.simps(2) Let_def h)
  have bytes: "[ucast (drop_bit 24 (word_of q)), ucast (drop_bit 16 (word_of q)), ucast (drop_bit 8 (word_of q)), ucast (word_of q)] = q"
    using word_of_bytes [OF q(1)] by (simp add: word_bytes_htonl)
  have u: "(ucast (drop_bit k (word_of q) AND 0xff) :: u_char) = ucast (drop_bit k (word_of q))"
    "(ucast (drop_bit k (ucast (word_of q) :: 64 word)) :: u_char) = ucast (drop_bit k (word_of q))"
    "(ucast (ucast (word_of q) AND 0xff :: 64 word) :: u_char) = ucast (word_of q)" for k
  proof -
    have f: "(0xff :: 32 word) = take_bit 8 (-1)" "(0xff :: 64 word) = take_bit 8 (-1)" by (simp_all add: mask_eq_exp_minus_1)
    show "(ucast (drop_bit k (word_of q) AND 0xff) :: u_char) = ucast (drop_bit k (word_of q))"
      unfolding f by (rule bit_word_eqI) (auto simp: bit_simps)
    show "(ucast (drop_bit k (ucast (word_of q) :: 64 word)) :: u_char) = ucast (drop_bit k (word_of q))"
      by (rule bit_word_eqI) (auto simp: bit_simps dest: bit_imp_le_length)
    show "(ucast (ucast (word_of q) AND 0xff :: 64 word) :: u_char) = ucast (word_of q)"
      unfolding f by (rule bit_word_eqI) (auto simp: bit_simps dest: bit_imp_le_length)
  qed
  have "i6_addr (i6_store ?s) = addr @ q"
    unfolding i6_store_def inet6_state.simps append_assoc u append_Cons append_Nil using bytes by simp
  moreover have "(of_nat m :: 64 word) - 1 - 1 = of_nat (m - 2)" using m by simp
  ultimately show ?thesis using l n by simp
qed

lemma ntop_dotted:
  assumes p: "length p = 16" and f: "run_found p (Some 0) mx 16" and c: "mx = 5 \<and> p ! 10 = 0xff \<and> p ! 11 = 0xff \<or> mx = 6 \<or> mx = 7"
    and n: "ngx_inet_addr (dotted (drop 12 p)) \<noteq> INADDR_NONE"
  shows "\<exists>t. ntop_groups p (Some 0) mx 12 0 = Some t \<and> ngx_inet6_addr (c_colon # t @ dotted (drop 12 p)) = Some p"
proof -
  let ?D = "dotted (drop 12 p)"
  have q: "length (drop 12 p) = 4" using p by simp
  have z: "zeros p 0 (2 * mx)" using f by (simp add: run_found_def)
  have hd: "inet6_loop (c_colon # rest) i6_start = inet6_loop rest (i6_at [] (Some 0) (Some rest) 8)" for rest
    by (simp add: inet6_loop.simps(2))
  show ?thesis
  proof (cases "mx = 5")
    case True
    obtain t k where t: "ngx_sprintf (ascii ''%uxi'') [A_long (i6_group p 10)] = Some t" "k \<noteq> 0"
      "\<And>rest addr z dg n. inet6_loop (t @ rest) (i6_at addr z dg n) = inet6_loop rest ((i6_at addr z dg n)\<lparr>i6_nibbles := k, i6_word := i6_group p 10\<rparr>)"
      using parse_group [of p 10] by blast
    have g: "ntop_groups p (Some 0) mx 12 0 = Some (c_colon # t @ [c_colon])"
      using t(1) True by (subst ntop_groups.simps, subst ntop_groups.simps, subst ntop_groups.simps) (simp add: i6_group_def)
    have b: "p ! 10 = 0xff" "p ! 11 = 0xff" using c True by simp_all
    obtain s where s: "inet6_loop ?D (i6_at [0xff, 0xff] (Some 0) (Some ?D) 7) = Some s" "i6_addr (i6_store s) = [0xff, 0xff] @ drop 12 p"
      "i6_zero s = Some 0" "i6_n s - 1 = of_nat (7 - 2)" using parse_dotted [OF q n, of 7 "[0xff, 0xff]" "Some 0"] by auto
    have "inet6_loop (c_colon # t @ [c_colon] @ ?D) i6_start = inet6_loop ?D (i6_at [0xff, 0xff] (Some 0) (Some ?D) 7)"
      unfolding hd t(3) using t(2) by (simp add: inet6_loop.simps(2) Let_def i6_store_def group_bytes b)
    note l = this [unfolded s(1)]
    have "drop 10 p = [p ! 10, p ! 11] @ drop 12 p"
      using Cons_nth_drop_Suc [of 10 p, symmetric] Cons_nth_drop_Suc [of 11 p, symmetric] p by simp
    then have "replicate 10 0 @ [0xff, 0xff] @ drop 12 p = p" using zeros_split [of p 0 5] z p b True by simp
    then have "ngx_inet6_addr (c_colon # c_colon # t @ [c_colon] @ ?D) = Some p"
      using inet6_addr_loop [of "c_colon # c_colon # t @ [c_colon] @ ?D" s 5] l s(2-4) by simp
    then show ?thesis using g by auto
  next
    case False
    have g: "ntop_groups p (Some 0) mx 12 0 = Some [c_colon]"
      using c False by (subst ntop_groups.simps, subst ntop_groups.simps) auto
    obtain s where s: "inet6_loop ?D (i6_at [] (Some 0) (Some ?D) 8) = Some s" "i6_addr (i6_store s) = drop 12 p"
      "i6_zero s = Some 0" "i6_n s - 1 = of_nat (8 - 2)" using parse_dotted [OF q n, of 8 "[]" "Some 0"] by auto
    have "zeros p 0 (0 + 2 * 6)" using z c False by (auto simp: zeros_def)
    then have "replicate 12 0 @ drop 12 p = p" using zeros_split [of p 0 6] p by simp
    then have "ngx_inet6_addr (c_colon # c_colon # ?D) = Some p"
      using inet6_addr_loop [of "c_colon # c_colon # ?D" s 6] hd s by simp
    then show ?thesis using g by auto
  qed
qed

definition unreadable6 :: "bytes set" where
  "unreadable6 = {replicate 12 0 @ replicate 4 0xff, replicate 10 0 @ replicate 6 0xff}"

lemma broadcast_dotted:
  assumes "length p = 16" "run_found p (Some 0) mx 16" "mx = 5 \<and> p ! 10 = 0xff \<and> p ! 11 = 0xff \<or> mx = 6 \<or> mx = 7" "p \<notin> unreadable6"
  shows "ngx_inet_addr (dotted (drop 12 p)) \<noteq> INADDR_NONE"
proof
  assume n: "ngx_inet_addr (dotted (drop 12 p)) = INADDR_NONE"
  have q: "length (drop 12 p) = 4" using assms(1) by simp
  have d: "drop 12 p = replicate 4 0xff" using n word_of_none [OF q] by (simp add: inet_addr_dotted numeral_eq_Suc)
  then have "p ! 12 \<noteq> 0" using assms(1) nth_drop [of 12 p 0] by simp
  moreover have z: "zeros p 0 (2 * mx)" using assms(2) by (simp add: run_found_def)
  ultimately have mx: "mx = 5 \<or> mx = 6" using assms(3) by (auto simp: zeros_def)
  have "take 12 p = replicate 12 0" if "mx = 6" using z that assms(1) by (auto simp: zeros_def list_eq_iff_nth_eq)
  moreover have "take 12 p = replicate 10 0 @ [0xff, 0xff]" if "mx = 5"
  proof -
    have "take 10 p = replicate 10 0" using z that assms(1) by (auto simp: zeros_def list_eq_iff_nth_eq)
    moreover have "take 12 p = take 10 p @ [p ! 10, p ! 11]" using assms(1) by (simp add: take_Suc_conv_app_nth numeral_eq_Suc)
    ultimately show ?thesis using that assms(3) by simp
  qed
  moreover have "p = take 12 p @ drop 12 p" by simp
  ultimately have "p = replicate 12 0 @ replicate 4 0xff \<or> p = replicate 10 0 @ [0xff, 0xff] @ replicate 4 0xff" using mx d by (metis append_assoc)
  moreover have "[0xff, 0xff] @ replicate 4 0xff = replicate 6 (0xff :: u_char)" by (simp add: numeral_eq_Suc)
  ultimately show False using assms(4) by (simp add: unreadable6_def)
qed

lemma inet6_text:
  assumes p: "length p = 16" "45 \<le> len" "p \<notin> unreadable6"
  shows "\<exists>t. ngx_inet6_ntop p len = Some t \<and> ngx_inet6_addr t = Some p"
proof -
  obtain zero mx where r: "ntop_runs p [0, 2, 4, 6, 8, 10, 12, 14] None None 1 0 = (zero, mx)" by fastforce
  have l: "map (\<lambda>k. 2 * k) [0..<8] = [0, 2, 4, 6, 8, 10, 12, 14 :: nat]" by (simp add: upt_rec)
  have f: "run_found p zero mx 16"
    by (rule ntop_runs_found [of 0 p None 1 0 None zero mx, unfolded l]) (use r in \<open>simp_all add: run_found_def\<close>)
  let ?c = "zero = Some 0 \<and> (mx = 5 \<and> p ! 10 = 0xff \<and> p ! 11 = 0xff \<or> mx = 6 \<or> mx = 7 \<and> p ! 14 \<noteq> 0 \<and> p ! 15 \<noteq> 1)"
  show ?thesis
  proof (cases ?c)
    case True
    then have m: "mx = 5 \<and> p ! 10 = 0xff \<and> p ! 11 = 0xff \<or> mx = 6 \<or> mx = 7" and f0: "run_found p (Some 0) mx 16" using f by auto
    obtain t where t: "ntop_groups p (Some 0) mx 12 0 = Some t" "ngx_inet6_addr (c_colon # t @ dotted (drop 12 p)) = Some p"
      using ntop_dotted [OF p(1) f0 m broadcast_dotted [OF p(1) f0 m p(3)]] by blast
    have s: "ngx_sprintf (ascii ''%ud.%ud.%ud.%ud'') [A_byte (p ! 12), A_byte (p ! 13), A_byte (p ! 14), A_byte (p ! 15)] = Some (dotted (drop 12 p))"
      using print_dotted [of None "drop 12 p"] p(1) by (simp add: ngx_sprintf_def)
    have "ngx_inet6_ntop p len = Some (c_colon # t @ dotted (drop 12 p))"
      unfolding ngx_inet6_ntop_def r Let_def prod.case if_P [OF True] using p(1,2) True t(1) s by simp
    then show ?thesis using t(2) by blast
  next
    case False
    obtain t where t: "ntop_groups p zero mx 16 0 = Some t" "ngx_inet6_addr ((if zero = Some 0 then [c_colon] else []) @ t) = Some p"
    proof (cases zero)
      case None
      then show ?thesis using ntop_no_run [OF p(1), of mx] that by auto
    next
      case (Some z)
      then show ?thesis using ntop_run [OF p(1), of z mx] f that by auto
    qed
    have "ngx_inet6_ntop p len = Some ((if zero = Some 0 then [c_colon] else []) @ t)"
      unfolding ngx_inet6_ntop_def r Let_def prod.case if_not_P [OF False] using p(1,2) t(1) by simp
    then show ?thesis using t(2) by blast
  qed
qed

text \<open>A text with no colon is not an IPv6 address, and one with a colon is not an IPv4 address.\<close>

lemma inet6_no_colon:
  assumes "c_colon \<notin> set t" "i6_zero s = None" "i6_digit s = None" "inet6_loop t s = Some s'"
  shows "i6_zero s' = None \<and> i6_n s' = i6_n s"
  using assms
proof (induction t arbitrary: s)
  case (Cons c t)
  have c1: "c \<noteq> c_colon" using Cons.prems(1) by auto
  have c2: "\<not> (c = c_dot \<and> i6_nibbles s \<noteq> 0)"
  proof
    assume "c = c_dot \<and> i6_nibbles s \<noteq> 0"
    then have "inet6_loop (c # t) s = None" using c1 Cons.prems(3) by (simp add: inet6_loop.simps(2) del: Let_def)
    then show False using Cons.prems(4) by simp
  qed
  obtain w k where "inet6_loop t (s\<lparr>i6_nibbles := k, i6_word := w\<rparr>) = Some s'"
    using Cons.prems(4) unfolding inet6_loop.simps(2) Let_def if_not_P [OF c1] if_not_P [OF c2] by (simp split: if_split_asm)
  from Cons.IH [OF _ _ _ this] Cons.prems show ?case by simp
qed simp

lemma inet6_has_colon: "ngx_inet6_addr t = Some p \<Longrightarrow> c_colon \<in> set t"
proof (rule ccontr)
  assume t: "ngx_inet6_addr t = Some p" "c_colon \<notin> set t"
  let ?t = "if hd t = c_colon then tl t else t"
  let ?s = "\<lparr>i6_addr = [], i6_zero = None, i6_digit = None, i6_nibbles = 0, i6_word = 0, i6_n = 8\<rparr>"
  have c: "c_colon \<notin> set ?t" using t(2) by (cases t) auto
  obtain s where s: "inet6_loop ?t ?s = Some s" using t(1) by (cases "inet6_loop ?t ?s") (auto simp: ngx_inet6_addr_def Let_def split: if_splits)
  from inet6_no_colon [OF c _ _ s] have "i6_zero s = None" "i6_n s = 8" by simp_all
  then show False using t(1) s by (auto simp: ngx_inet6_addr_def Let_def i6_store_def split: if_splits)
qed

lemma inet_colon: "c_colon \<in> set t \<Longrightarrow> inet_addr_loop t addr octet n = INADDR_NONE"
  by (induction t arbitrary: addr octet n) auto

text \<open>The two exceptions.\<close>

lemma unreadable_text:
  "ngx_inet6_ntop (replicate 12 0 @ replicate 4 0xff) 45 = Some (ascii ''::255.255.255.255'')"
  "ngx_inet6_ntop (replicate 10 0 @ replicate 6 0xff) 45 = Some (ascii ''::ffff:255.255.255.255'')"
proof -
  show "ngx_inet6_ntop (replicate 12 0 @ replicate 4 0xff) 45 = Some (ascii ''::255.255.255.255'')" by code_simp
  have r: "ntop_runs (replicate 10 0 @ replicate 6 0xff) [0, 2, 4, 6, 8, 10, 12, 14] None None 1 0 = (Some 0, 5)" by code_simp
  have "hex_digits hex_chars (unat (0xff * 256 + 0xff :: 64 word)) [] = ascii ''ffff''" by (simp add: hex_digits.simps hex_chars_def Let_def)
  then have h: "ngx_sprintf (ascii ''%uxi'') [A_long (0xff * 256 + 0xff)] = Some (ascii ''ffff'')" unfolding print_uxi by simp
  have g: "ntop_groups (replicate 10 0 @ replicate 6 0xff) (Some 0) 5 12 0 = Some (ascii '':ffff:'')"
    using h by (subst ntop_groups.simps, subst ntop_groups.simps, subst ntop_groups.simps) (simp add: nth_append)
  have "ngx_sprintf (ascii ''%ud.%ud.%ud.%ud'') [A_byte 255, A_byte 255, A_byte 255, A_byte 255] = Some (ascii ''255.255.255.255'')" by code_simp
  then show "ngx_inet6_ntop (replicate 10 0 @ replicate 6 0xff) 45 = Some (ascii ''::ffff:255.255.255.255'')"
    unfolding ngx_inet6_ntop_def r Let_def prod.case using g by (simp add: nth_append)
qed

text \<open>
  Claim C11: A client address prints to a text that reads back as the same address, for both families and
  all the forms an IPv6 address has, with a run of zeros left out and with an IPv4 address at its end. The
  exceptions are the addresses that end in the dotted form of \<open>255.255.255.255\<close>, which no text stands for:
  their bits are those of \<open>INADDR_NONE\<close>.
\<close>
theorem addr_roundtrip:
  assumes "sa = SA_inet p 0 \<and> length p = 4 \<or> sa = SA_inet6 p 0 \<and> length p = 16" "45 \<le> len"
  shows "\<exists>t. ngx_sock_ntop sa len False = Some t \<and>
    ngx_parse_addr t =
      (if sa \<in> {SA_inet (replicate 4 0xff) 0, SA_inet6 (replicate 12 0 @ replicate 4 0xff) 0, SA_inet6 (replicate 10 0 @ replicate 6 0xff) 0}
       then None else Some sa)"
proof (cases "sa = SA_inet p 0 \<and> length p = 4")
  case True
  have r: "replicate 4 0xff = [255, 255, 255, 255 :: u_char]" by (simp add: numeral_eq_Suc)
  obtain t where t: "ngx_inet_ntop AF_INET p len = Some t" "ngx_parse_addr t = (if p = [255, 255, 255, 255] then None else Some (SA_inet p 0))"
    using inet_roundtrip [of p len] True assms(2) by auto
  have "ngx_sock_ntop sa len False = Some t" using t(1) True by (simp add: ngx_sock_ntop_def ngx_inet_ntop_def)
  then show ?thesis using t(2) True by (auto simp: r)
next
  case False
  then have sa: "sa = SA_inet6 p 0" "length p = 16" using assms(1) by auto
  show ?thesis
  proof (cases "p \<in> unreadable6")
    case True
    have "ngx_inet6_ntop p len = ngx_inet6_ntop p 45" using assms(2) by (simp add: ngx_inet6_ntop_def)
    moreover have "ngx_parse_addr (ascii ''::255.255.255.255'') = None" by code_simp
    moreover have "ngx_parse_addr (ascii ''::ffff:255.255.255.255'') = None" by code_simp
    ultimately show ?thesis using True sa unreadable_text by (auto simp: ngx_sock_ntop_def unreadable6_def)
  next
    case False
    obtain t where t: "ngx_inet6_ntop p len = Some t" "ngx_inet6_addr t = Some p" using inet6_text [OF sa(2) assms(2) False] by blast
    have "ngx_inet_addr t = INADDR_NONE" unfolding ngx_inet_addr_def by (rule inet_colon [OF inet6_has_colon [OF t(2)]])
    then show ?thesis using t sa False by (simp add: ngx_sock_ntop_def ngx_parse_addr_def Let_def unreadable6_def)
  qed
qed

theorem addr_roundtrip_witness:
  "\<exists>t. ngx_sock_ntop (SA_inet6 [0x20, 1, 0xd, 0xb8, 0, 0, 0, 0, 0, 0, 0, 0, 0, 0, 0, 1] 0) 60 False = Some t \<and>
    ngx_parse_addr t = Some (SA_inet6 [0x20, 1, 0xd, 0xb8, 0, 0, 0, 0, 0, 0, 0, 0, 0, 0, 0, 1] 0)"
  using addr_roundtrip [of "SA_inet6 [0x20, 1, 0xd, 0xb8, 0, 0, 0, 0, 0, 0, 0, 0, 0, 0, 0, 1] 0" "[0x20, 1, 0xd, 0xb8, 0, 0, 0, 0, 0, 0, 0, 0, 0, 0, 0, 1]" 60]
  by (simp add: replicate_numeral)

end
