(* ===== verification/Access_Correct.thy ===== *)
theory Access_Correct
  imports Inet_Correct
begin

text \<open>
The handler of the access rules against the list of rules as written: the first that matches decides.
\<close>

section \<open>The first rule that matches\<close>

text \<open>What a rule is about: every client, the clients of a network, or those of unix sockets.\<close>

definition rule_matches :: "bytes \<Rightarrow> sockaddr \<Rightarrow> bool" where
  "rule_matches net sa \<longleftrightarrow>
    (if net = ascii ''all'' then sa \<noteq> SA_other
     else if net = ascii ''unix:'' then (case sa of SA_unix socklen path \<Rightarrow> True | _ \<Rightarrow> False)
     else (case ngx_ptocidr net of None \<Rightarrow> False | Some (rc, c) \<Rightarrow> in_network c sa))"

fun access_verdict :: "(bytes \<times> bytes) list \<Rightarrow> sockaddr \<Rightarrow> int" where
  "access_verdict [] sa = NGX_DECLINED"
| "access_verdict ((directive, net) # rules) sa =
    (if rule_matches net sa then (if directive = ascii ''deny'' then 403 else NGX_OK) else access_verdict rules sa)"

text \<open>
  A client with an IPv4 address mapped into IPv6 is an IPv4 client to a location that has a rule for
  IPv4.
\<close>

definition rule_v4 :: "bytes \<Rightarrow> bool" where
  "rule_v4 net \<longleftrightarrow> net = ascii ''all'' \<or> net \<noteq> ascii ''unix:'' \<and> (\<exists>rc a m. ngx_ptocidr net = Some (rc, Cidr_in a m))"

fun access_client :: "(bytes \<times> bytes) list \<Rightarrow> sockaddr \<Rightarrow> sockaddr" where
  "access_client rules (SA_inet6 p port) =
    (if v4_mapped p \<and> (\<exists>(directive, net) \<in> set rules. rule_v4 net) then SA_inet (drop 12 p) port else SA_inet6 p port)"
| "access_client rules sa = sa"

fun access_rules :: "(bytes \<times> bytes) list \<Rightarrow> access_conf \<Rightarrow> access_conf option" where
  "access_rules [] conf = Some conf"
| "access_rules ((directive, net) # rules) conf = Option.bind (ngx_http_access_rule directive net conf) (access_rules rules)"

text \<open>The three arrays hold the rules of their families, in order.\<close>

definition list_of :: "'a list option \<Rightarrow> 'a list" where
  "list_of xs = (case xs of None \<Rightarrow> [] | Some xs \<Rightarrow> xs)"

lemma list_of_push [simp]: "list_of (access_push x xs) = list_of xs @ [x]" "access_push x xs \<noteq> None"
  by (auto simp: list_of_def access_push_def split: option.splits)

lemma inet_append: "ngx_http_access_inet a (xs @ ys) = (if ngx_http_access_inet a xs = NGX_DECLINED then ngx_http_access_inet a ys else ngx_http_access_inet a xs)"
  by (induction a xs rule: ngx_http_access_inet.induct) (auto simp: ngx_http_access_found_def)

lemma inet6_append: "ngx_http_access_inet6 a (xs @ ys) = (if ngx_http_access_inet6 a xs = NGX_DECLINED then ngx_http_access_inet6 a ys else ngx_http_access_inet6 a xs)"
  by (induction a xs rule: ngx_http_access_inet6.induct) (auto simp: ngx_http_access_found_def)

lemma unix_append: "ngx_http_access_unix (xs @ ys) = (if ngx_http_access_unix xs = NGX_DECLINED then ngx_http_access_unix ys else ngx_http_access_unix xs)"
  by (cases xs) (auto simp: ngx_http_access_found_def)

definition plain_handler :: "access_conf \<Rightarrow> sockaddr \<Rightarrow> int" where
  "plain_handler conf sa =
    (case sa of
       SA_inet p port \<Rightarrow> ngx_http_access_inet (bytes_word p) (list_of (ac_rules conf))
     | SA_inet6 p port \<Rightarrow> ngx_http_access_inet6 p (list_of (ac_rules6 conf))
     | SA_unix socklen path \<Rightarrow> ngx_http_access_unix (list_of (ac_rules_un conf))
     | SA_other \<Rightarrow> NGX_DECLINED)"

fun client_ok :: "sockaddr \<Rightarrow> bool" where
  "client_ok (SA_inet p port) \<longleftrightarrow> length p = 4"
| "client_ok (SA_inet6 p port) \<longleftrightarrow> length p = 16"
| "client_ok sa \<longleftrightarrow> True"

lemma rule_ok:
  assumes r: "ngx_http_access_rule directive net conf = Some conf'" and d: "directive \<in> {ascii ''allow'', ascii ''deny''}" and sa: "client_ok sa"
  shows "plain_handler conf' sa =
      (if plain_handler conf sa = NGX_DECLINED then access_verdict [(directive, net)] sa else plain_handler conf sa) \<and>
    (ac_rules conf' \<noteq> None \<longleftrightarrow> ac_rules conf \<noteq> None \<or> rule_v4 net)"
proof -
  have deny: "(directive \<noteq> [] \<and> hd directive = of_char CHR ''d'') \<longleftrightarrow> directive = ascii ''deny''" using d by auto
  consider (all) "net = ascii ''all''" | (un) "net = ascii ''unix:''" | (v4) rc a m where "net \<noteq> ascii ''all''" "net \<noteq> ascii ''unix:''" "ngx_ptocidr net = Some (rc, Cidr_in a m)"
    | (v6) rc a m where "net \<noteq> ascii ''all''" "net \<noteq> ascii ''unix:''" "ngx_ptocidr net = Some (rc, Cidr_in6 a m)"
    using r by (cases "ngx_ptocidr net") (auto simp: ngx_http_access_rule_def Let_def split: if_splits prod.splits cidr.splits)
  then show ?thesis
  proof cases
    case all
    then have c: "conf' = conf\<lparr>ac_rules := access_push (0, 0, directive = ascii ''deny'') (ac_rules conf),
      ac_rules6 := access_push (replicate 16 0, replicate 16 0, directive = ascii ''deny'') (ac_rules6 conf),
      ac_rules_un := access_push (directive = ascii ''deny'') (ac_rules_un conf)\<rparr>"
      using r deny by (simp add: ngx_http_access_rule_def Let_def)
    show ?thesis using all unfolding c
      by (cases sa) (simp_all add: plain_handler_def inet_append inet6_append unix_append rule_matches_def ngx_http_access_found_def rule_v4_def)
  next
    case un
    then have c: "conf' = conf\<lparr>ac_rules_un := access_push (directive = ascii ''deny'') (ac_rules_un conf)\<rparr>"
      using r deny by (simp add: ngx_http_access_rule_def Let_def)
    show ?thesis using un unfolding c
      by (cases sa) (simp_all add: plain_handler_def unix_append rule_matches_def ngx_http_access_found_def rule_v4_def)
  next
    case v4
    then have c: "conf' = conf\<lparr>ac_rules := access_push (m, a, directive = ascii ''deny'') (ac_rules conf)\<rparr>"
      using r deny by (simp add: ngx_http_access_rule_def Let_def)
    have ok: "cidr_ok (Cidr_in a m)" using ptocidr_ok [OF v4(3)] by simp
    show ?thesis using v4 sa in_network_v4 [OF ok] unfolding c
      by (cases sa) (simp_all add: plain_handler_def inet_append rule_matches_def ngx_http_access_found_def rule_v4_def)
  next
    case v6
    then have c: "conf' = conf\<lparr>ac_rules6 := access_push (m, a, directive = ascii ''deny'') (ac_rules6 conf)\<rparr>"
      using r deny by (simp add: ngx_http_access_rule_def Let_def)
    have ok: "cidr_ok (Cidr_in6 a m)" using ptocidr_ok [OF v6(3)] by simp
    show ?thesis using v6 sa in_network_v6 [OF ok] unfolding c
      by (cases sa) (simp_all add: plain_handler_def inet6_append rule_matches_def ngx_http_access_found_def rule_v4_def)
  qed
qed

lemma rules_ok:
  assumes "access_rules rules conf = Some conf'" "fst ` set rules \<subseteq> {ascii ''allow'', ascii ''deny''}" "client_ok sa"
  shows "plain_handler conf' sa = (if plain_handler conf sa = NGX_DECLINED then access_verdict rules sa else plain_handler conf sa) \<and>
    (ac_rules conf' \<noteq> None \<longleftrightarrow> ac_rules conf \<noteq> None \<or> (\<exists>(directive, net) \<in> set rules. rule_v4 net))"
  using assms
proof (induction rules arbitrary: conf)
  case (Cons rule rules)
  obtain directive net where rule: "rule = (directive, net)" by (cases rule)
  then obtain conf1 where c: "ngx_http_access_rule directive net conf = Some conf1" "access_rules rules conf1 = Some conf'"
    using Cons.prems(1) by (auto simp: bind_eq_Some_conv)
  have d: "directive \<in> {ascii ''allow'', ascii ''deny''}" "fst ` set rules \<subseteq> {ascii ''allow'', ascii ''deny''}" using Cons.prems(2) rule by auto
  note r1 = rule_ok [OF c(1) d(1) Cons.prems(3)] and r2 = Cons.IH [OF c(2) d(2) Cons.prems(3)]
  show ?case using r1 r2 by (auto simp: rule)
qed simp

lemma handler_plain:
  assumes "client_ok sa"
  shows "ngx_http_access_handler conf sa = plain_handler conf (case sa of SA_inet6 p port \<Rightarrow>
      if ac_rules conf \<noteq> None \<and> v4_mapped p then SA_inet (drop 12 p) port else sa | _ \<Rightarrow> sa)"
  using assms
  by (cases sa) (auto simp: ngx_http_access_handler_def plain_handler_def list_of_def mapped_addr_htonl split: option.splits)

text \<open>
  Claim C5: The access rules of a location are applied in the order they are written: a client is refused
  or let in by the first rule whose network contains its address, where the network of a rule is the
  address and number of bits of its text, whatever the family; and by no rule the decision is left to
  others. A mapped IPv4 client is subject to the rules for IPv4 where there are any.
\<close>
theorem access_first_match:
  assumes "access_rules rules ngx_http_access_create_loc_conf = Some conf" "fst ` set rules \<subseteq> {ascii ''allow'', ascii ''deny''}" "client_ok sa"
  shows "ngx_http_access_handler conf sa = access_verdict rules (access_client rules sa)"
proof -
  have ok: "client_ok (access_client rules sa)" using assms(3) by (cases sa) auto
  have "plain_handler ngx_http_access_create_loc_conf sa' = NGX_DECLINED" for sa'
    by (simp add: plain_handler_def ngx_http_access_create_loc_conf_def list_of_def split: sockaddr.splits)
  then have v: "plain_handler conf sa' = access_verdict rules sa'" if "client_ok sa'" for sa'
    using rules_ok [OF assms(1,2) that] by simp
  have "ac_rules conf \<noteq> None \<longleftrightarrow> (\<exists>(directive, net) \<in> set rules. rule_v4 net)"
    using rules_ok [OF assms] by (simp add: ngx_http_access_create_loc_conf_def)
  then have "ngx_http_access_handler conf sa = plain_handler conf (access_client rules sa)"
    unfolding handler_plain [OF assms(3)] by (cases sa) auto
  then show ?thesis using v [OF ok] by simp
qed

lemma access_first_match_witness:
  "(\<exists>conf. access_rules [(ascii ''deny'', ascii ''10.1.2.3''), (ascii ''allow'', ascii ''10.0.0.0/8''), (ascii ''deny'', ascii ''all'')] ngx_http_access_create_loc_conf = Some conf \<and>
     ngx_http_access_handler conf (SA_inet [10, 1, 2, 4] 80) = NGX_OK)"
proof -
  let ?rules = "[(ascii ''deny'', ascii ''10.1.2.3''), (ascii ''allow'', ascii ''10.0.0.0/8''), (ascii ''deny'', ascii ''all'')]"
  have "access_rules ?rules ngx_http_access_create_loc_conf \<noteq> None" by code_simp
  then obtain conf where c: "access_rules ?rules ngx_http_access_create_loc_conf = Some conf" by blast
  have "access_verdict ?rules (SA_inet [10, 1, 2, 4] 80) = NGX_OK" by code_simp
  then show ?thesis using access_first_match [OF c, of "SA_inet [10, 1, 2, 4] 80"] c by simp
qed

section \<open>What the arrays of rules hold\<close>

definition access_conf_ok :: "access_conf \<Rightarrow> bool" where
  "access_conf_ok conf \<longleftrightarrow>
    list_all (\<lambda>rule. cidr_ok (Cidr_in (fst (snd rule)) (fst rule))) (list_of (ac_rules conf)) \<and>
    list_all (\<lambda>rule. cidr_ok (Cidr_in6 (fst (snd rule)) (fst rule))) (list_of (ac_rules6 conf))"

lemma all_networks: "cidr_ok (Cidr_in 0 0)" "cidr_ok (Cidr_in6 (replicate 16 0) (replicate 16 0))"
proof -
  have "(0 :: 32 word) = 0 AND 0" by simp
  from cidr_in_ok(1) [OF _ htonl_ones(2) this] show "cidr_ok (Cidr_in 0 0)" by simp
  have "bits128 (replicate 16 0) = net_mask 0 128" by (simp add: bits128_ones net_mask_def)
  moreover have "replicate 16 0 = map2 (AND) (replicate 16 (0 :: u_char)) (replicate 16 0)" by (simp add: map2_map_map)
  ultimately show "cidr_ok (Cidr_in6 (replicate 16 0) (replicate 16 0))"
    using cidr_in6_ok(1) [of 0 "replicate 16 0" "replicate 16 0" "replicate 16 0"] by simp
qed

lemma rule_conf_ok: "ngx_http_access_rule directive net conf = Some conf' \<Longrightarrow> access_conf_ok conf \<Longrightarrow> access_conf_ok conf'"
proof -
  assume r: "ngx_http_access_rule directive net conf = Some conf'" and ok: "access_conf_ok conf"
  show "access_conf_ok conf'"
  proof (cases "net = ascii ''all'' \<or> net = ascii ''unix:''")
    case True
    then show ?thesis using r ok all_networks by (auto simp: ngx_http_access_rule_def access_conf_ok_def Let_def)
  next
    case False
    then obtain rc c where c: "ngx_ptocidr net = Some (rc, c)" using r by (auto simp: ngx_http_access_rule_def Let_def split: option.splits)
    have "cidr_ok c" using ptocidr_ok [OF c] by simp
    then show ?thesis using r ok c False by (cases c) (auto simp: ngx_http_access_rule_def access_conf_ok_def Let_def)
  qed
qed

text \<open>
  Claim C30: The arrays of rules of every location, also those inherited from the enclosing one, hold
  networks only: a mask is a row of ones and then zeros, of 32 bits or sixteen bytes, and the address has
  no bit set outside it, so that no rule is without a client it could match.
\<close>
theorem access_rules_type:
  assumes "access_rules rules ngx_http_access_create_loc_conf = Some conf" "access_rules outer ngx_http_access_create_loc_conf = Some prev"
  shows "access_conf_ok (ngx_http_access_merge_loc_conf prev conf)"
proof -
  have rules: "access_rules rules conf = Some conf' \<Longrightarrow> access_conf_ok conf \<Longrightarrow> access_conf_ok conf'" for rules conf conf'
    by (induction rules conf rule: access_rules.induct) (auto simp: bind_eq_Some_conv rule_conf_ok)
  have "access_conf_ok ngx_http_access_create_loc_conf" by (simp add: access_conf_ok_def ngx_http_access_create_loc_conf_def list_of_def)
  then have "access_conf_ok conf" "access_conf_ok prev" using rules assms by blast+
  then show ?thesis by (simp add: ngx_http_access_merge_loc_conf_def access_conf_ok_def)
qed

lemma access_rules_type_witness:
  "\<exists>conf. access_rules [(ascii ''allow'', ascii ''2001:db8::/33''), (ascii ''deny'', ascii ''all'')] ngx_http_access_create_loc_conf = Some conf \<and>
     access_conf_ok (ngx_http_access_merge_loc_conf ngx_http_access_create_loc_conf conf)"
proof -
  have "access_rules [(ascii ''allow'', ascii ''2001:db8::/33''), (ascii ''deny'', ascii ''all'')] ngx_http_access_create_loc_conf \<noteq> None" by code_simp
  then obtain conf where c: "access_rules [(ascii ''allow'', ascii ''2001:db8::/33''), (ascii ''deny'', ascii ''all'')] ngx_http_access_create_loc_conf = Some conf" by blast
  from access_rules_type [OF c, of "[]" ngx_http_access_create_loc_conf] show ?thesis using c by simp
qed

end
