(* ===== verification/Http_Geo.thy ===== *)
theory Http_Geo
  imports Http_Access Ngx_Radix_Tree
begin

text \<open>
Variables by the address of the client (\<open>http/modules/ngx_http_geo_module.c\<close>): the lines of a \<open>geo\<close> block
  are networks with values, kept in two radix trees.
\<close>

section \<open>Configuration\<close>

text \<open>
  The part of \<open>ngx_http_geo_conf_ctx_t\<close> for networks. Values are pointers: \<open>ngx_http_geo_value\<close>, which
  keeps each text once, is an argument \<open>geo_value\<close> that gives a text its pointer, or \<open>None\<close> without memory;
  \<open>pages\<close> is the number of pages the pool can give a tree.
\<close>

record geo_ctx =
  geo_tree :: "radix_tree option"
  geo_tree6 :: "radix_tree option"

text \<open>
  What a step comes to: a context, \<open>NGX_CONF_ERROR\<close>, or undefined behaviour, which stands also for a
  loop that does not end.
\<close>

datatype geo_result = Geo_ok geo_ctx | Geo_error | Geo_fault

definition geo_create :: "nat \<Rightarrow> nat \<Rightarrow> radix_tree option \<Rightarrow> radix_tree option option" where
  "geo_create ngx_pagesize pages t =
    (case t of None \<Rightarrow> ngx_radix_tree_create ngx_pagesize pages (-1) | Some t \<Rightarrow> Some (Some t))"

definition ngx_http_geo_cidr_value :: "bytes \<Rightarrow> cidr option" where
  "ngx_http_geo_cidr_value net =
    (if net = ascii ''255.255.255.255'' then Some (Cidr_in 0xffffffff 0xffffffff) else map_option snd (ngx_ptocidr net))"

text \<open>
  \<open>ngx_http_geo_cidr_add\<close>, with the addresses of 32 bits in host order. A network that has a value already
  is looked up for the warning, deleted and inserted again.
\<close>

definition geo_replace :: "int \<times> radix_tree \<Rightarrow> (int \<times> radix_tree) option \<Rightarrow> (radix_tree \<Rightarrow> (int \<times> radix_tree) option) \<Rightarrow> (radix_tree option) option" where
  "geo_replace first deletion again =
    (case first of (rc, t) \<Rightarrow>
       if rc = NGX_OK then Some (Some t)
       else if rc = NGX_ERROR then Some None
       else
         (case deletion of
            None \<Rightarrow> None
          | Some (rc, t) \<Rightarrow>
              if rc = NGX_ERROR then Some None
              else (case again t of None \<Rightarrow> None | Some (rc, t) \<Rightarrow> if rc = NGX_OK then Some (Some t) else Some None)))"

definition ngx_http_geo_cidr_add :: "(bytes \<Rightarrow> 64 word option) \<Rightarrow> nat \<Rightarrow> geo_ctx \<Rightarrow> cidr \<Rightarrow> bytes \<Rightarrow> geo_result" where
  "ngx_http_geo_cidr_add geo_value ngx_pagesize ctx cidr value =
    (case geo_value value of
       None \<Rightarrow> Geo_error
     | Some val \<Rightarrow>
         (case cidr of
            Cidr_in6 addr m \<Rightarrow>
              (case geo_tree6 ctx of
                 None \<Rightarrow> Geo_fault
               | Some t \<Rightarrow>
                   (case ngx_radix128tree_insert ngx_pagesize addr m val t of
                      None \<Rightarrow> Geo_fault
                    | Some first \<Rightarrow>
                        if fst first = NGX_BUSY \<and> ngx_radix128tree_find t (addr @ m) = None then Geo_fault
                        else
                          (case geo_replace first (ngx_radix128tree_delete addr m t) (ngx_radix128tree_insert ngx_pagesize addr m val) of
                             None \<Rightarrow> Geo_fault | Some None \<Rightarrow> Geo_error | Some (Some t) \<Rightarrow> Geo_ok (ctx\<lparr>geo_tree6 := Some t\<rparr>))))
          | Cidr_in addr m \<Rightarrow>
              (case geo_tree ctx of
                 None \<Rightarrow> Geo_fault
               | Some t \<Rightarrow>
                   (case geo_replace (ngx_radix32tree_insert ngx_pagesize addr m val t) (ngx_radix32tree_delete addr m t)
                          (\<lambda>t. Some (ngx_radix32tree_insert ngx_pagesize addr m val t)) of
                      None \<Rightarrow> Geo_fault | Some None \<Rightarrow> Geo_error | Some (Some t) \<Rightarrow> Geo_ok (ctx\<lparr>geo_tree := Some t\<rparr>)))))"

definition geo_host_order :: "cidr \<Rightarrow> cidr" where
  "geo_host_order c = (case c of Cidr_in addr m \<Rightarrow> Cidr_in (htonl addr) (htonl m) | Cidr_in6 addr m \<Rightarrow> Cidr_in6 addr m)"

text \<open>
  \<open>ngx_http_geo_cidr\<close> on a line of two words. A deletion that finds nothing is a warning.
\<close>

definition geo_cidr_delete :: "geo_ctx \<Rightarrow> cidr \<Rightarrow> geo_result" where
  "geo_cidr_delete ctx cidr =
    (case cidr of
       Cidr_in6 addr m \<Rightarrow>
         (case Option.bind (geo_tree6 ctx) (ngx_radix128tree_delete addr m) of
            None \<Rightarrow> Geo_fault | Some (rc, t) \<Rightarrow> Geo_ok (ctx\<lparr>geo_tree6 := Some t\<rparr>))
     | Cidr_in addr m \<Rightarrow>
         (case Option.bind (geo_tree ctx) (ngx_radix32tree_delete addr m) of
            None \<Rightarrow> Geo_fault | Some (rc, t) \<Rightarrow> Geo_ok (ctx\<lparr>geo_tree := Some t\<rparr>)))"

definition ngx_http_geo_cidr :: "(bytes \<Rightarrow> 64 word option) \<Rightarrow> nat \<Rightarrow> nat \<Rightarrow> bytes \<times> bytes \<Rightarrow> geo_ctx \<Rightarrow> geo_result" where
  "ngx_http_geo_cidr geo_value ngx_pagesize pages value ctx =
    (case (geo_create ngx_pagesize pages (geo_tree ctx), geo_create ngx_pagesize pages (geo_tree6 ctx)) of
       (Some (Some t), Some (Some t6)) \<Rightarrow>
         (let ctx = \<lparr>geo_tree = Some t, geo_tree6 = Some t6\<rparr> in
          if fst value = ascii ''default'' then
            (case ngx_http_geo_cidr_add geo_value ngx_pagesize ctx (Cidr_in 0 0) (snd value) of
               Geo_ok ctx \<Rightarrow> ngx_http_geo_cidr_add geo_value ngx_pagesize ctx (Cidr_in6 (replicate 16 0) (replicate 16 0)) (snd value)
             | r \<Rightarrow> r)
          else
            (let del = (fst value = ascii ''delete'');
                 net = (if del then snd value else fst value)
             in case ngx_http_geo_cidr_value net of
                  None \<Rightarrow> Geo_error
                | Some cidr \<Rightarrow>
                    if del then geo_cidr_delete ctx (geo_host_order cidr)
                    else ngx_http_geo_cidr_add geo_value ngx_pagesize ctx (geo_host_order cidr) (snd value)))
     | (None, _) \<Rightarrow> Geo_fault
     | (Some (Some t), None) \<Rightarrow> Geo_fault
     | _ \<Rightarrow> Geo_error)"

text \<open>
  The lines of a block that are networks: \<open>include\<close>, \<open>proxy\<close> and the block of ranges are not among them.
  Then the end of \<open>ngx_http_geo_block\<close>: trees that are missing are made, and the null value is the default
  where there is none; \<open>ngx_http_variable_null_value\<close> is a pointer.
\<close>

fun geo_lines :: "(bytes \<Rightarrow> 64 word option) \<Rightarrow> nat \<Rightarrow> nat \<Rightarrow> (bytes \<times> bytes) list \<Rightarrow> geo_ctx \<Rightarrow> geo_result" where
  "geo_lines geo_value ngx_pagesize pages [] ctx = Geo_ok ctx"
| "geo_lines geo_value ngx_pagesize pages (value # lines) ctx =
    (case ngx_http_geo_cidr geo_value ngx_pagesize pages value ctx of
       Geo_ok ctx \<Rightarrow> geo_lines geo_value ngx_pagesize pages lines ctx
     | r \<Rightarrow> r)"

definition geo_finish :: "nat \<Rightarrow> nat \<Rightarrow> 64 word \<Rightarrow> geo_ctx \<Rightarrow> geo_result" where
  "geo_finish ngx_pagesize pages null_value ctx =
    (case (geo_create ngx_pagesize pages (geo_tree ctx), geo_create ngx_pagesize pages (geo_tree6 ctx)) of
       (Some (Some t), Some (Some t6)) \<Rightarrow>
         (case ngx_radix32tree_insert ngx_pagesize 0 0 null_value t of
            (rc, t) \<Rightarrow>
              if rc = NGX_ERROR then Geo_error
              else
                (case ngx_radix128tree_insert ngx_pagesize (replicate 16 0) (replicate 16 0) null_value t6 of
                   None \<Rightarrow> Geo_fault
                 | Some (rc, t6) \<Rightarrow> if rc = NGX_ERROR then Geo_error else Geo_ok \<lparr>geo_tree = Some t, geo_tree6 = Some t6\<rparr>))
     | (None, _) \<Rightarrow> Geo_fault
     | (Some (Some t), None) \<Rightarrow> Geo_fault
     | _ \<Rightarrow> Geo_error)"

definition geo_block :: "(bytes \<Rightarrow> 64 word option) \<Rightarrow> nat \<Rightarrow> nat \<Rightarrow> 64 word \<Rightarrow> (bytes \<times> bytes) list \<Rightarrow> geo_result" where
  "geo_block geo_value ngx_pagesize pages null_value lines =
    (case geo_lines geo_value ngx_pagesize pages lines \<lparr>geo_tree = None, geo_tree6 = None\<rparr> of
       Geo_ok ctx \<Rightarrow> geo_finish ngx_pagesize pages null_value ctx
     | r \<Rightarrow> r)"

section \<open>The variable\<close>

text \<open>
  \<open>ngx_http_geo_cidr_variable\<close>: the pointer to the value for the address of the client, \<open>None\<close> if
  \<open>ngx_http_geo_addr\<close> finds none; the address of 128 bits is followed in memory by \<open>sin6_scope_id\<close>.
\<close>

definition ngx_http_geo_cidr_variable :: "bytes \<Rightarrow> geo_ctx \<Rightarrow> sockaddr option \<Rightarrow> 64 word option" where
  "ngx_http_geo_cidr_variable scope_id ctx addr =
    (case (geo_tree ctx, geo_tree6 ctx) of
       (Some t, Some t6) \<Rightarrow>
         (case addr of
            None \<Rightarrow> Some (ngx_radix32tree_find t INADDR_NONE)
          | Some (SA_inet6 p port) \<Rightarrow>
              if v4_mapped p then Some (ngx_radix32tree_find t (mapped_addr p))
              else ngx_radix128tree_find t6 (p @ scope_id)
          | Some (SA_inet p port) \<Rightarrow> Some (ngx_radix32tree_find t (htonl (bytes_word p)))
          | Some sa \<Rightarrow> None)
     | _ \<Rightarrow> None)"

end
