(* ===== verification/Geo_Correct.thy ===== *)
theory Geo_Correct
  imports Inet_Correct Http_Geo
begin

text \<open>
A geo variable against the table of networks its lines write down: the longest prefix wins. With enough
  memory blocks of proper networks are accepted.
\<close>

section \<open>The tables of a configuration\<close>

text \<open>The values of networks, for the two families, as the lines of a block change them.\<close>

type_synonym geo_tables = "(bool list \<Rightarrow> 64 word option) \<times> (bool list \<Rightarrow> 64 word option)"

definition geo_put :: "cidr \<Rightarrow> 64 word option \<Rightarrow> geo_tables \<Rightarrow> geo_tables" where
  "geo_put c v tabs =
    (case c of Cidr_in a m \<Rightarrow> ((fst tabs)(cidr_prefix c := v), snd tabs) | Cidr_in6 a m \<Rightarrow> (fst tabs, (snd tabs)(cidr_prefix c := v)))"

definition geo_line :: "(bytes \<Rightarrow> 64 word option) \<Rightarrow> bytes \<times> bytes \<Rightarrow> geo_tables \<Rightarrow> geo_tables" where
  "geo_line geo_value line tabs =
    (if fst line = ascii ''default'' then ((fst tabs)([] := geo_value (snd line)), (snd tabs)([] := geo_value (snd line)))
     else if fst line = ascii ''delete'' then geo_put (the (ngx_http_geo_cidr_value (snd line))) None tabs
     else geo_put (the (ngx_http_geo_cidr_value (fst line))) (geo_value (snd line)) tabs)"

text \<open>The null value is the default where there is none.\<close>

definition geo_default :: "64 word \<Rightarrow> (bool list \<Rightarrow> 64 word option) \<Rightarrow> bool list \<Rightarrow> 64 word option" where
  "geo_default v m = (if m [] = None then m([] \<mapsto> v) else m)"

definition geo_tables_of :: "(bytes \<Rightarrow> 64 word option) \<Rightarrow> 64 word \<Rightarrow> (bytes \<times> bytes) list \<Rightarrow> geo_tables" where
  "geo_tables_of geo_value null_value lines =
    (let tabs = fold (geo_line geo_value) lines (Map.empty, Map.empty)
     in (geo_default null_value (fst tabs), geo_default null_value (snd tabs)))"

section \<open>The trees hold the tables\<close>

definition tree_holds :: "(radix_tree \<Rightarrow> bool) \<Rightarrow> radix_tree option \<Rightarrow> (bool list \<Rightarrow> 64 word option) \<Rightarrow> bool" where
  "tree_holds ok t m \<longleftrightarrow> (case t of None \<Rightarrow> m = Map.empty | Some t \<Rightarrow> ok t \<and> radix_map (radix_root t) = m)"

definition geo_holds :: "geo_ctx \<Rightarrow> geo_tables \<Rightarrow> bool" where
  "geo_holds ctx tabs \<longleftrightarrow> tree_holds radix32_ok (geo_tree ctx) (fst tabs) \<and> tree_holds radix128_ok (geo_tree6 ctx) (snd tabs)"

lemma create_holds:
  assumes "geo_create ps pages t = Some (Some t')"
  shows "tree_holds radix32_ok t m \<Longrightarrow> tree_holds radix32_ok (Some t') m" "tree_holds radix128_ok t m \<Longrightarrow> tree_holds radix128_ok (Some t') m"
proof -
  have "radix32_ok t' \<and> radix_map (radix_root t') = Map.empty" if "t = None"
    using assms tree_create_ok [of "-1" ps pages] that by (auto simp: geo_create_def)
  then show "tree_holds radix32_ok t m \<Longrightarrow> tree_holds radix32_ok (Some t') m" "tree_holds radix128_ok t m \<Longrightarrow> tree_holds radix128_ok (Some t') m"
    using assms radix32_128 by (cases t; auto simp: tree_holds_def geo_create_def)+
qed

lemma root_delete32:
  assumes root: "prefix_bits (bits32 key) (bits32 nm) = []" "radix_root t = RX RX_null v RX_null"
  shows "ngx_radix32tree_delete key nm t = None"
proof -
  have "nth_mask 32 AND nm = 0"
  proof -
    have "\<not> bit nm 31" using root(1) by (cases "bit nm 31") (simp_all add: bits_low numeral_eq_Suc)
    then show ?thesis using mask_and(1) [of 31 nm] by simp
  qed
  then show ?thesis using root(2) by (simp add: ngx_radix32tree_delete_def mask_first radix_delete_def)
qed

lemma root_delete128:
  assumes root: "length key = 16" "length nm = 16" "prefix_bits (bits128 key) (bits128 nm) = []" "radix_root t = RX RX_null v RX_null"
  shows "ngx_radix128tree_delete key nm t = None"
proof -
  obtain n p where w: "radix128_down key nm 0 0x80 (radix_root t) [] = Some (n, p)" "radix_plug n p = radix_root t"
    "if n = RX_null then radix_map (radix_root t) (ahead key nm 0) = None else path_bits p = ahead key nm 0"
    using down128 [OF at_bit_first root(1,2), of "radix_root t" "[]"]
    unfolding path_bits_simps(1) append_Nil radix_plug.simps(1) by blast
  have "\<not> bits128 nm ! 0"
  proof
    assume "bits128 nm ! 0"
    then have "ahead key nm 0 \<noteq> []" using ahead_step [of 0 key nm] root(1,2) by simp
    then show False using root(3) by simp
  qed
  then have "0x80 AND nm ! 0 = 0" using at_bit_test(1) [OF at_bit_first, of nm] root(2) by simp
  then show ?thesis using root by (simp add: ngx_radix128tree_delete_def radix_delete_def)
qed

lemma replace32_ok:
  assumes t: "radix32_ok t" and v: "v \<noteq> NGX_RADIX_NO_VALUE"
    and r: "geo_replace (ngx_radix32tree_insert ps key nm v t) (ngx_radix32tree_delete key nm t) (\<lambda>t. Some (ngx_radix32tree_insert ps key nm v t)) = Some (Some t')"
  shows "radix32_ok t' \<and> radix_map (radix_root t') = (radix_map (radix_root t))(prefix_bits (bits32 key) (bits32 nm) \<mapsto> v)"
proof -
  obtain rc t1 where i: "ngx_radix32tree_insert ps key nm v t = (rc, t1)" by (cases "ngx_radix32tree_insert ps key nm v t")
  show ?thesis
  proof (cases "rc = NGX_BUSY")
    case False
    then show ?thesis using insert32_ok [OF t, of ps key nm v] i r v by (auto simp: geo_replace_def NGX_BUSY_def)
  next
    case True
    then obtain rc1 t2 where d: "ngx_radix32tree_delete key nm t = Some (rc1, t2)"
      using r i by (auto simp: geo_replace_def NGX_BUSY_def split: option.splits)
    then have "\<not> (prefix_bits (bits32 key) (bits32 nm) = [] \<and> (\<exists>v. radix_root t = RX RX_null v RX_null))" using root_delete32 by fastforce
    from radix32.replace_ok [OF t _ _ v this, of ps rc t1] True i r show ?thesis
      by (auto simp: geo_replace_def NGX_BUSY_def split: if_splits)
  qed
qed

lemma replace128_ok:
  assumes t: "radix128_ok t" and k: "length key = 16" "length nm = 16" and v: "v \<noteq> NGX_RADIX_NO_VALUE"
    and i: "ngx_radix128tree_insert ps key nm v t = Some first"
    and r: "geo_replace first (ngx_radix128tree_delete key nm t) (ngx_radix128tree_insert ps key nm v) = Some (Some t')"
  shows "radix128_ok t' \<and> radix_map (radix_root t') = (radix_map (radix_root t))(prefix_bits (bits128 key) (bits128 nm) \<mapsto> v)"
proof -
  obtain rc t1 where f: "first = (rc, t1)" by (cases first)
  show ?thesis
  proof (cases "rc = NGX_BUSY")
    case False
    then show ?thesis using insert128_ok [OF t k, of ps v] i r v f by (auto simp: geo_replace_def NGX_BUSY_def)
  next
    case True
    then obtain rc1 t2 where d: "ngx_radix128tree_delete key nm t = Some (rc1, t2)"
      using r f by (auto simp: geo_replace_def NGX_BUSY_def split: option.splits)
    then have "\<not> (prefix_bits (bits128 key) (bits128 nm) = [] \<and> (\<exists>v. radix_root t = RX RX_null v RX_null))" using root_delete128 [OF k] by fastforce
    from radix128.replace_ok [OF t k v this, of ps rc t1] True i f r show ?thesis
      by (auto simp: geo_replace_def NGX_BUSY_def split: if_splits)
  qed
qed

lemma cidr_add_holds:
  assumes r: "ngx_http_geo_cidr_add gv ps ctx (geo_host_order c) w = Geo_ok ctx'" and h: "geo_holds ctx tabs"
    and c: "cidr_ok c" and v: "gv w \<noteq> Some NGX_RADIX_NO_VALUE"
  shows "geo_holds ctx' (geo_put c (gv w) tabs)"
proof -
  obtain val where val: "gv w = Some val" "val \<noteq> NGX_RADIX_NO_VALUE" using r v by (auto simp: ngx_http_geo_cidr_add_def split: option.splits)
  show ?thesis
  proof (cases c)
    case (Cidr_in a m)
    obtain t t' where t: "geo_tree ctx = Some t" "ctx' = ctx\<lparr>geo_tree := Some t'\<rparr>"
      "geo_replace (ngx_radix32tree_insert ps (htonl a) (htonl m) val t) (ngx_radix32tree_delete (htonl a) (htonl m) t)
         (\<lambda>t. Some (ngx_radix32tree_insert ps (htonl a) (htonl m) val t)) = Some (Some t')"
      using r val(1) by (auto simp: ngx_http_geo_cidr_add_def Cidr_in geo_host_order_def split: option.splits)
    have ok: "radix32_ok t" "radix_map (radix_root t) = fst tabs" using h t(1) by (simp_all add: geo_holds_def tree_holds_def)
    from replace32_ok [OF ok(1) val(2) t(3)] ok(2) h show ?thesis
      by (simp add: t(2) geo_holds_def tree_holds_def geo_put_def Cidr_in val(1) cidr_prefix_def)
  next
    case (Cidr_in6 a m)
    have len: "length a = 16" "length m = 16" using c by (simp_all add: cidr_ok_def Cidr_in6)
    obtain t t' first where t: "geo_tree6 ctx = Some t" "ctx' = ctx\<lparr>geo_tree6 := Some t'\<rparr>"
      "ngx_radix128tree_insert ps a m val t = Some first"
      "geo_replace first (ngx_radix128tree_delete a m t) (ngx_radix128tree_insert ps a m val) = Some (Some t')"
      using r val(1) by (auto simp: ngx_http_geo_cidr_add_def Cidr_in6 geo_host_order_def split: option.splits if_splits)
    have ok: "radix128_ok t" "radix_map (radix_root t) = snd tabs" using h t(1) by (simp_all add: geo_holds_def tree_holds_def)
    from replace128_ok [OF ok(1) len val(2) t(3,4)] ok(2) h show ?thesis
      by (simp add: t(2) geo_holds_def tree_holds_def geo_put_def Cidr_in6 val(1) cidr_prefix_def)
  qed
qed

lemma cidr_delete_holds:
  assumes r: "geo_cidr_delete ctx (geo_host_order c) = Geo_ok ctx'" and h: "geo_holds ctx tabs" and c: "cidr_ok c"
  shows "geo_holds ctx' (geo_put c None tabs)"
proof (cases c)
  case (Cidr_in a m)
  obtain t rc t' where t: "geo_tree ctx = Some t" "ngx_radix32tree_delete (htonl a) (htonl m) t = Some (rc, t')" "ctx' = ctx\<lparr>geo_tree := Some t'\<rparr>"
    using r by (auto simp: geo_cidr_delete_def Cidr_in geo_host_order_def bind_eq_Some_conv split: option.splits)
  have ok: "radix32_ok t" "radix_map (radix_root t) = fst tabs" using h t(1) by (simp_all add: geo_holds_def tree_holds_def)
  have "\<not> (prefix_bits (bits32 (htonl a)) (bits32 (htonl m)) = [] \<and> (\<exists>v. radix_root t = RX RX_null v RX_null))" using t(2) root_delete32 by fastforce
  from delete32_ok [OF ok(1) this] t(2) ok(2)
  have "radix32_ok t'" "radix_map (radix_root t') = (fst tabs)(prefix_bits (bits32 (htonl a)) (bits32 (htonl m)) := None)"
    by (auto simp: fun_upd_idem)
  then show ?thesis using h by (simp add: t(3) geo_holds_def tree_holds_def geo_put_def Cidr_in cidr_prefix_def)
next
  case (Cidr_in6 a m)
  have len: "length a = 16" "length m = 16" using c by (simp_all add: cidr_ok_def Cidr_in6)
  obtain t rc t' where t: "geo_tree6 ctx = Some t" "ngx_radix128tree_delete a m t = Some (rc, t')" "ctx' = ctx\<lparr>geo_tree6 := Some t'\<rparr>"
    using r by (auto simp: geo_cidr_delete_def Cidr_in6 geo_host_order_def bind_eq_Some_conv split: option.splits)
  have ok: "radix128_ok t" "radix_map (radix_root t) = snd tabs" using h t(1) by (simp_all add: geo_holds_def tree_holds_def)
  have "\<not> (prefix_bits (bits128 a) (bits128 m) = [] \<and> (\<exists>v. radix_root t = RX RX_null v RX_null))" using t(2) root_delete128 [OF len] by fastforce
  from delete128_ok [OF ok(1) len this] t(2) ok(2)
  have "radix128_ok t'" "radix_map (radix_root t') = (snd tabs)(prefix_bits (bits128 a) (bits128 m) := None)"
    by (auto simp: fun_upd_idem)
  then show ?thesis using h by (simp add: t(3) geo_holds_def tree_holds_def geo_put_def Cidr_in6 cidr_prefix_def)
qed

lemma geo_value_ok: "ngx_http_geo_cidr_value net = Some c \<Longrightarrow> cidr_ok c"
proof -
  assume c: "ngx_http_geo_cidr_value net = Some c"
  show ?thesis
  proof (cases "net = ascii ''255.255.255.255''")
    case True
    have "(0xffffffff :: 32 word) = 0xffffffff AND 0xffffffff" by simp
    from cidr_in_ok(1) [OF order_refl htonl_ones(1) this] show ?thesis using c True by (simp add: ngx_http_geo_cidr_value_def)
  next
    case False
    then obtain rc where "ngx_ptocidr net = Some (rc, c)" using c by (auto simp: ngx_http_geo_cidr_value_def)
    then show ?thesis using ptocidr_ok by blast
  qed
qed

lemma default_cidrs:
  "cidr_ok (Cidr_in 0 0)" "cidr_prefix (Cidr_in 0 0) = []" "geo_host_order (Cidr_in 0 0) = Cidr_in 0 0"
  "cidr_ok (Cidr_in6 (replicate 16 0) (replicate 16 0))" "cidr_prefix (Cidr_in6 (replicate 16 0) (replicate 16 0)) = []"
  "geo_host_order (Cidr_in6 (replicate 16 0) (replicate 16 0)) = Cidr_in6 (replicate 16 0) (replicate 16 0)"
proof -
  have "(0 :: 32 word) = 0 AND 0" by simp
  from cidr_in_ok [OF _ htonl_ones(2) this] show "cidr_ok (Cidr_in 0 0)" "cidr_prefix (Cidr_in 0 0) = []" by simp_all
  show "geo_host_order (Cidr_in 0 0) = Cidr_in 0 0" by (simp add: geo_host_order_def htonl_def)
  have "bits128 (replicate 16 0) = net_mask 0 128" by (simp add: bits128_ones net_mask_def)
  moreover have "replicate 16 0 = map2 (AND) (replicate 16 (0 :: u_char)) (replicate 16 0)" by (simp add: map2_map_map)
  ultimately show "cidr_ok (Cidr_in6 (replicate 16 0) (replicate 16 0))" "cidr_prefix (Cidr_in6 (replicate 16 0) (replicate 16 0)) = []"
    using cidr_in6_ok [of 0 "replicate 16 0" "replicate 16 0" "replicate 16 0"] by simp_all
qed (simp add: geo_host_order_def)

lemma line_holds:
  assumes r: "ngx_http_geo_cidr gv ps pages line ctx = Geo_ok ctx'" and h: "geo_holds ctx tabs"
    and v: "gv (snd line) \<noteq> Some NGX_RADIX_NO_VALUE"
  shows "geo_holds ctx' (geo_line gv line tabs)"
proof -
  obtain t t6 where c: "geo_create ps pages (geo_tree ctx) = Some (Some t)" "geo_create ps pages (geo_tree6 ctx) = Some (Some t6)"
    using r by (auto simp: ngx_http_geo_cidr_def split: option.splits)
  let ?ctx = "\<lparr>geo_tree = Some t, geo_tree6 = Some t6\<rparr>"
  have h1: "geo_holds ?ctx tabs" using h create_holds(1) [OF c(1)] create_holds(2) [OF c(2)] by (simp add: geo_holds_def)
  consider (def) "fst line = ascii ''default''" | (del) "fst line \<noteq> ascii ''default''" "fst line = ascii ''delete''"
    | (net) "fst line \<noteq> ascii ''default''" "fst line \<noteq> ascii ''delete''" by blast
  then show ?thesis
  proof cases
    case def
    then obtain ctx1 where a: "ngx_http_geo_cidr_add gv ps ?ctx (Cidr_in 0 0) (snd line) = Geo_ok ctx1"
      "ngx_http_geo_cidr_add gv ps ctx1 (Cidr_in6 (replicate 16 0) (replicate 16 0)) (snd line) = Geo_ok ctx'"
      using r c by (auto simp: ngx_http_geo_cidr_def Let_def split: geo_result.splits)
    have "geo_holds ctx1 (geo_put (Cidr_in 0 0) (gv (snd line)) tabs)"
      by (rule cidr_add_holds [where c = "Cidr_in 0 0" and ctx = ?ctx and w = "snd line" and gv = gv and ps = ps])
        (unfold default_cidrs(3), (rule a(1) h1 default_cidrs(1) v)+)
    then have "geo_holds ctx' (geo_put (Cidr_in6 (replicate 16 0) (replicate 16 0)) (gv (snd line)) (geo_put (Cidr_in 0 0) (gv (snd line)) tabs))"
      by (intro cidr_add_holds [where c = "Cidr_in6 (replicate 16 0) (replicate 16 0)" and ctx = ctx1 and w = "snd line" and gv = gv and ps = ps] default_cidrs(4) v)
        (unfold default_cidrs(6), rule a(2))
    then show ?thesis using def by (simp add: geo_line_def geo_put_def default_cidrs(2,5))
  next
    case del
    then obtain ci where ci: "ngx_http_geo_cidr_value (snd line) = Some ci" "geo_cidr_delete ?ctx (geo_host_order ci) = Geo_ok ctx'"
      using r c by (auto simp: ngx_http_geo_cidr_def Let_def split: option.splits)
    from cidr_delete_holds [OF ci(2) h1 geo_value_ok [OF ci(1)]] show ?thesis using del ci(1) by (simp add: geo_line_def)
  next
    case net
    then obtain ci where ci: "ngx_http_geo_cidr_value (fst line) = Some ci" "ngx_http_geo_cidr_add gv ps ?ctx (geo_host_order ci) (snd line) = Geo_ok ctx'"
      using r c by (auto simp: ngx_http_geo_cidr_def Let_def split: option.splits)
    from cidr_add_holds [OF ci(2) h1 geo_value_ok [OF ci(1)] v] show ?thesis using net ci(1) by (simp add: geo_line_def)
  qed
qed

lemma lines_hold:
  assumes "geo_lines gv ps pages lines ctx = Geo_ok ctx'" "geo_holds ctx tabs" "\<forall>line \<in> set lines. gv (snd line) \<noteq> Some NGX_RADIX_NO_VALUE"
  shows "geo_holds ctx' (fold (geo_line gv) lines tabs)"
  using assms
proof (induction lines arbitrary: ctx tabs)
  case (Cons line lines)
  then obtain ctx1 where "ngx_http_geo_cidr gv ps pages line ctx = Geo_ok ctx1" "geo_lines gv ps pages lines ctx1 = Geo_ok ctx'"
    by (auto split: geo_result.splits)
  then show ?case using line_holds [of gv ps pages line ctx ctx1 tabs] Cons by simp
qed simp

lemma zero_prefix: "prefix_bits (bits32 0) (bits32 0) = []" "prefix_bits (bits128 (replicate 16 0)) (bits128 (replicate 16 0)) = []"
proof -
  have "bits32 0 = replicate 32 False" by (simp add: bits32_def upt_32 replicate_numeral)
  then show "prefix_bits (bits32 0) (bits32 0) = []" by (simp add: prefix_bits_def replicate_numeral)
  show "prefix_bits (bits128 (replicate 16 0)) (bits128 (replicate 16 0)) = []" unfolding bits128_ones by (simp add: prefix_bits_def numeral_eq_Suc)
qed

lemma finish_holds:
  assumes r: "geo_finish ps pages nv ctx = Geo_ok ctx'" and h: "geo_holds ctx tabs" and nv: "nv \<noteq> NGX_RADIX_NO_VALUE"
  shows "geo_holds ctx' (geo_default nv (fst tabs), geo_default nv (snd tabs)) \<and> geo_tree ctx' \<noteq> None \<and> geo_tree6 ctx' \<noteq> None"
proof -
  obtain t t6 where c: "geo_create ps pages (geo_tree ctx) = Some (Some t)" "geo_create ps pages (geo_tree6 ctx) = Some (Some t6)"
    using r by (auto simp: geo_finish_def split: option.splits)
  have ok: "radix32_ok t" "radix_map (radix_root t) = fst tabs" "radix128_ok t6" "radix_map (radix_root t6) = snd tabs"
    using h create_holds(1) [OF c(1), of "fst tabs"] create_holds(2) [OF c(2), of "snd tabs"] by (simp_all add: geo_holds_def tree_holds_def)
  obtain rc t' where i: "ngx_radix32tree_insert ps 0 0 nv t = (rc, t')" by (cases "ngx_radix32tree_insert ps 0 0 nv t")
  obtain rc6 t6' where i6: "ngx_radix128tree_insert ps (replicate 16 0) (replicate 16 0) nv t6 = Some (rc6, t6')" "rc \<noteq> NGX_ERROR" "rc6 \<noteq> NGX_ERROR"
    "ctx' = \<lparr>geo_tree = Some t', geo_tree6 = Some t6'\<rparr>"
    using r c i by (auto simp: geo_finish_def split: if_splits option.splits)
  have "radix32_ok t' \<and> radix_map (radix_root t') = geo_default nv (fst tabs)"
    using insert32_ok [OF ok(1), of ps 0 0 nv] i i6(2) ok(2) nv by (auto simp: zero_prefix geo_default_def NGX_BUSY_def)
  moreover have "radix128_ok t6' \<and> radix_map (radix_root t6') = geo_default nv (snd tabs)"
    using insert128_ok [OF ok(3), of "replicate 16 0" "replicate 16 0" ps nv] i6 ok(4) nv by (auto simp: zero_prefix geo_default_def NGX_BUSY_def)
  ultimately show ?thesis using i6(4) by (simp add: geo_holds_def tree_holds_def)
qed

lemma longest_found:
  assumes "longest_match m ks v" "m [] \<noteq> None"
  shows "\<exists>n \<le> length ks. m (take n ks) = Some v \<and> (\<forall>j. n < j \<and> j \<le> length ks \<longrightarrow> m (take j ks) = None)"
  using assms unfolding longest_match_def by (metis le0 take_0)

text \<open>Which table and which bits are looked at for a client.\<close>

definition geo_client :: "geo_tables \<Rightarrow> sockaddr option \<Rightarrow> ((bool list \<Rightarrow> 64 word option) \<times> bool list) option" where
  "geo_client tabs sa =
    (case sa of
       None \<Rightarrow> Some (fst tabs, replicate 32 True)
     | Some (SA_inet p port) \<Rightarrow> Some (fst tabs, bits128 p)
     | Some (SA_inet6 p port) \<Rightarrow> Some (if v4_mapped p then (fst tabs, bits128 (drop 12 p)) else (snd tabs, bits128 p))
     | _ \<Rightarrow> None)"

text \<open>
  Claim C6: A geo variable has for each client the value of the most specific network that contains its
  address. When the lines of a block are accepted, the tables of networks are those the lines write down
  one after the other, a later line for the same network replacing an earlier one and \<open>delete\<close> removing
  it; then the lookup finds a value for every client, that of the longest prefix of its address in the
  table of its family, a mapped address being an IPv4 one.
\<close>
theorem geo_longest:
  assumes "geo_block gv ps pages nv lines = Geo_ok ctx"
    and "\<forall>line \<in> set lines. gv (snd line) \<noteq> Some NGX_RADIX_NO_VALUE" "nv \<noteq> NGX_RADIX_NO_VALUE"
    and "\<forall>sa'. sa = Some sa' \<longrightarrow> (\<exists>p port. sa' = SA_inet p port \<and> length p = 4 \<or> sa' = SA_inet6 p port \<and> length p = 16)" "scope_id \<noteq> []"
    and "geo_client (geo_tables_of gv nv lines) sa = Some (m, ks)"
  shows "\<exists>v n. ngx_http_geo_cidr_variable scope_id ctx sa = Some v \<and> n \<le> length ks \<and> m (take n ks) = Some v \<and>
    (\<forall>j. n < j \<and> j \<le> length ks \<longrightarrow> m (take j ks) = None)"
proof -
  obtain ctx1 where l: "geo_lines gv ps pages lines \<lparr>geo_tree = None, geo_tree6 = None\<rparr> = Geo_ok ctx1" "geo_finish ps pages nv ctx1 = Geo_ok ctx"
    using assms(1) by (auto simp: geo_block_def split: geo_result.splits)
  have "geo_holds ctx1 (fold (geo_line gv) lines (Map.empty, Map.empty))"
    by (rule lines_hold [OF l(1) _ assms(2)]) (simp add: geo_holds_def tree_holds_def)
  from finish_holds [OF l(2) this assms(3)] obtain t t6 where
    t: "geo_tree ctx = Some t" "geo_tree6 ctx = Some t6" "radix32_ok t" "radix128_ok t6"
    "radix_map (radix_root t) = fst (geo_tables_of gv nv lines)" "radix_map (radix_root t6) = snd (geo_tables_of gv nv lines)"
    by (auto simp: geo_holds_def tree_holds_def geo_tables_of_def Let_def)
  have d: "fst (geo_tables_of gv nv lines) [] \<noteq> None" "snd (geo_tables_of gv nv lines) [] \<noteq> None"
    by (auto simp: geo_tables_of_def geo_default_def Let_def)
  have f32: "\<exists>n \<le> length (bits32 a). m (take n (bits32 a)) = Some (ngx_radix32tree_find t a) \<and> (\<forall>j. n < j \<and> j \<le> length (bits32 a) \<longrightarrow> m (take j (bits32 a)) = None)"
    if "m = fst (geo_tables_of gv nv lines)" for a
    using longest_found [OF find32_ok [OF t(3), of a]] d(1) t(5) that by simp
  have f128: "\<exists>v. ngx_radix128tree_find t6 (p @ scope_id) = Some v \<and>
      (\<exists>n \<le> length (bits128 p). m (take n (bits128 p)) = Some v \<and> (\<forall>j. n < j \<and> j \<le> length (bits128 p) \<longrightarrow> m (take j (bits128 p)) = None))"
    if "m = snd (geo_tables_of gv nv lines)" "length p = 16" for p
  proof -
    have l: "17 \<le> length (p @ scope_id)" using that(2) assms(5) by (cases scope_id) simp_all
    have b: "take 128 (bits128 (p @ scope_id)) = bits128 p" using that(2) by (simp add: bits128_def) (simp flip: bits128_def add: that(2))
    from find128_ok [OF t(4) l] obtain v where "ngx_radix128tree_find t6 (p @ scope_id) = Some v" "longest_match (radix_map (radix_root t6)) (bits128 p) v"
      unfolding b by blast
    then show ?thesis using longest_found [of "snd (geo_tables_of gv nv lines)" "bits128 p" v] d(2) t(6) that(1) by (intro exI [of _ v]) simp
  qed
  have none: "bits32 INADDR_NONE = replicate 32 True" using bits32_mask [of 32] by (simp add: net_mask_def)
  show ?thesis
  proof (cases sa)
    case None
    then have "m = fst (geo_tables_of gv nv lines)" "ks = bits32 INADDR_NONE" using assms(6) none by (simp_all add: geo_client_def)
    then show ?thesis using f32 [of INADDR_NONE] None t(1,2) by (auto simp: ngx_http_geo_cidr_variable_def)
  next
    case (Some sa')
    then consider (v4) p port where "sa' = SA_inet p port" "length p = 4" | (v6) p port where "sa' = SA_inet6 p port" "length p = 16" using assms(4) by blast
    then show ?thesis
    proof cases
      case v4
      then have "m = fst (geo_tables_of gv nv lines)" "ks = bits32 (htonl (bytes_word p))" using assms(6) Some by (simp_all add: geo_client_def bits_bytes_word)
      then show ?thesis using f32 [of "htonl (bytes_word p)"] Some v4 t(1,2) by (auto simp: ngx_http_geo_cidr_variable_def)
    next
      case v6
      show ?thesis
      proof (cases "v4_mapped p")
        case True
        then have "m = fst (geo_tables_of gv nv lines)" "ks = bits32 (mapped_addr p)" using assms(6) Some v6 by (simp_all add: geo_client_def mapped_bits)
        then show ?thesis using f32 [of "mapped_addr p"] Some v6 True t(1,2) by (auto simp: ngx_http_geo_cidr_variable_def)
      next
        case False
        then have "m = snd (geo_tables_of gv nv lines)" "ks = bits128 p" using assms(6) Some v6 by (simp_all add: geo_client_def)
        then show ?thesis using f128 [of p] Some v6 False t(1,2) by (auto simp: ngx_http_geo_cidr_variable_def)
      qed
    qed
  qed
qed

section \<open>Blocks that are accepted\<close>

text \<open>
  With enough memory a block is accepted if its lines give values to proper networks: \<open>delete\<close> aside, and
  the networks of no bits aside, which a deletion of the lone root would have.
\<close>

definition geo_room :: "geo_ctx \<Rightarrow> nat \<Rightarrow> bool" where
  "geo_room ctx n \<longleftrightarrow> (\<forall>t. geo_tree ctx = Some t \<or> geo_tree6 ctx = Some t \<longrightarrow> n < radix_pool t)"

lemma create_room:
  assumes "\<And>t'. t = Some t' \<Longrightarrow> n < radix_pool t'" "create_pages + n < pages"
  shows "\<exists>t'. geo_create ps pages t = Some (Some t') \<and> n < radix_pool t'"
proof (cases t)
  case None
  from tree_create_ok [of "-1" ps pages] obtain t' where "ngx_radix_tree_create ps pages (-1) = Some (Some t')" "pages \<le> radix_pool t' + create_pages"
    using assms(2) by auto
  then show ?thesis using assms(2) None by (auto simp: geo_create_def)
next
  case (Some t')
  then show ?thesis using assms(1) by (simp add: geo_create_def)
qed

lemma cidr_add_accepts:
  assumes h: "geo_holds ctx tabs" and t: "geo_tree ctx = Some t" "geo_tree6 ctx = Some t6" and room: "geo_room ctx (n + 128)"
    and c: "cidr_ok c" "cidr_prefix c \<noteq> []" and v: "gv w = Some v" "v \<noteq> NGX_RADIX_NO_VALUE"
  shows "\<exists>ctx'. ngx_http_geo_cidr_add gv ps ctx (geo_host_order c) w = Geo_ok ctx' \<and> geo_room ctx' n"
proof -
  have ok: "radix32_ok t" "radix128_ok t6" using h t by (simp_all add: geo_holds_def tree_holds_def)
  have p: "n + 128 < radix_pool t" "n + 128 < radix_pool t6" using room t by (simp_all add: geo_room_def)
  show ?thesis
  proof (cases c)
    case (Cidr_in a m)
    have ks: "prefix_bits (bits32 (htonl a)) (bits32 (htonl m)) \<noteq> []" using c(2) by (simp add: Cidr_in cidr_prefix_def)
    have l: "length (prefix_bits (bits32 (htonl a)) (bits32 (htonl m))) \<le> 32" using length_prefix [of "bits32 (htonl a)"] by simp
    then have "length (prefix_bits (bits32 (htonl a)) (bits32 (htonl m))) < radix_pool t" using p(1) by simp
    from radix32.replace_accepts [OF ok(1) TrueI TrueI v(2) _ this, of ps] ks obtain rc t' t2 where r:
      "ngx_radix32tree_insert ps (htonl a) (htonl m) v t = (rc, t')"
      "radix_pool t \<le> radix_pool t2 + length (prefix_bits (bits32 (htonl a)) (bits32 (htonl m)))"
      "rc = NGX_OK \<and> t2 = t' \<or> rc = NGX_BUSY \<and>
        (\<exists>t1. ngx_radix32tree_delete (htonl a) (htonl m) t = Some (NGX_OK, t1) \<and> ngx_radix32tree_insert ps (htonl a) (htonl m) v t1 = (NGX_OK, t2))"
      unfolding option.inject by blast
    have "n < radix_pool t2" using r(2) l p(1) by linarith
    moreover have "geo_replace (ngx_radix32tree_insert ps (htonl a) (htonl m) v t) (ngx_radix32tree_delete (htonl a) (htonl m) t)
        (\<lambda>t. Some (ngx_radix32tree_insert ps (htonl a) (htonl m) v t)) = Some (Some t2)"
      using r(1,3) by (auto simp: geo_replace_def NGX_BUSY_def)
    ultimately show ?thesis using t v(1) p(2) by (auto simp: ngx_http_geo_cidr_add_def Cidr_in geo_host_order_def geo_room_def)
  next
    case (Cidr_in6 a m)
    have len: "length a = 16" "length m = 16" using c by (simp_all add: cidr_ok_def Cidr_in6)
    have ks: "prefix_bits (bits128 a) (bits128 m) \<noteq> []" using c(2) by (simp add: Cidr_in6 cidr_prefix_def)
    have l: "length (prefix_bits (bits128 a) (bits128 m)) \<le> 128" using length_prefix [of "bits128 a"] len by simp
    then have "length (prefix_bits (bits128 a) (bits128 m)) < radix_pool t6" using p(2) by simp
    from radix128.replace_accepts [OF ok(2) len v(2) _ this, of ps] ks obtain rc t' t2 where r:
      "ngx_radix128tree_insert ps a m v t6 = Some (rc, t')" "radix_pool t6 \<le> radix_pool t2 + length (prefix_bits (bits128 a) (bits128 m))"
      "rc = NGX_OK \<and> t2 = t' \<or> rc = NGX_BUSY \<and>
        (\<exists>t1. ngx_radix128tree_delete a m t6 = Some (NGX_OK, t1) \<and> ngx_radix128tree_insert ps a m v t1 = Some (NGX_OK, t2))"
      by blast
    have "n < radix_pool t2" using r(2) l p(2) by linarith
    moreover have "ngx_radix128tree_find t6 (a @ m) \<noteq> None" using find128_ok [OF ok(2), of "a @ m"] len by auto
    moreover have "geo_replace (rc, t') (ngx_radix128tree_delete a m t6) (ngx_radix128tree_insert ps a m v) = Some (Some t2)"
      using r(3) by (auto simp: geo_replace_def NGX_BUSY_def)
    ultimately show ?thesis using t v(1) r(1) p(1) by (auto simp: ngx_http_geo_cidr_add_def Cidr_in6 geo_host_order_def geo_room_def)
  qed
qed

definition geo_good :: "(bytes \<Rightarrow> 64 word option) \<Rightarrow> bytes \<times> bytes \<Rightarrow> bool" where
  "geo_good gv line \<longleftrightarrow> fst line \<noteq> ascii ''default'' \<and> fst line \<noteq> ascii ''delete'' \<and>
    (case ngx_http_geo_cidr_value (fst line) of None \<Rightarrow> False | Some c \<Rightarrow> cidr_prefix c \<noteq> []) \<and>
    (case gv (snd line) of None \<Rightarrow> False | Some v \<Rightarrow> v \<noteq> NGX_RADIX_NO_VALUE)"

lemma line_accepted:
  assumes h: "geo_holds ctx tabs" and room: "geo_room ctx (n + 128)" "create_pages + (n + 128) < pages" and good: "geo_good gv line"
  shows "\<exists>ctx'. ngx_http_geo_cidr gv ps pages line ctx = Geo_ok ctx' \<and> geo_room ctx' n"
proof -
  obtain t t6 where c: "geo_create ps pages (geo_tree ctx) = Some (Some t)" "geo_create ps pages (geo_tree6 ctx) = Some (Some t6)"
    "n + 128 < radix_pool t" "n + 128 < radix_pool t6"
    using create_room [of "geo_tree ctx" "n + 128" pages ps] create_room [of "geo_tree6 ctx" "n + 128" pages ps] room by (auto simp: geo_room_def)
  let ?ctx = "\<lparr>geo_tree = Some t, geo_tree6 = Some t6\<rparr>"
  have h1: "geo_holds ?ctx tabs" using h create_holds(1) [OF c(1)] create_holds(2) [OF c(2)] by (simp add: geo_holds_def)
  have r1: "geo_room ?ctx (n + 128)" using c by (auto simp: geo_room_def)
  obtain ci v where ci: "ngx_http_geo_cidr_value (fst line) = Some ci" "cidr_prefix ci \<noteq> []" "gv (snd line) = Some v" "v \<noteq> NGX_RADIX_NO_VALUE"
    using good by (auto simp: geo_good_def split: option.splits)
  have "\<exists>ctx'. ngx_http_geo_cidr_add gv ps ?ctx (geo_host_order ci) (snd line) = Geo_ok ctx' \<and> geo_room ctx' n"
    by (rule cidr_add_accepts [where t = t and ?t6.0 = t6, OF h1 _ _ r1 geo_value_ok [OF ci(1)] ci(2) _ ci(4)]) (simp_all add: ci(3))
  then show ?thesis using good c(1,2) ci(1) by (simp add: ngx_http_geo_cidr_def Let_def geo_good_def)
qed

lemma lines_accepted:
  assumes "geo_holds ctx tabs" "geo_room ctx (n + 128 * length lines)" "create_pages + (n + 128 * length lines) < pages" "\<forall>line \<in> set lines. geo_good gv line"
  shows "\<exists>ctx'. geo_lines gv ps pages lines ctx = Geo_ok ctx' \<and> geo_room ctx' n"
  using assms
proof (induction lines arbitrary: ctx tabs)
  case (Cons line lines)
  have a: "n + 128 * length (line # lines) = n + 128 * length lines + 128" by simp
  have good: "geo_good gv line" "gv (snd line) \<noteq> Some NGX_RADIX_NO_VALUE" using Cons.prems(4) by (auto simp: geo_good_def split: option.splits)
  from line_accepted [OF Cons.prems(1) Cons.prems(2) [unfolded a] Cons.prems(3) [unfolded a] good(1), of ps] obtain ctx1 where
    c: "ngx_http_geo_cidr gv ps pages line ctx = Geo_ok ctx1" "geo_room ctx1 (n + 128 * length lines)" by blast
  have "create_pages + (n + 128 * length lines) < pages" using Cons.prems(3) by simp
  from Cons.IH [OF line_holds [OF c(1) Cons.prems(1) good(2)] c(2) this] Cons.prems(4) show ?case using c(1) by simp
qed simp

lemma finish_accepts:
  assumes h: "geo_holds ctx tabs" and room: "geo_room ctx 0" "create_pages < pages" and nv: "nv \<noteq> NGX_RADIX_NO_VALUE"
  shows "\<exists>ctx'. geo_finish ps pages nv ctx = Geo_ok ctx'"
proof -
  obtain t t6 where c: "geo_create ps pages (geo_tree ctx) = Some (Some t)" "geo_create ps pages (geo_tree6 ctx) = Some (Some t6)"
    "0 < radix_pool t" "0 < radix_pool t6"
    using create_room [of "geo_tree ctx" 0 pages ps] create_room [of "geo_tree6 ctx" 0 pages ps] room by (auto simp: geo_room_def)
  have ok: "radix32_ok t" "radix128_ok t6"
    using h create_holds(1) [OF c(1), of "fst tabs"] create_holds(2) [OF c(2), of "snd tabs"] by (simp_all add: geo_holds_def tree_holds_def)
  obtain rc t' where "ngx_radix32tree_insert ps 0 0 nv t = (rc, t')" "rc \<noteq> NGX_ERROR"
    using insert32_ok [OF ok(1), of ps 0 0 nv] c(3) by (auto simp: zero_prefix NGX_BUSY_def)
  moreover obtain rc6 t6' where "ngx_radix128tree_insert ps (replicate 16 0) (replicate 16 0) nv t6 = Some (rc6, t6')" "rc6 \<noteq> NGX_ERROR"
    using insert128_ok [OF ok(2), of "replicate 16 0" "replicate 16 0" ps nv] c(4) by (auto simp: zero_prefix NGX_BUSY_def)
  ultimately show ?thesis using c(1,2) by (simp add: geo_finish_def)
qed

lemma geo_accepted:
  assumes "create_pages + 128 * length lines < pages" "\<forall>line \<in> set lines. geo_good gv line" "nv \<noteq> NGX_RADIX_NO_VALUE"
  shows "\<exists>ctx. geo_block gv ps pages nv lines = Geo_ok ctx"
proof -
  let ?ctx = "\<lparr>geo_tree = None, geo_tree6 = None\<rparr>"
  have h: "geo_holds ?ctx (Map.empty, Map.empty)" by (simp add: geo_holds_def tree_holds_def)
  have room: "geo_room ?ctx (0 + 128 * length lines)" by (simp add: geo_room_def)
  from lines_accepted [OF h room _ assms(2), of pages ps] assms(1) obtain ctx1 where
    l: "geo_lines gv ps pages lines ?ctx = Geo_ok ctx1" "geo_room ctx1 0" by auto
  have "geo_holds ctx1 (fold (geo_line gv) lines (Map.empty, Map.empty))"
    by (rule lines_hold [OF l(1) h]) (use assms(2) in \<open>auto simp: geo_good_def split: option.splits\<close>)
  from finish_accepts [OF this l(2) _ assms(3)] show ?thesis using l(1) assms(1) by (simp add: geo_block_def)
qed

lemma geo_longest_witness:
  "\<exists>ctx v n. geo_block (\<lambda>w. Some (of_nat (length w))) 4096 20000 33 [(ascii ''10.1.0.0/16'', ascii ''a''), (ascii ''2001:db8::/32'', ascii ''bb''), (ascii ''10.0.0.0/8'', ascii ''ccc'')] = Geo_ok ctx \<and>
     ngx_http_geo_cidr_variable [0] ctx (Some (SA_inet [10, 1, 2, 3] 80)) = Some v \<and> n \<le> 32 \<and>
     fst (geo_tables_of (\<lambda>w. Some (of_nat (length w))) 33 [(ascii ''10.1.0.0/16'', ascii ''a''), (ascii ''2001:db8::/32'', ascii ''bb''), (ascii ''10.0.0.0/8'', ascii ''ccc'')])
       (take n (bits128 [10, 1, 2, 3])) = Some v"
proof -
  let ?lines = "[(ascii ''10.1.0.0/16'', ascii ''a''), (ascii ''2001:db8::/32'', ascii ''bb''), (ascii ''10.0.0.0/8'', ascii ''ccc'')]"
  let ?gv = "\<lambda>w :: bytes. Some (of_nat (length w) :: 64 word)"
  have "list_all (geo_good ?gv) ?lines" by code_simp
  then have good: "\<forall>line \<in> set ?lines. geo_good ?gv line" by (simp only: list_all_iff)
  obtain ctx where ctx: "geo_block ?gv 4096 20000 33 ?lines = Geo_ok ctx" using geo_accepted [of ?lines 20000 ?gv 33 4096] good by auto
  have "geo_client (geo_tables_of ?gv 33 ?lines) (Some (SA_inet [10, 1, 2, 3] 80)) = Some (fst (geo_tables_of ?gv 33 ?lines), bits128 [10, 1, 2, 3])"
    by (simp add: geo_client_def)
  from geo_longest [OF ctx _ _ _ _ this, of "[0]"] show ?thesis using ctx by (auto simp: bits128_def)
qed

end
