(* ===== verification/Spec2Isabelle.thy ===== *)
theory Spec2Isabelle
  imports Header_Line_Correct Status_Line_Correct Chunked_Correct Request_Uri_Correct
    Escape_Correct Http_Args_Correct Locations_Correct Numbers_Correct Http_Time_Correct Least_Conn_Correct
    Event_Timer_Correct Limit_Req_Correct Inet_Text_Correct Access_Correct Geo_Correct
begin

text \<open>
  A verification library for the nginx server (1.6.0) that JXPanel bundles under
  \<^verbatim>\<open>src/tools/nginx/src\<close>; file names below are relative to that directory. JXPanel configures
  nginx to serve the applications of its users, and everything that reaches them is read, normalised,
  routed, balanced and limited by the code modelled here.

  \<^bold>\<open>How the program works.\<close> A connection's bytes are parsed one at a time by state machines that may be
  left at the end of a buffer and entered again when more bytes have come
  (\<^verbatim>\<open>http/ngx_http_parse.c\<close>): the request line, then each header line, then the chunks of a body.
  The URI is brought into normal form and split into path and arguments
  (\<^verbatim>\<open>http/ngx_http_request.c\<close>); the path is looked up in the locations of the server
  (\<^verbatim>\<open>http/ngx_http.c\<close>, \<^verbatim>\<open>http/ngx_http_core_module.c\<close>). On its way the request may be delayed or
  refused by the limit of requests, whose zone is a red-black tree; the delay is a timer in the tree
  of event timers. The access rules of its location look at the address of the client, and geo variables
  take their value from the network it is in, found in a radix tree. A request that is passed on to an upstream gets a peer from one of three balancers.
  Strings, numbers, addresses, dates and escapes are read and written by \<^verbatim>\<open>core/ngx_string.c\<close>,
  \<^verbatim>\<open>core/ngx_parse.c\<close>, \<^verbatim>\<open>core/ngx_inet.c\<close>, \<^verbatim>\<open>core/ngx_times.c\<close> and \<^verbatim>\<open>http/ngx_http_parse_time.c\<close>.

  \<^bold>\<open>Conventions.\<close> A \<open>u_char\<close> is an 8-bit word, \<open>ngx_int_t\<close>, \<open>ngx_uint_t\<close>, \<open>size_t\<close> and times are 64-bit
  words read with \<open>sint\<close> or \<open>unat\<close>, other C integers have their own width: all arithmetic wraps around
  where that of the code does. A buffer is the list of its bytes and a pointer into it an offset; a
  counted string is the list of its bytes. An access outside of an object, through a null pointer or to
  a field that is not set, and a division by zero, is the outer \<open>None\<close> of an operation, so that a result
  \<open>Some\<close> says that there was none. Return codes are the integers of the code. The functions keep the
  names of the code; a \<open>switch\<close> over a state is one definition per case.

  \<^bold>\<open>Theories of the model\<close>, with what they translate:

  \<^item> \<open>Nginx_Prelude\<close>: types, characters, return codes and the shared lemmas on bytes, lists and words;
    \<open>Byte_Machine\<close>: the loop all incremental parsers share, and the locale \<open>byte_machine\<close> with what it
    gives every parser (invariants, totality, a buffer that arrives in pieces); \<open>Http_Common\<close>: what the
    parsers share.
  \<^item> \<open>Http_Request_Line\<close> (\<open>ngx_http_parse_request_line\<close>), \<open>Http_Header_Line\<close>
    (\<open>ngx_http_parse_header_line\<close> and the element its caller stores), \<open>Http_Status_Line\<close>
    (\<open>ngx_http_parse_status_line\<close>), \<open>Http_Chunked\<close> (\<open>ngx_http_parse_chunked\<close> and the filter of
    \<^verbatim>\<open>http/ngx_http_request_body.c\<close>): records of the request fields, a datatype of states, one
    definition per state.
  \<^item> \<open>Http_Complex_Uri\<close> (\<open>ngx_http_parse_complex_uri\<close>), \<open>Http_Uri\<close> (\<open>ngx_http_parse_uri\<close>,
    \<open>ngx_http_process_request_uri\<close>), \<open>Http_Args\<close> (\<open>ngx_http_arg\<close>, \<open>ngx_http_split_args\<close>,
    \<open>ngx_http_parse_multi_header_lines\<close>, \<open>ngx_http_parse_unsafe_uri\<close>).
  \<^item> \<open>Http_Locations\<close>: the queue of locations, its order and split, the tree of static locations and the
    lookup in it; \<open>Ngx_Sort\<close>: \<open>ngx_sort\<close> and \<open>ngx_queue_sort\<close> (\<^verbatim>\<open>core/ngx_queue.c\<close>), with the locale
    \<open>comparison\<close> of the functions they can be given.
  \<^item> \<open>Ngx_Compare\<close>, \<open>Ngx_Escape\<close>, \<open>Ngx_Sprintf\<close>, \<open>Ngx_Numbers\<close> (\<^verbatim>\<open>core/ngx_string.c\<close>,
    \<^verbatim>\<open>core/ngx_parse.c\<close>), \<open>Ngx_Time\<close> (\<^verbatim>\<open>core/ngx_times.c\<close>, \<^verbatim>\<open>http/ngx_http_parse_time.c\<close>).
  \<^item> \<open>Ngx_Rbtree\<close> (\<^verbatim>\<open>core/ngx_rbtree.c\<close>): a pointer to a node is the subtree and the path to the root;
    \<open>Ngx_Event_Timer\<close> (\<^verbatim>\<open>event/ngx_event_timer.c\<close>); \<open>Http_Limit_Req\<close>
    (\<^verbatim>\<open>http/modules/ngx_http_limit_req_module.c\<close>, \<open>ngx_crc32_short\<close>).
  \<^item> \<open>Ngx_Radix_Tree\<close> (\<^verbatim>\<open>core/ngx_radix_tree.c\<close>): the parent pointers of a node are the path to the root;
    \<open>Ngx_Inet\<close> (\<^verbatim>\<open>core/ngx_inet.c\<close>, addresses and networks as text); \<open>Http_Access\<close>
    (\<^verbatim>\<open>http/modules/ngx_http_access_module.c\<close>) and \<open>Http_Geo\<close> (\<^verbatim>\<open>http/modules/ngx_http_geo_module.c\<close>), which
    use them.
  \<^item> \<open>Upstream_Round_Robin\<close> (\<^verbatim>\<open>http/ngx_http_upstream_round_robin.c\<close>) and \<open>Upstream_Balancers\<close> (the
    modules \<^verbatim>\<open>ngx_http_upstream_ip_hash_module.c\<close>, \<^verbatim>\<open>ngx_http_upstream_least_conn_module.c\<close>).

  \<^bold>\<open>Theories of results\<close>, which carry the name of what they are about:

  \<^item> \<open>Request_Line_Correct\<close>, \<open>Header_Line_Correct\<close>, \<open>Status_Line_Correct\<close>, \<open>Chunked_Correct\<close>: every parser
    returns and stays in its buffer; what it accepts has the shape of the grammar and its pointers in
    order; a well-formed line reads back; the result does not depend on how the bytes are cut into
    buffers. The chunked filter refines a decoder that knows no buffers and keeps to the limit of the
    body.
  \<^item> \<open>Complex_Uri_Correct\<close>, \<open>Request_Uri_Correct\<close> and this theory: normalisation in one pass with a backward
    scan refines a reference in two passes, \<open>decode_path\<close> and \<open>resolve\<close>; the URI of every accepted
    request is the normal form of its bytes and has no dot segments. \<open>Http_Args_Correct\<close>: what the
    functions on arguments find.
  \<^item> \<open>Location_Tree_Correct\<close>, \<open>Locations_Correct\<close>: a lookup in the tree built from any list of locations
    finds what a search of all of them would.
  \<^item> \<open>Escape_Correct\<close>, \<open>Numbers_Correct\<close>, \<open>Calendar_Correct\<close>, \<open>Gmtime_Correct\<close>, \<open>Http_Time_Correct\<close>: round
    trips, room, values; dates are those of a calendar that counts days one by one.
  \<^item> \<open>Rbtree_Correct\<close>: insertion and deletion keep a tree red-black and in order; the locale
    \<open>ordered_nodes\<close> is what its users rely on, and \<open>Event_Timer_Correct\<close> and \<open>Limit_Req_Correct\<close> rest on
    its interpretation: no timer that is due is left, and the requests that pass are bounded by rate and
    burst.
  \<^item> \<open>Round_Robin_Correct\<close>, \<open>Least_Conn_Correct\<close>: a step relation of interleaved requests keeps the weights
    in order; the turns are fair; \<open>least_conn\<close> picks a least loaded peer.
  \<^item> \<open>Radix_Tree_Correct\<close>: a radix tree is a map from prefixes to values; the locale \<open>prefix_table\<close> is what
    its users rely on, interpreted on the trees of 32 and of 128 bits. \<open>Inet_Correct\<close>: networks as prefixes,
    and which texts name one; \<open>Inet_Text_Correct\<close>: printed addresses read back. \<open>Access_Correct\<close>: the first
    rule that matches decides; \<open>Geo_Correct\<close>: the longest prefix gives the value, and blocks of proper
    networks are accepted if there is memory (\<open>geo_accepted\<close>).

  \<^bold>\<open>Loops.\<close> Loops over data are structural or have a measure. Those whose end is a property of the code
  are \<open>partial_function (option)\<close>, whose value \<open>None\<close> is a loop that does not end: \<open>byte_loop\<close>, the loop
  of \<open>ngx_http_parse_complex_uri\<close>, that of the body filter \<open>ngx_event_expire_timers\<close> and the loop of \<open>ngx_radix_tree_create\<close>. That they end is
  part of \<open>request_line_total\<close>, \<open>header_line_ok\<close>, \<open>status_line_ok\<close>, \<open>chunked_filter_total\<close>,
  \<open>complex_uri_normalises\<close>, \<open>expire_timers_complete\<close> and \<open>tree_create_ok\<close>. No definition has fuel.

  \<^bold>\<open>Parameters.\<close> The slab allocator of a zone is an argument of the limit of requests, of which its
  properties assume that it gives out addresses that are not in use (\<open>slab_ok\<close>); the handler of an event
  is an argument of \<open>ngx_event_expire_timers\<close>; allocation failure and the result of a system call are
  boolean arguments where they change the flow. The peers of a host are an argument of the balancer.
  For a geo block \<open>geo_value\<close> gives a text the pointer of its value, \<open>pages\<close> is the memory its trees may
  take, and \<open>scope_id\<close> is what follows an IPv6 address in memory, of which a lookup reads one byte.

  \<^bold>\<open>Not modelled.\<close> The event loop and its kernel interfaces, processes, sockets, files and shared memory;
  raw memory (pools, slabs, chains of buffers), because the model has values in its place; logging;
  the configuration parser; the URLs of upstreams and the resolution of names; ranges, proxies and
  included files of geo blocks; TLS, SPDY, compression and regular expressions, which call other libraries;
  \<^verbatim>\<open>%f\<close> of formatted output; branches for Windows, threads and debugging. Of the modules of nginx only
  those named above are modelled. ProFTPD, which JXPanel bundles beside nginx, is not modelled, nor is
  the panel itself, which is JavaScript.
\<close>

section \<open>Properties across components\<close>

text \<open>
  Claim C15: From an accepted request line on, the URI of the request is always the reference
  normal form of the bytes received. \<open>ngx_http_process_request_uri\<close> never reads or writes out of
  bounds and no length it computes is negative; the request is refused with status 400 exactly
  when the bytes have no normal form; and whether the flags sent the URI through the complex
  parser or let it be used as it stands, \<open>r->uri\<close> is its normal form and \<open>r->args\<close> its arguments.
\<close>
theorem request_uri_normal:
  assumes "fresh_request r" and "buf_ok b" and "ngx_http_parse_request_line r b = Some (NGX_OK, r', b')"
  shows "let uri = cut (mem b) (the (uri_start r')) (the (uri_end r')) in
     case normal_uri merge uri of
       None \<Rightarrow> ngx_http_process_request_uri True merge (mem b) r' = Some (Inl 400)
     | Some v \<Rightarrow> \<exists>q. ngx_http_process_request_uri True merge (mem b) r' = Some (Inr q) \<and>
         ru_uri q = v \<and> ru_unparsed_uri q = uri \<and> ru_args q = uri_args uri"
  using request_uri_spec(1) [OF assms] by (simp add: Let_def)

text \<open>
  Claim C21: The path an accepted request is served under starts with a slash, holds no null byte,
  and has no dot or double dot, and with slashes merged no empty segment, but possibly as its
  last segment.
\<close>
theorem request_uri_contained:
  assumes "fresh_request r" and "buf_ok b" and "ngx_http_parse_request_line r b = Some (NGX_OK, r', b')"
    and "ngx_http_process_request_uri True merge (mem b) r' = Some (Inr q)"
  shows "\<exists>path. ru_uri q = c_slash # path \<and> c_NUL \<notin> set path \<and>
     list_all (\<lambda>s. s \<noteq> dot \<and> s \<noteq> dot_dot \<and> (merge \<longrightarrow> s \<noteq> [])) (butlast (split_slash path))"
proof -
  let ?uri = "cut (mem b) (the (uri_start r')) (the (uri_end r'))"
  note spec = request_uri_spec [OF assms(1-3)]
  have n: "normal_uri merge ?uri = Some (ru_uri q)" using spec(1) [of merge] assms(4) by (auto split: option.splits)
  from normal_uri_path [OF n] obtain path where
    "ru_uri q = c_slash # path" "list_all (\<lambda>s. s \<noteq> dot \<and> s \<noteq> dot_dot \<and> (merge \<longrightarrow> s \<noteq> [])) (butlast (split_slash path))" by blast
  moreover from this have "c_NUL \<notin> set path" using normal_uri_NUL [OF n] spec(2) by auto
  ultimately show ?thesis by blast
qed

theorem request_uri_normal_witness:
  "\<exists>q. ngx_http_process_request_uri True True (mem ex_get) ex_get_line = Some (Inr q) \<and>
     ru_uri q = ascii ''/A'' \<and> ru_args q = ascii ''x''"
proof -
  obtain b' where p: "ngx_http_parse_request_line request_line_init ex_get = Some (NGX_OK, ex_get_line, b')" using ex_get_parse by blast
  from request_uri_normal [OF ex_get_ok(2,1) p, of True] show ?thesis by (simp add: ex_get_uri ex_get_normal Let_def del: ascii_simps) blast
qed

theorem request_uri_contained_witness:
  "\<exists>q path. ngx_http_process_request_uri True True (mem ex_get) ex_get_line = Some (Inr q) \<and> ru_uri q = c_slash # path \<and>
     c_NUL \<notin> set path \<and> list_all (\<lambda>s. s \<noteq> dot \<and> s \<noteq> dot_dot \<and> s \<noteq> []) (butlast (split_slash path))"
proof -
  obtain b' where p: "ngx_http_parse_request_line request_line_init ex_get = Some (NGX_OK, ex_get_line, b')" using ex_get_parse by blast
  have "\<exists>q. ngx_http_process_request_uri True True (mem ex_get) ex_get_line = Some (Inr q)"
    using request_uri_spec(1) [OF ex_get_ok(2,1) p, of True] by (simp add: ex_get_uri ex_get_normal del: ascii_simps) blast
  then obtain q where q: "ngx_http_process_request_uri True True (mem ex_get) ex_get_line = Some (Inr q)" ..
  from request_uri_contained [OF ex_get_ok(2,1) p q] q show ?thesis by auto
qed

end
